(* ===== verification/Prelude.thy ===== *)
theory Prelude
  imports
    Main
    "HOL-Library.Word"
    "HOL-Library.Char_ord"
    "HOL-Library.List_Lexorder"
begin

text \<open>
  Shared vocabulary of the development.

  \<^item> Bytes are \<open>char\<close> values (\<open>unsigned char\<close> in the C code), byte strings are lists of
    them. A \<open>(pointer, length)\<close> pair of the source is such a list; a NUL-terminated
    \<open>const char *\<close> is what \<open>cstr\<close> leaves of the bytes it points to; a pointer that may be
    \<open>NULL\<close> is an \<open>option\<close>.
  \<^item> Errors are values: \<open>sb_fail\<close> of \<open>c/src/util.c\<close> builds one, and a function that returns
    \<open>-1\<close> or \<open>NULL\<close> after \<open>sb_fail\<close> returns the left summand of \<open>'a res\<close>.
  \<^item> Signed 64-bit quantities are \<open>int\<close> with the range \<open>in_i64\<close> kept as an invariant; the
    conversions that may wrap are written out (\<open>wrap_i64\<close>, \<open>wrap_u64\<close>).
\<close>

named_theorems byte_simps \<open>rewriting between bytes and their numeric values\<close>
named_theorems res_simps \<open>evaluation of computations that may fail\<close>

subsection \<open>Bytes\<close>

abbreviation byte :: "char \<Rightarrow> nat" where
  "byte c \<equiv> of_char c"

abbreviation of_byte :: "nat \<Rightarrow> char" where
  "of_byte n \<equiv> char_of n"

lemma byte_less_256 [simp]: "byte c < 256"
  using nat_of_char_less_256 [of c] by simp

lemma byte_le_255 [simp]: "byte c \<le> 255"
  using byte_less_256 [of c] by linarith

lemma byte_inject [byte_simps]: "byte c = byte d \<longleftrightarrow> c = d"
  by simp

lemma char_eq_byte: "c = d \<longleftrightarrow> byte c = byte d"
  by simp

lemma byte_of_byte [byte_simps]: "n < 256 \<Longrightarrow> byte (of_byte n) = n"
  by simp

lemma of_byte_inject: "m < 256 \<Longrightarrow> n < 256 \<Longrightarrow> of_byte m = of_byte n \<longleftrightarrow> m = n"
  by (metis byte_of_byte)

text \<open>The NUL-terminated view of a buffer: everything before the first NUL byte.\<close>

definition cstr :: "string \<Rightarrow> string" where
  "cstr s = takeWhile (\<lambda>c. c \<noteq> CHR 0x00) s"

definition nul_free :: "string \<Rightarrow> bool" where
  "nul_free s \<longleftrightarrow> CHR 0x00 \<notin> set s"

lemma cstr_nul_free [simp]: "nul_free (cstr s)"
  by (auto simp: cstr_def nul_free_def dest: set_takeWhileD)

lemma cstr_id [simp]: "nul_free s \<Longrightarrow> cstr s = s"
  unfolding cstr_def nul_free_def by (subst takeWhile_eq_all_conv) auto

lemma cstr_idem [simp]: "cstr (cstr s) = cstr s"
  by simp

lemma nul_free_simps [simp]:
  "nul_free []"
  "nul_free (c # s) \<longleftrightarrow> c \<noteq> CHR 0x00 \<and> nul_free s"
  "nul_free (s @ t) \<longleftrightarrow> nul_free s \<and> nul_free t"
  by (auto simp: nul_free_def)

subsection \<open>Character classes of the C locale\<close>

definition isspace :: "char \<Rightarrow> bool" where
  "isspace c \<longleftrightarrow> byte c = 32 \<or> (9 \<le> byte c \<and> byte c \<le> 13)"

definition isdigit :: "char \<Rightarrow> bool" where
  "isdigit c \<longleftrightarrow> 48 \<le> byte c \<and> byte c \<le> 57"

definition isupper :: "char \<Rightarrow> bool" where
  "isupper c \<longleftrightarrow> 65 \<le> byte c \<and> byte c \<le> 90"

definition islower :: "char \<Rightarrow> bool" where
  "islower c \<longleftrightarrow> 97 \<le> byte c \<and> byte c \<le> 122"

definition isalnum :: "char \<Rightarrow> bool" where
  "isalnum c \<longleftrightarrow> isdigit c \<or> isupper c \<or> islower c"

definition tolower :: "char \<Rightarrow> char" where
  "tolower c = (if isupper c then of_byte (byte c + 32) else c)"

lemmas ctype_defs = isspace_def isdigit_def isupper_def islower_def isalnum_def

subsection \<open>Errors and results\<close>

datatype sb_code =
    SB_OK | SB_ERR_GENERIC | SB_ERR_NOT_FOUND | SB_ERR_VALIDATION | SB_ERR_CONFLICT
  | SB_ERR_SCRIPT | SB_ERR_IO | SB_ERR_UPSTREAM | SB_ERR_AUTH | SB_ERR_FORBIDDEN
  | SB_ERR_UNAVAILABLE | SB_ERR_BAD_JSON

record sb_err =
  err_code :: sb_code
  err_msg :: string

type_synonym 'a res = "sb_err + 'a"

text \<open>\<open>vsnprintf\<close> into \<open>char msg[1024]\<close> keeps the first 1023 bytes.\<close>

definition sb_fail :: "sb_code \<Rightarrow> string \<Rightarrow> 'a res" where
  "sb_fail c m = Inl \<lparr>err_code = c, err_msg = take 1023 m\<rparr>"

lemma sb_fail_neq [simp]: "sb_fail c m \<noteq> Inr x" "Inr x \<noteq> sb_fail c m"
  by (simp_all add: sb_fail_def)

definition res_bind :: "'e + 'a \<Rightarrow> ('a \<Rightarrow> 'e + 'b) \<Rightarrow> 'e + 'b" where
  "res_bind m f = (case m of Inl e \<Rightarrow> Inl e | Inr x \<Rightarrow> f x)"

lemma res_bind_simps [simp, res_simps]:
  "res_bind (Inl e) f = Inl e"
  "res_bind (Inr x) f = f x"
  "res_bind (sb_fail c m) g = sb_fail c m"
  by (simp_all add: res_bind_def sb_fail_def)

lemma res_bind_eq_Inr: "res_bind m f = Inr y \<longleftrightarrow> (\<exists>x. m = Inr x \<and> f x = Inr y)"
  by (cases m) auto

lemma res_bind_InrE [elim!]:
  assumes "res_bind m f = Inr y"
  obtains x where "m = Inr x" and "f x = Inr y"
  using assms by (auto simp: res_bind_eq_Inr)

subsection \<open>Machine integers\<close>

definition in_i64 :: "int \<Rightarrow> bool" where
  "in_i64 i \<longleftrightarrow> - (2 ^ 63) \<le> i \<and> i < 2 ^ 63"

definition wrap_i64 :: "int \<Rightarrow> int" where
  "wrap_i64 i = (i + 2 ^ 63) mod 2 ^ 64 - 2 ^ 63"

definition wrap_u64 :: "int \<Rightarrow> int" where
  "wrap_u64 i = i mod 2 ^ 64"

definition wrap_i32 :: "int \<Rightarrow> int" where
  "wrap_i32 i = (i + 2 ^ 31) mod 2 ^ 32 - 2 ^ 31"

lemma wrap_i64_range [simp]: "in_i64 (wrap_i64 i)"
proof -
  have "0 \<le> (i + 2 ^ 63) mod 2 ^ 64" and "(i + 2 ^ 63) mod 2 ^ 64 < (2 ^ 64 :: int)"
    by simp_all
  then show ?thesis by (simp add: in_i64_def wrap_i64_def)
qed

lemma wrap_i64_id: "in_i64 i \<Longrightarrow> wrap_i64 i = i"
  by (simp add: in_i64_def wrap_i64_def)

subsection \<open>Lists\<close>

lemma takeWhile_append_stop:
  "(\<forall>x\<in>set xs. P x) \<Longrightarrow> (ys = [] \<or> \<not> P (hd ys)) \<Longrightarrow> takeWhile P (xs @ ys) = xs"
  by (induction xs) (cases ys, auto)+

lemma dropWhile_append_stop:
  "(\<forall>x\<in>set xs. P x) \<Longrightarrow> (ys = [] \<or> \<not> P (hd ys)) \<Longrightarrow> dropWhile P (xs @ ys) = ys"
  by (induction xs) (cases ys, auto)+

lemma takeWhile_stop: "(ys = [] \<or> \<not> P (hd ys)) \<Longrightarrow> takeWhile P ys = []"
  by (cases ys) auto

text \<open>Induction over a list in groups of four, for the base64 quads.\<close>

lemma list4_induct [case_names Nil One Two Three More]:
  assumes "P []"
    and "\<And>a. P [a]"
    and "\<And>a b. P [a, b]"
    and "\<And>a b c. P [a, b, c]"
    and "\<And>a b c d xs. P xs \<Longrightarrow> P (a # b # c # d # xs)"
  shows "P xs"
proof (induction xs rule: length_induct)
  case (1 xs)
  then have IH: "\<And>ys. length ys < length xs \<Longrightarrow> P ys" by blast
  show ?case
  proof (cases "length xs < 4")
    case True
    then show ?thesis
      using assms by (auto simp: less_Suc_eq numeral_eq_Suc length_Suc_conv)
  next
    case False
    then obtain a b c d ys where "xs = a # b # c # d # ys"
      by (auto simp: not_less numeral_eq_Suc Suc_le_length_iff)
    with IH assms(5) show ?thesis by simp
  qed
qed

subsection \<open>Codecs\<close>

text \<open>What was encoded is decoded again; in a canonical codec nothing else decodes.\<close>

locale codec =
  fixes enc :: "'a \<Rightarrow> string"
    and dec :: "string \<Rightarrow> 'a option"
    and valid :: "'a \<Rightarrow> bool"
  assumes dec_enc: "valid x \<Longrightarrow> dec (enc x) = Some x"
begin

lemma enc_inj: "valid x \<Longrightarrow> valid y \<Longrightarrow> enc x = enc y \<Longrightarrow> x = y"
  by (metis dec_enc option.inject)

lemma inj_on_enc: "inj_on enc {x. valid x}"
  by (auto intro: inj_onI enc_inj)

end

locale canonical_codec = codec +
  assumes dec_canonical: "dec t = Some x \<Longrightarrow> valid x \<and> enc x = t"
begin

lemma dec_iff: "dec t = Some x \<longleftrightarrow> valid x \<and> enc x = t"
  using dec_enc dec_canonical by blast

lemma dec_inj: "dec s = Some x \<Longrightarrow> dec t = Some x \<Longrightarrow> s = t"
  using dec_canonical by blast

end

end
