(* ===== verification/Util_Strings.thy ===== *)
theory Util_Strings
  imports Prelude
begin

text \<open>
  The string section of \<open>c/src/util.c\<close>: comparison, trimming, the string vector with
  splitting and joining, path helpers and the decimal printing that \<open>printf\<close> supplies to the
  other components. A \<open>const char *\<close> argument is its contents up to the terminating NUL, and
  \<open>None\<close> where it may be \<open>NULL\<close>.
\<close>

subsection \<open>Comparison\<close>

definition sb_strn_eq :: "string option \<Rightarrow> string option \<Rightarrow> bool" where
  "sb_strn_eq a literal =
     (case a of
        None \<Rightarrow> False
      | Some x \<Rightarrow> (case literal of
          None \<Rightarrow> False
        | Some y \<Rightarrow> length x = length y \<and> x = y))"

definition sb_streq :: "string option \<Rightarrow> string option \<Rightarrow> bool" where
  "sb_streq a b =
     (case (a, b) of
        (Some x, Some y) \<Rightarrow> x = y
      | _ \<Rightarrow> a = None \<and> b = None)"

definition sb_starts_with :: "string option \<Rightarrow> string option \<Rightarrow> bool" where
  "sb_starts_with s p =
     (case (s, p) of
        (Some x, Some y) \<Rightarrow> take (length y) x = y
      | _ \<Rightarrow> False)"

definition sb_ends_with :: "string option \<Rightarrow> string option \<Rightarrow> bool" where
  "sb_ends_with s p =
     (case (s, p) of
        (Some x, Some y) \<Rightarrow>
          length y \<le> length x \<and> drop (length x - length y) x = y
      | _ \<Rightarrow> False)"

definition sb_str_empty :: "string option \<Rightarrow> bool" where
  "sb_str_empty s = (case s of None \<Rightarrow> True | Some x \<Rightarrow> x = [])"

subsection \<open>Trimming and case folding\<close>

text \<open>The two loops of \<open>sb_trim_dup\<close>: advance over leading blanks, then shorten the tail.\<close>

fun trim_tail :: "string \<Rightarrow> nat \<Rightarrow> nat" where
  "trim_tail s 0 = 0"
| "trim_tail s (Suc n) = (if isspace (s ! n) then trim_tail s n else Suc n)"

definition sb_trim_dup :: "string option \<Rightarrow> string" where
  "sb_trim_dup s =
     (case s of
        None \<Rightarrow> []
      | Some x \<Rightarrow> (let y = dropWhile isspace x in take (trim_tail y (length y)) y))"

definition sb_lower_dup :: "string option \<Rightarrow> string" where
  "sb_lower_dup s = map tolower (case s of None \<Rightarrow> [] | Some x \<Rightarrow> x)"

subsection \<open>String vectors\<close>

definition sb_strvec_push :: "string list \<Rightarrow> string option \<Rightarrow> string list" where
  "sb_strvec_push v s = v @ [case s of None \<Rightarrow> [] | Some x \<Rightarrow> x]"

definition sb_strvec_contains :: "string list \<Rightarrow> string option \<Rightarrow> bool" where
  "sb_strvec_contains v s = list_ex (\<lambda>x. sb_streq (Some x) s) v"

text \<open>\<open>split_loop d field rest\<close>: the \<open>for\<close> loop of \<open>sb_split\<close>, with the bytes since
  \<open>start\<close> in \<open>field\<close>.\<close>

fun split_loop :: "char \<Rightarrow> string \<Rightarrow> string \<Rightarrow> string list" where
  "split_loop d field [] = [field]"
| "split_loop d field (c # cs) =
     (if c = d then field # split_loop d [] cs else split_loop d (field @ [c]) cs)"

definition sb_split :: "string option \<Rightarrow> char \<Rightarrow> string list" where
  "sb_split s d = (case s of None \<Rightarrow> [] | Some x \<Rightarrow> split_loop d [] x)"

fun sb_join :: "string list \<Rightarrow> string \<Rightarrow> string" where
  "sb_join [] sep = []"
| "sb_join [x] sep = x"
| "sb_join (x # y # xs) sep = x @ sep @ sb_join (y # xs) sep"

subsection \<open>Paths\<close>

definition sb_path_join :: "string option \<Rightarrow> string option \<Rightarrow> string" where
  "sb_path_join a b =
     (let b' = (case b of None \<Rightarrow> [] | Some y \<Rightarrow> y) in
      if sb_str_empty a then b'
      else if b' \<noteq> [] \<and> hd b' = CHR ''/'' then b'
      else the a @ (if sb_ends_with a (Some ''/'') then [] else ''/'') @ b')"

text \<open>\<open>strrchr\<close>: the text before the last occurrence of a byte, if there is one.\<close>

definition before_last :: "char \<Rightarrow> string \<Rightarrow> string option" where
  "before_last c s =
     (if c \<in> set s then Some (rev (tl (dropWhile (\<lambda>x. x \<noteq> c) (rev s)))) else None)"

definition sb_dirname_dup :: "string option \<Rightarrow> string" where
  "sb_dirname_dup path =
     (case path of
        None \<Rightarrow> ''.''
      | Some p \<Rightarrow> (case before_last (CHR ''/'') p of
          None \<Rightarrow> ''.''
        | Some d \<Rightarrow> (if d = [] then ''/'' else d)))"

subsection \<open>Decimal printing\<close>

text \<open>\<open>%llu\<close>, \<open>%zu\<close> and \<open>%lld\<close> of \<open>printf\<close>.\<close>

fun show_nat :: "nat \<Rightarrow> string" where
  "show_nat n =
     (if n < 10 then [of_byte (48 + n)] else show_nat (n div 10) @ [of_byte (48 + n mod 10)])"

declare show_nat.simps [simp del]

definition show_int :: "int \<Rightarrow> string" where
  "show_int i = (if i < 0 then CHR ''-'' # show_nat (nat (- i)) else show_nat (nat i))"

text \<open>The value of a run of decimal digits, most significant first.\<close>

definition digit_val :: "char \<Rightarrow> nat" where
  "digit_val c = byte c - 48"

definition digits_val :: "string \<Rightarrow> nat" where
  "digits_val s = foldl (\<lambda>n c. 10 * n + digit_val c) 0 s"

subsection \<open>Facts\<close>

lemma sb_streq_iff: "sb_streq a b \<longleftrightarrow> a = b"
  by (auto simp: sb_streq_def split: option.splits)

lemma sb_strn_eq_iff [simp]: "sb_strn_eq (Some x) (Some y) \<longleftrightarrow> x = y"
  by (auto simp: sb_strn_eq_def)

lemma sb_strvec_contains_iff: "sb_strvec_contains v (Some s) \<longleftrightarrow> s \<in> set v"
  by (auto simp: sb_strvec_contains_def list_ex_iff sb_streq_iff)

lemma isdigit_of_byte [simp]: "d < 10 \<Longrightarrow> isdigit (of_byte (48 + d))"
  by (simp add: isdigit_def)

lemma digit_val_of_byte [simp]: "d < 10 \<Longrightarrow> digit_val (of_byte (48 + d)) = d"
  by (simp add: digit_val_def)

lemma show_nat_digits: "c \<in> set (show_nat n) \<Longrightarrow> isdigit c"
proof (induction n rule: show_nat.induct)
  case (1 n)
  then show ?case
    by (cases "n < 10") (auto simp: show_nat.simps [of n])
qed

lemma show_nat_nonempty [simp]: "show_nat n \<noteq> []"
  by (subst show_nat.simps) simp

lemma digits_val_snoc: "digits_val (s @ [c]) = 10 * digits_val s + digit_val c"
  by (simp add: digits_val_def)

lemma digits_val_show_nat [simp]: "digits_val (show_nat n) = n"
proof (induction n rule: show_nat.induct)
  case (1 n)
  show ?case
  proof (cases "n < 10")
    case True
    then show ?thesis by (simp add: show_nat.simps [of n] digits_val_def)
  next
    case False
    with "1" have "digits_val (show_nat (n div 10)) = n div 10" by simp
    with False show ?thesis by (simp add: show_nat.simps [of n] digits_val_snoc)
  qed
qed

lemma hd_show_nat_zero: "hd (show_nat n) = CHR ''0'' \<longleftrightarrow> n = 0"
proof (induction n rule: show_nat.induct)
  case (1 n)
  show ?case
  proof (cases "n < 10")
    case True
    have "of_byte (48 + n) = CHR ''0'' \<longleftrightarrow> byte (of_byte (48 + n)) = byte (CHR ''0'')"
      by (simp only: byte_inject)
    also have "\<dots> \<longleftrightarrow> n = 0" using True by simp
    finally have "of_byte (48 + n) = CHR ''0'' \<longleftrightarrow> n = 0" .
    with True show ?thesis by (simp add: show_nat.simps [of n])
  next
    case False
    with "1" show ?thesis by (simp add: show_nat.simps [of n])
  qed
qed

lemma show_nat_inj: "show_nat m = show_nat n \<longleftrightarrow> m = n"
  by (metis digits_val_show_nat)

lemma split_loop_nonempty [simp]: "split_loop d field s \<noteq> []"
  by (induction d field s rule: split_loop.induct) auto

lemma sb_join_Cons: "xs \<noteq> [] \<Longrightarrow> sb_join (x # xs) sep = x @ sep @ sb_join xs sep"
  by (cases xs) auto

lemma join_split_loop: "sb_join (split_loop d field s) [d] = field @ s"
  by (induction d field s rule: split_loop.induct) (auto simp: sb_join_Cons)

lemma split_loop_prefix:
  "d \<notin> set x \<Longrightarrow> split_loop d field (x @ d # s) = (field @ x) # split_loop d [] s"
  "d \<notin> set x \<Longrightarrow> split_loop d field x = [field @ x]"
  by (induction x arbitrary: field) auto

lemma split_join:
  "v \<noteq> [] \<Longrightarrow> \<forall>x\<in>set v. d \<notin> set x \<Longrightarrow> split_loop d [] (sb_join v [d]) = v"
  by (induction v "[d]" rule: sb_join.induct) (auto simp: split_loop_prefix)

lemma set_split_loop: "x \<in> set (split_loop d field s) \<Longrightarrow> d \<notin> set field \<Longrightarrow> d \<notin> set x"
  by (induction d field s rule: split_loop.induct) (auto split: if_splits)

lemma trim_tail_le: "trim_tail s n \<le> n"
  by (induction s n rule: trim_tail.induct) auto

lemma trim_tail_last: "trim_tail s n \<noteq> 0 \<Longrightarrow> \<not> isspace (s ! (trim_tail s n - 1))"
  by (induction s n rule: trim_tail.induct) auto

lemma trim_tail_blank: "trim_tail s n \<le> i \<Longrightarrow> i < n \<Longrightarrow> isspace (s ! i)"
  by (induction s n rule: trim_tail.induct) (auto simp: less_Suc_eq split: if_splits)

text \<open>Splitting at a separator and joining with it are inverse.\<close>

lemma split_join_inverse:
  "sb_join (sb_split (Some s) d) [d] = s"
  "x \<in> set (sb_split (Some s) d) \<Longrightarrow> d \<notin> set x"
  "v \<noteq> [] \<Longrightarrow> \<forall>x\<in>set v. d \<notin> set x \<Longrightarrow> sb_split (Some (sb_join v [d])) d = v"
  using split_join [of v d] set_split_loop [of _ d "[]" s]
  by (auto simp: sb_split_def join_split_loop)

end
