(* ===== verification/Util_Encoding.thy ===== *)
theory Util_Encoding
  imports Util_Strings
begin

text \<open>
  The encodings section of \<open>c/src/util.c\<close>: base64 in its standard, URL-safe and lenient
  variants, lower-case hexadecimal, and percent encoding. The routines
  interpret the locales \<open>codec\<close> and \<open>canonical_codec\<close>.
\<close>

subsection \<open>Base64\<close>

definition B64 :: string where
  "B64 = ''ABCDEFGHIJKLMNOPQRSTUVWXYZabcdefghijklmnopqrstuvwxyz0123456789+/''"

definition B64URL :: string where
  "B64URL = ''ABCDEFGHIJKLMNOPQRSTUVWXYZabcdefghijklmnopqrstuvwxyz0123456789-_''"

text \<open>\<open>(v >> k) & 63\<close>.\<close>

definition sextet :: "nat \<Rightarrow> nat \<Rightarrow> nat" where
  "sextet v k = (v div 2 ^ k) mod 64"

text \<open>One iteration of the encoder's loop handles up to three bytes; \<open>v\<close> is the 24-bit group
  with the missing bytes as zeros.\<close>

fun b64_encode :: "string \<Rightarrow> string \<Rightarrow> bool \<Rightarrow> string" where
  "b64_encode [] alpha pad = []"
| "b64_encode [a] alpha pad =
     (let v = byte a * 2 ^ 16 in
      [alpha ! sextet v 18, alpha ! sextet v 12] @ (if pad then ''=='' else ''''))"
| "b64_encode [a, b] alpha pad =
     (let v = byte a * 2 ^ 16 + byte b * 2 ^ 8 in
      [alpha ! sextet v 18, alpha ! sextet v 12, alpha ! sextet v 6]
        @ (if pad then ''='' else ''''))"
| "b64_encode (a # b # c # d) alpha pad =
     (let v = byte a * 2 ^ 16 + byte b * 2 ^ 8 + byte c in
      [alpha ! sextet v 18, alpha ! sextet v 12, alpha ! sextet v 6, alpha ! sextet v 0]
        @ b64_encode d alpha pad)"

definition sb_base64_encode :: "string \<Rightarrow> string" where
  "sb_base64_encode d = b64_encode d B64 True"

definition sb_base64url_encode :: "string \<Rightarrow> string" where
  "sb_base64url_encode d = b64_encode d B64URL False"

text \<open>\<open>mode\<close>: 0 lenient, 1 standard, 2 url; \<open>None\<close> is the C function's \<open>-1\<close>.\<close>

definition b64_value :: "char \<Rightarrow> nat \<Rightarrow> nat option" where
  "b64_value c mode =
     (if isupper c then Some (byte c - 65)
      else if islower c then Some (byte c - 97 + 26)
      else if isdigit c then Some (byte c - 48 + 52)
      else if c = CHR ''+'' \<and> mode \<noteq> 2 then Some 62
      else if c = CHR ''/'' \<and> mode \<noteq> 2 then Some 63
      else if c = CHR ''-'' \<and> mode \<noteq> 1 then Some 62
      else if c = CHR ''_'' \<and> mode \<noteq> 1 then Some 63
      else None)"

text \<open>\<open>acc = (acc << 6) | v\<close> on a 32-bit \<open>unsigned\<close>.\<close>

definition shift6 :: "nat \<Rightarrow> nat \<Rightarrow> nat" where
  "shift6 acc v = (acc * 64) mod 2 ^ 32 + v"

record b64_state =
  b_acc :: nat
  b_bits :: nat
  b_count :: nat
  b_pads :: nat
  b_out :: string

fun b64_loop :: "nat \<Rightarrow> string \<Rightarrow> b64_state \<Rightarrow> b64_state option" where
  "b64_loop mode [] st = Some st"
| "b64_loop mode (c # cs) st =
     (if mode = 0 \<and> isspace c then b64_loop mode cs st
      else if c = CHR ''='' then b64_loop mode cs (st\<lparr>b_pads := Suc (b_pads st)\<rparr>)
      else if b_pads st \<noteq> 0 then None
      else
        (case b64_value c mode of
           None \<Rightarrow> None
         | Some v \<Rightarrow>
             (let acc = shift6 (b_acc st) v; bits = b_bits st + 6;
                  st' = st\<lparr>b_acc := acc, b_count := Suc (b_count st)\<rparr> in
              if 8 \<le> bits
              then b64_loop mode cs
                     (st'\<lparr>b_bits := bits - 8,
                          b_out := b_out st @ [of_byte ((acc div 2 ^ (bits - 8)) mod 256)]\<rparr>)
              else b64_loop mode cs (st'\<lparr>b_bits := bits\<rparr>))))"

definition b64_init :: b64_state where
  "b64_init = \<lparr>b_acc = 0, b_bits = 0, b_count = 0, b_pads = 0, b_out = []\<rparr>"

definition b64_decode :: "string \<Rightarrow> nat \<Rightarrow> string option" where
  "b64_decode t mode =
     (case b64_loop mode t b64_init of
        None \<Rightarrow> None
      | Some st \<Rightarrow>
          if b_count st mod 4 = 1 then None
          else if mode = 1 \<and> ((b_count st + b_pads st) mod 4 \<noteq> 0 \<or> 2 < b_pads st) then None
          else if mode = 2 \<and> b_pads st \<noteq> 0 then None
          else if mode \<noteq> 1 \<and> mode \<noteq> 2 \<and> 2 < b_pads st then None
          else if mode \<noteq> 0 \<and> 0 < b_bits st \<and> b_acc st mod 2 ^ b_bits st \<noteq> 0 then None
          else Some (b_out st))"

definition sb_base64_decode :: "string \<Rightarrow> string option" where
  "sb_base64_decode t = b64_decode t 0"

definition sb_base64_decode_strict :: "string \<Rightarrow> string option" where
  "sb_base64_decode_strict t = b64_decode t 1"

definition sb_base64url_decode_strict :: "string \<Rightarrow> string option" where
  "sb_base64url_decode_strict t = b64_decode t 2"

subsection \<open>Hexadecimal and percent encoding\<close>

definition hex_lower :: string where
  "hex_lower = ''0123456789abcdef''"

definition hex_upper :: string where
  "hex_upper = ''0123456789ABCDEF''"

definition sb_hex_encode :: "string \<Rightarrow> string" where
  "sb_hex_encode d = concat (map (\<lambda>c. [hex_lower ! (byte c div 16), hex_lower ! (byte c mod 16)]) d)"

definition hexval :: "char \<Rightarrow> nat option" where
  "hexval c =
     (if isdigit c then Some (byte c - 48)
      else if 97 \<le> byte c \<and> byte c \<le> 102 then Some (byte c - 97 + 10)
      else if 65 \<le> byte c \<and> byte c \<le> 70 then Some (byte c - 65 + 10)
      else None)"

text \<open>The buffer \<open>sb_url_decode\<close> fills. Reading past the end meets the terminating NUL, which
  is no hexadecimal digit, so a truncated escape is copied as it stands.\<close>

fun url_decode_buf :: "string \<Rightarrow> bool \<Rightarrow> string" where
  "url_decode_buf [] pas = []"
| "url_decode_buf (c # cs) pas =
     (case (if c = CHR ''%'' then
              (case cs of
                 a # b # rest \<Rightarrow>
                   (case (hexval a, hexval b) of
                      (Some x, Some y) \<Rightarrow> Some (of_byte (x * 16 + y))
                    | _ \<Rightarrow> None)
               | _ \<Rightarrow> None)
            else None) of
        Some d \<Rightarrow> d # url_decode_buf (drop 2 cs) pas
      | None \<Rightarrow> (if c = CHR ''+'' \<and> pas then CHR '' '' else c) # url_decode_buf cs pas)"

definition sb_url_decode :: "string option \<Rightarrow> bool \<Rightarrow> string" where
  "sb_url_decode s pas = cstr (url_decode_buf (case s of None \<Rightarrow> [] | Some x \<Rightarrow> x) pas)"

definition url_unreserved :: "char \<Rightarrow> bool" where
  "url_unreserved c \<longleftrightarrow>
     isalnum c \<or> c = CHR ''-'' \<or> c = CHR ''_'' \<or> c = CHR ''.'' \<or> c = CHR ''~''"

text \<open>\<open>percent_escape\<close> is the body of the loop over a run of bytes; the loop of \<open>sb_url_encode\<close> stops
  at the first NUL.\<close>

definition percent_escape :: "string \<Rightarrow> string" where
  "percent_escape s =
     concat (map (\<lambda>c. if url_unreserved c then [c]
                      else [CHR ''%'', hex_upper ! (byte c div 16), hex_upper ! (byte c mod 16)]) s)"

definition sb_url_encode :: "string option \<Rightarrow> string" where
  "sb_url_encode s = percent_escape (cstr (case s of None \<Rightarrow> [] | Some x \<Rightarrow> x))"

subsection \<open>Base64 facts\<close>

text \<open>The alphabets as runs of byte values, so that a lookup is arithmetic.\<close>

definition b64_codes :: "nat \<Rightarrow> nat list" where
  "b64_codes mode = [65..<91] @ [97..<123] @ [48..<58] @ (if mode = 1 then [43, 47] else [45, 95])"

definition b64_alpha :: "nat \<Rightarrow> string" where
  "b64_alpha mode = (if mode = 1 then B64 else B64URL)"

definition b64_strict :: "nat \<Rightarrow> bool" where
  "b64_strict mode \<longleftrightarrow> mode = 1 \<or> mode = 2"

lemma b64_alpha_codes: "map byte (b64_alpha mode) = b64_codes mode"
  by (simp add: b64_alpha_def b64_codes_def B64_def B64URL_def upt_rec)

lemma byte_b64_alpha: "k < 64 \<Longrightarrow> byte (b64_alpha mode ! k) = b64_codes mode ! k"
  by (simp add: b64_alpha_codes [symmetric] b64_alpha_def B64_def B64URL_def)

lemma b64_codes_nth:
  "k < 64 \<Longrightarrow> b64_codes mode ! k =
     (if k < 26 then 65 + k else if k < 52 then 71 + k else if k < 62 then k - 4
      else if k = 62 then (if mode = 1 then 43 else 45) else (if mode = 1 then 47 else 95))"
  by (auto simp: b64_codes_def nth_append nth_Cons')

lemma b64_value_byte:
  "b64_value c mode =
     (let n = byte c in
      if 65 \<le> n \<and> n \<le> 90 then Some (n - 65)
      else if 97 \<le> n \<and> n \<le> 122 then Some (n - 97 + 26)
      else if 48 \<le> n \<and> n \<le> 57 then Some (n - 48 + 52)
      else if n = 43 \<and> mode \<noteq> 2 then Some 62
      else if n = 47 \<and> mode \<noteq> 2 then Some 63
      else if n = 45 \<and> mode \<noteq> 1 then Some 62
      else if n = 95 \<and> mode \<noteq> 1 then Some 63
      else None)"
  unfolding b64_value_def char_eq_byte [of c] ctype_defs by (simp add: Let_def)

lemma b64_value_alpha [simp]:
  assumes "b64_strict mode" and "k < 64"
  shows "b64_value (b64_alpha mode ! k) mode = Some k"
    and "b64_alpha mode ! k \<noteq> CHR ''=''"
  using assms
  by (auto simp: b64_value_byte byte_b64_alpha b64_codes_nth b64_strict_def Let_def
      char_eq_byte [of _ "CHR ''=''"])

lemma b64_value_SomeD:
  assumes "b64_strict mode" and "b64_value c mode = Some k"
  shows "k < 64 \<and> b64_alpha mode ! k = c"
proof -
  from assms have k: "k < 64"
    by (auto simp: b64_value_byte Let_def split: if_splits)
  moreover from assms k have "b64_codes mode ! k = byte c"
    by (auto simp: b64_value_byte Let_def b64_codes_nth b64_strict_def split: if_splits)
  ultimately show ?thesis
    by (simp add: char_eq_byte [of _ c] byte_b64_alpha)
qed

lemma shift6_mod:
  assumes "v < 64" and "k + 6 \<le> 32"
  shows "shift6 acc v mod 2 ^ (k + 6) = (acc mod 2 ^ k) * 64 + v"
proof -
  have eq: "(2::nat) ^ (k + 6) = 2 ^ k * 64" by (simp add: power_add)
  have "(acc * 64) mod 2 ^ 32 mod 2 ^ (k + 6) = (acc * 64) mod 2 ^ (k + 6)"
    by (rule mod_mod_cancel) (rule le_imp_power_dvd, use assms(2) in simp)
  also have "\<dots> = (acc mod 2 ^ k) * 64"
    unfolding eq by (rule mult_mod_left [symmetric])
  finally have "(acc * 64) mod 2 ^ 32 mod 2 ^ (k + 6) = (acc mod 2 ^ k) * 64" .
  then have "shift6 acc v mod 2 ^ (k + 6) = ((acc mod 2 ^ k) * 64 + v) mod 2 ^ (k + 6)"
    unfolding shift6_def by (metis mod_add_left_eq)
  moreover have "(acc mod 2 ^ k) * 64 + v < 2 ^ (k + 6)"
  proof -
    have "acc mod 2 ^ k + 1 \<le> 2 ^ k" by (simp add: Suc_leI)
    then have "(acc mod 2 ^ k + 1) * 64 \<le> 2 ^ k * 64" by (rule mult_le_mono1)
    with assms(1) eq show ?thesis by simp
  qed
  ultimately show ?thesis by simp
qed

lemma div_mod_byte: "(x div 2 ^ b) mod 256 = (x mod 2 ^ (b + 8)) div 2 ^ b" for x :: nat
  using div_exp_mod_exp_eq [of x b 8] by (simp add: add.commute)

lemma shift6_low: "v < 64 \<Longrightarrow> k \<le> 6 \<Longrightarrow> shift6 acc v mod 2 ^ k = v mod 2 ^ k"
proof -
  assume v: "v < 64" and k: "k \<le> 6"
  have "shift6 acc v mod 2 ^ 6 = v" using shift6_mod [OF v, of 0 acc] by simp
  moreover have "shift6 acc v mod 2 ^ k = shift6 acc v mod 2 ^ 6 mod 2 ^ k"
    by (rule mod_mod_cancel [symmetric]) (rule le_imp_power_dvd [OF k])
  ultimately show ?thesis by simp
qed

lemma mod_mult_low:
  fixes x k m q :: nat
  assumes "q < k" and "0 < m"
  shows "(x * k + q) mod (m * k) = (x mod m) * k + q"
proof -
  have "x mod m + 1 \<le> m" using assms(2) by (simp add: Suc_leI)
  then have "(x mod m + 1) * k \<le> m * k" by (rule mult_le_mono1)
  with assms(1) have less: "(x mod m) * k + q < m * k" by simp
  have "x * k + q = (x mod m) * k + q + (x div m) * (m * k)"
    by (metis add.commute add.left_commute div_mult_mod_eq distrib_right mult.assoc)
  then have "(x * k + q) mod (m * k) = ((x mod m) * k + q + (x div m) * (m * k)) mod (m * k)"
    by (rule arg_cong)
  also have "\<dots> = ((x mod m) * k + q) mod (m * k)" by (rule mod_mult_self1)
  also have "\<dots> = (x mod m) * k + q" using less by (rule mod_less)
  finally show ?thesis .
qed

lemma div_mult_low: "(x * (m * k) + q) div k = x * m + q div k" if "0 < k" for x m k q :: nat
  using that by (simp add: mult.assoc [symmetric])

lemma shift6_bytes:
  fixes acc :: nat
  assumes "a < 64" "b < 64" "c < 64" "d < 64"
  defines "s2 \<equiv> shift6 (shift6 acc a) b"
  defines "s3 \<equiv> shift6 s2 c"
  defines "s4 \<equiv> shift6 s3 d"
  shows "(s2 div 2 ^ 4) mod 256 = a * 4 + b div 16"
    and "(s3 div 2 ^ 2) mod 256 = (b mod 16) * 16 + c div 4"
    and "s4 mod 256 = (c mod 4) * 64 + d"
    and "s2 mod 2 ^ 4 = b mod 16"
    and "s3 mod 2 ^ 2 = c mod 4"
proof -
  have s1: "shift6 acc a mod 2 ^ 6 = a" using assms(1) shift6_low [of a 6 acc] by simp
  have "s2 mod 2 ^ 12 = a * 64 + b"
    using shift6_mod [OF assms(2), of 6 "shift6 acc a"] s1 by (simp add: s2_def)
  then show "(s2 div 2 ^ 4) mod 256 = a * 4 + b div 16"
    using div_mod_byte [of s2 4] by simp
  show s24: "s2 mod 2 ^ 4 = b mod 16"
    unfolding s2_def using shift6_low [OF assms(2), of 4] by simp
  have "s3 mod 2 ^ 10 = (b mod 16) * 64 + c"
    using shift6_mod [OF assms(3), of 4 s2] s24 by (simp add: s3_def)
  moreover have "(q * 64 + c) div 4 = q * 16 + c div 4" for q
    using div_mult_low [of 4 q 16 c] by simp
  ultimately show "(s3 div 2 ^ 2) mod 256 = (b mod 16) * 16 + c div 4"
    using div_mod_byte [of s3 2] by simp
  show s32: "s3 mod 2 ^ 2 = c mod 4"
    unfolding s3_def using shift6_low [OF assms(3), of 2] by simp
  show "s4 mod 256 = (c mod 4) * 64 + d"
    using shift6_mod [OF assms(4), of 2 s3] s32 by (simp add: s4_def)
qed

lemma sextet_values:
  assumes "x < 256" "y < 256" "z < 256"
  defines "v \<equiv> x * 2 ^ 16 + y * 2 ^ 8 + z"
  shows "sextet v 18 = x div 4"
    and "sextet v 12 = (x mod 4) * 16 + y div 16"
    and "sextet v 6 = (y mod 16) * 4 + z div 64"
    and "sextet v 0 = z mod 64"
proof -
  have v16: "v div 65536 = x" and v8: "v div 256 = x * 256 + y"
    using assms by (simp_all add: v_def)
  have "v div 2 ^ 18 = v div 65536 div 4" by (simp add: div_mult2_eq [symmetric])
  with v16 assms(1) show "sextet v 18 = x div 4" by (simp add: sextet_def)
  have "v div 2 ^ 12 = v div 256 div 16" by (simp add: div_mult2_eq [symmetric])
  moreover have "(x * 256 + y) div 16 = x * 16 + y div 16"
    using div_mult_low [of 16 x 16 y] by simp
  moreover have "(x * 16 + q) mod 64 = (x mod 4) * 16 + q" if "q < 16" for q
    using mod_mult_low [OF that, of 4 x] by simp
  ultimately show "sextet v 12 = (x mod 4) * 16 + y div 16"
    using v8 assms(2) by (simp add: sextet_def)
  have v6: "v = z + ((x * 256 + y) * 4) * 64" by (simp add: v_def)
  then have "v div 64 = (x * 256 + y) * 4 + z div 64" by simp
  moreover have "((x * 256 + y) * 4 + q) mod 64 = (y mod 16) * 4 + q" if "q < 4" for q
  proof -
    have "((x * 256 + y) * 4 + q) mod 64 = ((y * 4 + q) + (x * 16) * 64) mod 64"
      by (simp add: algebra_simps)
    also have "\<dots> = (y * 4 + q) mod 64" by (rule mod_mult_self1)
    also have "\<dots> = (y mod 16) * 4 + q"
      using mod_mult_low [OF that, of 16 y] by simp
    finally show ?thesis .
  qed
  ultimately show "sextet v 6 = (y mod 16) * 4 + z div 64"
    using assms(3) by (simp add: sextet_def)
  show "sextet v 0 = z mod 64" 
    unfolding sextet_def v6 power_0 div_by_1 by (rule mod_mult_self1)
qed

lemma b64_loop_char:
  assumes "b64_strict mode" and "v < 64" and "b_pads st = 0"
  shows "b64_loop mode (b64_alpha mode ! v # cs) st =
    (let acc = shift6 (b_acc st) v; bits = b_bits st + 6;
         st' = st\<lparr>b_acc := acc, b_count := Suc (b_count st)\<rparr> in
     if 8 \<le> bits
     then b64_loop mode cs
            (st'\<lparr>b_bits := bits - 8,
                 b_out := b_out st @ [of_byte ((acc div 2 ^ (bits - 8)) mod 256)]\<rparr>)
     else b64_loop mode cs (st'\<lparr>b_bits := bits\<rparr>))"
proof -
  from assms(1) have "mode \<noteq> 0" by (auto simp: b64_strict_def)
  with assms show ?thesis by (simp add: Let_def b64_loop.simps(2))
qed

lemma of_byte_cong: "m mod 256 = n \<Longrightarrow> of_byte m = of_byte n"
  by (metis char_of_mod_256)

lemma shift6_char1:
  "a < 64 \<Longrightarrow> b < 64 \<Longrightarrow>
     of_byte (shift6 (shift6 acc a) b div 16) = of_byte (a * 4 + b div 16)"
  using shift6_bytes(1) [of a b 0 0 acc] by (intro of_byte_cong) simp

lemma shift6_char2:
  "b < 64 \<Longrightarrow> c < 64 \<Longrightarrow>
     of_byte (shift6 (shift6 acc b) c div 4) = of_byte ((b mod 16) * 16 + c div 4)"
  using shift6_mod [of c 4 "shift6 acc b"] shift6_low [of b 4 acc]
    div_mult_low [of 4 "b mod 16" 16 c] div_mod_byte [of "shift6 (shift6 acc b) c" 2]
  by (intro of_byte_cong) simp

lemma shift6_char3:
  "c < 64 \<Longrightarrow> d < 64 \<Longrightarrow> of_byte (shift6 (shift6 acc c) d) = of_byte ((c mod 4) * 64 + d)"
  using shift6_mod [of d 2 "shift6 acc c"] shift6_low [of c 2 acc]
  by (intro of_byte_cong) simp

lemmas shift6_chars = shift6_char1 shift6_char2 shift6_char3

declare b64_loop.simps(2) [simp del]

lemma b64_loop_two:
  assumes "b64_strict mode" "a < 64" "b < 64" "b_bits st = 0" "b_pads st = 0"
  shows "b64_loop mode (b64_alpha mode ! a # b64_alpha mode ! b # cs) st =
    b64_loop mode cs (st\<lparr>b_acc := shift6 (shift6 (b_acc st) a) b,
      b_count := Suc (Suc (b_count st)), b_bits := 4, b_out := b_out st @ [of_byte (a * 4 + b div 16)]\<rparr>)"
  using assms by (simp add: b64_loop_char Let_def shift6_chars)

lemma b64_loop_three:
  assumes "b64_strict mode" "a < 64" "b < 64" "c < 64" "b_bits st = 0" "b_pads st = 0"
  shows "b64_loop mode (b64_alpha mode ! a # b64_alpha mode ! b # b64_alpha mode ! c # cs) st =
    b64_loop mode cs (st\<lparr>b_acc := shift6 (shift6 (shift6 (b_acc st) a) b) c,
      b_count := Suc (Suc (Suc (b_count st))), b_bits := 2,
      b_out := b_out st @ [of_byte (a * 4 + b div 16), of_byte ((b mod 16) * 16 + c div 4)]\<rparr>)"
  using assms by (simp add: b64_loop_char Let_def shift6_chars)

lemma b64_loop_quad:
  assumes "b64_strict mode" "a < 64" "b < 64" "c < 64" "d < 64" "b_bits st = 0" "b_pads st = 0"
  shows "b64_loop mode
      (b64_alpha mode ! a # b64_alpha mode ! b # b64_alpha mode ! c # b64_alpha mode ! d # cs) st =
    b64_loop mode cs (st\<lparr>b_acc := shift6 (shift6 (shift6 (shift6 (b_acc st) a) b) c) d,
      b_count := Suc (Suc (Suc (Suc (b_count st)))), b_bits := 0,
      b_out := b_out st @ [of_byte (a * 4 + b div 16), of_byte ((b mod 16) * 16 + c div 4),
        of_byte ((c mod 4) * 64 + d)]\<rparr>)"
  using assms by (simp add: b64_loop_char Let_def shift6_chars)

lemma b64_loop_pads:
  "mode \<noteq> 0 \<Longrightarrow> b64_loop mode (replicate n (CHR ''='')) st = Some (st\<lparr>b_pads := b_pads st + n\<rparr>)"
  by (induction n arbitrary: st) (auto simp: b64_loop.simps(2))

text \<open>The checks after the decoder's loop, for the two strict modes.\<close>

definition b64_accept :: "nat \<Rightarrow> b64_state \<Rightarrow> bool" where
  "b64_accept mode st \<longleftrightarrow> b_count st mod 4 \<noteq> 1
     \<and> (if mode = 1 then (b_count st + b_pads st) mod 4 = 0 \<and> b_pads st \<le> 2 else b_pads st = 0)
     \<and> (b_bits st = 0 \<or> b_acc st mod 2 ^ b_bits st = 0)"

lemma b64_decode_strict:
  "b64_strict mode \<Longrightarrow> b64_decode t mode =
     (case b64_loop mode t b64_init of None \<Rightarrow> None
      | Some st \<Rightarrow> if b64_accept mode st then Some (b_out st) else None)"
  by (auto simp: b64_decode_def b64_accept_def b64_strict_def split: option.splits)

lemma b64_encode_quads:
  "b64_encode [a] alpha pad =
     [alpha ! (byte a div 4), alpha ! ((byte a mod 4) * 16)] @ (if pad then ''=='' else [])"
  "b64_encode [a, b] alpha pad =
     [alpha ! (byte a div 4), alpha ! ((byte a mod 4) * 16 + byte b div 16),
      alpha ! ((byte b mod 16) * 4)] @ (if pad then ''='' else [])"
  "b64_encode (a # b # c # d) alpha pad =
     [alpha ! (byte a div 4), alpha ! ((byte a mod 4) * 16 + byte b div 16),
      alpha ! ((byte b mod 16) * 4 + byte c div 64), alpha ! (byte c mod 64)]
      @ b64_encode d alpha pad"
  using sextet_values [of "byte a" 0 0] sextet_values [of "byte a" "byte b" 0]
    sextet_values [of "byte a" "byte b" "byte c"]
  by (simp_all add: Let_def)

declare b64_encode.simps(2-4) [simp del]

lemma byte_sextets [simp]:
  "byte a div 4 < 64" "(byte a mod 4) * 16 < 64" "(byte a mod 4) * 16 + byte b div 16 < 64"
  "(byte b mod 16) * 4 < 64" "(byte b mod 16) * 4 + byte c div 64 < 64"
proof -
  show "byte a div 4 < 64" by (simp add: less_mult_imp_div_less)
  have "byte b div 16 < 16" and "byte c div 64 < 4" by (simp_all add: less_mult_imp_div_less)
  moreover have "byte a mod 4 < 4" and "byte b mod 16 < 16" by simp_all
  ultimately show "(byte a mod 4) * 16 < 64" "(byte a mod 4) * 16 + byte b div 16 < 64"
    "(byte b mod 16) * 4 < 64" "(byte b mod 16) * 4 + byte c div 64 < 64" by linarith+
qed

lemma sextet_bytes:
  fixes x y z :: nat
  assumes "y < 256" "z < 256"
  shows "x div 4 * 4 + ((x mod 4) * 16 + y div 16) div 16 = x"
    and "((x mod 4) * 16 + y div 16) mod 16 * 16 + ((y mod 16) * 4 + z div 64) div 4 = y"
    and "((y mod 16) * 4 + z div 64) mod 4 * 64 + z mod 64 = z"
proof -
  have y: "y div 16 < 16" and z: "z div 64 < 4" using assms by (simp_all add: less_mult_imp_div_less)
  have "((x mod 4) * 16 + y div 16) div 16 = x mod 4" using y by simp
  then show "x div 4 * 4 + ((x mod 4) * 16 + y div 16) div 16 = x" by simp
  have "((x mod 4) * 16 + y div 16) mod 16 = y div 16"
    using y mod_mult_low [of "y div 16" 16 1 "x mod 4"] by simp
  moreover have "((y mod 16) * 4 + z div 64) div 4 = y mod 16" using z by simp
  ultimately show
    "((x mod 4) * 16 + y div 16) mod 16 * 16 + ((y mod 16) * 4 + z div 64) div 4 = y" by simp
  have "((y mod 16) * 4 + z div 64) mod 4 = z div 64"
    using z mod_mult_low [of "z div 64" 4 1 "y mod 16"] by simp
  then show "((y mod 16) * 4 + z div 64) mod 4 * 64 + z mod 64 = z" by simp
qed

lemma b64_loop_bytes:
  assumes "b64_strict mode" "b_bits st = 0" "b_pads st = 0"
  shows "b64_loop mode
      (b64_alpha mode ! (byte a div 4) # b64_alpha mode ! ((byte a mod 4) * 16 + byte b div 16)
       # b64_alpha mode ! ((byte b mod 16) * 4 + byte c div 64) # b64_alpha mode ! (byte c mod 64)
       # cs) st =
    b64_loop mode cs (st\<lparr>b_acc := shift6 (shift6 (shift6 (shift6 (b_acc st) (byte a div 4))
      (byte a mod 4 * 16 + byte b div 16)) (byte b mod 16 * 4 + byte c div 64)) (byte c mod 64),
      b_count := Suc (Suc (Suc (Suc (b_count st)))), b_bits := 0, b_out := b_out st @ [a, b, c]\<rparr>)"
proof -
  have "byte c mod 64 < 64" by simp
  note q = b64_loop_quad [OF assms(1) byte_sextets(1) [of a] byte_sextets(3) [of a b]
      byte_sextets(5) [of b c] this assms(2,3), of cs]
  show ?thesis
    by (rule q [unfolded sextet_bytes [OF byte_less_256 byte_less_256] char_of_char])
qed

lemma b64_loop_tail:
  "b64_loop (Suc 0) ''=='' st = Some (st\<lparr>b_pads := Suc (Suc (b_pads st))\<rparr>)"
  "b64_loop (Suc 0) ''='' st = Some (st\<lparr>b_pads := Suc (b_pads st)\<rparr>)"
  by (simp_all add: b64_loop.simps(2))

lemma b64_loop_encode:
  assumes "b64_strict mode"
  shows "b_bits st = 0 \<Longrightarrow> b_pads st = 0 \<Longrightarrow> b_count st mod 4 = 0 \<Longrightarrow>
    \<exists>st'. b64_loop mode (b64_encode d (b64_alpha mode) (mode = 1)) st = Some st'
      \<and> b64_accept mode st' \<and> b_out st' = b_out st @ d"
proof (induction d "b64_alpha mode" "mode = 1" arbitrary: st rule: b64_encode.induct)
  case 1
  then show ?case by (simp add: b64_accept_def)
next
  case (2 a)
  have "shift6 (shift6 (b_acc st) (byte a div 4)) (byte a mod 4 * 16) mod 2 ^ 4 = 0"
    using shift6_low [of "byte a mod 4 * 16" 4] by simp
  with 2 show ?case
    using sextet_bytes(1) [of 0 0 "byte a"]
    by (simp add: assms b64_encode_quads b64_loop_two b64_loop_tail b64_accept_def mod_Suc)
next
  case (3 a b)
  have "shift6 (shift6 (shift6 (b_acc st) (byte a div 4)) (byte a mod 4 * 16 + byte b div 16))
      (byte b mod 16 * 4) mod 2 ^ 2 = 0"
    using shift6_low [of "byte b mod 16 * 4" 2] by simp
  with 3 show ?case
    using sextet_bytes(1,2) [of "byte b" 0 "byte a"]
    by (simp add: assms b64_encode_quads b64_loop_three b64_loop_tail b64_accept_def mod_Suc)
next
  case (4 a b c d)
  let ?st = "st\<lparr>b_acc := shift6 (shift6 (shift6 (shift6 (b_acc st) (byte a div 4))
      (byte a mod 4 * 16 + byte b div 16)) (byte b mod 16 * 4 + byte c div 64)) (byte c mod 64),
      b_count := Suc (Suc (Suc (Suc (b_count st)))), b_bits := 0, b_out := b_out st @ [a, b, c]\<rparr>"
  have "\<exists>st'. b64_loop mode (b64_encode d (b64_alpha mode) (mode = 1)) ?st = Some st'
      \<and> b64_accept mode st' \<and> b_out st' = b_out ?st @ d"
    by (rule 4(1)) (use 4 in \<open>simp_all add: mod_Suc\<close>)
  then show ?case
    using 4(2-4) by (simp add: assms b64_encode_quads b64_loop_bytes)
qed

lemma b64_roundtrip:
  assumes "b64_strict mode"
  shows "b64_decode (b64_encode d (b64_alpha mode) (mode = 1)) mode = Some d"
  using b64_loop_encode [OF assms, of b64_init d]
  by (auto simp: b64_decode_strict [OF assms] b64_init_def)

text \<open>Conversely, an accepted text is the encoding of what it decodes to: a text without
  padding characters is consumed four characters at a time, the rest are the \<open>'='\<close>s.\<close>

lemma b64_loop_padsD:
  assumes "mode \<noteq> 0" "b64_loop mode t st = Some st'" "b_pads st \<noteq> 0"
  shows "t = replicate (length t) (CHR ''='')"
  using assms(2,3)
  by (induction t arbitrary: st) (auto simp: b64_loop.simps(2) \<open>mode \<noteq> 0\<close> split: if_splits)

lemma b64_loop_body:
  assumes "mode \<noteq> 0" "b64_loop mode t st = Some st'"
  shows "\<exists>body n. t = body @ replicate n (CHR ''='') \<and> CHR ''='' \<notin> set body"
  using assms(2)
proof (induction t arbitrary: st)
  case Nil
  then show ?case by simp
next
  case (Cons c cs)
  show ?case
  proof (cases "c = CHR ''=''")
    case True
    then have "cs = replicate (length cs) (CHR ''='')"
      using Cons.prems b64_loop_padsD [OF assms(1), of cs] assms(1)
      by (auto simp: b64_loop.simps(2))
    with True have "c # cs = [] @ replicate (Suc (length cs)) (CHR ''='')" by simp
    then show ?thesis 
      by (intro exI [of _ "[]"] exI [of _ "Suc (length cs)"]) simp
  next
    case False
    obtain st1 where "b64_loop mode cs st1 = Some st'"
      using Cons.prems False assms(1)
      by (auto simp: b64_loop.simps(2) Let_def split: if_splits option.splits)
    from Cons.IH [OF this] obtain body n
      where "cs = body @ replicate n (CHR ''='')" "CHR ''='' \<notin> set body" by blast
    with False show ?thesis
      by (intro exI [of _ "c # body"] exI [of _ n]) auto
  qed
qed

lemma b64_loop_alphaD:
  assumes "b64_strict mode" "b64_loop mode (body @ rest) st = Some st'"
    "CHR ''='' \<notin> set body" "b_pads st = 0"
  shows "\<exists>vs. body = map (\<lambda>v. b64_alpha mode ! v) vs \<and> (\<forall>v\<in>set vs. v < 64)"
  using assms(2-4)
proof (induction body arbitrary: st)
  case Nil
  then show ?case by simp
next
  case (Cons c cs)
  have m: "mode \<noteq> 0" using assms(1) by (auto simp: b64_strict_def)
  obtain v st1 where v: "b64_value c mode = Some v"
    and st1: "b64_loop mode (cs @ rest) st1 = Some st'" "b_pads st1 = 0"
    using Cons.prems m
    by (auto simp: b64_loop.simps(2) Let_def split: if_splits option.splits)
  obtain vs where "cs = map (\<lambda>v. b64_alpha mode ! v) vs" "\<forall>v\<in>set vs. v < 64"
    using Cons.IH [OF st1(1) _ st1(2)] Cons.prems by auto
  moreover from v have "v < 64 \<and> c = b64_alpha mode ! v"
    using b64_value_SomeD [OF assms(1)] by blast
  ultimately show ?case by (intro exI [of _ "v # vs"]) auto
qed

lemma bytes_of_sextets:
  fixes a b c d :: nat
  assumes "a < 64" "b < 64" "c < 64" "d < 64"
  shows "a * 4 + b div 16 < 256" "(b mod 16) * 16 + c div 4 < 256" "(c mod 4) * 64 + d < 256"
    "(a * 4 + b div 16) div 4 = a"
    "((a * 4 + b div 16) mod 4) * 16 + ((b mod 16) * 16 + c div 4) div 16 = b"
    "(((b mod 16) * 16 + c div 4) mod 16) * 4 + ((c mod 4) * 64 + d) div 64 = c"
    "((c mod 4) * 64 + d) mod 64 = d"
proof -
  have b: "b div 16 < 4" "b mod 16 < 16" and c: "c div 4 < 16" "c mod 4 < 4"
    using assms by (simp_all add: less_mult_imp_div_less)
  then show "a * 4 + b div 16 < 256" "(b mod 16) * 16 + c div 4 < 256" "(c mod 4) * 64 + d < 256"
    using assms by linarith+
  show "(a * 4 + b div 16) div 4 = a" using b by simp
  show "((c mod 4) * 64 + d) mod 64 = d" using assms by simp
  have "(a * 4 + b div 16) mod 4 = b div 16" using b mod_mult_low [of "b div 16" 4 1 a] by simp
  moreover have "((b mod 16) * 16 + c div 4) div 16 = b mod 16" using c by simp
  ultimately show "((a * 4 + b div 16) mod 4) * 16 + ((b mod 16) * 16 + c div 4) div 16 = b"
    by simp
  have "((b mod 16) * 16 + c div 4) mod 16 = c div 4" 
    using c mod_mult_low [of "c div 4" 16 1 "b mod 16"] by simp
  moreover have "((c mod 4) * 64 + d) div 64 = c mod 4" using assms by simp
  ultimately show "(((b mod 16) * 16 + c div 4) mod 16) * 4 + ((c mod 4) * 64 + d) div 64 = c"
    by simp
qed

lemma pad_count:
  assumes "n mod 4 = (0::nat)" "p \<le> 2"
  shows "(n + p) mod 4 = 0 \<longleftrightarrow> p = 0" "(Suc (Suc n) + p) mod 4 = 0 \<longleftrightarrow> p = 2"
    "(Suc (Suc (Suc n)) + p) mod 4 = 0 \<longleftrightarrow> p = 1"
  using assms by presburger+

lemma b64_encode_sextets:
  assumes "a < 64" "b < 64" "c < 64" "d < 64"
  shows "b mod 16 = 0 \<Longrightarrow> b64_encode [of_byte (a * 4 + b div 16)] alpha pad =
      [alpha ! a, alpha ! b] @ (if pad then ''=='' else [])"
    and "c mod 4 = 0 \<Longrightarrow>
      b64_encode [of_byte (a * 4 + b div 16), of_byte ((b mod 16) * 16 + c div 4)] alpha pad =
        [alpha ! a, alpha ! b, alpha ! c] @ (if pad then ''='' else [])"
    and "b64_encode (of_byte (a * 4 + b div 16) # of_byte ((b mod 16) * 16 + c div 4)
        # of_byte ((c mod 4) * 64 + d) # ds) alpha pad =
        [alpha ! a, alpha ! b, alpha ! c, alpha ! d] @ b64_encode ds alpha pad"
proof -
  note s = bytes_of_sextets [OF assms]
  show "b mod 16 = 0 \<Longrightarrow> b64_encode [of_byte (a * 4 + b div 16)] alpha pad =
      [alpha ! a, alpha ! b] @ (if pad then ''=='' else [])"
    using bytes_of_sextets(5) [of a b 0] assms
    by (simp only: b64_encode_quads byte_of_byte s(1,4)) simp
  show "c mod 4 = 0 \<Longrightarrow>
      b64_encode [of_byte (a * 4 + b div 16), of_byte ((b mod 16) * 16 + c div 4)] alpha pad =
        [alpha ! a, alpha ! b, alpha ! c] @ (if pad then ''='' else [])"
    using bytes_of_sextets(6) [of a b c 0] assms
    by (simp only: b64_encode_quads byte_of_byte s(1,2,4,5)) simp
  show "b64_encode (of_byte (a * 4 + b div 16) # of_byte ((b mod 16) * 16 + c div 4)
        # of_byte ((c mod 4) * 64 + d) # ds) alpha pad =
        [alpha ! a, alpha ! b, alpha ! c, alpha ! d] @ b64_encode ds alpha pad"
    by (simp only: b64_encode_quads byte_of_byte s)
qed

lemma b64_loop_canonical:
  assumes m: "b64_strict mode"
  shows "\<lbrakk>\<forall>v\<in>set vs. v < 64; b_bits st = 0; b_pads st = 0; b_count st mod 4 = 0;
      b64_loop mode (map (\<lambda>v. b64_alpha mode ! v) vs @ replicate n (CHR ''='')) st = Some st';
      b64_accept mode st'\<rbrakk>
    \<Longrightarrow> \<exists>d. b_out st' = b_out st @ d \<and>
        map (\<lambda>v. b64_alpha mode ! v) vs @ replicate n (CHR ''='')
          = b64_encode d (b64_alpha mode) (mode = 1)"
proof (induction vs arbitrary: st rule: list4_induct)
  case Nil
  have "mode \<noteq> 0" using m by (auto simp: b64_strict_def)
  with Nil show ?case
    using pad_count [of "b_count st" n]
    by (auto simp: b64_accept_def b64_loop_pads split: if_splits)
next
  case (One a)
  have "mode \<noteq> 0" using m by (auto simp: b64_strict_def)
  with One show ?case
    by (auto simp: m b64_accept_def b64_loop_pads b64_loop_char mod_Suc split: if_splits)
next
  case (Two a b)
  have m0: "mode \<noteq> 0" using m by (auto simp: b64_strict_def)
  with Two have st': "st' = st\<lparr>b_acc := shift6 (shift6 (b_acc st) a) b,
      b_count := Suc (Suc (b_count st)), b_bits := 4,
      b_out := b_out st @ [of_byte (a * 4 + b div 16)], b_pads := n\<rparr>"
    by (simp add: m b64_loop_two b64_loop_pads)
  have b: "b mod 16 = 0" and n: "n = (if mode = 1 then 2 else 0)"
    using Two.prems shift6_low [of b 4] pad_count(2) [of "b_count st" n]
    by (auto simp: st' b64_accept_def split: if_splits)
  show ?case
    using Two.prems b64_encode_sextets(1) [OF _ _ _ _ b, of a 0 0] n
    by (intro exI [of _ "[of_byte (a * 4 + b div 16)]"]) (simp add: st' numeral_2_eq_2)
next
  case (Three a b c)
  have m0: "mode \<noteq> 0" using m by (auto simp: b64_strict_def)
  with Three have st': "st' = st\<lparr>b_acc := shift6 (shift6 (shift6 (b_acc st) a) b) c,
      b_count := Suc (Suc (Suc (b_count st))), b_bits := 2,
      b_out := b_out st @ [of_byte (a * 4 + b div 16), of_byte ((b mod 16) * 16 + c div 4)],
      b_pads := n\<rparr>"
    by (simp add: m b64_loop_three b64_loop_pads)
  have c: "c mod 4 = 0" and n: "n = (if mode = 1 then 1 else 0)"
    using Three.prems shift6_low [of c 2] pad_count(3) [of "b_count st" n]
    by (auto simp: st' b64_accept_def split: if_splits)
  show ?case
    using Three.prems b64_encode_sextets(2) [OF _ _ _ _ c, of a b 0] n
    by (intro exI [of _ "[of_byte (a * 4 + b div 16), of_byte ((b mod 16) * 16 + c div 4)]"])
      (simp add: st')
next
  case (More a b c d vs)
  let ?o = "[of_byte (a * 4 + b div 16), of_byte ((b mod 16) * 16 + c div 4),
        of_byte ((c mod 4) * 64 + d)]"
  let ?st = "st\<lparr>b_acc := shift6 (shift6 (shift6 (shift6 (b_acc st) a) b) c) d,
      b_count := Suc (Suc (Suc (Suc (b_count st)))), b_bits := 0, b_out := b_out st @ ?o\<rparr>"
  have v: "a < 64" "b < 64" "c < 64" "d < 64" using More.prems by simp_all
  have "b64_loop mode (map (\<lambda>v. b64_alpha mode ! v) vs @ replicate n (CHR ''='')) ?st = Some st'"
    using More.prems by (simp add: m b64_loop_quad)
  then have "\<exists>ds. b_out st' = b_out ?st @ ds \<and>
      map (\<lambda>v. b64_alpha mode ! v) vs @ replicate n (CHR ''='')
        = b64_encode ds (b64_alpha mode) (mode = 1)"
    using More.prems by (intro More.IH) (simp_all add: mod_Suc)
  then obtain ds where "b_out st' = b_out ?st @ ds"
    "map (\<lambda>v. b64_alpha mode ! v) vs @ replicate n (CHR ''='')
        = b64_encode ds (b64_alpha mode) (mode = 1)" by blast
  then show ?case
    using b64_encode_sextets(3) [OF v, of ds "b64_alpha mode" "mode = 1"]
    by (intro exI [of _ "?o @ ds"]) simp
qed

lemma b64_canonical:
  assumes m: "b64_strict mode" and t: "b64_decode t mode = Some d"
  shows "b64_encode d (b64_alpha mode) (mode = 1) = t"
proof -
  have m0: "mode \<noteq> 0" using m by (auto simp: b64_strict_def)
  obtain st where st: "b64_loop mode t b64_init = Some st" "b64_accept mode st" "d = b_out st"
    using t by (auto simp: b64_decode_strict [OF m] split: option.splits if_splits)
  obtain body n where b: "t = body @ replicate n (CHR ''='')" "CHR ''='' \<notin> set body"
    using b64_loop_body [OF m0 st(1)] by blast
  have "\<exists>vs. body = map (\<lambda>v. b64_alpha mode ! v) vs \<and> (\<forall>v\<in>set vs. v < 64)"
    using st(1) b
    by (intro b64_loop_alphaD [OF m, where st = b64_init and rest = "replicate n (CHR ''='')"])
      (simp_all add: b64_init_def)
  then obtain vs where vs: "body = map (\<lambda>v. b64_alpha mode ! v) vs" "\<forall>v\<in>set vs. v < 64"
    by blast
  have "\<exists>d. b_out st = b_out b64_init @ d \<and>
        map (\<lambda>v. b64_alpha mode ! v) vs @ replicate n (CHR ''='')
          = b64_encode d (b64_alpha mode) (mode = 1)"
    using st b(1) vs(1)
    by (intro b64_loop_canonical [OF m vs(2)]) (simp_all add: b64_init_def)
  then show ?thesis using st(3) b(1) vs(1) by (auto simp: b64_init_def)
qed

lemma b64_modes:
  "b64_strict 1" "b64_strict 2" "b64_alpha 1 = B64" "b64_alpha 2 = B64URL"
  by (simp_all add: b64_strict_def b64_alpha_def)

interpretation base64: canonical_codec sb_base64_encode sb_base64_decode_strict "\<lambda>_. True"
  using b64_roundtrip [OF b64_modes(1)] b64_canonical [OF b64_modes(1)]
  by unfold_locales
    (simp_all add: sb_base64_encode_def sb_base64_decode_strict_def b64_modes [unfolded One_nat_def])

interpretation base64url:
  canonical_codec sb_base64url_encode sb_base64url_decode_strict "\<lambda>_. True"
  using b64_roundtrip [OF b64_modes(2)] b64_canonical [OF b64_modes(2)]
  by unfold_locales
    (simp_all add: sb_base64url_encode_def sb_base64url_decode_strict_def b64_modes)

subsection \<open>Percent and hexadecimal encoding facts\<close>

definition hex_codes :: "nat \<Rightarrow> nat" where
  "hex_codes k = (if k < 10 then 48 + k else 55 + k)"

lemma hex_upper_bytes: "map byte hex_upper = map hex_codes [0..<16]"
  by (simp add: hex_upper_def hex_codes_def upt_rec)

lemma byte_hex_upper: "k < 16 \<Longrightarrow> byte (hex_upper ! k) = hex_codes k"
proof -
  assume k: "k < 16"
  have "length hex_upper = 16" by (simp add: hex_upper_def)
  then have "byte (hex_upper ! k) = map byte hex_upper ! k" using k by simp
  also have "\<dots> = hex_codes k" using k by (simp add: hex_upper_bytes)
  finally show ?thesis .
qed

lemma hexval_hex_upper: "k < 16 \<Longrightarrow> hexval (hex_upper ! k) = Some k"
  by (auto simp: hexval_def ctype_defs byte_hex_upper hex_codes_def)

lemma byte_nibbles: "byte c div 16 < 16" "byte c mod 16 < 16"
  "of_byte (byte c div 16 * 16 + byte c mod 16) = c"
  by (simp_all add: less_mult_imp_div_less)

declare url_decode_buf.simps(2) [simp del]

lemma url_decode_escape:
  "url_decode_buf (CHR ''%'' # hex_upper ! (byte c div 16) # hex_upper ! (byte c mod 16) # cs) pas =
     c # url_decode_buf cs pas"
  by (simp add: url_decode_buf.simps(2) hexval_hex_upper byte_nibbles(1,2))

lemma url_decode_plain:
  "url_unreserved c \<Longrightarrow> url_decode_buf (c # cs) pas = c # url_decode_buf cs pas"
  by (auto simp: url_decode_buf.simps(2) url_unreserved_def ctype_defs)

lemma url_decode_percent: "url_decode_buf (percent_escape s) pas = s"
  by (induction s) (auto simp: percent_escape_def url_decode_escape url_decode_plain)

lemma url_decode_encode: "url_decode_buf (sb_url_encode (Some s)) pas = cstr s"
  by (simp add: sb_url_encode_def url_decode_percent)

interpretation percent:
  codec "\<lambda>s. sb_url_encode (Some s)" "\<lambda>t. Some (sb_url_decode (Some t) pas)" nul_free
  for pas
  by unfold_locales (simp add: sb_url_decode_def url_decode_encode)

lemma hex_encode_length: "length (sb_hex_encode d) = 2 * length d"
  by (induction d) (simp_all add: sb_hex_encode_def)

lemma percent_escape_unreserved:
  "c \<in> set (percent_escape s) \<Longrightarrow> url_unreserved c \<or> c = CHR ''%''"
proof -
  have "url_unreserved (hex_upper ! k)" if "k < 16" for k
    using byte_hex_upper [OF that] that
    by (auto simp: url_unreserved_def ctype_defs hex_codes_def)
  then show "c \<in> set (percent_escape s) \<Longrightarrow> ?thesis"
    by (auto simp: percent_escape_def byte_nibbles split: if_splits)
qed

lemma url_encode_unreserved:
  "c \<in> set (sb_url_encode s) \<Longrightarrow> url_unreserved c \<or> c = CHR ''%''"
  by (simp add: sb_url_encode_def percent_escape_unreserved)

subsection \<open>Properties\<close>

text \<open>(C21) Strict base64 decoding inverts encoding and accepts no text that is not the encoding of
  the bytes it returns: foreign characters, missing or misplaced padding and non-zero spare bits are
  all refused. The same holds of the unpadded URL alphabet.\<close>

theorem base64_strict_canonical:
  "(sb_base64_decode_strict t = Some d \<longleftrightarrow> sb_base64_encode d = t)
    \<and> (sb_base64url_decode_strict t = Some d \<longleftrightarrow> sb_base64url_encode d = t)"
  using base64.dec_iff base64url.dec_iff by simp

text \<open>(C30) Percent encoding produces only unreserved characters and \<open>%\<close>, and decoding, with or
  without \<open>+\<close> read as a space, gives back the encoded C string.\<close>

theorem url_roundtrip:
  assumes "nul_free s"
  shows "sb_url_decode (Some (sb_url_encode (Some s))) pas = s
    \<and> (\<forall>c\<in>set (sb_url_encode (Some s)). url_unreserved c \<or> c = CHR ''%'')"
  using assms percent.dec_enc [of s pas] url_encode_unreserved [of _ "Some s"] by auto

theorem url_roundtrip_witness:
  "sb_url_decode (Some (sb_url_encode (Some ''a b+c''))) True = ''a b+c''"
  using url_roundtrip [of "''a b+c''" True] by simp

end
