(* ===== verification/Double.thy ===== *)
theory Double
  imports Prelude
begin

text \<open>
  IEEE 754 binary64 as the C code uses it: a \<open>double\<close> is its 64-bit pattern. The theory has
  the conversions and comparisons of the language (\<open>(double)i\<close>, \<open>(int64_t)d\<close>, \<open>==\<close>,
  \<open>isfinite\<close>, \<open>signbit\<close>) and the rounding that \<open>strtod\<close> and \<open>(double)i\<close> share, to nearest
  with ties to even. A conversion to \<open>int64_t\<close> outside the range is undefined in C; it is
  given the x86-64 result, the smallest \<open>int64_t\<close>.
\<close>

type_synonym double = "64 word"

definition dbl_exp :: "double \<Rightarrow> nat" where
  "dbl_exp d = unat d div 2 ^ 52 mod 2048"

definition dbl_man :: "double \<Rightarrow> nat" where
  "dbl_man d = unat d mod 2 ^ 52"

definition signbit :: "double \<Rightarrow> bool" where
  "signbit d \<longleftrightarrow> 2 ^ 63 \<le> unat d"

definition isfinite :: "double \<Rightarrow> bool" where
  "isfinite d \<longleftrightarrow> dbl_exp d \<noteq> 2047"

definition isnan :: "double \<Rightarrow> bool" where
  "isnan d \<longleftrightarrow> dbl_exp d = 2047 \<and> dbl_man d \<noteq> 0"

definition dbl_is_zero :: "double \<Rightarrow> bool" where
  "dbl_is_zero d \<longleftrightarrow> dbl_exp d = 0 \<and> dbl_man d = 0"

definition dbl_abs :: "double \<Rightarrow> double" where
  "dbl_abs d = of_nat (unat d mod 2 ^ 63)"

definition dbl_neg :: "double \<Rightarrow> double" where
  "dbl_neg d = d + 2 ^ 63"

text \<open>The comparison \<open>==\<close>: false on a NaN, and the two zeros are equal.\<close>

definition dbl_eq :: "double \<Rightarrow> double \<Rightarrow> bool" where
  "dbl_eq x y \<longleftrightarrow> \<not> isnan x \<and> \<not> isnan y \<and> (x = y \<or> dbl_is_zero x \<and> dbl_is_zero y)"

text \<open>A finite double is \<open>\<plusminus> dbl_sig d * 2 powr dbl_scale d\<close>.\<close>

definition dbl_sig :: "double \<Rightarrow> nat" where
  "dbl_sig d = (if dbl_exp d = 0 then dbl_man d else dbl_man d + 2 ^ 52)"

definition dbl_scale :: "double \<Rightarrow> int" where
  "dbl_scale d = int (max 1 (dbl_exp d)) - 1075"

definition dbl_trunc :: "double \<Rightarrow> int" where
  "dbl_trunc d =
     (let m = (if 0 \<le> dbl_scale d then dbl_sig d * 2 ^ nat (dbl_scale d)
               else dbl_sig d div 2 ^ nat (- dbl_scale d)) in
      if signbit d then - int m else int m)"

definition dbl_to_i64 :: "double \<Rightarrow> int" where
  "dbl_to_i64 d = (if isfinite d \<and> in_i64 (dbl_trunc d) then dbl_trunc d else - (2 ^ 63))"

subsection \<open>Rounding to nearest, ties to even\<close>

fun bitlen :: "nat \<Rightarrow> nat" where
  "bitlen n = (if n = 0 then 0 else Suc (bitlen (n div 2)))"

declare bitlen.simps [simp del]

definition round_div_even :: "nat \<Rightarrow> nat \<Rightarrow> nat" where
  "round_div_even n d =
     (let q = n div d; r = n mod d in
      if 2 * r < d \<or> 2 * r = d \<and> even q then q else Suc q)"

text \<open>\<open>2 ^ k \<le> n / d\<close> for an integer \<open>k\<close>, and the binary logarithm of a quotient.\<close>

definition pow2_le :: "int \<Rightarrow> nat \<Rightarrow> nat \<Rightarrow> bool" where
  "pow2_le k n d \<longleftrightarrow> (if 0 \<le> k then d * 2 ^ nat k \<le> n else d \<le> n * 2 ^ nat (- k))"

definition ratio_log2 :: "nat \<Rightarrow> nat \<Rightarrow> int" where
  "ratio_log2 n d =
     (let k = int (bitlen n) - int (bitlen d) in if pow2_le k n d then k else k - 1)"

text \<open>The pattern of the double nearest to \<open>n / d\<close>: the significand is rounded at the unit
  \<open>2 powr e\<close>; a significand of \<open>2 ^ 52\<close> or more carries into the exponent field by itself.\<close>

definition dbl_of_ratio :: "nat \<Rightarrow> nat \<Rightarrow> double" where
  "dbl_of_ratio n d =
     (if n = 0 then 0
      else
        (let e = max (- 1074) (ratio_log2 n d - 52);
             m = (if 0 \<le> e then round_div_even n (d * 2 ^ nat e)
                  else round_div_even (n * 2 ^ nat (- e)) d);
             bits = nat (e + 1074) * 2 ^ 52 + m in
         of_nat (min bits (2047 * 2 ^ 52))))"

definition dbl_of_int :: "int \<Rightarrow> double" where
  "dbl_of_int i =
     (if i < 0 then dbl_neg (dbl_of_ratio (nat (- i)) 1) else dbl_of_ratio (nat i) 1)"

subsection \<open>Facts\<close>

lemma bitlen_bounds: "0 < n \<Longrightarrow> 2 ^ (bitlen n - 1) \<le> n \<and> n < 2 ^ bitlen n \<and> 0 < bitlen n"
proof (induction n rule: bitlen.induct)
  case (1 n)
  show ?case
  proof (cases "n = 1")
    case True
    then show ?thesis by (simp add: bitlen.simps)
  next
    case False
    with 1 have h: "0 < n div 2" by simp
    with 1 have IH: "2 ^ (bitlen (n div 2) - 1) \<le> n div 2" "n div 2 < 2 ^ bitlen (n div 2)"
      "0 < bitlen (n div 2)" by simp_all
    have b: "bitlen n = Suc (bitlen (n div 2))" using 1 by (simp add: bitlen.simps [of n])
    have "2 * 2 ^ (bitlen (n div 2) - 1) = (2::nat) ^ bitlen (n div 2)"
      using IH(3) by (metis power_minus_mult mult.commute)
    with IH(1,2) have "2 ^ bitlen (n div 2) \<le> n" "n < 2 * 2 ^ bitlen (n div 2)" by linarith+
    then show ?thesis by (simp add: b)
  qed
qed

lemma bitlen_le: "n < 2 ^ k \<Longrightarrow> bitlen n \<le> k"
proof (cases "n = 0")
  case False
  assume "n < 2 ^ k"
  with False bitlen_bounds [of n] have "(2::nat) ^ (bitlen n - 1) < 2 ^ k"
    by (meson le_less_trans neq0_conv)
  then have "bitlen n - 1 < k" by (rule power_less_imp_less_exp [rotated]) simp
  then show ?thesis by simp
qed (simp add: bitlen.simps)

lemma bitlen_1 [simp]: "bitlen (Suc 0) = 1" "bitlen 0 = 0"
  by (simp_all add: bitlen.simps)

lemma ratio_log2_nat: "0 < n \<Longrightarrow> ratio_log2 n 1 = int (bitlen n) - 1"
  using bitlen_bounds [of n] by (simp add: ratio_log2_def pow2_le_def nat_diff_distrib' Let_def)

lemma round_div_even_1 [simp]: "round_div_even n (Suc 0) = n"
  by (simp add: round_div_even_def)

lemma dbl_neg_dbl_neg [simp]: "dbl_neg (dbl_neg d) = d"
proof -
  have "(2::64 word) ^ 63 + 2 ^ 63 = 0" by simp
  then show ?thesis by (simp add: dbl_neg_def add.assoc)
qed

lemma dbl_eq_refl: "dbl_eq x x \<longleftrightarrow> \<not> isnan x"
  by (auto simp: dbl_eq_def)

lemma dbl_eq_sym: "dbl_eq x y \<longleftrightarrow> dbl_eq y x"
  by (auto simp: dbl_eq_def)

text \<open>Integers up to \<open>2 ^ 53\<close> in magnitude convert exactly, in both directions.\<close>

lemma dbl_of_small_nat:
  assumes "0 < n" "n < 2 ^ 53"
  shows "dbl_of_ratio n 1 = of_nat ((bitlen n + 1021) * 2 ^ 52 + n * 2 ^ (53 - bitlen n))"
proof -
  have b: "0 < bitlen n" "bitlen n \<le> 53" using assms bitlen_bounds bitlen_le by auto
  have e: "max (- 1074) (ratio_log2 n 1 - 52) = int (bitlen n) - 53"
    unfolding ratio_log2_nat [OF assms(1)] using b by simp
  have n2: "n * 2 ^ (53 - bitlen n) < 2 ^ 53"
  proof -
    have "n * 2 ^ (53 - bitlen n) < 2 ^ bitlen n * 2 ^ (53 - bitlen n)"
      using bitlen_bounds assms by simp
    also have "\<dots> = 2 ^ 53" using b by (simp flip: power_add)
    finally show ?thesis .
  qed
  have "nat (int (bitlen n) - 53 + 1074) = bitlen n + 1021" using b by simp
  moreover have "nat (- (int (bitlen n) - 53)) = 53 - bitlen n" using b by simp
  moreover have "(bitlen n + 1021) * 2 ^ 52 + n * 2 ^ (53 - bitlen n) \<le> 2047 * 2 ^ 52"
    using n2 b by simp
  moreover have "bitlen n = 53 \<Longrightarrow> 0 \<le> int (bitlen n) - 53" by simp
  ultimately show ?thesis
    using assms b unfolding dbl_of_ratio_def e Let_def
    by (cases "bitlen n = 53") (simp_all add: min_absorb1)
qed

lemma of_nat_dbl_fields:
  assumes "e < 2047" "m < 2 ^ 52"
  shows "dbl_exp (of_nat (e * 2 ^ 52 + m)) = e" "dbl_man (of_nat (e * 2 ^ 52 + m)) = m"
    "\<not> signbit (of_nat (e * 2 ^ 52 + m))"
proof -
  have lt: "e * 2 ^ 52 + m < 2 ^ 63" using assms by simp
  then have u: "unat (of_nat (e * 2 ^ 52 + m) :: 64 word) = e * 2 ^ 52 + m"
    by (simp add: unat_of_nat del: of_nat_add of_nat_mult)
  show "dbl_exp (of_nat (e * 2 ^ 52 + m)) = e" "dbl_man (of_nat (e * 2 ^ 52 + m)) = m"
    "\<not> signbit (of_nat (e * 2 ^ 52 + m))"
    using assms lt unfolding dbl_exp_def dbl_man_def signbit_def u by simp_all
qed

lemma dbl_trunc_of_nat:
  assumes "n < 2 ^ 53"
  shows "dbl_trunc (dbl_of_ratio n 1) = int n \<and> isfinite (dbl_of_ratio n 1)
    \<and> \<not> signbit (dbl_of_ratio n 1)"
proof (cases "n = 0")
  case True
  then show ?thesis
    by (simp add: dbl_of_ratio_def dbl_trunc_def signbit_def dbl_sig_def dbl_man_def dbl_exp_def
        isfinite_def Let_def)
next
  case False
  let ?b = "bitlen n"
  have b: "0 < ?b" "?b \<le> 53" "2 ^ (?b - 1) \<le> n" "n < 2 ^ ?b"
    using assms False bitlen_bounds bitlen_le by auto
  have "n * 2 ^ (53 - ?b) < 2 ^ ?b * 2 ^ (53 - ?b)" using b by simp
  then have hi: "n * 2 ^ (53 - ?b) < 2 ^ 53" using b by (simp flip: power_add)
  have "2 ^ (?b - 1) * 2 ^ (53 - ?b) \<le> n * 2 ^ (53 - ?b)" using b by simp
  then have lo: "2 ^ 52 \<le> n * 2 ^ (53 - ?b)" using b by (simp flip: power_add)
  define m where "m = n * 2 ^ (53 - ?b) - 2 ^ 52"
  have m: "m < 2 ^ 52" "n * 2 ^ (53 - ?b) = m + 2 ^ 52" using hi lo by (simp_all add: m_def)
  have d: "dbl_of_ratio n 1 = of_nat ((?b + 1022) * 2 ^ 52 + m)"
    using dbl_of_small_nat [of n] False assms m(2) by simp
  note f = of_nat_dbl_fields [of "?b + 1022" m]
  have s: "dbl_scale (dbl_of_ratio n 1) = int ?b - 53" and
    g: "dbl_sig (dbl_of_ratio n 1) = n * 2 ^ (53 - ?b)"
    using f b m unfolding d dbl_scale_def dbl_sig_def by simp_all
  have "nat (- (int ?b - 53)) = 53 - ?b" using b by simp
  then have "dbl_trunc (dbl_of_ratio n 1) = int n"
    using f(3) b m(1) unfolding dbl_trunc_def s g Let_def d [symmetric]
    by (cases "?b = 53") simp_all
  then show ?thesis using f(1,3) b m(1) unfolding d isfinite_def by simp
qed

lemma dbl_neg_fields:
  assumes "\<not> signbit d"
  shows "dbl_exp (dbl_neg d) = dbl_exp d" "dbl_man (dbl_neg d) = dbl_man d" "signbit (dbl_neg d)"
proof -
  have lt: "unat d < 2 ^ 63" using assms by (simp add: signbit_def)
  have two: "unat (2 ^ 63 :: 64 word) = 2 ^ 63" by simp
  have "unat (dbl_neg d) = (unat d + unat (2 ^ 63 :: 64 word)) mod 2 ^ 64"
    unfolding dbl_neg_def by (simp add: unat_word_ariths(1))
  then have u: "unat (dbl_neg d) = unat d + 2 ^ 63" using lt unfolding two by simp
  have "(unat d + 2 ^ 63) div 2 ^ 52 = unat d div 2 ^ 52 + 2048" by simp
  then show "dbl_exp (dbl_neg d) = dbl_exp d" unfolding dbl_exp_def u by simp
  have "unat d + 2 ^ 63 = unat d + 2 ^ 52 * 2048" by simp
  then show "dbl_man (dbl_neg d) = dbl_man d" unfolding dbl_man_def u by (metis mod_mult_self2)
  show "signbit (dbl_neg d)" unfolding signbit_def u by simp
qed

lemma dbl_to_i64_of_int:
  assumes "\<bar>i\<bar> < 2 ^ 53"
  shows "isfinite (dbl_of_int i) \<and> dbl_to_i64 (dbl_of_int i) = i"
proof -
  have i64: "in_i64 i" using assms by (simp add: in_i64_def abs_less_iff)
  have n: "nat \<bar>i\<bar> < 2 ^ 53" using assms by (simp add: nat_less_iff)
  note t = dbl_trunc_of_nat [OF n]
  show ?thesis
  proof (cases "i < 0")
    case True
    let ?d = "dbl_of_ratio (nat (- i)) 1"
    have d: "dbl_trunc ?d = - i" "isfinite ?d" "\<not> signbit ?d" using t True by simp_all
    note f = dbl_neg_fields [OF d(3)]
    have "dbl_trunc (dbl_neg ?d) = - dbl_trunc ?d" "isfinite (dbl_neg ?d)"
      using f d(2,3) by (simp_all add: dbl_trunc_def dbl_scale_def dbl_sig_def isfinite_def Let_def)
    with True d(1) i64 show ?thesis by (simp add: dbl_of_int_def dbl_to_i64_def)
  next
    case False
    with t i64 show ?thesis by (simp add: dbl_of_int_def dbl_to_i64_def)
  qed
qed

end
