(* ===== verification/Json_Value.thy ===== *)
theory Json_Value
  imports Util_Strings Double
begin

text \<open>
  The JSON values of \<open>c/src/json.c\<close>: construction, inspection, arrays and objects.

  An object is an array of members sorted by key; \<open>obj_find\<close> is the binary search every
  access goes through. \<open>None\<close> is the null pointer; a mutating function returns the updated
  value. \<open>sbj_free\<close> and the growth of the arrays (\<open>xrealloc\<close>, \<open>arr_reserve\<close>) only manage
  memory and have no counterpart.
\<close>

datatype sbj =
    SBJ_NULL
  | SBJ_BOOL bool
  | SBJ_INT int
  | SBJ_UINT nat
  | SBJ_FLOAT double
  | SBJ_STRING string
  | SBJ_ARRAY "sbj list"
  | SBJ_OBJECT "(string \<times> sbj) list"

type_synonym members = "(string \<times> sbj) list"

subsection \<open>Construction\<close>

definition sbj_null :: sbj where
  "sbj_null = SBJ_NULL"

definition sbj_bool :: "bool \<Rightarrow> sbj" where
  "sbj_bool b = SBJ_BOOL b"

definition sbj_int :: "int \<Rightarrow> sbj" where
  "sbj_int i = SBJ_INT i"

definition sbj_uint :: "nat \<Rightarrow> sbj" where
  "sbj_uint u = (if u \<le> 2 ^ 63 - 1 then sbj_int (int u) else SBJ_UINT u)"

definition sbj_float :: "double \<Rightarrow> sbj" where
  "sbj_float f = SBJ_FLOAT f"

definition sbj_strn :: "string \<Rightarrow> sbj" where
  "sbj_strn s = SBJ_STRING s"

definition sbj_str :: "string option \<Rightarrow> sbj" where
  "sbj_str s = (case s of None \<Rightarrow> sbj_null | Some x \<Rightarrow> sbj_strn x)"

definition sbj_array :: sbj where
  "sbj_array = SBJ_ARRAY []"

definition sbj_object :: sbj where
  "sbj_object = SBJ_OBJECT []"

subsection \<open>Inspection\<close>

fun sbj_is_null :: "sbj option \<Rightarrow> bool" where
  "sbj_is_null None = True"
| "sbj_is_null (Some SBJ_NULL) = True"
| "sbj_is_null _ = False"

fun sbj_is_bool :: "sbj option \<Rightarrow> bool" where
  "sbj_is_bool (Some (SBJ_BOOL b)) = True"
| "sbj_is_bool _ = False"

fun sbj_is_string :: "sbj option \<Rightarrow> bool" where
  "sbj_is_string (Some (SBJ_STRING s)) = True"
| "sbj_is_string _ = False"

fun sbj_is_array :: "sbj option \<Rightarrow> bool" where
  "sbj_is_array (Some (SBJ_ARRAY xs)) = True"
| "sbj_is_array _ = False"

fun sbj_is_object :: "sbj option \<Rightarrow> bool" where
  "sbj_is_object (Some (SBJ_OBJECT kvs)) = True"
| "sbj_is_object _ = False"

fun sbj_is_number :: "sbj option \<Rightarrow> bool" where
  "sbj_is_number (Some (SBJ_INT i)) = True"
| "sbj_is_number (Some (SBJ_UINT u)) = True"
| "sbj_is_number (Some (SBJ_FLOAT f)) = True"
| "sbj_is_number _ = False"

fun sbj_is_integer :: "sbj option \<Rightarrow> bool" where
  "sbj_is_integer (Some (SBJ_INT i)) = True"
| "sbj_is_integer (Some (SBJ_UINT u)) = True"
| "sbj_is_integer _ = False"

fun sbj_type_name :: "sbj option \<Rightarrow> string" where
  "sbj_type_name None = ''null''"
| "sbj_type_name (Some SBJ_NULL) = ''null''"
| "sbj_type_name (Some (SBJ_BOOL b)) = ''boolean''"
| "sbj_type_name (Some (SBJ_INT i)) = ''number''"
| "sbj_type_name (Some (SBJ_UINT u)) = ''number''"
| "sbj_type_name (Some (SBJ_FLOAT f)) = ''number''"
| "sbj_type_name (Some (SBJ_STRING s)) = ''string''"
| "sbj_type_name (Some (SBJ_ARRAY xs)) = ''array''"
| "sbj_type_name (Some (SBJ_OBJECT kvs)) = ''object''"

fun sbj_size :: "sbj option \<Rightarrow> nat" where
  "sbj_size None = 0"
| "sbj_size (Some SBJ_NULL) = 0"
| "sbj_size (Some (SBJ_ARRAY xs)) = length xs"
| "sbj_size (Some (SBJ_OBJECT kvs)) = length kvs"
| "sbj_size (Some _) = 1"

text \<open>\<open>num_cmp_equal\<close> on two numbers; \<open>sbj_to_double\<close> is the conversion it makes as soon as
  one of them is a float.\<close>

fun sbj_to_double :: "sbj \<Rightarrow> double" where
  "sbj_to_double (SBJ_FLOAT f) = f"
| "sbj_to_double (SBJ_INT i) = dbl_of_int i"
| "sbj_to_double (SBJ_UINT u) = dbl_of_ratio u 1"
| "sbj_to_double _ = 0"

fun is_float :: "sbj \<Rightarrow> bool" where
  "is_float (SBJ_FLOAT f) = True"
| "is_float _ = False"

definition num_cmp_equal :: "sbj \<Rightarrow> sbj \<Rightarrow> bool" where
  "num_cmp_equal a b =
     (if is_float a \<or> is_float b then dbl_eq (sbj_to_double a) (sbj_to_double b)
      else (case (a, b) of
              (SBJ_INT i, SBJ_INT j) \<Rightarrow> i = j
            | (SBJ_UINT u, SBJ_UINT v) \<Rightarrow> u = v
            | _ \<Rightarrow> False))"

definition sbj_string_is :: "sbj option \<Rightarrow> string option \<Rightarrow> bool" where
  "sbj_string_is v literal =
     (case v of Some (SBJ_STRING s) \<Rightarrow> sb_strn_eq (Some s) literal | _ \<Rightarrow> False)"

text \<open>\<open>sbj_equal\<close> below two non-null pointers; the two lists are walked in step once their
  lengths have been found equal.\<close>

fun sbj_eq :: "sbj \<Rightarrow> sbj \<Rightarrow> bool"
  and sbj_eq_arr :: "sbj list \<Rightarrow> sbj list \<Rightarrow> bool"
  and sbj_eq_obj :: "members \<Rightarrow> members \<Rightarrow> bool" where
  "sbj_eq SBJ_NULL b = (b = SBJ_NULL)"
| "sbj_eq (SBJ_BOOL x) b = (case b of SBJ_BOOL y \<Rightarrow> x = y | _ \<Rightarrow> False)"
| "sbj_eq (SBJ_INT i) b = (sbj_is_number (Some b) \<and> num_cmp_equal (SBJ_INT i) b)"
| "sbj_eq (SBJ_UINT u) b = (sbj_is_number (Some b) \<and> num_cmp_equal (SBJ_UINT u) b)"
| "sbj_eq (SBJ_FLOAT f) b = (sbj_is_number (Some b) \<and> num_cmp_equal (SBJ_FLOAT f) b)"
| "sbj_eq (SBJ_STRING s) b =
     (case b of SBJ_STRING t \<Rightarrow> length s = length t \<and> s = t | _ \<Rightarrow> False)"
| "sbj_eq (SBJ_ARRAY xs) b =
     (case b of SBJ_ARRAY ys \<Rightarrow> length xs = length ys \<and> sbj_eq_arr xs ys | _ \<Rightarrow> False)"
| "sbj_eq (SBJ_OBJECT xs) b =
     (case b of SBJ_OBJECT ys \<Rightarrow> length xs = length ys \<and> sbj_eq_obj xs ys | _ \<Rightarrow> False)"
| "sbj_eq_arr [] ys = True"
| "sbj_eq_arr (x # xs) ys =
     (case ys of
        [] \<Rightarrow> True
      | y # ys' \<Rightarrow> (if \<not> sbj_eq x y then False else sbj_eq_arr xs ys'))"
| "sbj_eq_obj [] ys = True"
| "sbj_eq_obj ((k, x) # xs) ys =
     (case ys of
        [] \<Rightarrow> True
      | (l, y) # ys' \<Rightarrow>
          (if length k \<noteq> length l \<or> k \<noteq> l then False
           else if \<not> sbj_eq x y then False else sbj_eq_obj xs ys'))"

definition sbj_equal :: "sbj option \<Rightarrow> sbj option \<Rightarrow> bool" where
  "sbj_equal a b =
     (case (a, b) of
        (Some x, Some y) \<Rightarrow> sbj_eq x y
      | _ \<Rightarrow> sbj_is_null a \<and> sbj_is_null b)"

fun sbj_as_str :: "sbj option \<Rightarrow> string option \<Rightarrow> string option" where
  "sbj_as_str (Some (SBJ_STRING s)) fallback = Some (cstr s)"
| "sbj_as_str _ fallback = fallback"

fun sbj_as_int :: "sbj option \<Rightarrow> int \<Rightarrow> int" where
  "sbj_as_int (Some (SBJ_INT i)) fallback = i"
| "sbj_as_int (Some (SBJ_UINT u)) fallback = wrap_i64 (int u)"
| "sbj_as_int (Some (SBJ_FLOAT f)) fallback = (if isfinite f then dbl_to_i64 f else fallback)"
| "sbj_as_int _ fallback = fallback"

fun sbj_as_double :: "sbj option \<Rightarrow> double \<Rightarrow> double" where
  "sbj_as_double (Some (SBJ_FLOAT f)) fallback = f"
| "sbj_as_double (Some (SBJ_INT i)) fallback = dbl_of_int i"
| "sbj_as_double (Some (SBJ_UINT u)) fallback = dbl_of_ratio u 1"
| "sbj_as_double _ fallback = fallback"

fun sbj_as_bool :: "sbj option \<Rightarrow> bool \<Rightarrow> bool" where
  "sbj_as_bool (Some (SBJ_BOOL b)) fallback = b"
| "sbj_as_bool _ fallback = fallback"

subsection \<open>Arrays\<close>

fun sbj_arr_len :: "sbj option \<Rightarrow> nat" where
  "sbj_arr_len (Some (SBJ_ARRAY xs)) = length xs"
| "sbj_arr_len _ = 0"

fun sbj_arr_at :: "sbj option \<Rightarrow> nat \<Rightarrow> sbj option" where
  "sbj_arr_at (Some (SBJ_ARRAY xs)) i = (if i < length xs then Some (xs ! i) else None)"
| "sbj_arr_at _ i = None"

definition or_null :: "sbj option \<Rightarrow> sbj" where
  "or_null v = (case v of None \<Rightarrow> sbj_null | Some x \<Rightarrow> x)"

fun sbj_arr_push :: "sbj \<Rightarrow> sbj option \<Rightarrow> sbj" where
  "sbj_arr_push (SBJ_ARRAY xs) v = SBJ_ARRAY (xs @ [or_null v])"
| "sbj_arr_push a v = a"

fun sbj_arr_insert :: "sbj \<Rightarrow> nat \<Rightarrow> sbj option \<Rightarrow> sbj" where
  "sbj_arr_insert (SBJ_ARRAY xs) index v =
     (let i = (if index > length xs then length xs else index) in
      SBJ_ARRAY (take i xs @ or_null v # drop i xs))"
| "sbj_arr_insert a index v = a"

text \<open>The value taken out and the array left behind.\<close>

fun sbj_arr_take :: "sbj \<Rightarrow> nat \<Rightarrow> sbj option \<times> sbj" where
  "sbj_arr_take (SBJ_ARRAY xs) index =
     (if index \<ge> length xs then (None, SBJ_ARRAY xs)
      else (Some (xs ! index), SBJ_ARRAY (take index xs @ drop (index + 1) xs)))"
| "sbj_arr_take a index = (None, a)"

definition sbj_arr_remove :: "sbj \<Rightarrow> nat \<Rightarrow> sbj" where
  "sbj_arr_remove a index = snd (sbj_arr_take a index)"

fun sbj_arr_clear :: "sbj \<Rightarrow> sbj" where
  "sbj_arr_clear (SBJ_ARRAY xs) = SBJ_ARRAY []"
| "sbj_arr_clear a = a"

subsection \<open>Objects\<close>

fun sbj_obj_len :: "sbj option \<Rightarrow> nat" where
  "sbj_obj_len (Some (SBJ_OBJECT kvs)) = length kvs"
| "sbj_obj_len _ = 0"

text \<open>The sign of \<open>memcmp\<close> on two runs of the same length.\<close>

fun memcmp :: "string \<Rightarrow> string \<Rightarrow> int" where
  "memcmp (a # as) (b # bs) =
     (if byte a < byte b then - 1 else if byte b < byte a then 1 else memcmp as bs)"
| "memcmp _ _ = 0"

definition key_cmp :: "string \<Rightarrow> string \<Rightarrow> int" where
  "key_cmp k key =
     (let n = (if length k < length key then length k else length key);
          c = memcmp (take n k) (take n key) in
      if c = 0
      then (if length k < length key then - 1 else if length k > length key then 1 else 0)
      else c)"

text \<open>The index of the key and \<open>True\<close>, or the insertion point and \<open>False\<close>.\<close>

function obj_find_loop :: "members \<Rightarrow> string \<Rightarrow> nat \<Rightarrow> nat \<Rightarrow> nat \<times> bool" where
  "obj_find_loop kvs key lo hi =
     (if lo < hi
      then
        (let mid = lo + (hi - lo) div 2; c = key_cmp (fst (kvs ! mid)) key in
         if c = 0 then (mid, True)
         else if c < 0 then obj_find_loop kvs key (mid + 1) hi
         else obj_find_loop kvs key lo mid)
      else (lo, False))"
  by pat_completeness auto
termination by (relation "measure (\<lambda>(_, _, lo, hi). hi - lo)") (auto simp: less_diff_conv)

declare obj_find_loop.simps [simp del]

definition obj_find :: "members \<Rightarrow> string \<Rightarrow> nat \<times> bool" where
  "obj_find kvs key = obj_find_loop kvs key 0 (length kvs)"

text \<open>The bodies of \<open>sbj_getn\<close>, \<open>sbj_setn\<close> and \<open>sbj_take\<close> after their guards.\<close>

definition obj_getn :: "members \<Rightarrow> string \<Rightarrow> sbj option" where
  "obj_getn kvs key =
     (let (i, found) = obj_find kvs key in if found then Some (snd (kvs ! i)) else None)"

definition obj_setn :: "members \<Rightarrow> string \<Rightarrow> sbj \<Rightarrow> members" where
  "obj_setn kvs key v =
     (let (i, found) = obj_find kvs key in
      if found then kvs[i := (fst (kvs ! i), v)]
      else take i kvs @ (key, v) # drop i kvs)"

definition obj_take :: "members \<Rightarrow> string \<Rightarrow> sbj option \<times> members" where
  "obj_take kvs key =
     (let (i, found) = obj_find kvs key in
      if \<not> found then (None, kvs)
      else (Some (snd (kvs ! i)), take i kvs @ drop (i + 1) kvs))"

definition sbj_getn :: "sbj option \<Rightarrow> string option \<Rightarrow> sbj option" where
  "sbj_getn o' key =
     (case (o', key) of
        (Some (SBJ_OBJECT kvs), Some k) \<Rightarrow> obj_getn kvs k
      | _ \<Rightarrow> None)"

definition sbj_get :: "sbj option \<Rightarrow> string option \<Rightarrow> sbj option" where
  "sbj_get o' key = sbj_getn o' key"

definition sbj_has :: "sbj option \<Rightarrow> string option \<Rightarrow> bool" where
  "sbj_has o' key = (sbj_get o' key \<noteq> None)"

definition sbj_setn :: "sbj \<Rightarrow> string option \<Rightarrow> sbj option \<Rightarrow> sbj" where
  "sbj_setn o' key v =
     (case (o', key) of
        (SBJ_OBJECT kvs, Some k) \<Rightarrow> SBJ_OBJECT (obj_setn kvs k (or_null v))
      | _ \<Rightarrow> o')"

definition sbj_set :: "sbj \<Rightarrow> string option \<Rightarrow> sbj option \<Rightarrow> sbj" where
  "sbj_set o' key v = sbj_setn o' key v"

definition sbj_take :: "sbj \<Rightarrow> string option \<Rightarrow> sbj option \<times> sbj" where
  "sbj_take o' key =
     (case (o', key) of
        (SBJ_OBJECT kvs, Some k) \<Rightarrow> (let (v, kvs') = obj_take kvs k in (v, SBJ_OBJECT kvs'))
      | _ \<Rightarrow> (None, o'))"

definition sbj_del :: "sbj \<Rightarrow> string option \<Rightarrow> bool \<times> sbj" where
  "sbj_del o' key = (let (v, o'') = sbj_take o' key in (v \<noteq> None, o''))"

fun sbj_obj_key :: "sbj option \<Rightarrow> nat \<Rightarrow> string option" where
  "sbj_obj_key (Some (SBJ_OBJECT kvs)) i =
     (if i < length kvs then Some (cstr (fst (kvs ! i))) else None)"
| "sbj_obj_key _ i = None"

fun sbj_obj_val :: "sbj option \<Rightarrow> nat \<Rightarrow> sbj option" where
  "sbj_obj_val (Some (SBJ_OBJECT kvs)) i = (if i < length kvs then Some (snd (kvs ! i)) else None)"
| "sbj_obj_val _ i = None"

text \<open>The pointer returned by \<open>sbj_get_or_object\<close> and \<open>sbj_get_or_array\<close> designates the member
  in the updated object; the model returns that object, and the caller's writes through the
  pointer are \<open>sbj_modify\<close> on the same key.\<close>

definition sbj_get_or_object :: "sbj \<Rightarrow> string option \<Rightarrow> sbj" where
  "sbj_get_or_object o' key =
     (case sbj_get (Some o') key of
        Some v \<Rightarrow> (if v \<noteq> SBJ_NULL then o' else sbj_set o' key (Some sbj_object))
      | None \<Rightarrow> sbj_set o' key (Some sbj_object))"

definition sbj_get_or_array :: "sbj \<Rightarrow> string option \<Rightarrow> sbj" where
  "sbj_get_or_array o' key =
     (case sbj_get (Some o') key of
        Some v \<Rightarrow> (if v \<noteq> SBJ_NULL then o' else sbj_set o' key (Some sbj_array))
      | None \<Rightarrow> sbj_set o' key (Some sbj_array))"

definition sbj_modify :: "sbj \<Rightarrow> string \<Rightarrow> (sbj \<Rightarrow> sbj) \<Rightarrow> sbj" where
  "sbj_modify o' key f =
     (case sbj_get (Some o') (Some key) of
        None \<Rightarrow> o'
      | Some v \<Rightarrow> sbj_set o' (Some key) (Some (f v)))"

definition sbj_set_str :: "sbj \<Rightarrow> string option \<Rightarrow> string option \<Rightarrow> sbj" where
  "sbj_set_str o' k v = sbj_set o' k (Some (sbj_str v))"

definition sbj_set_int :: "sbj \<Rightarrow> string option \<Rightarrow> int \<Rightarrow> sbj" where
  "sbj_set_int o' k v = sbj_set o' k (Some (sbj_int v))"

definition sbj_set_bool :: "sbj \<Rightarrow> string option \<Rightarrow> bool \<Rightarrow> sbj" where
  "sbj_set_bool o' k v = sbj_set o' k (Some (sbj_bool v))"

definition sbj_set_float :: "sbj \<Rightarrow> string option \<Rightarrow> double \<Rightarrow> sbj" where
  "sbj_set_float o' k v = sbj_set o' k (Some (sbj_float v))"

definition sbj_set_null :: "sbj \<Rightarrow> string option \<Rightarrow> sbj" where
  "sbj_set_null o' k = sbj_set o' k (Some sbj_null)"

definition sbj_get_str :: "sbj option \<Rightarrow> string option \<Rightarrow> string option \<Rightarrow> string option" where
  "sbj_get_str o' k fb = sbj_as_str (sbj_get o' k) fb"

definition sbj_get_int :: "sbj option \<Rightarrow> string option \<Rightarrow> int \<Rightarrow> int" where
  "sbj_get_int o' k fb = sbj_as_int (sbj_get o' k) fb"

definition sbj_get_bool :: "sbj option \<Rightarrow> string option \<Rightarrow> bool \<Rightarrow> bool" where
  "sbj_get_bool o' k fb = sbj_as_bool (sbj_get o' k) fb"

definition sbj_get_double :: "sbj option \<Rightarrow> string option \<Rightarrow> double \<Rightarrow> double" where
  "sbj_get_double o' k fb = sbj_as_double (sbj_get o' k) fb"

subsection \<open>Cloning and shallow update\<close>

text \<open>An array clone pushes the clones one by one; an object clone copies the key and value
  arrays as they are, without searching.\<close>

fun sbj_clone :: "sbj \<Rightarrow> sbj"
  and clone_items :: "sbj \<Rightarrow> sbj list \<Rightarrow> sbj"
  and clone_members :: "members \<Rightarrow> members" where
  "sbj_clone SBJ_NULL = sbj_null"
| "sbj_clone (SBJ_BOOL b) = sbj_bool b"
| "sbj_clone (SBJ_INT i) = sbj_int i"
| "sbj_clone (SBJ_UINT u) = sbj_uint u"
| "sbj_clone (SBJ_FLOAT f) = sbj_float f"
| "sbj_clone (SBJ_STRING s) = sbj_strn s"
| "sbj_clone (SBJ_ARRAY xs) = clone_items sbj_array xs"
| "sbj_clone (SBJ_OBJECT kvs) = SBJ_OBJECT (clone_members kvs)"
| "clone_items a [] = a"
| "clone_items a (x # xs) = clone_items (sbj_arr_push a (Some (sbj_clone x))) xs"
| "clone_members [] = []"
| "clone_members ((k, v) # kvs) = (k, sbj_clone v) # clone_members kvs"

definition sbj_update :: "sbj \<Rightarrow> sbj option \<Rightarrow> sbj" where
  "sbj_update dst src =
     (case (dst, src) of
        (SBJ_OBJECT _, Some (SBJ_OBJECT kvs)) \<Rightarrow>
          foldl (\<lambda>d (k, v). sbj_setn d (Some k) (Some (sbj_clone v))) dst kvs
      | _ \<Rightarrow> dst)"

subsection \<open>Key order\<close>

lemma byte_trichotomy: "\<not> byte a < byte b \<Longrightarrow> \<not> byte b < byte a \<Longrightarrow> a = b"
  by (simp add: char_eq_byte [of a b] del: of_char_eq_iff)

lemma memcmp_less: "length a = length b \<Longrightarrow> memcmp a b < 0 \<longleftrightarrow> a < b"
proof (induction a b rule: memcmp.induct)
  case (1 a as b bs)
  then show ?case
    using byte_trichotomy [of a b] by (cases "a = b") (auto simp: less_char_def)
qed simp_all

lemma memcmp_zero: "length a = length b \<Longrightarrow> memcmp a b = 0 \<longleftrightarrow> a = b"
proof (induction a b rule: memcmp.induct)
  case (1 a as b bs)
  then show ?case
    using byte_trichotomy [of a b] by (cases "a = b") simp_all
qed simp_all

lemma list_less_take:
  fixes a b :: "'a::linorder list"
  assumes "n \<le> length a" "n \<le> length b"
  shows "a < b \<longleftrightarrow> take n a < take n b \<or> take n a = take n b \<and> drop n a < drop n b"
  using assms
proof (induction n arbitrary: a b)
  case (Suc n)
  then obtain x a' y b' where "a = x # a'" "b = y # b'"
    by (metis Suc_le_length_iff)
  moreover from this Suc have "a' < b' \<longleftrightarrow> take n a' < take n b' \<or> take n a' = take n b' \<and> drop n a' < drop n b'"
    by (intro Suc.IH) simp_all
  ultimately show ?case by (cases "x = y") simp_all
qed simp

lemma key_cmp_less: "key_cmp a b < 0 \<longleftrightarrow> a < b"
proof -
  let ?n = "min (length a) (length b)"
  have "a < b \<longleftrightarrow> take ?n a < take ?n b \<or> take ?n a = take ?n b \<and> drop ?n a < drop ?n b"
    by (rule list_less_take) simp_all
  moreover have "drop ?n a < drop ?n b \<longleftrightarrow> length a < length b"
  proof (cases "length a < length b")
    case True
    then have "drop (length a) b \<noteq> []" by simp
    then have "[] < drop (length a) b" by (metis Nil_less_Cons neq_Nil_conv)
    with True show ?thesis by (simp add: min_def)
  qed (simp add: min_def)
  moreover have "key_cmp a b =
      (let c = memcmp (take ?n a) (take ?n b) in
       if c = 0 then (if length a < length b then -1 else if length a > length b then 1 else 0)
       else c)"
    by (simp add: key_cmp_def min_def Let_def)
  ultimately show ?thesis
    using memcmp_less [of "take ?n a" "take ?n b"] memcmp_zero [of "take ?n a" "take ?n b"]
    by (auto simp: Let_def)
qed

lemma key_cmp_zero: "key_cmp a b = 0 \<longleftrightarrow> a = b"
proof -
  let ?n = "min (length a) (length b)"
  have "key_cmp a b = 0 \<longleftrightarrow> length a = length b \<and> take ?n a = take ?n b"
    using memcmp_zero [of "take ?n a" "take ?n b"]
    by (auto simp: key_cmp_def Let_def min_def split: if_splits)
  then show ?thesis by auto
qed

subsection \<open>Binary search\<close>

definition sorted_keys :: "('k::linorder \<times> 'v) list \<Rightarrow> bool" where
  "sorted_keys kvs \<longleftrightarrow> sorted_wrt (<) (map fst kvs)"

lemma sorted_keys_nth:
  "sorted_keys kvs \<Longrightarrow> i < j \<Longrightarrow> j < length kvs \<Longrightarrow> fst (kvs ! i) < fst (kvs ! j)"
  unfolding sorted_keys_def using sorted_wrt_nth_less [of "(<)" "map fst kvs" i j] by simp

definition is_slot :: "members \<Rightarrow> string \<Rightarrow> nat \<times> bool \<Rightarrow> bool" where
  "is_slot kvs key r \<longleftrightarrow>
     (case r of (i, found) \<Rightarrow>
        i \<le> length kvs \<and> (\<forall>j<i. fst (kvs ! j) < key) \<and>
        (if found then i < length kvs \<and> fst (kvs ! i) = key
         else \<forall>j. i \<le> j \<longrightarrow> j < length kvs \<longrightarrow> key < fst (kvs ! j)))"

lemma obj_find_loop_slot:
  "sorted_keys kvs \<Longrightarrow> hi \<le> length kvs \<Longrightarrow> lo \<le> hi \<Longrightarrow> \<forall>j<lo. fst (kvs ! j) < key \<Longrightarrow>
    \<forall>j. hi \<le> j \<longrightarrow> j < length kvs \<longrightarrow> key < fst (kvs ! j) \<Longrightarrow>
    is_slot kvs key (obj_find_loop kvs key lo hi)"
proof (induction kvs key lo hi rule: obj_find_loop.induct)
  case (1 kvs key lo hi)
  note prems = 1(3-7)
  show ?case
  proof (cases "lo < hi")
    case False
    with prems show ?thesis by (simp add: obj_find_loop.simps is_slot_def)
  next
    case True
    define mid where "mid = lo + (hi - lo) div 2"
    have mid: "lo \<le> mid" "mid < hi" "mid < length kvs"
      using True prems(2) by (auto simp: mid_def)
    note unf = obj_find_loop.simps [of kvs key lo hi, folded mid_def, unfolded Let_def]
    have below: "fst (kvs ! j) < fst (kvs ! mid)" if "j < mid" for j
      using sorted_keys_nth [OF prems(1) that mid(3)] .
    have above: "fst (kvs ! mid) < fst (kvs ! j)" if "mid < j" "j < length kvs" for j
      using sorted_keys_nth [OF prems(1) that] .
    consider "fst (kvs ! mid) = key" | "fst (kvs ! mid) < key" | "key < fst (kvs ! mid)"
      by (metis linorder_less_linear)
    then show ?thesis
    proof cases
      case eq: 1
      with True have "obj_find_loop kvs key lo hi = (mid, True)"
        by (simp add: unf key_cmp_zero)
      then show ?thesis using eq mid below by (simp add: is_slot_def)
    next
      case lt: 2
      then have c: "key_cmp (fst (kvs ! mid)) key \<noteq> 0" "key_cmp (fst (kvs ! mid)) key < 0"
        by (auto simp: key_cmp_zero key_cmp_less)
      have "fst (kvs ! j) < key" if "j < mid + 1" for j
        using that lt below by (metis less_Suc_eq Suc_eq_plus1 less_trans)
      then have "is_slot kvs key (obj_find_loop kvs key (mid + 1) hi)"
        using 1(1) [OF True mid_def refl c] prems mid by simp
      then show ?thesis using True c by (simp add: unf)
    next
      case gt: 3
      then have c: "key_cmp (fst (kvs ! mid)) key \<noteq> 0" "\<not> key_cmp (fst (kvs ! mid)) key < 0"
        by (auto simp: key_cmp_zero key_cmp_less)
      have "key < fst (kvs ! j)" if "mid \<le> j" "j < length kvs" for j
        using that gt above by (metis le_neq_implies_less less_trans)
      then have "is_slot kvs key (obj_find_loop kvs key lo mid)"
        using 1(2) [OF True mid_def refl c] prems mid by simp
      then show ?thesis using True c by (simp add: unf)
    qed
  qed
qed

lemma obj_find_slot: "sorted_keys kvs \<Longrightarrow> is_slot kvs key (obj_find kvs key)"
  unfolding obj_find_def by (rule obj_find_loop_slot) auto

subsection \<open>Objects as finite maps\<close>

text \<open>The contract of a keyed container whose representation is canonical: lookups determine
  the object.\<close>

locale object_map =
  fixes empty :: 'o
    and lookup :: "'o \<Rightarrow> 'k \<Rightarrow> 'v option"
    and update :: "'o \<Rightarrow> 'k \<Rightarrow> 'v \<Rightarrow> 'o"
    and delete :: "'o \<Rightarrow> 'k \<Rightarrow> 'o"
    and invar :: "'o \<Rightarrow> bool"
  assumes invar_empty: "invar empty"
    and invar_update: "invar m \<Longrightarrow> invar (update m k v)"
    and invar_delete: "invar m \<Longrightarrow> invar (delete m k)"
    and lookup_empty: "lookup empty k = None"
    and lookup_update: "invar m \<Longrightarrow> lookup (update m k v) = (lookup m)(k \<mapsto> v)"
    and lookup_delete: "invar m \<Longrightarrow> lookup (delete m k) = (lookup m)(k := None)"
    and lookup_ext: "invar m \<Longrightarrow> invar n \<Longrightarrow> lookup m = lookup n \<Longrightarrow> m = n"
begin

lemma update_twice: "invar m \<Longrightarrow> update (update m k v) k w = update m k w"
  by (rule lookup_ext) (simp_all add: invar_update lookup_update)

lemma update_commute:
  "invar m \<Longrightarrow> k \<noteq> l \<Longrightarrow> update (update m k v) l w = update (update m l w) k v"
  by (rule lookup_ext) (simp_all add: invar_update lookup_update fun_upd_twist)

lemma update_same: "invar m \<Longrightarrow> lookup m k = Some v \<Longrightarrow> update m k v = m"
  by (rule lookup_ext) (simp_all add: invar_update lookup_update fun_upd_idem)

lemma delete_update: "invar m \<Longrightarrow> lookup m k = None \<Longrightarrow> delete (update m k v) k = m"
  by (rule lookup_ext)
    (simp_all add: invar_update invar_delete lookup_update lookup_delete fun_upd_idem)

lemma delete_absent: "invar m \<Longrightarrow> lookup m k = None \<Longrightarrow> delete m k = m"
  by (rule lookup_ext) (simp_all add: invar_delete lookup_delete fun_upd_idem)

lemma invar_foldl: "invar m \<Longrightarrow> invar (foldl (\<lambda>m (k, v). update m k (f v)) m kvs)"
  by (induction kvs arbitrary: m) (auto simp: invar_update)

lemma lookup_foldl:
  "invar m \<Longrightarrow> distinct (map fst kvs) \<Longrightarrow>
     lookup (foldl (\<lambda>m (k, v). update m k (f v)) m kvs) =
       lookup m ++ (map_option f \<circ> map_of kvs)"
proof (induction kvs arbitrary: m)
  case Nil
  then show ?case by (simp add: comp_def map_add_def)
next
  case (Cons kv kvs)
  obtain k v where kv: "kv = (k, v)" by (cases kv)
  have "map_of kvs k = None" using Cons.prems kv by (simp add: map_of_eq_None_iff)
  with Cons kv show ?case
    by (simp add: invar_update lookup_update fun_eq_iff map_add_def split: option.splits)
qed

end

lemma sorted_keys_simps [simp]:
  "sorted_keys []"
  "sorted_keys ((k, v) # kvs) \<longleftrightarrow> (\<forall>l\<in>fst ` set kvs. k < l) \<and> sorted_keys kvs"
  "sorted_keys (kvs @ kvs') \<longleftrightarrow>
     sorted_keys kvs \<and> sorted_keys kvs' \<and> (\<forall>k\<in>fst ` set kvs. \<forall>l\<in>fst ` set kvs'. k < l)"
  by (auto simp: sorted_keys_def sorted_wrt_append)

lemma sorted_keys_distinct: "sorted_keys kvs \<Longrightarrow> distinct (map fst kvs)"
  unfolding sorted_keys_def using strict_sorted_iff by blast

text \<open>What a search finds, as a decomposition of the member list.\<close>

lemma obj_find_cases:
  assumes "sorted_keys kvs"
  obtains (found) xs v ys where "kvs = xs @ (key, v) # ys" "obj_find kvs key = (length xs, True)"
      "\<forall>k\<in>fst ` set xs. k < key" "\<forall>k\<in>fst ` set ys. key < k"
    | (absent) xs ys where "kvs = xs @ ys" "obj_find kvs key = (length xs, False)"
      "\<forall>k\<in>fst ` set xs. k < key" "\<forall>k\<in>fst ` set ys. key < k"
proof -
  obtain i f where r: "obj_find kvs key = (i, f)" by (cases "obj_find kvs key")
  with obj_find_slot [OF assms, of key] have s: "i \<le> length kvs" "\<forall>j<i. fst (kvs ! j) < key"
    "if f then i < length kvs \<and> fst (kvs ! i) = key
     else \<forall>j. i \<le> j \<longrightarrow> j < length kvs \<longrightarrow> key < fst (kvs ! j)"
    by (simp_all add: is_slot_def)
  have lt: "\<forall>k\<in>fst ` set (take i kvs). k < key" using s(1,2) by (fastforce simp: in_set_conv_nth)
  have len: "length (take i kvs) = i" using s(1) by simp
  show ?thesis
  proof (cases f)
    case True
    with s have i: "i < length kvs" "kvs ! i = (key, snd (kvs ! i))" by (auto simp: prod_eq_iff)
    then have k: "kvs = take i kvs @ (key, snd (kvs ! i)) # drop (Suc i) kvs"
      by (metis id_take_nth_drop)
    have "\<forall>k\<in>fst ` set (drop (Suc i) kvs). key < k"
      using assms by (subst (asm) k) simp
    then show ?thesis using found [OF k] r True lt len by simp
  next
    case False
    with s(3) have gt: "key < fst (kvs ! j)" if "i \<le> j" "j < length kvs" for j
      using that by simp
    have "\<forall>k\<in>fst ` set (drop i kvs). key < k"
    proof
      fix k
      assume "k \<in> fst ` set (drop i kvs)"
      then obtain n where "n < length kvs - i" "k = fst (kvs ! (i + n))"
        using s(1) by (auto simp: in_set_conv_nth image_iff)
      then show "key < k" using gt [of "i + n"] by simp
    qed
    then show ?thesis using absent [of "take i kvs" "drop i kvs"] r False lt len by simp
  qed
qed

lemma map_of_bounds:
  "\<forall>k\<in>fst ` set kvs. k < key \<Longrightarrow> map_of kvs key = None"
  "\<forall>k\<in>fst ` set kvs. key < k \<Longrightarrow> map_of kvs key = None"
  for key :: "'k::linorder"
  by (auto simp: map_of_eq_None_iff)

lemma obj_getn_map_of: "sorted_keys kvs \<Longrightarrow> obj_getn kvs key = map_of kvs key"
  by (cases rule: obj_find_cases [of kvs key])
    (simp_all add: obj_getn_def nth_append map_add_def map_of_bounds)

lemma obj_setn_sorted: "sorted_keys kvs \<Longrightarrow> sorted_keys (obj_setn kvs key v)"
  by (cases rule: obj_find_cases [of kvs key])
    (auto simp: obj_setn_def list_update_append nth_append)

lemma map_of_obj_setn: "sorted_keys kvs \<Longrightarrow> map_of (obj_setn kvs key v) = (map_of kvs)(key \<mapsto> v)"
  by (cases rule: obj_find_cases [of kvs key])
    (simp_all add: obj_setn_def list_update_append nth_append map_of_bounds map_add_upd_left
      fun_eq_iff map_add_def split: option.splits)

lemma obj_take_sorted: "sorted_keys kvs \<Longrightarrow> sorted_keys (snd (obj_take kvs key))"
  by (cases rule: obj_find_cases [of kvs key]) (auto simp: obj_take_def)

lemma map_of_obj_take:
  "sorted_keys kvs \<Longrightarrow> map_of (snd (obj_take kvs key)) = (map_of kvs)(key := None)"
  by (cases rule: obj_find_cases [of kvs key])
    (simp_all add: obj_take_def fun_eq_iff map_add_def map_of_bounds split: option.splits)

lemma fst_obj_take: "fst (obj_take kvs key) = obj_getn kvs key"
  by (simp add: obj_take_def obj_getn_def split_beta)

lemma map_of_keys: "distinct (map fst kvs) \<Longrightarrow> map (\<lambda>k. (k, the (map_of kvs k))) (map fst kvs) = kvs"
  unfolding map_map by (rule map_idI) (auto simp: comp_def)

lemma sorted_keys_ext:
  "sorted_keys kvs \<Longrightarrow> sorted_keys kvs' \<Longrightarrow> map_of kvs = map_of kvs' \<Longrightarrow> kvs = kvs'"
  for kvs kvs' :: "('k::linorder \<times> 'v) list"
proof -
  assume s: "sorted_keys kvs" "sorted_keys kvs'" and m: "map_of kvs = map_of kvs'"
  have "fst ` set kvs = fst ` set kvs'" using m by (metis dom_map_of_conv_image_fst)
  then have "map fst kvs = map fst kvs'"
    using s unfolding sorted_keys_def by (intro strict_sorted_equal) simp_all
  then show "kvs = kvs'"
    using m map_of_keys [OF sorted_keys_distinct] s by metis
qed

interpretation obj:
  object_map "[]" obj_getn obj_setn "\<lambda>kvs k. snd (obj_take kvs k)" sorted_keys
proof
  fix m n :: members
  assume "sorted_keys m" "sorted_keys n" "obj_getn m = obj_getn n"
  then show "m = n"
    by (intro sorted_keys_ext) (simp_all add: obj_getn_map_of [symmetric] fun_eq_iff)
qed (auto simp: obj_setn_sorted obj_take_sorted obj_getn_map_of map_of_obj_setn map_of_obj_take
    fun_eq_iff)

subsection \<open>Well-formed values\<close>

text \<open>The invariant of every value the library builds: integers in range, \<open>SBJ_UINT\<close> only above
  \<open>INT64_MAX\<close>, members strictly sorted by key.\<close>

lemma size_member [termination_simp]:
  "(k, v) \<in> set kvs \<Longrightarrow> size v < Suc (size_list (size_prod (\<lambda>x. 0) size) kvs)"
  by (induction kvs) auto

fun wf_json :: "sbj \<Rightarrow> bool" where
  "wf_json (SBJ_INT i) = in_i64 i"
| "wf_json (SBJ_UINT u) = (2 ^ 63 \<le> u \<and> u < 2 ^ 64)"
| "wf_json (SBJ_ARRAY xs) = (\<forall>x\<in>set xs. wf_json x)"
| "wf_json (SBJ_OBJECT kvs) = (sorted_keys kvs \<and> (\<forall>(k, v)\<in>set kvs. wf_json v))"
| "wf_json _ = True"

fun float_free :: "sbj \<Rightarrow> bool" where
  "float_free (SBJ_FLOAT f) = False"
| "float_free (SBJ_ARRAY xs) = (\<forall>x\<in>set xs. float_free x)"
| "float_free (SBJ_OBJECT kvs) = (\<forall>(k, v)\<in>set kvs. float_free v)"
| "float_free _ = True"

abbreviation wf_opt :: "sbj option \<Rightarrow> bool" where
  "wf_opt v \<equiv> pred_option wf_json v"

lemmas sbj_ctor_defs = sbj_null_def sbj_bool_def sbj_int_def sbj_float_def sbj_strn_def
  sbj_array_def sbj_object_def

lemma sbj_is_object_iff: "sbj_is_object v \<longleftrightarrow> (\<exists>kvs. v = Some (SBJ_OBJECT kvs))"
  by (cases v rule: sbj_is_object.cases) auto

lemma sbj_is_array_iff: "sbj_is_array v \<longleftrightarrow> (\<exists>xs. v = Some (SBJ_ARRAY xs))"
  by (cases v rule: sbj_is_array.cases) auto

lemma sbj_is_string_iff: "sbj_is_string v \<longleftrightarrow> (\<exists>s. v = Some (SBJ_STRING s))"
  by (cases v rule: sbj_is_string.cases) auto

lemma sbj_is_null_iff: "sbj_is_null v \<longleftrightarrow> v = None \<or> v = Some SBJ_NULL"
  by (cases v rule: sbj_is_null.cases) auto

lemma wf_or_null [simp]: "wf_json (or_null v) \<longleftrightarrow> wf_opt v"
  by (cases v) (simp_all add: or_null_def sbj_null_def)

lemma sbj_accessors:
  "sbj_get (Some (SBJ_OBJECT kvs)) (Some k) = obj_getn kvs k"
  "sbj_set (SBJ_OBJECT kvs) (Some k) v = SBJ_OBJECT (obj_setn kvs k (or_null v))"
  "sbj_get v None = None"
  "sbj_set u None v = u"
  "sbj_get None kk = None"
  "\<not> sbj_is_object (Some u) \<Longrightarrow> sbj_set u kk v = u"
  "\<not> sbj_is_object w \<Longrightarrow> sbj_get w kk = None"
  by (auto simp: sbj_get_def sbj_getn_def sbj_set_def sbj_setn_def
      split: option.splits sbj.splits)

lemma sbj_set_kind [simp]:
  "sbj_is_object (Some (sbj_set u k v)) \<longleftrightarrow> sbj_is_object (Some u)"
  "sbj_is_array (Some (sbj_set u k v)) \<longleftrightarrow> sbj_is_array (Some u)"
  by (cases u; cases k; simp add: sbj_accessors)+

lemma sbj_get_set:
  assumes "wf_json u" "sbj_is_object (Some u)"
  shows "sbj_get (Some (sbj_set u (Some k) v)) (Some l) =
    (if l = k then Some (or_null v) else sbj_get (Some u) (Some l))"
  using assms obj.lookup_update by (auto simp: sbj_is_object_iff sbj_accessors)

lemma set_obj_setn: "set (obj_setn kvs k v) \<subseteq> insert (k, v) (set kvs)"
  if "sorted_keys kvs"
  using that by (cases rule: obj_find_cases [of kvs k])
    (auto simp: obj_setn_def list_update_append nth_append)

lemma wf_sbj_set [intro]: "wf_json u \<Longrightarrow> wf_opt v \<Longrightarrow> wf_json (sbj_set u k v)"
proof -
  assume u: "wf_json u" "wf_opt v"
  show ?thesis
  proof (cases "sbj_is_object (Some u) \<and> k \<noteq> None")
    case True
    then obtain kvs key where "u = SBJ_OBJECT kvs" "k = Some key"
      by (auto simp: sbj_is_object_iff)
    with u set_obj_setn [of kvs key "or_null v"] show ?thesis
      by (fastforce simp: sbj_accessors obj.invar_update)
  qed (use u in \<open>auto simp: sbj_accessors\<close>)
qed

lemma wf_sbj_get [intro]: "wf_opt u \<Longrightarrow> wf_opt (sbj_get u k)"
proof -
  assume u: "wf_opt u"
  show ?thesis
  proof (cases "sbj_is_object u \<and> k \<noteq> None")
    case True
    then obtain kvs key where "u = Some (SBJ_OBJECT kvs)" "k = Some key"
      by (auto simp: sbj_is_object_iff)
    with u show ?thesis
      by (auto simp: sbj_accessors obj_getn_map_of option.pred_set dest: map_of_SomeD)
  qed (auto simp: sbj_accessors)
qed

lemma wf_sbj_get_Some: "wf_json u \<Longrightarrow> sbj_get (Some u) k = Some v \<Longrightarrow> wf_json v"
  using wf_sbj_get [of "Some u" k] by simp

lemma wf_sbj_modify [intro]:
  "wf_json u \<Longrightarrow> (\<And>v. wf_json v \<Longrightarrow> wf_json (f v)) \<Longrightarrow> wf_json (sbj_modify u k f)"
  by (cases "sbj_get (Some u) (Some k)")
    (simp_all add: sbj_modify_def wf_sbj_set wf_sbj_get_Some)

lemma wf_sbj_get_or:
  "wf_json u \<Longrightarrow> wf_json (sbj_get_or_object u k)"
  "wf_json u \<Longrightarrow> wf_json (sbj_get_or_array u k)"
  by (auto simp: sbj_get_or_object_def sbj_get_or_array_def sbj_object_def sbj_array_def
      split: option.splits)

lemma wf_arr_ops:
  "wf_json a \<Longrightarrow> wf_opt v \<Longrightarrow> wf_json (sbj_arr_push a v)"
  "wf_json a \<Longrightarrow> wf_opt v \<Longrightarrow> wf_json (sbj_arr_insert a i v)"
  "wf_json a \<Longrightarrow> wf_json (snd (sbj_arr_take a i))"
  "wf_json a \<Longrightarrow> wf_json (sbj_arr_remove a i)"
  "wf_json a \<Longrightarrow> wf_json (sbj_arr_clear a)"
  "wf_opt w \<Longrightarrow> wf_opt (sbj_arr_at w i)"
proof -
  show t: "wf_json a \<Longrightarrow> wf_json (snd (sbj_arr_take a i))"
    by (cases a) (auto dest: in_set_takeD in_set_dropD)
  then show "wf_json a \<Longrightarrow> wf_json (sbj_arr_remove a i)" by (simp add: sbj_arr_remove_def)
  show "wf_json a \<Longrightarrow> wf_opt v \<Longrightarrow> wf_json (sbj_arr_push a v)" by (cases a) auto
  show "wf_json a \<Longrightarrow> wf_opt v \<Longrightarrow> wf_json (sbj_arr_insert a i v)"
    by (cases a) (auto simp: Let_def dest: in_set_takeD in_set_dropD)
  show "wf_json a \<Longrightarrow> wf_json (sbj_arr_clear a)" by (cases a) auto
  show "wf_opt w \<Longrightarrow> wf_opt (sbj_arr_at w i)"
    by (cases w rule: sbj_is_array.cases) auto
qed

lemma set_obj_take: "sorted_keys kvs \<Longrightarrow> set (snd (obj_take kvs k)) \<subseteq> set kvs"
  by (cases rule: obj_find_cases [of kvs k]) (auto simp: obj_take_def)

lemma wf_sbj_take:
  "wf_json u \<Longrightarrow> wf_json (snd (sbj_take u k))" "wf_json u \<Longrightarrow> wf_opt (fst (sbj_take u k))"
proof -
  assume u: "wf_json u"
  have "wf_json (snd (sbj_take u k)) \<and> wf_opt (fst (sbj_take u k))"
  proof (cases "sbj_is_object (Some u) \<and> k \<noteq> None")
    case True
    then obtain kvs key where k: "u = SBJ_OBJECT kvs" "k = Some key"
      by (auto simp: sbj_is_object_iff)
    then have "sorted_keys (snd (obj_take kvs key))" "set (snd (obj_take kvs key)) \<subseteq> set kvs"
      using u set_obj_take obj_take_sorted by auto
    moreover have "wf_opt (obj_getn kvs key)"
      using wf_sbj_get [of "Some u" k] u by (simp add: k sbj_accessors)
    ultimately show ?thesis
      using u k by (auto simp: sbj_take_def split_beta fst_obj_take)
  next
    case False
    then show ?thesis
      using u by (cases u; cases k) (auto simp: sbj_take_def split: option.splits)
  qed
  then show "wf_json (snd (sbj_take u k))" "wf_opt (fst (sbj_take u k))" by simp_all
qed

lemma sbj_get_del:
  assumes "wf_json u" "sbj_is_object (Some u)"
  shows "sbj_get (Some (snd (sbj_del u (Some k)))) (Some l) =
    (if l = k then None else sbj_get (Some u) (Some l))"
  using assms obj.lookup_delete
  by (auto simp: sbj_is_object_iff sbj_accessors sbj_del_def sbj_take_def split_beta)

lemma wf_sbj_del: "wf_json u \<Longrightarrow> wf_json (snd (sbj_del u k))"
  using wf_sbj_take [of u k] by (simp add: sbj_del_def split_beta)

lemma sbj_del_kind [simp]:
  "sbj_is_object (Some (snd (sbj_del u k))) \<longleftrightarrow> sbj_is_object (Some u)"
  by (cases u; cases k) (simp_all add: sbj_del_def sbj_take_def split_beta)

subsection \<open>Cloning and equality\<close>

lemma sbj_clone_id:
  "wf_json v \<Longrightarrow> sbj_clone v = v"
  "\<forall>x\<in>set xs. wf_json x \<Longrightarrow> clone_items (SBJ_ARRAY ys) xs = SBJ_ARRAY (ys @ xs)"
  "\<forall>(k, v)\<in>set kvs. wf_json v \<Longrightarrow> clone_members kvs = kvs"
proof (induction v and "SBJ_ARRAY ys" xs and kvs arbitrary: and ys
    rule: sbj_clone_clone_items_clone_members.induct)
qed (auto simp: sbj_ctor_defs sbj_uint_def or_null_def)

lemma num_cmp_equal_iff:
  "sbj_is_number (Some a) \<Longrightarrow> sbj_is_number (Some b) \<Longrightarrow> \<not> is_float a \<Longrightarrow> \<not> is_float b \<Longrightarrow>
     num_cmp_equal a b \<longleftrightarrow> a = b"
  by (cases a; cases b) (simp_all add: num_cmp_equal_def)

lemma sbj_eq_iff:
  "float_free a \<Longrightarrow> float_free b \<Longrightarrow> sbj_eq a b \<longleftrightarrow> a = b"
  "\<forall>x\<in>set xs. float_free x \<Longrightarrow> \<forall>y\<in>set ys. float_free y \<Longrightarrow> length xs = length ys \<Longrightarrow>
     sbj_eq_arr xs ys \<longleftrightarrow> xs = ys"
  "\<forall>(k, v)\<in>set kvs. float_free v \<Longrightarrow> \<forall>(k, v)\<in>set lvs. float_free v \<Longrightarrow>
     length kvs = length lvs \<Longrightarrow> sbj_eq_obj kvs lvs \<longleftrightarrow> kvs = lvs"
proof (induction a b and xs ys and kvs lvs rule: sbj_eq_sbj_eq_arr_sbj_eq_obj.induct)
  case (3 i b)
  then show ?case by (cases b) (auto simp: num_cmp_equal_def)
next
  case (4 u b)
  then show ?case by (cases b) (auto simp: num_cmp_equal_def)
qed (auto split: sbj.splits list.splits)

lemma sbj_equal_iff:
  "float_free a \<Longrightarrow> float_free b \<Longrightarrow> sbj_equal (Some a) (Some b) \<longleftrightarrow> a = b"
  by (simp add: sbj_equal_def sbj_eq_iff)

lemma sbj_update_members:
  "foldl (\<lambda>d (k, v). sbj_setn d (Some k) (Some (sbj_clone v))) (SBJ_OBJECT m) kvs =
     SBJ_OBJECT (foldl (\<lambda>m (k, v). obj_setn m k (sbj_clone v)) m kvs)"
  by (induction kvs arbitrary: m) (auto simp: sbj_setn_def or_null_def)

lemma sbj_get_update:
  assumes "wf_json d" "wf_json s" "sbj_is_object (Some d)" "sbj_is_object (Some s)"
  shows "sbj_get (Some (sbj_update d (Some s))) (Some k) =
    (case sbj_get (Some s) (Some k) of Some v \<Rightarrow> Some v | None \<Rightarrow> sbj_get (Some d) (Some k))"
proof -
  obtain m kvs where d: "d = SBJ_OBJECT m" and s: "s = SBJ_OBJECT kvs"
    using assms by (auto simp: sbj_is_object_iff)
  then show ?thesis
    using assms obj.lookup_foldl [of m kvs sbj_clone]
    by (auto simp: sbj_update_def sbj_update_members sbj_accessors sorted_keys_distinct
        map_add_def obj_getn_map_of sbj_clone_id split: option.splits dest!: map_of_SomeD)
qed

lemma wf_sbj_setn: "wf_json u \<Longrightarrow> wf_opt v \<Longrightarrow> wf_json (sbj_setn u k v)"
  using wf_sbj_set [of u v k] by (simp add: sbj_set_def)

lemma wf_foldl_setn:
  "wf_json d \<Longrightarrow> \<forall>(k, v)\<in>set kvs. wf_json v \<Longrightarrow>
    wf_json (foldl (\<lambda>d (k, v). sbj_setn d (Some k) (Some (sbj_clone v))) d kvs)"
  by (induction kvs arbitrary: d) (auto simp: wf_sbj_setn sbj_clone_id)

lemma wf_sbj_update: "wf_json d \<Longrightarrow> wf_opt s \<Longrightarrow> wf_json (sbj_update d s)"
  by (auto simp: sbj_update_def wf_foldl_setn split: sbj.splits option.splits)

subsection \<open>Evaluation\<close>

text \<open>The members as an association list: how concrete objects are evaluated in examples.\<close>

lemmas obj_eval = obj_getn_def obj_setn_def obj_take_def obj_find_def obj_find_loop.simps key_cmp_def

subsection \<open>Properties\<close>

text \<open>(C10) The sorted member array behind an object implements a finite map: the binary search
  finds exactly the keys that are there, setting and taking a key are map update and deletion, and
  the order of the keys is kept.\<close>

theorem object_refines_map:
  assumes "sorted_keys kvs"
  shows "obj_getn kvs k = map_of kvs k
    \<and> map_of (obj_setn kvs k v) = (map_of kvs)(k \<mapsto> v) \<and> sorted_keys (obj_setn kvs k v)
    \<and> fst (obj_take kvs k) = map_of kvs k
    \<and> map_of (snd (obj_take kvs k)) = (map_of kvs)(k := None) \<and> sorted_keys (snd (obj_take kvs k))"
  using assms
  by (simp add: obj_getn_map_of map_of_obj_setn obj_setn_sorted fst_obj_take map_of_obj_take
      obj_take_sorted)

theorem object_refines_map_witness:
  "sorted_keys [(''a'', SBJ_NULL), (''c'', SBJ_NULL)]
    \<and> map_of (obj_setn [(''a'', SBJ_NULL), (''c'', SBJ_NULL)] ''b'' (SBJ_BOOL True)) ''b''
        = Some (SBJ_BOOL True)"
  using object_refines_map [of "[(''a'', SBJ_NULL), (''c'', SBJ_NULL)]" "''b''" "SBJ_BOOL True"]
  by (simp add: less_char_def)

text \<open>(C28) The order of insertion does not matter: two writes to different keys commute, a
  second write to a key replaces the first, and writing back a member that was read changes
  nothing.\<close>

theorem object_canonical:
  assumes "sorted_keys kvs"
  shows "(k \<noteq> l \<longrightarrow> obj_setn (obj_setn kvs k v) l w = obj_setn (obj_setn kvs l w) k v)
    \<and> obj_setn (obj_setn kvs k v) k w = obj_setn kvs k w
    \<and> (obj_getn kvs k = Some u \<longrightarrow> obj_setn kvs k u = kvs)"
  using assms obj.update_commute obj.update_twice obj.update_same by blast

theorem object_canonical_witness:
  "obj_setn (obj_setn [] ''b'' SBJ_NULL) ''a'' (SBJ_INT 1)
     = obj_setn (obj_setn [] ''a'' (SBJ_INT 1)) ''b'' SBJ_NULL"
  using object_canonical [of "[]" "''b''" "''a''" SBJ_NULL "SBJ_INT 1"] by simp

text \<open>(C29) Equality and cloning. On values without floats \<open>sbj_equal\<close> is structural equality, and a
  clone of a well-formed value is the value.\<close>

theorem sbj_equal_clone:
  assumes "float_free a" "float_free b" "wf_json a"
  shows "sbj_equal (Some a) (Some b) = (a = b) \<and> sbj_clone a = a"
  using assms by (simp add: sbj_equal_iff sbj_clone_id)

theorem sbj_equal_clone_witness:
  "sbj_equal (Some (SBJ_ARRAY [SBJ_INT 1])) (Some (SBJ_ARRAY [SBJ_INT 2])) = False
    \<and> sbj_clone (SBJ_ARRAY [SBJ_INT 1]) = SBJ_ARRAY [SBJ_INT 1]"
  using sbj_equal_clone [of "SBJ_ARRAY [SBJ_INT 1]" "SBJ_ARRAY [SBJ_INT 2]"]
  by (simp add: in_i64_def)

text \<open>(C31) Integers below \<open>2 ^ 53\<close> in magnitude survive a trip through \<open>double\<close>:
  \<open>sbj_as_int\<close> of the float that \<open>sbj_as_double\<close> gives is the integer.\<close>

theorem sbj_double_exact:
  assumes "\<bar>i\<bar> < 2 ^ 53"
  shows "sbj_as_int (Some (SBJ_FLOAT (sbj_as_double (Some (SBJ_INT i)) d))) fb = i"
  using dbl_to_i64_of_int [OF assms] by simp

theorem sbj_double_exact_witness:
  "sbj_as_int (Some (SBJ_FLOAT (sbj_as_double (Some (SBJ_INT (- 7))) 0))) 1 = - 7"
  using sbj_double_exact [of "- 7" 0 1] by simp

end
