(* ===== verification/Json_Grisu.thy ===== *)
theory Json_Grisu
  imports Double
begin

text \<open>
  \<open>c/src/json_grisu.inc\<close>, the Grisu2 digit generator behind \<open>dump_float\<close>. Significands are
  64-bit words and every operation on them wraps as in C; exponents are \<open>int\<close>.

  The loops carry fuel. \<open>diy_normalize\<close> shifts a non-zero word at most 63 times. The fraction
  loop of \<open>grisu2_digit_gen\<close> multiplies \<open>p2\<close> by ten modulo \<open>2 ^ k\<close> with \<open>k \<le> 63\<close>, so \<open>p2\<close>
  is zero after at most \<open>k\<close> rounds. \<open>grisu2_round\<close> adds \<open>ten_k\<close> to \<open>rest\<close> while
  \<open>delta - rest \<ge> ten_k\<close>.
\<close>

unbundle bit_operations_syntax

record diyfp =
  d_f :: "64 word"
  d_e :: int

definition diy_sub :: "diyfp \<Rightarrow> diyfp \<Rightarrow> diyfp" where
  "diy_sub x y = \<lparr>d_f = d_f x - d_f y, d_e = d_e x\<rparr>"

definition diy_mul :: "diyfp \<Rightarrow> diyfp \<Rightarrow> diyfp" where
  "diy_mul x y =
     (let u_lo = d_f x AND 0xFFFFFFFF; u_hi = drop_bit 32 (d_f x);
          v_lo = d_f y AND 0xFFFFFFFF; v_hi = drop_bit 32 (d_f y);
          p0 = u_lo * v_lo; p1 = u_lo * v_hi; p2 = u_hi * v_lo; p3 = u_hi * v_hi;
          Q = drop_bit 32 p0 + (p1 AND 0xFFFFFFFF) + (p2 AND 0xFFFFFFFF);
          Q' = Q + push_bit 31 1 in
      \<lparr>d_f = p3 + drop_bit 32 p2 + drop_bit 32 p1 + drop_bit 32 Q', d_e = d_e x + d_e y + 64\<rparr>)"

fun diy_normalize_loop :: "nat \<Rightarrow> diyfp \<Rightarrow> diyfp" where
  "diy_normalize_loop 0 x = x"
| "diy_normalize_loop (Suc n) x =
     (if drop_bit 63 (d_f x) = 0
      then diy_normalize_loop n \<lparr>d_f = push_bit 1 (d_f x), d_e = d_e x - 1\<rparr>
      else x)"

definition diy_normalize :: "diyfp \<Rightarrow> diyfp" where
  "diy_normalize x = diy_normalize_loop 64 x"

definition diy_normalize_to :: "diyfp \<Rightarrow> int \<Rightarrow> diyfp" where
  "diy_normalize_to x e = \<lparr>d_f = push_bit (nat (d_e x - e)) (d_f x), d_e = e\<rparr>"

record boundaries =
  b_w :: diyfp
  b_minus :: diyfp
  b_plus :: diyfp

definition compute_boundaries :: "double \<Rightarrow> boundaries" where
  "compute_boundaries bits =
     (let kPrecision = 53 :: nat;
          kBias = 1024 - 1 + (int kPrecision - 1);
          kMinExp = 1 - kBias;
          kHiddenBit = push_bit (kPrecision - 1) 1 :: 64 word;
          E = drop_bit (kPrecision - 1) bits;
          F = bits AND (kHiddenBit - 1);
          v = (if E = 0 then \<lparr>d_f = F, d_e = kMinExp\<rparr>
               else \<lparr>d_f = F + kHiddenBit, d_e = int (unat E) - kBias\<rparr>);
          lower_closer = (F = 0 \<and> E > 1);
          m_plus = \<lparr>d_f = 2 * d_f v + 1, d_e = d_e v - 1\<rparr>;
          m_minus = (if lower_closer then \<lparr>d_f = 4 * d_f v - 1, d_e = d_e v - 2\<rparr>
                     else \<lparr>d_f = 2 * d_f v - 1, d_e = d_e v - 1\<rparr>);
          plus' = diy_normalize m_plus in
      \<lparr>b_w = diy_normalize v, b_minus = diy_normalize_to m_minus (d_e plus'), b_plus = plus'\<rparr>)"

definition kCachedPowers :: "(64 word \<times> int \<times> int) list" where
  "kCachedPowers =
    [(0xAB70FE17C79AC6CA, - 1060, - 300), (0xFF77B1FCBEBCDC4F, - 1034, - 292),
     (0xBE5691EF416BD60C, - 1007, - 284), (0x8DD01FAD907FFC3C, - 980, - 276),
     (0xD3515C2831559A83, - 954, - 268), (0x9D71AC8FADA6C9B5, - 927, - 260),
     (0xEA9C227723EE8BCB, - 901, - 252), (0xAECC49914078536D, - 874, - 244),
     (0x823C12795DB6CE57, - 847, - 236), (0xC21094364DFB5637, - 821, - 228),
     (0x9096EA6F3848984F, - 794, - 220), (0xD77485CB25823AC7, - 768, - 212),
     (0xA086CFCD97BF97F4, - 741, - 204), (0xEF340A98172AACE5, - 715, - 196),
     (0xB23867FB2A35B28E, - 688, - 188), (0x84C8D4DFD2C63F3B, - 661, - 180),
     (0xC5DD44271AD3CDBA, - 635, - 172), (0x936B9FCEBB25C996, - 608, - 164),
     (0xDBAC6C247D62A584, - 582, - 156), (0xA3AB66580D5FDAF6, - 555, - 148),
     (0xF3E2F893DEC3F126, - 529, - 140), (0xB5B5ADA8AAFF80B8, - 502, - 132),
     (0x87625F056C7C4A8B, - 475, - 124), (0xC9BCFF6034C13053, - 449, - 116),
     (0x964E858C91BA2655, - 422, - 108), (0xDFF9772470297EBD, - 396, - 100),
     (0xA6DFBD9FB8E5B88F, - 369, - 92), (0xF8A95FCF88747D94, - 343, - 84),
     (0xB94470938FA89BCF, - 316, - 76), (0x8A08F0F8BF0F156B, - 289, - 68),
     (0xCDB02555653131B6, - 263, - 60), (0x993FE2C6D07B7FAC, - 236, - 52),
     (0xE45C10C42A2B3B06, - 210, - 44), (0xAA242499697392D3, - 183, - 36),
     (0xFD87B5F28300CA0E, - 157, - 28), (0xBCE5086492111AEB, - 130, - 20),
     (0x8CBCCC096F5088CC, - 103, - 12), (0xD1B71758E219652C, - 77, - 4),
     (0x9C40000000000000, - 50, 4), (0xE8D4A51000000000, - 24, 12),
     (0xAD78EBC5AC620000, 3, 20), (0x813F3978F8940984, 30, 28),
     (0xC097CE7BC90715B3, 56, 36), (0x8F7E32CE7BEA5C70, 83, 44),
     (0xD5D238A4ABE98068, 109, 52), (0x9F4F2726179A2245, 136, 60),
     (0xED63A231D4C4FB27, 162, 68), (0xB0DE65388CC8ADA8, 189, 76),
     (0x83C7088E1AAB65DB, 216, 84), (0xC45D1DF942711D9A, 242, 92),
     (0x924D692CA61BE758, 269, 100), (0xDA01EE641A708DEA, 295, 108),
     (0xA26DA3999AEF774A, 322, 116), (0xF209787BB47D6B85, 348, 124),
     (0xB454E4A179DD1877, 375, 132), (0x865B86925B9BC5C2, 402, 140),
     (0xC83553C5C8965D3D, 428, 148), (0x952AB45CFA97A0B3, 455, 156),
     (0xDE469FBD99A05FE3, 481, 164), (0xA59BC234DB398C25, 508, 172),
     (0xF6C69A72A3989F5C, 534, 180), (0xB7DCBF5354E9BECE, 561, 188),
     (0x88FCF317F22241E2, 588, 196), (0xCC20CE9BD35C78A5, 614, 204),
     (0x98165AF37B2153DF, 641, 212), (0xE2A0B5DC971F303A, 667, 220),
     (0xA8D9D1535CE3B396, 694, 228), (0xFB9B7CD9A4A7443C, 720, 236),
     (0xBB764C4CA7A44410, 747, 244), (0x8BAB8EEFB6409C1A, 774, 252),
     (0xD01FEF10A657842C, 800, 260), (0x9B10A4E5E9913129, 827, 268),
     (0xE7109BFBA19C0C9D, 853, 276), (0xAC2820D9623BF429, 880, 284),
     (0x80444B5E7AA7CF85, 907, 292), (0xBF21E44003ACDD2D, 933, 300),
     (0x8E679C2F5E44FF8F, 960, 308), (0xD433179D9C8CB841, 986, 316),
     (0x9E19DB92B4E31BA9, 1013, 324)]"

text \<open>Integer division of C truncates towards zero.\<close>

definition c_div :: "int \<Rightarrow> int \<Rightarrow> int" where
  "c_div a b = sgn a * sgn b * (\<bar>a\<bar> div \<bar>b\<bar>)"

definition get_cached_power :: "int \<Rightarrow> 64 word \<times> int \<times> int" where
  "get_cached_power e =
     (let f = - 60 - e - 1;
          k = c_div (f * 78913) (2 ^ 18) + (if f > 0 then 1 else 0);
          index = c_div (300 + k + (8 - 1)) 8 in
      kCachedPowers ! nat index)"

definition pow10_table :: "32 word list" where
  "pow10_table = [1000000000, 100000000, 10000000, 1000000, 100000, 10000, 1000, 100, 10]"

text \<open>The digit count and the power.\<close>

fun largest_pow10_loop :: "32 word \<Rightarrow> nat \<Rightarrow> 32 word list \<Rightarrow> nat \<times> 32 word" where
  "largest_pow10_loop n i [] = (1, 1)"
| "largest_pow10_loop n i (p # ps) = (if n \<ge> p then (10 - i, p) else largest_pow10_loop n (i + 1) ps)"

definition find_largest_pow10 :: "32 word \<Rightarrow> nat \<times> 32 word" where
  "find_largest_pow10 n = largest_pow10_loop n 0 pow10_table"

text \<open>The last character of the buffer is decremented in place.\<close>

definition dec_last :: "string \<Rightarrow> string" where
  "dec_last buf = buf[length buf - 1 := of_byte (byte (buf ! (length buf - 1)) - 1)]"

fun grisu2_round ::
  "nat \<Rightarrow> string \<Rightarrow> 64 word \<Rightarrow> 64 word \<Rightarrow> 64 word \<Rightarrow> 64 word \<Rightarrow> string" where
  "grisu2_round 0 buf dist delta rest ten_k = buf"
| "grisu2_round (Suc n) buf dist delta rest ten_k =
     (if rest < dist \<and> delta - rest \<ge> ten_k
         \<and> (rest + ten_k < dist \<or> dist - rest > rest + ten_k - dist)
      then grisu2_round n (dec_last buf) dist delta (rest + ten_k) ten_k
      else buf)"

text \<open>The integral loop: \<open>Inl\<close> when it returns early (buffer and decimal exponent), \<open>Inr\<close> the
  buffer when all \<open>n\<close> digits have been written.\<close>

fun digit_gen_int ::
  "nat \<Rightarrow> string \<Rightarrow> int \<Rightarrow> 64 word \<Rightarrow> 64 word \<Rightarrow> nat \<Rightarrow> 32 word \<Rightarrow> 64 word \<Rightarrow> 32 word \<Rightarrow>
   (string \<times> int) + string" where
  "digit_gen_int 0 buf dexp delta dist sh p1 p2 pow10 = Inr buf"
| "digit_gen_int (Suc n) buf dexp delta dist sh p1 p2 pow10 =
     (let d = p1 div pow10; r = p1 mod pow10;
          buf' = buf @ [of_byte (48 + unat d)];
          rest = push_bit sh (ucast r) + p2 in
      if rest \<le> delta
      then Inl (grisu2_round 10 buf' dist delta rest (push_bit sh (ucast pow10)), dexp + int n)
      else digit_gen_int n buf' dexp delta dist sh r p2 (pow10 div 10))"

fun digit_gen_frac ::
  "nat \<Rightarrow> string \<Rightarrow> int \<Rightarrow> 64 word \<Rightarrow> 64 word \<Rightarrow> nat \<Rightarrow> 64 word \<Rightarrow> 64 word \<Rightarrow> string \<times> int" where
  "digit_gen_frac 0 buf m delta dist sh p2 one = (buf, m)"
| "digit_gen_frac (Suc n) buf m delta dist sh p2 one =
     (let p2' = p2 * 10; d = drop_bit sh p2'; r = p2' AND (one - 1);
          buf' = buf @ [of_byte (48 + unat d)];
          delta' = delta * 10; dist' = dist * 10 in
      if r \<le> delta' then (grisu2_round 10 buf' dist' delta' r one, m + 1)
      else digit_gen_frac n buf' (m + 1) delta' dist' sh r one)"

definition grisu2_digit_gen :: "int \<Rightarrow> diyfp \<Rightarrow> diyfp \<Rightarrow> diyfp \<Rightarrow> string \<times> int" where
  "grisu2_digit_gen dexp M_minus w M_plus =
     (let delta = d_f (diy_sub M_plus M_minus);
          dist = d_f (diy_sub M_plus w);
          sh = nat (- d_e M_plus);
          one = push_bit sh 1 :: 64 word;
          p1 = ucast (drop_bit sh (d_f M_plus)) :: 32 word;
          p2 = d_f M_plus AND (one - 1);
          (n, pow10) = find_largest_pow10 p1 in
      case digit_gen_int n [] dexp delta dist sh p1 p2 pow10 of
        Inl r \<Rightarrow> r
      | Inr buf \<Rightarrow>
          (let (buf', m) = digit_gen_frac 64 buf 0 delta dist sh p2 one in (buf', dexp - m)))"

text \<open>The digits and the decimal exponent of a finite positive double.\<close>

definition grisu2 :: "double \<Rightarrow> string \<times> int" where
  "grisu2 value =
     (let b = compute_boundaries value;
          (cf, ce, ck) = get_cached_power (d_e (b_plus b));
          c_minus_k = \<lparr>d_f = cf, d_e = ce\<rparr>;
          w = diy_mul (b_w b) c_minus_k;
          w_minus = diy_mul (b_minus b) c_minus_k;
          w_plus = diy_mul (b_plus b) c_minus_k;
          M_minus = \<lparr>d_f = d_f w_minus + 1, d_e = d_e w_minus\<rparr>;
          M_plus = \<lparr>d_f = d_f w_plus - 1, d_e = d_e w_plus\<rparr> in
      grisu2_digit_gen (- ck) M_minus w M_plus)"

end
