(* ===== verification/Json_Dump.thy ===== *)
theory Json_Dump
  imports Json_Value Json_Grisu
begin

text \<open>
  The serialiser of \<open>c/src/json.c\<close>. The output buffer is only appended to, so a function that
  writes to it returns the bytes it appends. \<open>indent < 0\<close> is the compact form; otherwise
  members and items are on lines of their own.
\<close>

subsection \<open>Strings\<close>

definition hex_digit :: "nat \<Rightarrow> char" where
  "hex_digit n = of_byte (if n < 10 then 48 + n else 87 + n)"

text \<open>\<open>%04x\<close>, for values below \<open>2 ^ 16\<close>.\<close>

definition show_hex4 :: "nat \<Rightarrow> string" where
  "show_hex4 n = [hex_digit (n div 4096 mod 16), hex_digit (n div 256 mod 16),
     hex_digit (n div 16 mod 16), hex_digit (n mod 16)]"

definition dump_esc :: "char \<Rightarrow> string option" where
  "dump_esc c =
     (if c = CHR 0x22 then Some [CHR 0x5C, CHR 0x22]
      else if c = CHR 0x5C then Some [CHR 0x5C, CHR 0x5C]
      else if c = CHR 0x08 then Some [CHR 0x5C, CHR ''b'']
      else if c = CHR 0x0C then Some [CHR 0x5C, CHR ''f'']
      else if c = CHR 0x0A then Some [CHR 0x5C, CHR ''n'']
      else if c = CHR 0x0D then Some [CHR 0x5C, CHR ''r'']
      else if c = CHR 0x09 then Some [CHR 0x5C, CHR ''t'']
      else if byte c < 32 then Some (CHR 0x5C # CHR ''u'' # show_hex4 (byte c))
      else None)"

text \<open>The loop keeps a run of bytes that need no escape and flushes it before each escape.\<close>

fun dump_string_loop :: "string \<Rightarrow> string \<Rightarrow> string \<Rightarrow> string" where
  "dump_string_loop out run [] = out @ run"
| "dump_string_loop out run (c # cs) =
     (case dump_esc c of
        Some esc \<Rightarrow> dump_string_loop (out @ run @ esc) [] cs
      | None \<Rightarrow> dump_string_loop out (run @ [c]) cs)"

definition dump_string :: "string \<Rightarrow> string" where
  "dump_string s = dump_string_loop [CHR 0x22] [] s @ [CHR 0x22]"

subsection \<open>Numbers\<close>

definition dump_float_exp :: "int \<Rightarrow> string" where
  "dump_float_exp ex =
     (if ex < 0 then ''-'' else ''+'') @
     (let a = nat \<bar>ex\<bar> in if a < 10 then CHR ''0'' # show_nat a else show_nat a)"

definition dump_float :: "double \<Rightarrow> string" where
  "dump_float x =
     (if \<not> isfinite x then ''null''
      else
        (if signbit x then ''-'' else []) @
        (let x = dbl_abs x in
         if dbl_is_zero x then ''0.0''
         else
           (let (d, e) = grisu2 x; k = int (length d); n = k + e;
                max_exp = 15; min_exp = - 4 in
            if k \<le> n \<and> n \<le> max_exp
            then d @ replicate (nat (n - k)) (CHR ''0'') @ ''.0''
            else if 0 < n \<and> n \<le> max_exp
            then take (nat n) d @ ''.'' @ drop (nat n) d
            else if min_exp < n \<and> n \<le> 0
            then ''0.'' @ replicate (nat (- n)) (CHR ''0'') @ d
            else
              take 1 d @ (if 1 < k then ''.'' @ drop 1 d else []) @ ''e''
              @ dump_float_exp (n - 1))))"

subsection \<open>Values\<close>

definition dump_newline :: "int \<Rightarrow> nat \<Rightarrow> string" where
  "dump_newline indent level =
     (if indent \<ge> 0 then CHR 0x0A # replicate (nat indent * level) (CHR '' '') else [])"

fun dump_value :: "int \<Rightarrow> nat \<Rightarrow> sbj \<Rightarrow> string"
  and dump_items :: "int \<Rightarrow> nat \<Rightarrow> bool \<Rightarrow> sbj list \<Rightarrow> string"
  and dump_members :: "int \<Rightarrow> nat \<Rightarrow> bool \<Rightarrow> members \<Rightarrow> string" where
  "dump_value indent level SBJ_NULL = ''null''"
| "dump_value indent level (SBJ_BOOL b) = (if b then ''true'' else ''false'')"
| "dump_value indent level (SBJ_INT i) = show_int i"
| "dump_value indent level (SBJ_UINT u) = show_nat u"
| "dump_value indent level (SBJ_FLOAT f) = dump_float f"
| "dump_value indent level (SBJ_STRING s) = dump_string s"
| "dump_value indent level (SBJ_ARRAY xs) =
     (if xs = [] then ''[]''
      else ''['' @ dump_items indent level True xs @ dump_newline indent level @ '']'')"
| "dump_value indent level (SBJ_OBJECT kvs) =
     (if kvs = [] then ''{}''
      else ''{'' @ dump_members indent level True kvs @ dump_newline indent level @ ''}'')"
| "dump_items indent level first [] = []"
| "dump_items indent level first (x # xs) =
     (if first then [] else '','') @ dump_newline indent (level + 1)
     @ dump_value indent (level + 1) x @ dump_items indent level False xs"
| "dump_members indent level first [] = []"
| "dump_members indent level first ((k, x) # kvs) =
     (if first then [] else '','') @ dump_newline indent (level + 1)
     @ dump_string k @ (if indent \<ge> 0 then '': '' else '':'')
     @ dump_value indent (level + 1) x @ dump_members indent level False kvs"

definition sbj_dump :: "sbj option \<Rightarrow> int \<Rightarrow> string" where
  "sbj_dump v indent = (case v of None \<Rightarrow> ''null'' | Some x \<Rightarrow> dump_value indent 0 x)"

subsection \<open>Facts\<close>

text \<open>Flushing runs is an optimisation: the result is the byte-wise escaping.\<close>

definition escape :: "string \<Rightarrow> string" where
  "escape s = concat (map (\<lambda>c. case dump_esc c of Some e \<Rightarrow> e | None \<Rightarrow> [c]) s)"

lemma dump_string_loop_escape: "dump_string_loop out run s = out @ run @ escape s"
  by (induction out run s rule: dump_string_loop.induct)
    (auto simp: escape_def split: option.splits)

lemma dump_string_escape: "dump_string s = CHR 0x22 # escape s @ [CHR 0x22]"
  by (simp add: dump_string_def dump_string_loop_escape)

end
