(* ===== verification/Json_Parse.thy ===== *)
theory Json_Parse
  imports Json_Dump
begin

text \<open>
  The parser of \<open>c/src/json.c\<close>. The parser state is the input that remains: the C position is
  the length of the whole text minus the length of the remaining input. An error is a message
  with the input remaining where \<open>perr\<close> was called; \<open>parse_document\<close> turns it into
  \<open>"<msg> at offset <n>"\<close>.

  \<open>parse_value\<close> recurses on the nesting depth still allowed (\<open>SBJ_MAX_DEPTH\<close> at the top). Its two
  loops take the value parser of the next depth as an argument and carry fuel, one more than the
  length of the input; \<open>Json_Parse_Facts\<close> shows that it never runs out.
\<close>

type_synonym perr = "string \<times> string"

type_synonym 'a parsed = "perr + ('a \<times> string)"

definition SBJ_MAX_DEPTH :: nat where
  "SBJ_MAX_DEPTH = 512"

definition is_ws :: "char \<Rightarrow> bool" where
  "is_ws c \<longleftrightarrow> c = CHR '' '' \<or> c = CHR 0x09 \<or> c = CHR 0x0A \<or> c = CHR 0x0D"

definition skip_ws :: "string \<Rightarrow> string" where
  "skip_ws s = dropWhile is_ws s"

subsection \<open>Strings\<close>

definition hex4_digit :: "char \<Rightarrow> nat option" where
  "hex4_digit c =
     (if 48 \<le> byte c \<and> byte c \<le> 57 then Some (byte c - 48)
      else if 97 \<le> byte c \<and> byte c \<le> 102 then Some (byte c - 97 + 10)
      else if 65 \<le> byte c \<and> byte c \<le> 70 then Some (byte c - 65 + 10)
      else None)"

fun hex4_loop :: "nat \<Rightarrow> nat \<Rightarrow> string \<Rightarrow> string + (nat \<times> string)" where
  "hex4_loop 0 v s = Inr (v, s)"
| "hex4_loop (Suc n) v [] = Inl []"
| "hex4_loop (Suc n) v (c # s) =
     (case hex4_digit c of None \<Rightarrow> Inl s | Some d \<Rightarrow> hex4_loop n (v * 16 + d) s)"

text \<open>\<open>Inl\<close> is the \<open>-1\<close> with the input then remaining.\<close>

definition hex4 :: "string \<Rightarrow> string + (nat \<times> string)" where
  "hex4 s = (if length s < 4 then Inl s else hex4_loop 4 0 s)"

text \<open>In \<open>0xC0 | (cp >> 6)\<close> and its siblings the operands have no common bit.\<close>

definition put_utf8 :: "nat \<Rightarrow> string" where
  "put_utf8 cp =
     (if cp < 0x80 then [of_byte cp]
      else if cp < 0x800 then [of_byte (0xC0 + cp div 64), of_byte (0x80 + cp mod 64)]
      else if cp < 0x10000 then
        [of_byte (0xE0 + cp div 4096), of_byte (0x80 + cp div 64 mod 64),
         of_byte (0x80 + cp mod 64)]
      else
        [of_byte (0xF0 + cp div 262144), of_byte (0x80 + cp div 4096 mod 64),
         of_byte (0x80 + cp div 64 mod 64), of_byte (0x80 + cp mod 64)])"

text \<open>The continuation bytes of a sequence; \<open>None\<close> when one of them is no continuation byte.\<close>

fun utf8_cont :: "nat \<Rightarrow> nat \<Rightarrow> string \<Rightarrow> nat option" where
  "utf8_cont 0 cp s = Some cp"
| "utf8_cont (Suc n) cp [] = None"
| "utf8_cont (Suc n) cp (c # s) =
     (if byte c div 64 \<noteq> 2 then None else utf8_cont n (cp * 64 + byte c mod 64) s)"

definition utf8_lead :: "nat \<Rightarrow> (nat \<times> nat) option" where
  "utf8_lead c =
     (if 0xC2 \<le> c \<and> c \<le> 0xDF then Some (2, c mod 32)
      else if 0xE0 \<le> c \<and> c \<le> 0xEF then Some (3, c mod 16)
      else if 0xF0 \<le> c \<and> c \<le> 0xF4 then Some (4, c mod 8)
      else None)"

text \<open>Overlong forms, surrogates and code points above \<open>U+10FFFF\<close>.\<close>

definition utf8_bad :: "nat \<Rightarrow> nat \<Rightarrow> bool" where
  "utf8_bad n cp \<longleftrightarrow>
     n = 3 \<and> (cp < 0x800 \<or> 0xD800 \<le> cp \<and> cp \<le> 0xDFFF) \<or> n = 4 \<and> (cp < 0x10000 \<or> 0x10FFFF < cp)"

fun utf8_seq :: "string \<Rightarrow> nat" where
  "utf8_seq [] = 0"
| "utf8_seq (c # s) =
     (if byte c < 0x80 then 1
      else (case utf8_lead (byte c) of
              None \<Rightarrow> 0
            | Some (n, cp) \<Rightarrow>
                if Suc (length s) < n then 0
                else (case utf8_cont (n - 1) cp s of
                        None \<Rightarrow> 0
                      | Some cp \<Rightarrow> if utf8_bad n cp then 0 else n)))"

definition simple_escape :: "char \<Rightarrow> char option" where
  "simple_escape e =
     (if e = CHR 0x22 then Some (CHR 0x22)
      else if e = CHR 0x5C then Some (CHR 0x5C)
      else if e = CHR ''/'' then Some (CHR ''/'')
      else if e = CHR ''b'' then Some (CHR 0x08)
      else if e = CHR ''f'' then Some (CHR 0x0C)
      else if e = CHR ''n'' then Some (CHR 0x0A)
      else if e = CHR ''r'' then Some (CHR 0x0D)
      else if e = CHR ''t'' then Some (CHR 0x09)
      else None)"

definition surrogate_escape :: "nat \<Rightarrow> string \<Rightarrow> string parsed" where
  "surrogate_escape cp r =
     (case r of
        a # b # r2 \<Rightarrow>
          (if a \<noteq> CHR 0x5C \<or> b \<noteq> CHR ''u'' then Inl (''unpaired surrogate'', r)
           else (case hex4 r2 of
                   Inl r3 \<Rightarrow> Inl (''invalid surrogate pair'', r3)
                 | Inr (lo, r3) \<Rightarrow>
                     if lo < 0xDC00 \<or> 0xDFFF < lo then Inl (''invalid surrogate pair'', r3)
                     else Inr (put_utf8 (0x10000 + (cp - 0xD800) * 1024 + (lo - 0xDC00)), r3)))
      | _ \<Rightarrow> Inl (''unpaired surrogate'', r))"

definition unicode_escape :: "string \<Rightarrow> string parsed" where
  "unicode_escape s =
     (case hex4 s of
        Inl r \<Rightarrow> Inl (''invalid '' @ CHR 0x5C # ''u escape'', r)
      | Inr (cp, r) \<Rightarrow>
          if 0xD800 \<le> cp \<and> cp \<le> 0xDBFF then surrogate_escape cp r
          else if 0xDC00 \<le> cp \<and> cp \<le> 0xDFFF then Inl (''unpaired surrogate'', r)
          else Inr (put_utf8 cp, r))"

text \<open>One round of the loop of \<open>parse_string_raw\<close> on a byte that is not the closing quote: the
  bytes it appends and the remaining input.\<close>

definition string_step :: "char \<Rightarrow> string \<Rightarrow> string parsed" where
  "string_step c cs =
     (if byte c < 0x20 then Inl (''control character in string'', c # cs)
      else if c = CHR 0x5C then
        (case cs of
           [] \<Rightarrow> Inl (''unterminated string'', [])
         | e # es \<Rightarrow>
             (case simple_escape e of
                Some d \<Rightarrow> Inr ([d], es)
              | None \<Rightarrow> if e = CHR ''u'' then unicode_escape es else Inl (''invalid escape'', es)))
      else
        (let n = utf8_seq (c # cs) in
         if n = 0 then Inl (''invalid UTF-8'', c # cs)
         else Inr (take n (c # cs), drop n (c # cs))))"

lemma hex4_loop_length: "hex4_loop n v s = Inr (x, r) \<Longrightarrow> length s = length r + n"
  by (induction n v s rule: hex4_loop.induct) (auto split: option.splits)

lemma hex4_length: "hex4 s = Inr (x, r) \<Longrightarrow> length r < length s"
  using hex4_loop_length [of 4 0 s x r] by (auto simp: hex4_def split: if_splits)

lemma unicode_escape_length: "unicode_escape s = Inr (x, r) \<Longrightarrow> length r < length s"
  by (auto simp: unicode_escape_def surrogate_escape_def split: sum.splits prod.splits if_splits
      list.splits dest!: hex4_length)

lemma string_step_length: "string_step c cs = Inr (x, r) \<Longrightarrow> length r < Suc (length cs)"
  by (auto simp: string_step_def Let_def split: if_splits list.splits option.splits
      dest: unicode_escape_length)

function parse_string_loop :: "string \<Rightarrow> string \<Rightarrow> string parsed" where
  "parse_string_loop b [] = Inl (''unterminated string'', [])"
| "parse_string_loop b (c # cs) =
     (if c = CHR 0x22 then Inr (b, cs)
      else (case string_step c cs of
              Inl e \<Rightarrow> Inl e
            | Inr (x, r) \<Rightarrow> parse_string_loop (b @ x) r))"
  by pat_completeness auto
termination
  by (relation "measure (\<lambda>(b, s). length s)") (auto dest: string_step_length)

text \<open>\<open>s\<close> starts with the opening quote.\<close>

definition parse_string_raw :: "string \<Rightarrow> string parsed" where
  "parse_string_raw s = parse_string_loop [] (tl s)"

subsection \<open>Numbers\<close>

text \<open>\<open>strtod\<close> on a text of the JSON number grammar: sign, integral digits, fraction digits and
  exponent, rounded to the nearest double.\<close>

definition strtod_exp :: "string \<Rightarrow> int" where
  "strtod_exp s =
     (case s of
        [] \<Rightarrow> 0
      | _ # t \<Rightarrow>
          (case t of
             [] \<Rightarrow> 0
           | c # u \<Rightarrow>
               if c = CHR ''-'' then - int (digits_val u)
               else if c = CHR ''+'' then int (digits_val u)
               else int (digits_val t)))"

definition strtod :: "string \<Rightarrow> double" where
  "strtod num =
     (let neg = (take 1 num = ''-'');
          s = (if neg then drop 1 num else num);
          ip = takeWhile isdigit s;
          s1 = dropWhile isdigit s;
          has_frac = (take 1 s1 = ''.'');
          fp = (if has_frac then takeWhile isdigit (drop 1 s1) else []);
          s2 = (if has_frac then dropWhile isdigit (drop 1 s1) else s1);
          m = digits_val (ip @ fp);
          e = strtod_exp s2 - int (length fp);
          d = (if 0 \<le> e then dbl_of_ratio (m * 10 ^ nat e) 1
               else dbl_of_ratio m (10 ^ nat (- e))) in
      if neg then dbl_neg d else d)"

text \<open>\<open>strtoll\<close> and \<open>strtoull\<close>: \<open>None\<close> is \<open>ERANGE\<close>.\<close>

definition strtoll :: "string \<Rightarrow> int option" where
  "strtoll num = (let v = - int (digits_val (drop 1 num)) in if in_i64 v then Some v else None)"

definition strtoull :: "string \<Rightarrow> nat option" where
  "strtoull num = (let v = digits_val num in if v < 2 ^ 64 then Some v else None)"

definition number_value :: "string \<Rightarrow> bool \<Rightarrow> sbj" where
  "number_value num flt =
     (let out =
        (if flt then None
         else if take 1 num = ''-'' then map_option sbj_int (strtoll num)
         else map_option sbj_uint (strtoull num)) in
      case out of Some v \<Rightarrow> v | None \<Rightarrow> sbj_float (strtod num))"

text \<open>The digits that must follow \<open>'.'\<close> or the exponent mark.\<close>

definition digits1 :: "string \<Rightarrow> string + string" where
  "digits1 s = (if s = [] \<or> \<not> isdigit (hd s) then Inl s else Inr (dropWhile isdigit s))"

definition number_int :: "string \<Rightarrow> string + string" where
  "number_int s =
     (case s of
        [] \<Rightarrow> Inl s
      | c # r \<Rightarrow>
          if c = CHR ''0'' then Inr r
          else if isdigit c then Inr (dropWhile isdigit s)
          else Inl s)"

definition number_frac :: "string \<Rightarrow> string + (bool \<times> string)" where
  "number_frac s =
     (if take 1 s = ''.'' then map_sum id (\<lambda>r. (True, r)) (digits1 (tl s)) else Inr (False, s))"

definition number_exp :: "string \<Rightarrow> string + (bool \<times> string)" where
  "number_exp s =
     (if take 1 s = ''e'' \<or> take 1 s = ''E''
      then
        (let r = tl s; r' = (if take 1 r = ''+'' \<or> take 1 r = ''-'' then tl r else r) in
         map_sum id (\<lambda>r. (True, r)) (digits1 r'))
      else Inr (False, s))"

definition parse_number :: "string \<Rightarrow> sbj parsed" where
  "parse_number s =
     map_sum (\<lambda>r. (''invalid number'', r)) id
       (res_bind (number_int (if take 1 s = ''-'' then tl s else s)) (\<lambda>r1.
        res_bind (number_frac r1) (\<lambda>(f1, r2).
        res_bind (number_exp r2) (\<lambda>(f2, r3).
          Inr (number_value (take (length s - length r3) s) (f1 \<or> f2), r3)))))"

subsection \<open>Values\<close>

definition match_lit :: "string \<Rightarrow> string \<Rightarrow> string option" where
  "match_lit lit s =
     (if length s < length lit \<or> take (length lit) s \<noteq> lit then None
      else Some (drop (length lit) s))"

definition quoted :: "char \<Rightarrow> string" where
  "quoted c = [CHR 0x27, c, CHR 0x27]"

text \<open>The loop of the array branch; \<open>pv\<close> parses a value one level deeper.\<close>

fun parse_arr :: "(string \<Rightarrow> sbj parsed) \<Rightarrow> nat \<Rightarrow> sbj \<Rightarrow> string \<Rightarrow> sbj parsed" where
  "parse_arr pv 0 a s = Inl (''out of fuel'', s)"
| "parse_arr pv (Suc n) a s =
     res_bind (pv s) (\<lambda>(v, r).
       let a' = sbj_arr_push a (Some v); r1 = skip_ws r in
       if take 1 r1 = '','' then parse_arr pv n a' (tl r1)
       else if take 1 r1 = '']'' then Inr (a', tl r1)
       else Inl (''expected '' @ quoted (CHR '','') @ '' or '' @ quoted (CHR '']''), r1))"

text \<open>The key of a member up to and including its colon.\<close>

definition parse_key :: "bool \<Rightarrow> sbj \<Rightarrow> string \<Rightarrow> string parsed" where
  "parse_key strict o' s =
     (let s1 = skip_ws s in
      if take 1 s1 \<noteq> [CHR 0x22] then Inl (''expected object key'', s1)
      else
        res_bind (parse_string_raw s1) (\<lambda>(key, r).
          if strict \<and> sbj_getn (Some o') (Some key) \<noteq> None
          then Inl (''duplicate object key'', r)
          else
            (let r1 = skip_ws r in
             if take 1 r1 \<noteq> '':'' then Inl (''expected '' @ quoted (CHR '':''), r1)
             else Inr (key, tl r1))))"

fun parse_obj :: "(string \<Rightarrow> sbj parsed) \<Rightarrow> bool \<Rightarrow> nat \<Rightarrow> sbj \<Rightarrow> string \<Rightarrow> sbj parsed" where
  "parse_obj pv strict 0 o' s = Inl (''out of fuel'', s)"
| "parse_obj pv strict (Suc n) o' s =
     res_bind (parse_key strict o' s) (\<lambda>(key, r).
     res_bind (pv r) (\<lambda>(v, r1).
       let o'' = sbj_setn o' (Some key) (Some v); r2 = skip_ws r1 in
       if take 1 r2 = '','' then parse_obj pv strict n o'' (tl r2)
       else if take 1 r2 = ''}'' then Inr (o'', tl r2)
       else Inl (''expected '' @ quoted (CHR '','') @ '' or '' @ quoted (CHR ''}''), r2)))"

text \<open>\<open>deeper\<close> is the value parser one level down, \<open>None\<close> when the depth is exhausted.\<close>

definition parse_object_at :: "(string \<Rightarrow> sbj parsed) option \<Rightarrow> bool \<Rightarrow> string \<Rightarrow> sbj parsed" where
  "parse_object_at deeper strict s =
     (case deeper of
        None \<Rightarrow> Inl (''nesting too deep'', s)
      | Some pv \<Rightarrow>
          (let r = skip_ws (tl s) in
           if take 1 r = ''}'' then Inr (sbj_object, tl r)
           else parse_obj pv strict (Suc (length r)) sbj_object r))"

definition parse_array_at :: "(string \<Rightarrow> sbj parsed) option \<Rightarrow> string \<Rightarrow> sbj parsed" where
  "parse_array_at deeper s =
     (case deeper of
        None \<Rightarrow> Inl (''nesting too deep'', s)
      | Some pv \<Rightarrow>
          (let r = skip_ws (tl s) in
           if take 1 r = '']'' then Inr (sbj_array, tl r)
           else parse_arr pv (Suc (length r)) sbj_array r))"

definition parse_literal :: "char \<Rightarrow> string \<Rightarrow> (sbj \<times> string) option" where
  "parse_literal c s =
     (if c = CHR ''t'' \<and> match_lit ''true'' s \<noteq> None
      then Some (sbj_bool True, the (match_lit ''true'' s))
      else if c = CHR ''f'' \<and> match_lit ''false'' s \<noteq> None
      then Some (sbj_bool False, the (match_lit ''false'' s))
      else if c = CHR ''n'' \<and> match_lit ''null'' s \<noteq> None
      then Some (sbj_null, the (match_lit ''null'' s))
      else None)"

definition parse_scalar :: "char \<Rightarrow> string \<Rightarrow> sbj parsed" where
  "parse_scalar c s =
     (if c = CHR 0x22 then res_bind (parse_string_raw s) (\<lambda>(x, r). Inr (SBJ_STRING x, r))
      else (case parse_literal c s of
              Some lit \<Rightarrow> Inr lit
            | None \<Rightarrow>
                if c = CHR ''-'' \<or> isdigit c then parse_number s
                else Inl (''unexpected character'', s)))"

definition parse_at :: "(string \<Rightarrow> sbj parsed) option \<Rightarrow> bool \<Rightarrow> string \<Rightarrow> sbj parsed" where
  "parse_at deeper strict s0 =
     (case skip_ws s0 of
        [] \<Rightarrow> Inl (''unexpected end of input'', [])
      | c # r \<Rightarrow>
          (if c = CHR ''{'' then parse_object_at deeper strict (c # r)
           else if c = CHR ''['' then parse_array_at deeper (c # r)
           else parse_scalar c (c # r)))"

primrec parse_value :: "nat \<Rightarrow> bool \<Rightarrow> string \<Rightarrow> sbj parsed" where
  "parse_value 0 strict s = parse_at None strict s"
| "parse_value (Suc k) strict s = parse_at (Some (\<lambda>r. parse_value k strict r)) strict s"

subsection \<open>Documents\<close>

text \<open>\<open>Inl\<close> is the text left in the caller's error buffer.\<close>

definition perr_text :: "nat \<Rightarrow> perr \<Rightarrow> string" where
  "perr_text len e = fst e @ '' at offset '' @ show_nat (len - length (snd e))"

definition parse_document :: "string option \<Rightarrow> bool \<Rightarrow> string + sbj" where
  "parse_document text strict =
     (case text of
        None \<Rightarrow> Inl ''null input''
      | Some t \<Rightarrow>
          (case parse_value SBJ_MAX_DEPTH strict t of
             Inl e \<Rightarrow> Inl (perr_text (length t) e)
           | Inr (v, r) \<Rightarrow>
               (let r' = skip_ws r in
                if r' \<noteq> [] then Inl (perr_text (length t) (''trailing characters'', r'))
                else Inr v)))"

definition sbj_parse :: "string option \<Rightarrow> string + sbj" where
  "sbj_parse text = parse_document text False"

definition sbj_parse_cstr :: "string option \<Rightarrow> sbj option" where
  "sbj_parse_cstr text =
     (case text of
        None \<Rightarrow> None
      | Some t \<Rightarrow> (case sbj_parse (Some (cstr t)) of Inl e \<Rightarrow> None | Inr v \<Rightarrow> Some v))"

subsection \<open>UTF-8 validation\<close>

definition show_hex2 :: "nat \<Rightarrow> string" where
  "show_hex2 n =
     (let d = (\<lambda>k. of_byte (if k < 10 then 48 + k else 55 + k)) in [d (n div 16), d (n mod 16)])"

definition utf8_invalid :: "nat \<Rightarrow> nat \<Rightarrow> unit res" where
  "utf8_invalid i c =
     sb_fail SB_ERR_BAD_JSON (''[json.exception.type_error.316] invalid UTF-8 byte at index ''
       @ show_nat i @ '': 0x'' @ show_hex2 c)"

definition utf8_incomplete :: "nat \<Rightarrow> unit res" where
  "utf8_incomplete c =
     sb_fail SB_ERR_BAD_JSON
       (''[json.exception.type_error.316] incomplete UTF-8 string; last byte: 0x'' @ show_hex2 c)"

text \<open>The range of the first continuation byte and the number of continuation bytes.\<close>

definition utf8_ranges :: "nat \<Rightarrow> (nat \<times> nat \<times> nat) option" where
  "utf8_ranges c =
     (if 0xC2 \<le> c \<and> c \<le> 0xDF then Some (1, 0x80, 0xBF)
      else if 0xE0 \<le> c \<and> c \<le> 0xEF
        then Some (2, if c = 0xE0 then 0xA0 else 0x80, if c = 0xED then 0x9F else 0xBF)
      else if 0xF0 \<le> c \<and> c \<le> 0xF4
        then Some (3, if c = 0xF0 then 0x90 else 0x80, if c = 0xF4 then 0x8F else 0xBF)
      else None)"

text \<open>\<open>need\<close> continuation bytes from \<open>s\<close>, whose first byte is at index \<open>i\<close>; \<open>lst\<close> is the last
  byte of the whole string.\<close>

fun utf8_check_cont :: "nat \<Rightarrow> nat \<Rightarrow> nat \<Rightarrow> nat \<Rightarrow> nat \<Rightarrow> string \<Rightarrow> (nat \<times> string) res" where
  "utf8_check_cont lst i 0 lo hi s = Inr (i, s)"
| "utf8_check_cont lst i (Suc need) lo hi [] = map_sum id (\<lambda>_. (i, [])) (utf8_incomplete lst)"
| "utf8_check_cont lst i (Suc need) lo hi (d # s) =
     (if byte d < lo \<or> hi < byte d then map_sum id (\<lambda>_. (i, [])) (utf8_invalid i (byte d))
      else utf8_check_cont lst (Suc i) need 0x80 0xBF s)"

lemma utf8_check_cont_length:
  "utf8_check_cont lst i n lo hi s = Inr (j, r) \<Longrightarrow> length r \<le> length s"
  by (induction lst i n lo hi s rule: utf8_check_cont.induct)
    (auto simp: utf8_incomplete_def utf8_invalid_def sb_fail_def split: if_splits)

function utf8_check_loop :: "nat \<Rightarrow> nat \<Rightarrow> string \<Rightarrow> unit res" where
  "utf8_check_loop lst i [] = Inr ()"
| "utf8_check_loop lst i (c # s) =
     (if byte c < 0x80 then utf8_check_loop lst (Suc i) s
      else (case utf8_ranges (byte c) of
              None \<Rightarrow> utf8_invalid i (byte c)
            | Some (need, lo, hi) \<Rightarrow>
                (case utf8_check_cont lst (Suc i) need lo hi s of
                   Inl e \<Rightarrow> Inl e
                 | Inr (j, r) \<Rightarrow> utf8_check_loop lst j r)))"
  by pat_completeness auto
termination
  by (relation "measure (\<lambda>(_, _, s). length s)") (auto dest: utf8_check_cont_length)

definition utf8_check :: "string \<Rightarrow> unit res" where
  "utf8_check s = utf8_check_loop (if s = [] then 0 else byte (last s)) 0 s"

fun validate_value :: "sbj \<Rightarrow> unit res"
  and validate_items :: "sbj list \<Rightarrow> unit res"
  and validate_members :: "members \<Rightarrow> unit res" where
  "validate_value (SBJ_STRING s) = utf8_check s"
| "validate_value (SBJ_ARRAY xs) = validate_items xs"
| "validate_value (SBJ_OBJECT kvs) = validate_members kvs"
| "validate_value _ = Inr ()"
| "validate_items [] = Inr ()"
| "validate_items (x # xs) =
     (case validate_value x of Inl e \<Rightarrow> Inl e | Inr _ \<Rightarrow> validate_items xs)"
| "validate_members [] = Inr ()"
| "validate_members ((k, x) # kvs) =
     (case utf8_check k of
        Inl e \<Rightarrow> Inl e
      | Inr _ \<Rightarrow> (case validate_value x of Inl e \<Rightarrow> Inl e | Inr _ \<Rightarrow> validate_members kvs))"

definition sbj_validate_utf8 :: "sbj option \<Rightarrow> unit res" where
  "sbj_validate_utf8 v = (case v of None \<Rightarrow> Inr () | Some x \<Rightarrow> validate_value x)"

definition sbj_parse_strict :: "string option \<Rightarrow> string + sbj" where
  "sbj_parse_strict text =
     (case parse_document text True of
        Inl e \<Rightarrow> Inl e
      | Inr v \<Rightarrow>
          (case sbj_validate_utf8 (Some v) of
             Inl e \<Rightarrow> Inl (err_msg e)
           | Inr _ \<Rightarrow> Inr v))"

end
