(* ===== verification/Json_Parse_Facts.thy ===== *)
theory Json_Parse_Facts
  imports Json_Parse
begin

text \<open>
  The parser consumes input and never exhausts its fuel; the two UTF-8 validators of the file
  agree; a printed string is parsed back; whatever is parsed is well formed and valid UTF-8.
\<close>

subsection \<open>The parser consumes input and never runs out of fuel\<close>

definition progressing :: "(string \<Rightarrow> 'a parsed) \<Rightarrow> bool" where
  "progressing p \<longleftrightarrow> (\<forall>s v r. p s = Inr (v, r) \<longrightarrow> length r < length s)"

definition fuelled :: "(string \<Rightarrow> 'a parsed) \<Rightarrow> bool" where
  "fuelled p \<longleftrightarrow> (\<forall>s e. p s = Inl e \<longrightarrow> fst e \<noteq> ''out of fuel'')"

lemma progressingD: "progressing p \<Longrightarrow> p s = Inr (v, r) \<Longrightarrow> length r < length s"
  by (simp add: progressing_def)

lemma fuelledD: "fuelled p \<Longrightarrow> p s = Inl e \<Longrightarrow> fst e \<noteq> ''out of fuel''"
  unfolding fuelled_def by blast

lemma skip_ws_length: "length (skip_ws s) \<le> length s"
  by (simp add: skip_ws_def length_dropWhile_le)

lemma take1_Cons: "take 1 s = [c] \<longleftrightarrow> (\<exists>r. s = c # r)"
  by (cases s) auto

lemma take1_length: "take 1 s = [c] \<Longrightarrow> length (tl s) < length s"
  by (cases s) auto

lemma parse_string_loop_length: "parse_string_loop b s = Inr (x, r) \<Longrightarrow> length r < length s"
proof (induction b s rule: parse_string_loop.induct)
  case (2 b c cs)
  show ?case
  proof (cases "c = CHR 0x22")
    case False
    with 2(2) obtain y t where st: "string_step c cs = Inr (y, t)"
      "parse_string_loop (b @ y) t = Inr (x, r)"
      by (auto split: sum.splits)
    then have "length r < length t" using 2(1) False by simp
    with string_step_length [OF st(1)] show ?thesis by simp
  qed (use 2 in simp)
qed simp

lemma string_errors:
  "surrogate_escape cp s = Inl e \<Longrightarrow> fst e \<noteq> ''out of fuel''"
  "unicode_escape s = Inl e \<Longrightarrow> fst e \<noteq> ''out of fuel''"
  "string_step c cs = Inl e \<Longrightarrow> fst e \<noteq> ''out of fuel''"
proof -
  show 1: "surrogate_escape cp s = Inl e \<Longrightarrow> fst e \<noteq> ''out of fuel''" for cp s e
    by (auto simp: surrogate_escape_def split: list.splits sum.splits if_splits)
  show 2: "unicode_escape s = Inl e \<Longrightarrow> fst e \<noteq> ''out of fuel''" for s e
    by (auto simp: unicode_escape_def 1 split: sum.splits if_splits)
  show "string_step c cs = Inl e \<Longrightarrow> fst e \<noteq> ''out of fuel''"
    by (auto simp: string_step_def Let_def 2 split: list.splits if_splits option.splits)
qed

lemma parse_string_loop_errors: "parse_string_loop b s = Inl e \<Longrightarrow> fst e \<noteq> ''out of fuel''"
proof (induction b s rule: parse_string_loop.induct)
  case (2 b c cs)
  then show ?case
    by (cases "string_step c cs") (auto split: if_splits simp: string_errors)
qed auto

lemma number_lengths:
  "digits1 s = Inr r \<Longrightarrow> length r \<le> length s"
  "number_int s = Inr r \<Longrightarrow> length r < length s"
  "number_frac s = Inr (f, r) \<Longrightarrow> length r \<le> length s"
  "number_exp s = Inr (f, r) \<Longrightarrow> length r \<le> length s"
proof -
  show d: "digits1 s = Inr r \<Longrightarrow> length r \<le> length s" for s r
    by (auto simp: digits1_def length_dropWhile_le split: if_splits)
  show "number_int s = Inr r \<Longrightarrow> length r < length s"
    using length_dropWhile_le [of isdigit "tl s"]
    by (auto simp: number_int_def le_imp_less_Suc length_dropWhile_le split: list.splits if_splits)
  have t: "length (tl s) \<le> length s" for s :: string by (cases s) auto
  show "number_frac s = Inr (f, r) \<Longrightarrow> length r \<le> length s"
    using d [of "tl s" r] t [of s]
    by (cases "digits1 (tl s)") (auto simp: number_frac_def split: if_splits)
  show "number_exp s = Inr (f, r) \<Longrightarrow> length r \<le> length s"
    using d [of "tl s" r] d [of "tl (tl s)" r] t [of s] t [of "tl s"]
    by (cases "digits1 (tl s)"; cases "digits1 (tl (tl s))")
      (auto simp: number_exp_def Let_def split: if_splits)
qed

lemma parse_number_length: "parse_number s = Inr (v, r) \<Longrightarrow> length r < length s"
proof -
  assume "parse_number s = Inr (v, r)"
  then obtain r1 f1 r2 f2 where
    "number_int (if take 1 s = ''-'' then tl s else s) = Inr r1"
    "number_frac r1 = Inr (f1, r2)" "number_exp r2 = Inr (f2, r)"
    by (auto simp: parse_number_def res_bind_def split: sum.splits prod.splits)
  from number_lengths(2) [OF this(1)] number_lengths(3) [OF this(2)] number_lengths(4) [OF this(3)]
  show ?thesis by (cases s) (auto split: if_splits)
qed

lemma parse_number_errors: "parse_number s = Inl e \<Longrightarrow> fst e = ''invalid number''"
  by (auto simp: parse_number_def res_bind_def split: sum.splits prod.splits)

lemma match_lit_length: "match_lit lit s = Some r \<Longrightarrow> lit \<noteq> [] \<Longrightarrow> length r < length s"
  by (cases lit) (auto simp: match_lit_def split: if_splits)

lemma parse_literal_length: "parse_literal c s = Some (v, r) \<Longrightarrow> length r < length s"
  using match_lit_length [of "''true''" s r] match_lit_length [of "''false''" s r]
    match_lit_length [of "''null''" s r]
  unfolding parse_literal_def by (auto split: if_split_asm)

lemma parse_scalar_length: "parse_scalar c s = Inr (v, r) \<Longrightarrow> s \<noteq> [] \<Longrightarrow> length r < length s"
  unfolding parse_scalar_def parse_string_raw_def
  by (auto split: if_split_asm option.splits
      dest: parse_number_length parse_literal_length parse_string_loop_length)

lemma parse_scalar_errors: "parse_scalar c s = Inl e \<Longrightarrow> fst e \<noteq> ''out of fuel''"
proof -
  assume s: "parse_scalar c s = Inl e"
  show ?thesis
  proof (cases "c = CHR 0x22")
    case True
    with s have "parse_string_loop [] (tl s) = Inl e"
      by (cases "parse_string_loop [] (tl s)") (auto simp: parse_scalar_def parse_string_raw_def)
    then show ?thesis by (rule parse_string_loop_errors)
  next
    case False
    with s have "parse_literal c s = None"
      by (cases "parse_literal c s") (auto simp: parse_scalar_def)
    with False s have "(if c = CHR ''-'' \<or> isdigit c then parse_number s
        else Inl (''unexpected character'', s)) = Inl e"
      by (simp add: parse_scalar_def)
    then show ?thesis
      by (cases "c = CHR ''-'' \<or> isdigit c") (auto dest: parse_number_errors)
  qed
qed

lemma parse_key_length: "parse_key strict u s = Inr (k, r) \<Longrightarrow> length r < length s"
proof -
  assume "parse_key strict u s = Inr (k, r)"
  then obtain r1 where "parse_string_loop [] (tl (skip_ws s)) = Inr (k, r1)"
    "take 1 (skip_ws r1) = '':''" "r = tl (skip_ws r1)"
    by (auto simp: parse_key_def parse_string_raw_def Let_def split: if_splits)
  with parse_string_loop_length [of "[]" "tl (skip_ws s)" k r1] skip_ws_length [of r1]
    skip_ws_length [of s] show ?thesis by (cases "skip_ws s") auto
qed

lemma parse_key_errors: "parse_key strict u s = Inl e \<Longrightarrow> fst e \<noteq> ''out of fuel''"
  by (auto simp: parse_key_def parse_string_raw_def Let_def res_bind_def
      split: if_splits sum.splits dest: parse_string_loop_errors)

lemma parse_arr_progress:
  assumes "progressing pv"
  shows "parse_arr pv n a s = Inr (v, r) \<Longrightarrow> length r < length s"
proof (induction n arbitrary: a s)
  case (Suc n)
  then obtain w r0 where w: "pv s = Inr (w, r0)" by (auto simp: res_bind_eq_Inr)
  have lt: "length (skip_ws r0) < length s"
    using progressingD [OF assms w] skip_ws_length [of r0] by simp
  consider "take 1 (skip_ws r0) = '',''" "parse_arr pv n (sbj_arr_push a (Some w)) (tl (skip_ws r0)) = Inr (v, r)"
    | "take 1 (skip_ws r0) = '']''" "r = tl (skip_ws r0)"
    using Suc.prems w by (auto simp: Let_def split: if_splits)
  then show ?case
  proof cases
    case 1
    with Suc.IH take1_length [OF 1(1)] lt show ?thesis by fastforce
  next
    case 2
    with take1_length [OF 2(1)] lt show ?thesis by simp
  qed
qed simp

lemma parse_obj_progress:
  assumes "progressing pv"
  shows "parse_obj pv strict n u s = Inr (v, r) \<Longrightarrow> length r < length s"
proof (induction n arbitrary: u s)
  case (Suc n)
  then obtain k r0 w r1 where k: "parse_key strict u s = Inr (k, r0)" and w: "pv r0 = Inr (w, r1)"
    by (auto simp: res_bind_eq_Inr)
  let ?r = "skip_ws r1" and ?u = "sbj_setn u (Some k) (Some w)"
  have lt: "length ?r < length s"
    using progressingD [OF assms w] skip_ws_length [of r1] parse_key_length [OF k] by simp
  consider "take 1 ?r = '',''" "parse_obj pv strict n ?u (tl ?r) = Inr (v, r)"
    | "take 1 ?r = ''}''" "r = tl ?r"
    using Suc.prems w k by (auto simp: Let_def split: if_splits)
  then show ?case
  proof cases
    case 1
    with Suc.IH take1_length [OF 1(1)] lt show ?thesis by fastforce
  next
    case 2
    with take1_length [OF 2(1)] lt show ?thesis by simp
  qed
qed simp

lemma parse_arr_fuelled:
  assumes "progressing pv" "fuelled pv"
  shows "length s < n \<Longrightarrow> parse_arr pv n a s = Inl e \<Longrightarrow> fst e \<noteq> ''out of fuel''"
proof (induction n arbitrary: a s)
  case (Suc n)
  show ?case
  proof (cases "pv s")
    case (Inl e')
    with Suc.prems fuelledD [OF assms(2)] show ?thesis by simp
  next
    case (Inr wr)
    then obtain w r0 where w: "pv s = Inr (w, r0)" by (cases wr) auto
    have "length (tl (skip_ws r0)) < n"
      using progressingD [OF assms(1) w] skip_ws_length [of r0] Suc.prems(1) by simp
    from Suc.IH [OF this] show ?thesis
      using Suc.prems(2) w by (auto simp: Let_def split: if_splits)
  qed
qed simp

lemma parse_obj_fuelled:
  assumes "progressing pv" "fuelled pv"
  shows "length s < n \<Longrightarrow> parse_obj pv strict n u s = Inl e \<Longrightarrow> fst e \<noteq> ''out of fuel''"
proof (induction n arbitrary: u s)
  case (Suc n)
  show ?case
  proof (cases "parse_key strict u s")
    case (Inl e')
    with Suc.prems parse_key_errors show ?thesis by auto
  next
    case (Inr kr)
    then obtain k r where k: "parse_key strict u s = Inr (k, r)" by (cases kr) auto
    show ?thesis
    proof (cases "pv r")
      case (Inl e')
      with Suc.prems fuelledD [OF assms(2)] k show ?thesis by simp
    next
      case (Inr wr)
      then obtain w r0 where w: "pv r = Inr (w, r0)" by (cases wr) auto
      have "length (tl (skip_ws r0)) < n"
        using progressingD [OF assms(1) w] skip_ws_length [of r0] parse_key_length [OF k]
          Suc.prems(1) by simp
      from Suc.IH [OF this] show ?thesis
        using Suc.prems(2) w k by (auto simp: Let_def split: if_splits)
    qed
  qed
qed simp

lemma parse_array_at_good:
  assumes "\<And>pv. deeper = Some pv \<Longrightarrow> progressing pv \<and> fuelled pv"
  shows "parse_array_at deeper (c # s) = Inr (v, r) \<Longrightarrow> length r < Suc (length s)"
    and "parse_array_at deeper (c # s) = Inl e \<Longrightarrow> fst e \<noteq> ''out of fuel''"
proof -
  show "length r < Suc (length s)" if p: "parse_array_at deeper (c # s) = Inr (v, r)"
  proof (cases deeper)
    case (Some pv)
    show ?thesis
    proof (cases "take 1 (skip_ws s) = '']''")
      case True
      with p Some show ?thesis
        using skip_ws_length [of s] by (auto simp: parse_array_at_def)
    next
      case False
      with p Some have "parse_arr pv (Suc (length (skip_ws s))) sbj_array (skip_ws s) = Inr (v, r)"
        by (simp add: parse_array_at_def Let_def del: parse_arr.simps)
      with assms Some have "length r < length (skip_ws s)"
        using parse_arr_progress by blast
      then show ?thesis using skip_ws_length [of s] by simp
    qed
  qed (use p in \<open>simp add: parse_array_at_def\<close>)
  show "fst e \<noteq> ''out of fuel''" if p: "parse_array_at deeper (c # s) = Inl e"
  proof (cases deeper)
    case (Some pv)
    with p have "parse_arr pv (Suc (length (skip_ws s))) sbj_array (skip_ws s) = Inl e"
      by (simp add: parse_array_at_def Let_def del: parse_arr.simps split: if_split_asm)
    with assms Some show ?thesis
      using parse_arr_fuelled [of pv "skip_ws s" "Suc (length (skip_ws s))"] by blast
  qed (use p in \<open>auto simp: parse_array_at_def\<close>)
qed

lemma parse_object_at_good:
  assumes "\<And>pv. deeper = Some pv \<Longrightarrow> progressing pv \<and> fuelled pv"
  shows "parse_object_at deeper strict (c # s) = Inr (v, r) \<Longrightarrow> length r < Suc (length s)"
    and "parse_object_at deeper strict (c # s) = Inl e \<Longrightarrow> fst e \<noteq> ''out of fuel''"
proof -
  show "length r < Suc (length s)" if p: "parse_object_at deeper strict (c # s) = Inr (v, r)"
  proof (cases deeper)
    case (Some pv)
    show ?thesis
    proof (cases "take 1 (skip_ws s) = ''}''")
      case True
      with p Some show ?thesis
        using skip_ws_length [of s] by (auto simp: parse_object_at_def)
    next
      case False
      with p Some have "parse_obj pv strict (Suc (length (skip_ws s))) sbj_object (skip_ws s) = Inr (v, r)"
        by (simp add: parse_object_at_def Let_def del: parse_obj.simps)
      with assms Some have "length r < length (skip_ws s)"
        using parse_obj_progress by blast
      then show ?thesis using skip_ws_length [of s] by simp
    qed
  qed (use p in \<open>simp add: parse_object_at_def\<close>)
  show "fst e \<noteq> ''out of fuel''" if p: "parse_object_at deeper strict (c # s) = Inl e"
  proof (cases deeper)
    case (Some pv)
    with p have "parse_obj pv strict (Suc (length (skip_ws s))) sbj_object (skip_ws s) = Inl e"
      by (simp add: parse_object_at_def Let_def del: parse_obj.simps split: if_split_asm)
    with assms Some show ?thesis
      using parse_obj_fuelled [of pv "skip_ws s" "Suc (length (skip_ws s))"] by blast
  qed (use p in \<open>auto simp: parse_object_at_def\<close>)
qed

lemma parse_at_good:
  assumes "\<And>pv. deeper = Some pv \<Longrightarrow> progressing pv \<and> fuelled pv"
  shows "progressing (parse_at deeper strict) \<and> fuelled (parse_at deeper strict)"
proof -
  have "length r < length s \<and> True" if "parse_at deeper strict s = Inr (v, r)" for s v r
  proof -
    from that obtain c t where s: "skip_ws s = c # t" by (auto simp: parse_at_def split: list.splits)
    with that have "length r < Suc (length t)"
      using parse_array_at_good(1) [OF assms] parse_object_at_good(1) [OF assms]
        parse_scalar_length [of c "c # t"]
      by (auto simp: parse_at_def split: if_splits)
    with s skip_ws_length [of s] show ?thesis by simp
  qed
  moreover have "fst e \<noteq> ''out of fuel''" if "parse_at deeper strict s = Inl e" for s e
    using that parse_array_at_good(2) [OF assms] parse_object_at_good(2) [OF assms]
      parse_scalar_errors
    by (auto simp: parse_at_def split: if_splits list.splits)
  ultimately show ?thesis by (simp add: progressing_def fuelled_def)
qed

lemma parse_value_good: "progressing (parse_value k strict) \<and> fuelled (parse_value k strict)"
proof (induction k)
  case 0
  have "parse_value 0 strict = parse_at None strict" by (rule ext) simp
  then show ?case using parse_at_good [of None] by simp
next
  case (Suc k)
  have "parse_value (Suc k) strict = parse_at (Some (parse_value k strict)) strict"
    by (rule ext) simp
  then show ?case using parse_at_good [of "Some (parse_value k strict)"] Suc by simp
qed

subsection \<open>UTF-8\<close>

text \<open>A string is valid when it splits into the sequences \<open>utf8_seq\<close> accepts.\<close>

lemma utf8_cont_length: "utf8_cont n cp s = Some x \<Longrightarrow> n \<le> length s"
  by (induction n cp s rule: utf8_cont.induct) (auto split: if_splits)

lemma utf8_cont_prefix:
  "utf8_cont n cp s = Some x \<Longrightarrow> utf8_cont n cp (take n s @ t) = Some x"
  by (induction n cp s rule: utf8_cont.induct) (auto split: if_splits)

lemma utf8_cont_bytes: "utf8_cont n cp s = Some x \<Longrightarrow> c \<in> set (take n s) \<Longrightarrow> 128 \<le> byte c"
  by (induction n cp s rule: utf8_cont.induct) (auto split: if_splits)

lemma utf8_seq_cases:
  assumes "0 < utf8_seq s"
  obtains (ascii) c r where "s = c # r" "byte c < 128" "utf8_seq s = 1"
  | (multi) c r n cp x where "s = c # r" "128 \<le> byte c" "utf8_lead (byte c) = Some (n, cp)"
      "utf8_cont (n - 1) cp r = Some x" "utf8_seq s = n" "2 \<le> n"
      "\<not> utf8_bad n x"
proof (cases s)
  case Nil
  with assms show ?thesis by simp
next
  case (Cons c r)
  show ?thesis
  proof (cases "byte c < 128")
    case True
    with Cons show ?thesis by (intro ascii) auto
  next
    case False
    with assms Cons obtain n cp x where *: "utf8_lead (byte c) = Some (n, cp)"
      "utf8_cont (n - 1) cp r = Some x"
      "\<not> utf8_bad n x" "utf8_seq s = n"
      by (auto split: option.splits if_splits)
    then have "2 \<le> n" by (auto simp: utf8_lead_def split: if_splits)
    with * Cons False show ?thesis by (intro multi) auto
  qed
qed

lemma utf8_seq_le: "utf8_seq s \<le> length s"
proof (cases "0 < utf8_seq s")
  case True
  then show ?thesis
    by (cases rule: utf8_seq_cases) (auto dest: utf8_cont_length)
qed simp

lemma utf8_seq_prefix:
  assumes "0 < utf8_seq s"
  shows "utf8_seq (take (utf8_seq s) s @ t) = utf8_seq s"
  using assms
proof (cases rule: utf8_seq_cases)
  case (ascii c r)
  then show ?thesis by simp
next
  case (multi c r n cp x)
  obtain m where m: "n = Suc m" using multi(6) by (cases n) auto
  have "utf8_cont m cp (take m r @ t) = Some x" "m \<le> length r"
    using utf8_cont_prefix utf8_cont_length multi(4) by (auto simp: m)
  with multi show ?thesis by (auto simp: m)
qed

lemma utf8_seq_multi:
  assumes "0 < utf8_seq s" "utf8_seq s \<noteq> 1" "c \<in> set (take (utf8_seq s) s)"
  shows "128 \<le> byte c"
  using assms(1)
proof (cases rule: utf8_seq_cases)
  case (multi d r n cp x)
  then show ?thesis
    using assms(3) utf8_cont_bytes [OF multi(4), of c] by (cases n) auto
qed (use assms in simp)

function valid_utf8 :: "string \<Rightarrow> bool" where
  "valid_utf8 s =
     (if s = [] then True
      else if utf8_seq s = 0 then False else valid_utf8 (drop (utf8_seq s) s))"
  by auto
termination by (relation "measure length") auto

declare valid_utf8.simps [simp del]

lemma valid_utf8_induct [consumes 1, case_names Nil Step]:
  assumes "valid_utf8 s" "P []"
    and "\<And>s. valid_utf8 (drop (utf8_seq s) s) \<Longrightarrow> 0 < utf8_seq s \<Longrightarrow>
      P (drop (utf8_seq s) s) \<Longrightarrow> P s"
  shows "P s"
  using assms(1)
proof (induction s rule: valid_utf8.induct)
  case (1 s)
  show ?case
  proof (cases "s = []")
    case False
    with 1 have "0 < utf8_seq s" "valid_utf8 (drop (utf8_seq s) s)"
      by (auto simp: valid_utf8.simps [of s] split: if_splits)
    with 1 False assms(3) show ?thesis by simp
  qed (simp add: assms(2))
qed

lemma valid_utf8_Nil [simp]: "valid_utf8 []"
  by (simp add: valid_utf8.simps)

lemma valid_utf8_append: "valid_utf8 s \<Longrightarrow> valid_utf8 t \<Longrightarrow> valid_utf8 (s @ t)"
proof (induction s rule: valid_utf8_induct)
  case (Step s)
  let ?n = "utf8_seq s"
  have "s @ t = take ?n s @ (drop ?n s @ t)" by simp
  then have "utf8_seq (s @ t) = ?n" using utf8_seq_prefix [OF Step(2)] by metis
  then show ?case
    using Step utf8_seq_le [of s] by (subst valid_utf8.simps) simp
qed simp

subsection \<open>Strings are parsed back\<close>

lemma hex4_digit_hex_digit [simp]: "d < 16 \<Longrightarrow> hex4_digit (hex_digit d) = Some d"
  unfolding hex4_digit_def hex_digit_def by (cases "d < 10") simp_all

lemma hex4_four:
  assumes "a < 16" "b < 16" "c < 16" "d < 16"
  shows "hex4 (hex_digit a # hex_digit b # hex_digit c # hex_digit d # r) =
     Inr (((a * 16 + b) * 16 + c) * 16 + d, r)"
proof -
  have four: "(4::nat) = Suc (Suc (Suc (Suc 0)))" by simp
  show ?thesis unfolding hex4_def four using assms by simp
qed

lemma hex4_show: "n < 256 \<Longrightarrow> hex4 (show_hex4 n @ r) = Inr (n, r)"
proof -
  assume n: "n < 256"
  then have "n div 16 < 16" by (simp add: less_mult_imp_div_less)
  with n show ?thesis
    unfolding show_hex4_def append_Cons append_Nil by (subst hex4_four) simp_all
qed

lemma simple_escapes [simp]:
  "simple_escape (CHR 0x22) = Some (CHR 0x22)" "simple_escape (CHR 0x5C) = Some (CHR 0x5C)"
  "simple_escape (CHR ''b'') = Some (CHR 0x08)" "simple_escape (CHR ''f'') = Some (CHR 0x0C)"
  "simple_escape (CHR ''n'') = Some (CHR 0x0A)" "simple_escape (CHR ''r'') = Some (CHR 0x0D)"
  "simple_escape (CHR ''t'') = Some (CHR 0x09)" "simple_escape (CHR ''u'') = None"
  by (simp_all add: simple_escape_def)

lemma dump_esc_forms:
  assumes "dump_esc c = Some e"
  shows "(\<exists>x. e = [CHR 0x5C, x] \<and> simple_escape x = Some c)
    \<or> e = CHR 0x5C # CHR ''u'' # show_hex4 (byte c) \<and> byte c < 32"
  using assms unfolding dump_esc_def by (fastforce split: if_split_asm)

lemma put_utf8_ascii: "byte c < 32 \<Longrightarrow> put_utf8 (byte c) = [c]"
  by (simp add: put_utf8_def)

lemma string_step_escape:
  assumes "dump_esc c = Some e"
  shows "\<exists>e'. e = CHR 0x5C # e' \<and> string_step (CHR 0x5C) (e' @ r) = Inr ([c], r)"
  using dump_esc_forms [OF assms]
proof (elim disjE exE conjE)
  fix x
  assume "e = [CHR 0x5C, x]" "simple_escape x = Some c"
  then show ?thesis by (simp add: string_step_def)
next
  assume unicode: "e = CHR 0x5C # CHR ''u'' # show_hex4 (byte c)" "byte c < 32"
  then show ?thesis
    using unicode hex4_show [of "byte c" r]
    by (simp add: string_step_def unicode_escape_def put_utf8_ascii)
qed

lemma dump_esc_None: "dump_esc c = None \<Longrightarrow> 32 \<le> byte c \<and> c \<noteq> CHR 0x22 \<and> c \<noteq> CHR 0x5C"
  by (simp add: dump_esc_def split: if_splits)

lemma dump_esc_low: "dump_esc c = Some e \<Longrightarrow> \<not> 128 \<le> byte c"
  unfolding dump_esc_def by (simp split: if_split_asm)

lemma dump_esc_high: "128 \<le> byte c \<Longrightarrow> dump_esc c = None"
  using dump_esc_low by (cases "dump_esc c") auto

lemma escape_append: "escape (s @ t) = escape s @ escape t"
  by (simp add: escape_def)

lemma escape_high: "\<forall>c\<in>set s. 128 \<le> byte c \<Longrightarrow> escape s = s"
  by (induction s) (simp_all add: escape_def dump_esc_high)

lemma string_step_plain:
  assumes "0 < utf8_seq s" "32 \<le> byte (hd s)" "hd s \<noteq> CHR 0x5C"
  shows "s = hd s # tl s"
    and "string_step (hd s) (tl (take (utf8_seq s) s) @ r) = Inr (take (utf8_seq s) s, r)"
proof -
  let ?n = "utf8_seq s" let ?t = "take ?n s"
  show s: "s = hd s # tl s" using assms(1) by (cases s) auto
  have t: "hd s # (tl ?t @ r) = ?t @ r"
    using assms(1) by (cases s; cases ?n) auto
  have "utf8_seq (?t @ r) = ?n" by (rule utf8_seq_prefix [OF assms(1)])
  moreover have "length ?t = ?n" using utf8_seq_le [of s] by simp
  ultimately show "string_step (hd s) (tl ?t @ r) = Inr (?t, r)"
    using assms by (simp add: string_step_def t)
qed

lemma parse_string_escape:
  "valid_utf8 s \<Longrightarrow> parse_string_loop b (escape s @ CHR 0x22 # r) = Inr (b @ s, r)"
proof (induction s arbitrary: b rule: valid_utf8_induct)
  case Nil
  then show ?case by (simp add: escape_def)
next
  case (Step s)
  let ?n = "utf8_seq s" let ?t = "take ?n s" and ?rest = "escape (drop ?n s) @ CHR 0x22 # r"
  have split: "escape s = escape ?t @ escape (drop ?n s)"
    by (metis append_take_drop_id escape_append)
  have s: "s = hd s # tl s" using Step(2) by (cases s) auto
  have IH: "parse_string_loop (b @ ?t) ?rest = Inr (b @ s, r)"
    using Step(3) [of "b @ ?t"] by simp
  show ?case
  proof (cases "dump_esc (hd s)")
    case None
    then have "escape ?t = ?t"
    proof (cases "?n = 1")
      case True
      then show ?thesis using None s by (cases s) (simp_all add: escape_def)
    next
      case False
      then show ?thesis using utf8_seq_multi [OF Step(2)] by (intro escape_high) blast
    qed
    moreover have "?t = hd s # tl ?t" using Step(2) s by (cases s; cases ?n) auto
    ultimately have e: "escape s @ CHR 0x22 # r = hd s # (tl ?t @ ?rest)"
      using split by (metis append.assoc append_Cons)
    have "string_step (hd s) (tl ?t @ ?rest) = Inr (?t, ?rest)"
      using string_step_plain(2) [OF Step(2)] dump_esc_None [OF None] by blast
    then show ?thesis using dump_esc_None [OF None] IH by (simp add: e)
  next
    case (Some e)
    then have "\<not> 128 \<le> byte (hd s)" by (rule dump_esc_low)
    then have n: "?n = 1" using s by (cases s) auto
    then have t: "?t = [hd s]" using s by (cases s) auto
    obtain e' where e': "e = CHR 0x5C # e'" "string_step (CHR 0x5C) (e' @ ?rest) = Inr (?t, ?rest)"
      using string_step_escape [OF Some, of ?rest] t by auto
    have "escape s @ CHR 0x22 # r = CHR 0x5C # (e' @ ?rest)"
      using split t Some e'(1) by (simp add: escape_def)
    then show ?thesis using e'(2) IH by simp
  qed
qed

subsection \<open>The two validators agree\<close>

lemma cont_byte: "byte c div 64 = 2 \<longleftrightarrow> 128 \<le> byte c \<and> byte c < 192"
  by auto

lemma cont_byte_mod: "128 \<le> byte c \<Longrightarrow> byte c < 192 \<Longrightarrow> byte c mod 64 = byte c - 128"
proof -
  assume "128 \<le> byte c" "byte c < 192"
  then have "byte c = 2 * 64 + (byte c - 128)" "byte c - 128 < 64" by simp_all
  then show ?thesis by (metis mod_mult_self3 mod_less)
qed

lemma three_byte_range:
  fixes k x y :: nat
  assumes "k < 16" "x < 64" "y < 64"
  shows "utf8_bad 3 ((k * 64 + x) * 64 + y) \<longleftrightarrow> k = 0 \<and> x < 32 \<or> k = 13 \<and> 32 \<le> x"
proof -
  define n where "n = (k * 64 + x) * 64 + y"
  have n: "n = k * 4096 + (x * 64 + y)" by (simp add: n_def)
  have r: "x * 64 + y < 4096" "x * 64 + y < 2048 \<longleftrightarrow> x < 32" using assms by linarith+
  consider "k = 0" | "1 \<le> k" "k \<le> 12" | "k = 13" | "14 \<le> k" by linarith
  then have "n < 0x800 \<or> 0xD800 \<le> n \<and> n \<le> 0xDFFF \<longleftrightarrow> k = 0 \<and> x < 32 \<or> k = 13 \<and> 32 \<le> x"
  proof cases
    case 2
    then have "4096 \<le> k * 4096" "k * 4096 \<le> 49152" by simp_all
    with 2 r n show ?thesis by linarith
  next
    case 4
    then have "57344 \<le> k * 4096" by simp
    with 4 r n show ?thesis by linarith
  qed (use r n in \<open>linarith+\<close>)
  then show ?thesis by (simp add: utf8_bad_def n_def)
qed

lemma four_byte_range:
  fixes k x y z :: nat
  assumes "k \<le> 4" "x < 64" "y < 64" "z < 64"
  shows "utf8_bad 4 (((k * 64 + x) * 64 + y) * 64 + z) \<longleftrightarrow> k = 0 \<and> x < 16 \<or> k = 4 \<and> 16 \<le> x"
proof -
  define n where "n = ((k * 64 + x) * 64 + y) * 64 + z"
  have n: "n = k * 262144 + (x * 4096 + (y * 64 + z))" by (simp add: n_def)
  have r: "y * 64 + z < 4096" using assms by linarith
  then have r': "x * 4096 + (y * 64 + z) < 262144" "x * 4096 + (y * 64 + z) < 65536 \<longleftrightarrow> x < 16"
    using assms by linarith+
  consider "k = 0" | "1 \<le> k" "k \<le> 3" | "k = 4" using assms by linarith
  then have "n < 0x10000 \<or> 0x10FFFF < n \<longleftrightarrow> k = 0 \<and> x < 16 \<or> k = 4 \<and> 16 \<le> x"
  proof cases
    case 2
    then have "262144 \<le> k * 262144" "k * 262144 \<le> 786432" by simp_all
    with 2 r' n show ?thesis by linarith
  qed (use r' n in \<open>linarith+\<close>)
  then show ?thesis by (simp add: utf8_bad_def n_def)
qed

lemma two_bad: "\<not> utf8_bad 2 x"
  by (simp add: utf8_bad_def)

abbreviation is_cont :: "char \<Rightarrow> bool" where
  "is_cont d \<equiv> 128 \<le> byte d \<and> byte d < 192"

lemma utf8_lead_width:
  "0xC2 \<le> c \<Longrightarrow> c \<le> 0xDF \<Longrightarrow> utf8_lead c = Some (2, c mod 32)"
  "0xE0 \<le> c \<Longrightarrow> c \<le> 0xEF \<Longrightarrow> utf8_lead c = Some (3, c - 0xE0)"
  "0xF0 \<le> c \<Longrightarrow> c \<le> 0xF4 \<Longrightarrow> utf8_lead c = Some (4, c - 0xF0)"
proof -
  have m: "c mod k = c - a" if "a \<le> c" "c < a + k" "a mod k = 0" for a k :: nat
  proof -
    have "c mod k = (a + (c - a)) mod k" using that by simp
    also have "\<dots> = (a mod k + (c - a)) mod k" by (simp add: mod_add_left_eq)
    also have "\<dots> = c - a" using that by simp
    finally show ?thesis .
  qed
  show "0xC2 \<le> c \<Longrightarrow> c \<le> 0xDF \<Longrightarrow> utf8_lead c = Some (2, c mod 32)"
    by (simp add: utf8_lead_def)
  show "0xE0 \<le> c \<Longrightarrow> c \<le> 0xEF \<Longrightarrow> utf8_lead c = Some (3, c - 0xE0)"
    using m [of "0xE0" 16] by (simp add: utf8_lead_def)
  show "0xF0 \<le> c \<Longrightarrow> c \<le> 0xF4 \<Longrightarrow> utf8_lead c = Some (4, c - 0xF0)"
    using m [of "0xF0" 8] by (simp add: utf8_lead_def)
qed

lemma utf8_cont_step:
  "utf8_cont (Suc n) cp (d # s) = (if is_cont d then utf8_cont n (cp * 64 + (byte d - 128)) s else None)"
  using cont_byte [of d] cont_byte_mod [of d] by auto

declare utf8_cont.simps(3) [simp del] utf8_cont_step [simp]

lemma utf8_cont_several:
  "utf8_cont 2 cp (d # e # r) =
     (if is_cont d \<and> is_cont e then Some ((cp * 64 + (byte d - 128)) * 64 + (byte e - 128)) else None)"
  "utf8_cont 3 cp (d # e # f # r) =
     (if is_cont d \<and> is_cont e \<and> is_cont f
      then Some (((cp * 64 + (byte d - 128)) * 64 + (byte e - 128)) * 64 + (byte f - 128)) else None)"
proof -
  have "2 = Suc (Suc 0)" "3 = Suc (Suc (Suc 0))" by simp_all
  then show "utf8_cont 2 cp (d # e # r) =
     (if is_cont d \<and> is_cont e then Some ((cp * 64 + (byte d - 128)) * 64 + (byte e - 128)) else None)"
    "utf8_cont 3 cp (d # e # f # r) =
     (if is_cont d \<and> is_cont e \<and> is_cont f
      then Some (((cp * 64 + (byte d - 128)) * 64 + (byte e - 128)) * 64 + (byte f - 128)) else None)"
    by (simp_all only: utf8_cont_step utf8_cont.simps if_if_eq_conj)
qed

lemma utf8_seq_two:
  assumes "0xC2 \<le> byte c" "byte c \<le> 0xDF"
  shows "utf8_seq (c # s) = (case s of [] \<Rightarrow> 0 | d # r \<Rightarrow> if is_cont d then 2 else 0)"
  using assms utf8_lead_width(1) [OF assms]
  by (cases s) (simp_all add: two_bad numeral_2_eq_2 [symmetric])

lemma utf8_seq_three:
  assumes "0xE0 \<le> byte c" "byte c \<le> 0xEF"
  shows "utf8_seq (c # s) =
    (case s of d # e # r \<Rightarrow>
       if is_cont d \<and> is_cont e \<and> (byte c = 0xE0 \<longrightarrow> 0xA0 \<le> byte d) \<and> (byte c = 0xED \<longrightarrow> byte d < 0xA0)
       then 3 else 0
     | _ \<Rightarrow> 0)"
proof (cases "length s < 2")
  case True
  then show ?thesis
    using assms utf8_lead_width(2) [OF assms] by (auto split: list.splits)
next
  case False
  then obtain d e r where s: "s = d # e # r"
    by (metis One_nat_def Suc_1 Suc_le_length_iff not_less)
  define x where "x = ((byte c - 0xE0) * 64 + (byte d - 128)) * 64 + (byte e - 128)"
  have "utf8_bad 3 x \<longleftrightarrow>
    byte c = 0xE0 \<and> byte d < 0xA0 \<or> byte c = 0xED \<and> 0xA0 \<le> byte d" if "is_cont d" "is_cont e"
    using assms that unfolding x_def by (subst three_byte_range) auto
  then show ?thesis
    using assms utf8_lead_width(2) [OF assms] utf8_cont_several(1) [of "byte c - 0xE0" d e r]
    unfolding x_def [symmetric] by (auto simp: s)
qed

lemma utf8_seq_four:
  assumes "0xF0 \<le> byte c" "byte c \<le> 0xF4"
  shows "utf8_seq (c # s) =
    (case s of d # e # f # r \<Rightarrow>
       if is_cont d \<and> is_cont e \<and> is_cont f \<and> (byte c = 0xF0 \<longrightarrow> 0x90 \<le> byte d)
         \<and> (byte c = 0xF4 \<longrightarrow> byte d < 0x90)
       then 4 else 0
     | _ \<Rightarrow> 0)"
proof (cases "length s < 3")
  case True
  then show ?thesis
    using assms utf8_lead_width(3) [OF assms] by (auto split: list.splits)
next
  case False
  then obtain d e f r where s: "s = d # e # f # r"
    by (metis numeral_3_eq_3 Suc_le_length_iff not_less)
  define x where
    "x = (((byte c - 0xF0) * 64 + (byte d - 128)) * 64 + (byte e - 128)) * 64 + (byte f - 128)"
  have "utf8_bad 4 x \<longleftrightarrow>
    byte c = 0xF0 \<and> byte d < 0x90 \<or> byte c = 0xF4 \<and> 0x90 \<le> byte d"
    if "is_cont d" "is_cont e" "is_cont f"
    using assms that unfolding x_def by (subst four_byte_range) auto
  then show ?thesis
    using assms utf8_lead_width(3) [OF assms] utf8_cont_several(2) [of "byte c - 0xF0" d e f r]
    unfolding x_def [symmetric] by (auto simp: s)
qed

lemma utf8_fail_cont [simp]:
  "map_sum id f (utf8_incomplete c) \<noteq> Inr x" "map_sum id f (utf8_invalid i c) \<noteq> Inr x"
  by (simp_all add: utf8_incomplete_def utf8_invalid_def sb_fail_def)

lemma utf8_check_cont_one:
  "(\<exists>j. utf8_check_cont l i (Suc 0) lo hi s = Inr (j, r)) \<longleftrightarrow>
     (\<exists>d. s = d # r \<and> lo \<le> byte d \<and> byte d \<le> hi)"
  by (cases s) auto

lemma utf8_check_cont_more:
  "(\<exists>j. utf8_check_cont l i (Suc (Suc n)) lo hi s = Inr (j, r)) \<longleftrightarrow>
     (\<exists>d t. s = d # t \<and> lo \<le> byte d \<and> byte d \<le> hi
        \<and> (\<exists>j. utf8_check_cont l (Suc i) (Suc n) 0x80 0xBF t = Inr (j, r)))"
  by (cases s) (auto simp del: utf8_check_cont.simps(3) simp: utf8_check_cont.simps(3) [of l i])

text \<open>One round of \<open>utf8_check\<close> on a multi-byte sequence.\<close>

definition check_step :: "nat \<Rightarrow> nat \<Rightarrow> char \<Rightarrow> string \<Rightarrow> string \<Rightarrow> bool" where
  "check_step l i c s r \<longleftrightarrow>
     (\<exists>need lo hi j. utf8_ranges (byte c) = Some (need, lo, hi)
        \<and> utf8_check_cont l i need lo hi s = Inr (j, r))"

lemma check_step_seq:
  assumes "128 \<le> byte c"
  shows "check_step l i c s r \<longleftrightarrow> 0 < utf8_seq (c # s) \<and> r = drop (utf8_seq (c # s)) (c # s)"
proof -
  consider (two) "0xC2 \<le> byte c" "byte c \<le> 0xDF" | (three) "0xE0 \<le> byte c" "byte c \<le> 0xEF"
    | (four) "0xF0 \<le> byte c" "byte c \<le> 0xF4"
    | (bad) "\<not> (0xC2 \<le> byte c \<and> byte c \<le> 0xDF)" "\<not> (0xE0 \<le> byte c \<and> byte c \<le> 0xEF)"
      "\<not> (0xF0 \<le> byte c \<and> byte c \<le> 0xF4)"
    by blast
  then show ?thesis
  proof cases
    case two
    then have "utf8_ranges (byte c) = Some (Suc 0, 0x80, 0xBF)" by (simp add: utf8_ranges_def)
    then have "check_step l i c s r \<longleftrightarrow> (\<exists>d. s = d # r \<and> is_cont d)"
      by (auto simp: check_step_def utf8_check_cont_one)
    then show ?thesis using utf8_seq_two [OF two] by (auto split: list.splits)
  next
    case three
    let ?lo = "if byte c = 0xE0 then 0xA0 else 0x80 :: nat" and ?hi = "if byte c = 0xED then 0x9F else 0xBF :: nat"
    have "utf8_ranges (byte c) = Some (Suc (Suc 0), ?lo, ?hi)"
      using three by (simp add: utf8_ranges_def)
    then have "check_step l i c s r \<longleftrightarrow>
        (\<exists>d e. s = d # e # r \<and> ?lo \<le> byte d \<and> byte d \<le> ?hi \<and> is_cont e)"
      unfolding check_step_def by (auto simp: utf8_check_cont_more utf8_check_cont_one simp del: utf8_check_cont.simps)
    then show ?thesis using utf8_seq_three [OF three] by (auto split: list.splits if_splits)
  next
    case four
    let ?lo = "if byte c = 0xF0 then 0x90 else 0x80 :: nat" and ?hi = "if byte c = 0xF4 then 0x8F else 0xBF :: nat"
    have "utf8_ranges (byte c) = Some (Suc (Suc (Suc 0)), ?lo, ?hi)"
      using four by (simp add: utf8_ranges_def)
    then have "check_step l i c s r \<longleftrightarrow>
        (\<exists>d e f. s = d # e # f # r \<and> ?lo \<le> byte d \<and> byte d \<le> ?hi \<and> is_cont e \<and> is_cont f)"
      unfolding check_step_def by (auto simp: utf8_check_cont_more utf8_check_cont_one simp del: utf8_check_cont.simps)
    then show ?thesis using utf8_seq_four [OF four] by (auto split: list.splits if_splits)
  next
    case bad
    then have "utf8_ranges (byte c) = None" "utf8_lead (byte c) = None"
      unfolding utf8_ranges_def utf8_lead_def by auto
    then show ?thesis using assms by (simp add: check_step_def)
  qed
qed

lemma utf8_check_loop_iff: "utf8_check_loop l i s = Inr () \<longleftrightarrow> valid_utf8 s"
proof (induction l i s rule: utf8_check_loop.induct)
  case (2 l i c s)
  show ?case
  proof (cases "byte c < 128")
    case True
    with 2(1) show ?thesis by (simp add: valid_utf8.simps [of "c # s"])
  next
    case False
    have "utf8_check_loop l i (c # s) = Inr () \<longleftrightarrow> (\<exists>r. check_step l (Suc i) c s r \<and> valid_utf8 r)"
      using False 2(2)
      by (auto simp: check_step_def utf8_invalid_def split: option.splits sum.splits)
    also have "\<dots> \<longleftrightarrow> 0 < utf8_seq (c # s) \<and> valid_utf8 (drop (utf8_seq (c # s)) (c # s))"
      using check_step_seq [of c l "Suc i" s] False by auto
    also have "\<dots> \<longleftrightarrow> valid_utf8 (c # s)"
      by (subst (2) valid_utf8.simps) (simp only: list.distinct if_False neq0_conv [symmetric] split: if_split, blast)
    finally show ?thesis .
  qed
qed simp

lemma utf8_check_iff: "utf8_check s = Inr () \<longleftrightarrow> valid_utf8 s"
  by (simp add: utf8_check_def utf8_check_loop_iff)

lemma unit_res_cases: "(x :: unit res) \<noteq> Inr () \<Longrightarrow> \<exists>e. x = Inl e"
  by (cases x) auto

subsection \<open>What is parsed is well formed\<close>

lemma valid_utf8_chunk: "0 < utf8_seq s \<Longrightarrow> utf8_seq s = length s \<Longrightarrow> valid_utf8 s"
  by (simp add: valid_utf8.simps [of s])

lemma valid_utf8_take: "0 < utf8_seq s \<Longrightarrow> valid_utf8 (take (utf8_seq s) s)"
  using utf8_seq_prefix [of s "[]"] utf8_seq_le [of s] by (intro valid_utf8_chunk) simp_all

lemma put_utf8_valid:
  assumes "cp \<le> 0x10FFFF" "cp < 0xD800 \<or> 0xDFFF < cp"
  shows "valid_utf8 (put_utf8 cp)"
proof -
  consider "cp < 0x80" | "0x80 \<le> cp" "cp < 0x800" | "0x800 \<le> cp" "cp < 0x10000"
    | "0x10000 \<le> cp" by linarith
  then have "0 < utf8_seq (put_utf8 cp) \<and> utf8_seq (put_utf8 cp) = length (put_utf8 cp)"
  proof cases
    case 1
    then show ?thesis by (simp add: put_utf8_def)
  next
    case 2
    have "2 \<le> cp div 64" "cp div 64 \<le> 31" using 2 by (simp_all add: div_le_mono [of _ 2047 64, simplified] le_div_geq less_eq_div_iff_mult_less_eq)
    then show ?thesis using 2 by (simp add: put_utf8_def utf8_seq_two del: utf8_seq.simps)
  next
    case 3
    define a b where "a = cp div 4096" and "b = cp div 64 mod 64"
    have ab: "cp div 64 = a * 64 + b" by (simp add: a_def b_def div_mult2_eq [of cp 64 64, simplified])
    have "a \<le> 15" "b < 64" "32 \<le> a * 64 + b"
      using 3 ab by (auto simp: a_def b_def less_eq_div_iff_mult_less_eq)
    moreover have "\<not> (864 \<le> a * 64 + b \<and> a * 64 + b \<le> 895)"
      using assms(2) unfolding ab [symmetric] by auto
    ultimately show ?thesis
      using 3 
      by (auto simp: put_utf8_def utf8_seq_three a_def [symmetric] b_def [symmetric]
          simp del: utf8_seq.simps)
  next
    case 4
    define a b where "a = cp div 262144" and "b = cp div 4096 mod 64"
    have ab: "cp div 4096 = a * 64 + b" by (simp add: a_def b_def div_mult2_eq [of cp 4096 64, simplified])
    have "16 \<le> a * 64 + b" "a * 64 + b \<le> 271" "b < 64"
      using 4 assms(1) ab by (auto simp: b_def less_eq_div_iff_mult_less_eq)
    then show ?thesis
      using 4 
      by (auto simp: put_utf8_def utf8_seq_four a_def [symmetric] b_def [symmetric]
          simp del: utf8_seq.simps)
  qed
  then show ?thesis using valid_utf8_chunk by blast
qed

lemma hex4_loop_bound: "hex4_loop n v s = Inr (x, r) \<Longrightarrow> x < (v + 1) * 16 ^ n"
proof (induction n v s rule: hex4_loop.induct)
  case (3 n v c s)
  then obtain d where d: "hex4_digit c = Some d" "hex4_loop n (v * 16 + d) s = Inr (x, r)"
    by (auto split: option.splits)
  then have "d < 16" by (auto simp: hex4_digit_def split: if_splits)
  have "x < (v * 16 + d + 1) * 16 ^ n" using 3 d by simp
  also have "\<dots> \<le> ((v + 1) * 16) * 16 ^ n" using \<open>d < 16\<close> by (intro mult_right_mono) simp_all
  finally show ?case by (simp only: power_Suc mult.assoc)
qed simp_all

lemma hex4_bound: "hex4 s = Inr (x, r) \<Longrightarrow> x \<le> 0xFFFF"
  using hex4_loop_bound [of 4 0 s x r] by (simp add: hex4_def split: if_splits)

lemma surrogate_escape_valid:
  assumes "surrogate_escape cp s = Inr (x, r)" "0xD800 \<le> cp" "cp \<le> 0xDBFF"
  shows "valid_utf8 x"
proof -
  obtain a b r2 where s: "s = a # b # r2"
    using assms(1) by (cases s; cases "tl s") (auto simp: surrogate_escape_def)
  obtain lo r3 where h: "hex4 r2 = Inr (lo, r3)"
    using assms(1) s by (cases "hex4 r2") (auto simp: surrogate_escape_def split: if_split_asm)
  have lo: "0xDC00 \<le> lo" "lo \<le> 0xDFFF"
    "x = put_utf8 (0x10000 + (cp - 0xD800) * 1024 + (lo - 0xDC00))"
    using assms(1) by (simp_all add: surrogate_escape_def s h split: if_split_asm)
  show ?thesis
    unfolding lo(3) by (rule put_utf8_valid) (use assms(2,3) lo(1,2) in auto)
qed

lemma unicode_escape_valid: "unicode_escape s = Inr (x, r) \<Longrightarrow> valid_utf8 x"
proof -
  assume u: "unicode_escape s = Inr (x, r)"
  then obtain cp r' where cp: "hex4 s = Inr (cp, r')"
    by (auto simp: unicode_escape_def split: sum.split_asm)
  show ?thesis
  proof (cases "0xD800 \<le> cp \<and> cp \<le> 0xDBFF")
    case True
    with u cp have "surrogate_escape cp r' = Inr (x, r)" by (simp add: unicode_escape_def)
    with True show ?thesis by (intro surrogate_escape_valid) auto
  next
    case False
    then have "x = put_utf8 cp" "cp < 0xD800 \<or> 0xDFFF < cp"
      using u cp by (auto simp: unicode_escape_def split: if_split_asm)
    then show ?thesis using hex4_bound [OF cp] by (auto intro: put_utf8_valid)
  qed
qed

lemma simple_escape_ascii: "simple_escape e = Some d \<Longrightarrow> byte d < 128"
  unfolding simple_escape_def by (fastforce split: if_split_asm)

lemma string_step_valid: "string_step c cs = Inr (x, r) \<Longrightarrow> valid_utf8 x"
proof -
  assume st: "string_step c cs = Inr (x, r)"
  show ?thesis
  proof (cases "c = CHR 0x5C")
    case True
    with st obtain e es where e: "cs = e # es"
      by (cases cs) (auto simp: string_step_def)
    show ?thesis
    proof (cases "simple_escape e")
      case None
      with st True e have "unicode_escape es = Inr (x, r)"
        by (auto simp: string_step_def split: if_split_asm)
      then show ?thesis by (rule unicode_escape_valid)
    next
      case (Some d)
      with st True e have "x = [d]" by (auto simp: string_step_def)
      with simple_escape_ascii [OF Some] show ?thesis by (simp add: valid_utf8.simps)
    qed
  next
    case False
    with st have "x = take (utf8_seq (c # cs)) (c # cs)" "0 < utf8_seq (c # cs)"
      by (auto simp: string_step_def Let_def simp del: utf8_seq.simps split: if_split_asm)
    then show ?thesis using valid_utf8_take by blast
  qed
qed

lemma parse_string_valid:
  "parse_string_loop b s = Inr (x, r) \<Longrightarrow> valid_utf8 b \<Longrightarrow> valid_utf8 x"
proof (induction b s rule: parse_string_loop.induct)
  case (2 b c cs)
  show ?case
  proof (cases "c = CHR 0x22")
    case False
    with 2(2) obtain y t where y: "string_step c cs = Inr (y, t)"
      "parse_string_loop (b @ y) t = Inr (x, r)" by (auto split: sum.split_asm)
    moreover have "valid_utf8 (b @ y)"
      using 2(3) string_step_valid [OF y(1)] by (rule valid_utf8_append)
    ultimately show ?thesis using 2(1) False by blast
  qed (use 2 in simp)
qed simp

end
