(* ===== verification/Json_Roundtrip.thy ===== *)
theory Json_Roundtrip
  imports Json_Parse_Facts
begin

text \<open>
  A printed value is parsed back to itself, in the compact and in the indented form, whatever
  text follows it. Floats are outside the statement: their digits come from Grisu2. The theory
  ends with what is parsed being well formed, with strict parsing, and with the properties of
  the JSON component.
\<close>

subsection \<open>Values are parsed back\<close>

text \<open>What may follow a number without being read as a part of it.\<close>

definition number_end :: "string \<Rightarrow> bool" where
  "number_end r \<longleftrightarrow> r = [] \<or>
     \<not> isdigit (hd r) \<and> hd r \<noteq> CHR ''.'' \<and> hd r \<noteq> CHR ''e'' \<and> hd r \<noteq> CHR ''E''"

lemma number_end_simps [simp]:
  "number_end []" "number_end (CHR '','' # r)" "number_end (CHR '']'' # r)"
  "number_end (CHR ''}'' # r)" "number_end (CHR 0x0A # r)"
  by (simp_all add: number_end_def isdigit_def)

lemma number_tail:
  assumes "number_end r"
  shows "number_frac r = Inr (False, r)" "number_exp r = Inr (False, r)"
  using assms by (cases r; simp add: number_frac_def number_exp_def number_end_def)+

lemma number_int_show:
  assumes "number_end r"
  shows "number_int (show_nat n @ r) = Inr r"
proof -
  obtain c cs where s: "show_nat n = c # cs" by (cases "show_nat n") auto
  have d: "\<forall>c\<in>set (show_nat n). isdigit c" using show_nat_digits by blast
  show ?thesis
  proof (cases "c = CHR ''0''")
    case True
    with hd_show_nat_zero [of n] s have "n = 0" by simp
    then have "show_nat n = [c]" using s by (simp add: show_nat.simps)
    then show ?thesis using True by (simp add: number_int_def)
  next
    case False
    have "dropWhile isdigit (show_nat n @ r) = r"
      by (rule dropWhile_append_stop [OF d]) (use assms in \<open>auto simp: number_end_def\<close>)
    then show ?thesis using False s d by (simp add: number_int_def)
  qed
qed

lemma show_nat_no_minus: "take 1 (show_nat n @ r) \<noteq> ''-''"
proof -
  obtain c cs where s: "show_nat n = c # cs" by (cases "show_nat n") auto
  then have "isdigit c" using show_nat_digits [of c n] by simp
  then have "c \<noteq> CHR ''-''" by (auto simp: isdigit_def)
  with s show ?thesis by simp
qed

lemma parse_number_nat:
  assumes "number_end r" "n < 2 ^ 64"
  shows "parse_number (show_nat n @ r) = Inr (sbj_uint n, r)"
proof -
  have "number_value (show_nat n) False = sbj_uint n"
    using assms(2) show_nat_no_minus [of n "[]"]
    by (simp add: number_value_def strtoull_def Let_def)
  then show ?thesis
    using show_nat_no_minus [of n r] number_int_show [OF assms(1), of n] number_tail [OF assms(1)]
    by (simp add: parse_number_def)
qed

lemma parse_number_neg:
  assumes "number_end r" "n \<le> 2 ^ 63"
  shows "parse_number (CHR ''-'' # show_nat n @ r) = Inr (sbj_int (- int n), r)"
proof -
  have "in_i64 (- int n)" using assms(2) by (simp add: in_i64_def)
  then have "number_value (CHR ''-'' # show_nat n) False = sbj_int (- int n)"
    by (simp add: number_value_def strtoll_def Let_def)
  then show ?thesis
    using number_int_show [OF assms(1), of n] number_tail [OF assms(1)]
    by (simp add: parse_number_def)
qed

text \<open>The first byte of a printed value decides the branch the parser takes.\<close>

definition starts_value :: "string \<Rightarrow> bool" where
  "starts_value s \<longleftrightarrow> s \<noteq> [] \<and> \<not> is_ws (hd s) \<and> hd s \<noteq> CHR '']''"

lemma skip_ws_newline: "skip_ws (dump_newline indent level @ s) = skip_ws s"
proof -
  have "dropWhile is_ws (dump_newline indent level @ s) = dropWhile is_ws s"
    by (rule dropWhile_append2) (auto simp: dump_newline_def is_ws_def split: if_splits)
  then show ?thesis by (simp add: skip_ws_def)
qed

lemma skip_ws_id: "s = [] \<or> \<not> is_ws (hd s) \<Longrightarrow> skip_ws s = s"
  by (cases s) (auto simp: skip_ws_def)

lemma skip_ws_idem [simp]: "skip_ws (skip_ws s) = skip_ws s"
  by (simp add: skip_ws_def)

lemma not_ws [simp]:
  "\<not> is_ws (CHR ''{'')" "\<not> is_ws (CHR ''['')" "\<not> is_ws (CHR 0x22)" "\<not> is_ws (CHR '','')"
  "\<not> is_ws (CHR ''}'')" "\<not> is_ws (CHR '']'')" "\<not> is_ws (CHR '':'')" "\<not> is_ws (CHR ''-'')"
  "\<not> is_ws (CHR ''t'')" "\<not> is_ws (CHR ''f'')" "\<not> is_ws (CHR ''n'')" "is_ws (CHR '' '')"
  by (simp_all add: is_ws_def)

lemma digit_not_ws: "isdigit c \<Longrightarrow> \<not> is_ws c \<and> c \<noteq> CHR ''{'' \<and> c \<noteq> CHR ''['' \<and> c \<noteq> CHR 0x22
    \<and> c \<noteq> CHR ''t'' \<and> c \<noteq> CHR ''f'' \<and> c \<noteq> CHR ''n'' \<and> c \<noteq> CHR '']'' \<and> c \<noteq> CHR ''}''"
  by (auto simp: isdigit_def is_ws_def)

lemma parse_at_skip: "parse_at deeper strict (skip_ws s) = parse_at deeper strict s"
  by (simp add: parse_at_def)

fun depth_le :: "nat \<Rightarrow> sbj \<Rightarrow> bool" where
  "depth_le k (SBJ_ARRAY xs) = (case k of 0 \<Rightarrow> False | Suc m \<Rightarrow> \<forall>x\<in>set xs. depth_le m x)"
| "depth_le k (SBJ_OBJECT kvs) =
     (case k of 0 \<Rightarrow> False | Suc m \<Rightarrow> \<forall>(l, x)\<in>set kvs. depth_le m x)"
| "depth_le k _ = True"

fun valid_strings :: "sbj \<Rightarrow> bool" where
  "valid_strings (SBJ_STRING s) = valid_utf8 s"
| "valid_strings (SBJ_ARRAY xs) = (\<forall>x\<in>set xs. valid_strings x)"
| "valid_strings (SBJ_OBJECT kvs) = (\<forall>(k, x)\<in>set kvs. valid_utf8 k \<and> valid_strings x)"
| "valid_strings _ = True"

definition reads :: "(string \<Rightarrow> sbj parsed) \<Rightarrow> string \<Rightarrow> sbj \<Rightarrow> bool" where
  "reads pv t v \<longleftrightarrow>
     (\<forall>w r. (\<forall>c\<in>set w. is_ws c) \<longrightarrow> number_end r \<longrightarrow> pv (w @ t @ r) = Inr (v, r))"

lemma readsD: "reads pv t v \<Longrightarrow> \<forall>c\<in>set w. is_ws c \<Longrightarrow> number_end r \<Longrightarrow> pv (w @ t @ r) = Inr (v, r)"
  by (simp add: reads_def)

lemma newline_ws: "\<forall>c\<in>set (dump_newline indent level). is_ws c"
  by (auto simp: dump_newline_def is_ws_def)

lemma number_end_newline: "number_end (dump_newline indent level @ s) \<longleftrightarrow> (if indent \<ge> 0 then True else number_end s)"
  by (simp add: dump_newline_def number_end_def isdigit_def)

lemma parse_arr_items:
  assumes "\<forall>y\<in>set (x # xs). reads pv (dump_value indent (level + 1) y) y" "length xs < n"
    "\<forall>c\<in>set w. is_ws c"
  shows "parse_arr pv n (SBJ_ARRAY acc)
      (w @ dump_value indent (level + 1) x @ dump_items indent level False xs
       @ dump_newline indent level @ CHR '']'' # r) = Inr (SBJ_ARRAY (acc @ x # xs), r)"
  using assms
proof (induction xs arbitrary: x acc n w)
  case Nil
  obtain m where n: "n = Suc m" using Nil by (cases n) auto
  let ?r = "dump_newline indent level @ CHR '']'' # r"
  have "pv (w @ dump_value indent (level + 1) x @ ?r) = Inr (x, ?r)"
    using Nil by (intro readsD) (simp_all add: number_end_newline)
  then show ?case by (simp add: n skip_ws_newline skip_ws_id or_null_def)
next
  case (Cons y ys)
  obtain m where n: "n = Suc m" "length ys < m" using Cons by (cases n) auto
  let ?t = "dump_value indent (level + 1) y @ dump_items indent level False ys
       @ dump_newline indent level @ CHR '']'' # r"
  let ?w = "dump_newline indent (level + 1)"
  have "pv (w @ dump_value indent (level + 1) x @ CHR '','' # ?w @ ?t) = Inr (x, CHR '','' # ?w @ ?t)"
    using Cons by (intro readsD) simp_all
  moreover have "parse_arr pv m (SBJ_ARRAY (acc @ [x])) (?w @ ?t)
      = Inr (SBJ_ARRAY ((acc @ [x]) @ y # ys), r)"
    using Cons n newline_ws by (intro Cons.IH) simp_all
  ultimately show ?case by (simp add: n skip_ws_id or_null_def)
qed

lemma obj_setn_snoc:
  assumes "sorted_keys acc" "\<forall>l\<in>fst ` set acc. l < k"
  shows "obj_setn acc k v = acc @ [(k, v)]" "obj_getn acc k = None"
proof -
  have "map_of acc k = None" using assms(2) by (rule map_of_bounds)
  then show g: "obj_getn acc k = None" using assms(1) by (simp add: obj_getn_map_of)
  show "obj_setn acc k v = acc @ [(k, v)]"
    by (rule sorted_keys_ext)
      (use assms in \<open>auto simp: obj_setn_sorted map_of_obj_setn fun_eq_iff map_add_def
        map_of_bounds split: option.splits\<close>)
qed

lemma parse_key_dump:
  assumes "\<forall>c\<in>set w. is_ws c" "valid_utf8 k" "obj_getn acc k = None"
  shows "parse_key strict (SBJ_OBJECT acc) (w @ dump_string k @ CHR '':'' # r) = Inr (k, r)"
proof -
  have "skip_ws (w @ dump_string k @ CHR '':'' # r) = dump_string k @ CHR '':'' # r"
    using assms(1) by (simp add: skip_ws_def dump_string_escape)
  then show ?thesis
    using assms(3) parse_string_escape [OF assms(2), of "[]" "CHR '':'' # r"]
    by (simp add: parse_key_def dump_string_escape parse_string_raw_def sbj_getn_def skip_ws_id)
qed

lemma parse_obj_members:
  assumes "\<forall>(l, y)\<in>set ((k, x) # kvs).
      valid_utf8 l \<and> reads pv (dump_value indent (level + 1) y) y"
    "length kvs < n" "\<forall>c\<in>set w. is_ws c" "sorted_keys (acc @ (k, x) # kvs)"
  shows "parse_obj pv strict n (SBJ_OBJECT acc)
      (w @ dump_string k @ (if indent \<ge> 0 then '': '' else '':'')
       @ dump_value indent (level + 1) x @ dump_members indent level False kvs
       @ dump_newline indent level @ CHR ''}'' # r) = Inr (SBJ_OBJECT (acc @ (k, x) # kvs), r)"
  using assms
proof (induction kvs arbitrary: k x acc n w)
  case Nil
  obtain m where n: "n = Suc m" using Nil by (cases n) auto
  define sp where "sp = (if indent \<ge> 0 then '' '' else [])"
  have sp: "\<forall>c\<in>set sp. is_ws c" "(if indent \<ge> 0 then '': '' else '':'') = CHR '':'' # sp"
    by (simp_all add: sp_def is_ws_def)
  let ?r = "dump_newline indent level @ CHR ''}'' # r"
  let ?v = "dump_value indent (level + 1) x @ ?r"
  have a: "\<forall>l\<in>fst ` set acc. l < k" "sorted_keys acc" using Nil by auto
  have "parse_key strict (SBJ_OBJECT acc) (w @ dump_string k @ CHR '':'' # sp @ ?v)
      = Inr (k, sp @ ?v)"
    using Nil obj_setn_snoc(2) [OF a(2,1)] by (intro parse_key_dump) simp_all
  moreover have "pv (sp @ ?v) = Inr (x, ?r)"
    using Nil sp by (intro readsD) (simp_all add: number_end_newline)
  ultimately show ?case
    using obj_setn_snoc(1) [OF a(2,1)]
    by (simp add: n sp(2) skip_ws_newline skip_ws_id or_null_def sbj_setn_def)
next
  case (Cons ly lvs)
  obtain l y where ly: "ly = (l, y)" by (cases ly)
  obtain m where n: "n = Suc m" "length lvs < m" using Cons by (cases n) auto
  define sp where "sp = (if indent \<ge> 0 then '' '' else [])"
  have sp: "\<forall>c\<in>set sp. is_ws c" "(if indent \<ge> 0 then '': '' else '':'') = CHR '':'' # sp"
    by (simp_all add: sp_def is_ws_def)
  let ?w = "dump_newline indent (level + 1)"
  let ?t = "dump_string l @ (if indent \<ge> 0 then '': '' else '':'')
       @ dump_value indent (level + 1) y @ dump_members indent level False lvs
       @ dump_newline indent level @ CHR ''}'' # r"
  let ?r = "CHR '','' # ?w @ ?t"
  let ?v = "dump_value indent (level + 1) x @ ?r"
  have a: "\<forall>l\<in>fst ` set acc. l < k" "sorted_keys acc" using Cons by auto
  have "parse_key strict (SBJ_OBJECT acc) (w @ dump_string k @ CHR '':'' # sp @ ?v)
      = Inr (k, sp @ ?v)"
    using Cons obj_setn_snoc(2) [OF a(2,1)] by (intro parse_key_dump) simp_all
  moreover have "pv (sp @ ?v) = Inr (x, ?r)"
    using Cons sp by (intro readsD) simp_all
  moreover have "parse_obj pv strict m (SBJ_OBJECT (acc @ [(k, x)])) (?w @ ?t)
      = Inr (SBJ_OBJECT ((acc @ [(k, x)]) @ (l, y) # lvs), r)"
    using Cons n newline_ws ly by (intro Cons.IH) simp_all
  ultimately show ?case
    using obj_setn_snoc(1) [OF a(2,1)]
    by (simp add: n sp(2) skip_ws_id or_null_def sbj_setn_def ly)
qed

lemma dump_value_hd:
  assumes "float_free v"
  shows "starts_value (dump_value indent level v)"
proof (cases v)
  case (SBJ_INT i)
  obtain c cs where c: "show_nat (nat i) = c # cs" by (cases "show_nat (nat i)") auto
  then have "isdigit c" using show_nat_digits [of c "nat i"] by simp
  with c SBJ_INT digit_not_ws show ?thesis by (simp add: show_int_def starts_value_def)
next
  case (SBJ_UINT u)
  obtain c cs where c: "show_nat u = c # cs" by (cases "show_nat u") auto
  then have "isdigit c" using show_nat_digits [of c u] by simp
  with c SBJ_UINT digit_not_ws show ?thesis by (simp add: starts_value_def)
qed (use assms in \<open>simp_all add: starts_value_def dump_string_escape\<close>)

lemma length_dump_items: "\<forall>x\<in>set xs. float_free x \<Longrightarrow> length xs \<le> length (dump_items indent level False xs)"
  by (induction xs) auto

lemma length_dump_members: "length kvs \<le> length (dump_members indent level False kvs)"
  by (induction kvs) auto

lemma parse_at_ws: "\<forall>c\<in>set w. is_ws c \<Longrightarrow> parse_at deeper strict (w @ s) = parse_at deeper strict s"
  by (simp add: parse_at_def skip_ws_def)

lemma reads_parse_at:
  assumes "\<And>r. number_end r \<Longrightarrow> parse_at deeper strict (t @ r) = Inr (v, r)"
  shows "reads (parse_at deeper strict) t v"
  using assms by (simp add: reads_def parse_at_ws)

lemma parse_at_number:
  assumes "isdigit c \<or> c = CHR ''-''"
  shows "parse_at deeper strict (c # s) = parse_number (c # s)"
proof (cases "c = CHR ''-''")
  case True
  then show ?thesis
    by (simp add: parse_at_def parse_scalar_def parse_literal_def skip_ws_id)
next
  case False
  with assms have d: "isdigit c" by simp
  with digit_not_ws [OF d] have "skip_ws (c # s) = c # s" "parse_literal c (c # s) = None"
    by (simp_all add: skip_ws_id parse_literal_def)
  then show ?thesis
    using d digit_not_ws [OF d] by (simp add: parse_at_def parse_scalar_def)
qed

lemma parse_at_nat:
  assumes "number_end r" "n < 2 ^ 64"
  shows "parse_at deeper strict (show_nat n @ r) = Inr (sbj_uint n, r)"
proof -
  obtain c cs where c: "show_nat n = c # cs" by (cases "show_nat n") auto
  then have "isdigit c" using show_nat_digits [of c n] by simp
  then have "parse_at deeper strict (show_nat n @ r) = parse_number (show_nat n @ r)"
    using c parse_at_number [of c deeper strict "cs @ r"] by simp
  then show ?thesis using parse_number_nat [OF assms] by simp
qed

lemma parse_at_scalar:
  assumes "wf_json v" "float_free v" "valid_strings v" "\<not> sbj_is_array (Some v)"
    "\<not> sbj_is_object (Some v)" "number_end r"
  shows "parse_at deeper strict (dump_value indent level v @ r) = Inr (v, r)"
proof (cases v)
  case (SBJ_INT i)
  show ?thesis
  proof (cases "i < 0")
    case True
    then have "nat (- i) \<le> 2 ^ 63" using assms(1) SBJ_INT by (simp add: in_i64_def)
    with True SBJ_INT assms(6) show ?thesis
      using parse_at_number [of "CHR ''-''" deeper strict "show_nat (nat (- i)) @ r"]
        parse_number_neg [of r "nat (- i)"]
      by (simp add: show_int_def sbj_int_def)
  next
    case False
    then have "nat i \<le> 2 ^ 63 - 1" using assms(1) SBJ_INT by (simp add: in_i64_def)
    with False SBJ_INT assms(6) show ?thesis
      using parse_at_nat [of r "nat i" deeper strict]
      by (simp add: show_int_def sbj_uint_def sbj_int_def)
  qed
next
  case (SBJ_UINT u)
  with assms show ?thesis
    using parse_at_nat [of r u deeper strict] by (simp add: sbj_uint_def)
next
  case (SBJ_STRING s)
  with assms show ?thesis
    using parse_string_escape [of s "[]" r]
    by (simp add: dump_string_escape parse_at_def skip_ws_id parse_scalar_def parse_string_raw_def)
qed (use assms in \<open>auto simp: parse_at_def skip_ws_id parse_scalar_def parse_literal_def
      match_lit_def sbj_ctor_defs\<close>)

lemma parse_array_dump:
  assumes "\<forall>y\<in>set xs. reads pv (dump_value indent (level + 1) y) y" "\<forall>y\<in>set xs. float_free y"
  shows "parse_array_at (Some pv) (dump_value indent level (SBJ_ARRAY xs) @ r)
    = Inr (SBJ_ARRAY xs, r)"
proof (cases xs)
  case Nil
  then show ?thesis by (simp add: parse_array_at_def skip_ws_id sbj_array_def)
next
  case (Cons x ys)
  let ?t = "dump_value indent (level + 1) x @ dump_items indent level False ys
       @ dump_newline indent level @ CHR '']'' # r"
  have st: "starts_value (dump_value indent (level + 1) x)"
    using assms(2) Cons by (simp add: dump_value_hd)
  have "skip_ws (dump_newline indent (level + 1) @ ?t) = ?t"
    using st by (simp add: skip_ws_newline starts_value_def skip_ws_id)
  moreover have "length ys < Suc (length ?t)"
    using length_dump_items [of ys indent level] assms(2) Cons by simp
  moreover have "parse_arr pv (Suc (length ?t)) (SBJ_ARRAY []) ([] @ ?t)
      = Inr (SBJ_ARRAY ([] @ x # ys), r)"
    using assms(1) Cons calculation(2) by (intro parse_arr_items) simp_all
  moreover have "take 1 ?t \<noteq> '']''"
    using st by (cases "dump_value indent (level + 1) x") (simp_all add: starts_value_def)
  moreover have "dump_value indent level (SBJ_ARRAY xs) @ r
      = CHR ''['' # dump_newline indent (level + 1) @ ?t"
    using Cons by simp
  ultimately show ?thesis
    using Cons unfolding parse_array_at_def sbj_array_def
    by (simp only: Let_def option.case list.sel append_Nil if_False)
qed

lemma parse_object_dump:
  assumes "\<forall>(l, y)\<in>set kvs. valid_utf8 l \<and> reads pv (dump_value indent (level + 1) y) y"
    "sorted_keys kvs"
  shows "parse_object_at (Some pv) strict (dump_value indent level (SBJ_OBJECT kvs) @ r)
    = Inr (SBJ_OBJECT kvs, r)"
proof (cases kvs)
  case Nil
  then show ?thesis by (simp add: parse_object_at_def skip_ws_id sbj_object_def)
next
  case (Cons kx lvs)
  obtain k x where kx: "kx = (k, x)" by (cases kx)
  let ?t = "dump_string k @ (if indent \<ge> 0 then '': '' else '':'')
       @ dump_value indent (level + 1) x @ dump_members indent level False lvs
       @ dump_newline indent level @ CHR ''}'' # r"
  have "skip_ws (dump_newline indent (level + 1) @ ?t) = ?t"
    by (simp add: skip_ws_newline dump_string_escape skip_ws_id)
  moreover have "length lvs < Suc (length ?t)"
    using length_dump_members [of lvs indent level] by simp
  moreover have "parse_obj pv strict (Suc (length ?t)) (SBJ_OBJECT []) ([] @ ?t)
      = Inr (SBJ_OBJECT ([] @ (k, x) # lvs), r)"
    using assms Cons kx calculation(2) by (intro parse_obj_members) simp_all
  moreover have "take 1 ?t \<noteq> ''}''" by (simp add: dump_string_escape)
  moreover have "dump_value indent level (SBJ_OBJECT kvs) @ r
      = CHR ''{'' # dump_newline indent (level + 1) @ ?t"
    using Cons kx by simp
  ultimately show ?thesis
    using Cons kx unfolding parse_object_at_def sbj_object_def
    by (simp only: Let_def option.case list.sel append_Nil if_False)
qed

lemma parse_value_Suc: "parse_value (Suc k) strict = parse_at (Some (parse_value k strict)) strict"
  by (rule ext) simp

lemma parse_value_deeper: "\<exists>deeper. parse_value k strict = parse_at deeper strict"
proof (cases k)
  case 0
  have "parse_value 0 strict = parse_at None strict" by (rule ext) simp
  with 0 show ?thesis by blast
qed (auto simp: parse_value_Suc simp del: parse_value.simps)

lemma parse_at_brackets:
  "parse_at deeper strict (CHR ''['' # s) = parse_array_at deeper (CHR ''['' # s)"
  "parse_at deeper strict (CHR ''{'' # s) = parse_object_at deeper strict (CHR ''{'' # s)"
  by (simp_all add: parse_at_def skip_ws_id)

lemma reads_scalar:
  assumes "wf_json v" "float_free v" "valid_strings v" "\<not> sbj_is_array (Some v)"
    "\<not> sbj_is_object (Some v)"
  shows "reads (parse_value k strict) (dump_value indent level v) v"
proof -
  obtain deeper where "parse_value k strict = parse_at deeper strict"
    using parse_value_deeper by blast
  then show ?thesis using reads_parse_at parse_at_scalar [OF assms] by metis
qed

text \<open>The round trip: whatever follows, the parser reads exactly the printed value.\<close>

lemma parse_value_dump:
  "wf_json v \<Longrightarrow> float_free v \<Longrightarrow> valid_strings v \<Longrightarrow> depth_le k v \<Longrightarrow>
     reads (parse_value k strict) (dump_value indent level v) v"
proof (induction k v arbitrary: level rule: depth_le.induct)
  case (1 k xs)
  then obtain m where k: "k = Suc m" by (cases k) auto
  have "reads (parse_value m strict) (dump_value indent (level + 1) x) x" if "x \<in> set xs" for x
    using 1 that k by auto
  then have "parse_array_at (Some (parse_value m strict)) (dump_value indent level (SBJ_ARRAY xs) @ r)
      = Inr (SBJ_ARRAY xs, r)" for r
    using 1(3) by (intro parse_array_dump) auto
  moreover have "\<exists>s. dump_value indent level (SBJ_ARRAY xs) = CHR ''['' # s" by simp
  ultimately show ?case
    unfolding k parse_value_Suc
    by (intro reads_parse_at) (metis append_Cons parse_at_brackets(1))
next
  case (2 k kvs)
  then obtain m where k: "k = Suc m" by (cases k) auto
  have "valid_utf8 l \<and> reads (parse_value m strict) (dump_value indent (level + 1) x) x"
    if "(l, x) \<in> set kvs" for l x
    using 2 that k by fastforce
  then have "parse_object_at (Some (parse_value m strict)) strict
      (dump_value indent level (SBJ_OBJECT kvs) @ r) = Inr (SBJ_OBJECT kvs, r)" for r
    using 2(2) by (intro parse_object_dump) auto
  moreover have "\<exists>s. dump_value indent level (SBJ_OBJECT kvs) = CHR ''{'' # s" by simp
  ultimately show ?case
    unfolding k parse_value_Suc
    by (intro reads_parse_at) (metis append_Cons parse_at_brackets(2))
qed (rule reads_scalar; simp)+

subsection \<open>What is parsed is well formed\<close>

definition sound :: "sbj \<Rightarrow> bool" where
  "sound v \<longleftrightarrow> wf_json v \<and> valid_strings v"

definition sound_parser :: "(string \<Rightarrow> sbj parsed) \<Rightarrow> bool" where
  "sound_parser p \<longleftrightarrow> (\<forall>s v r. p s = Inr (v, r) \<longrightarrow> sound v)"

lemma sound_parserD: "sound_parser p \<Longrightarrow> p s = Inr (v, r) \<Longrightarrow> sound v"
  unfolding sound_parser_def by blast

lemma number_value_sound: "sound (number_value num flt)"
  by (auto simp: number_value_def Let_def strtoll_def strtoull_def sound_def sbj_ctor_defs
      sbj_uint_def in_i64_def split: option.splits if_splits)

lemma parse_number_sound: "parse_number s = Inr (v, r) \<Longrightarrow> sound v"
  by (auto simp: parse_number_def res_bind_def number_value_sound split: sum.split_asm prod.split_asm)

lemma sound_setn:
  assumes "sound u" "sound v" "valid_utf8 k"
  shows "sound (sbj_setn u (Some k) (Some v))"
proof (cases "sbj_is_object (Some u)")
  case True
  then obtain kvs where u: "u = SBJ_OBJECT kvs" by (auto simp: sbj_is_object_iff)
  have "set (obj_setn kvs k v) \<subseteq> insert (k, v) (set kvs)"
    using assms(1) u by (intro set_obj_setn) (simp add: sound_def)
  then have "valid_strings (SBJ_OBJECT (obj_setn kvs k v))"
    using assms u by (fastforce simp: sound_def)
  moreover have "wf_json (sbj_setn u (Some k) (Some v))"
    using assms by (intro wf_sbj_setn) (simp_all add: sound_def)
  ultimately show ?thesis by (simp add: sound_def u sbj_setn_def or_null_def)
next
  case False
  then have "sbj_setn u (Some k) (Some v) = u" using sbj_accessors(6) by (simp add: sbj_set_def)
  with assms show ?thesis by simp
qed

lemma parse_key_valid: "parse_key strict u s = Inr (k, r) \<Longrightarrow> valid_utf8 k"
  by (auto simp: parse_key_def parse_string_raw_def Let_def split: if_split_asm
      dest: parse_string_valid)

lemma parse_arr_sound:
  "sound_parser pv \<Longrightarrow> sound a \<Longrightarrow> parse_arr pv n a s = Inr (v, r) \<Longrightarrow> sound v"
proof (induction n arbitrary: a s)
  case (Suc n)
  then obtain w r0 where w: "pv s = Inr (w, r0)" by (auto simp: res_bind_eq_Inr)
  then have "sound (sbj_arr_push a (Some w))"
    using Suc.prems(2) sound_parserD [OF Suc.prems(1) w]
    by (cases a) (auto simp: sound_def or_null_def)
  then show ?case
    using Suc w by (auto simp: Let_def split: if_split_asm)
qed simp

lemma parse_obj_sound:
  "sound_parser pv \<Longrightarrow> sound u \<Longrightarrow> parse_obj pv strict n u s = Inr (v, r) \<Longrightarrow> sound v"
proof (induction n arbitrary: u s)
  case (Suc n)
  then obtain k r0 w r1 where k: "parse_key strict u s = Inr (k, r0)" and w: "pv r0 = Inr (w, r1)"
    by (auto simp: res_bind_eq_Inr)
  then have "sound (sbj_setn u (Some k) (Some w))"
    using Suc.prems(2) sound_parserD [OF Suc.prems(1) w] parse_key_valid
    by (intro sound_setn) blast+
  then show ?case
    using Suc w k by (auto simp: Let_def split: if_split_asm)
qed simp

lemma parse_scalar_sound: "parse_scalar c s = Inr (v, r) \<Longrightarrow> sound v"
proof -
  assume p: "parse_scalar c s = Inr (v, r)"
  have lit: "sound w" if "parse_literal c s = Some (w, r')" for w r'
    using that by (auto simp: parse_literal_def sound_def sbj_ctor_defs split: if_split_asm)
  have str: "sound (SBJ_STRING x)" if "parse_string_loop [] (tl s) = Inr (x, r')" for x r'
    using parse_string_valid [OF that] by (simp add: sound_def)
  show ?thesis
    using p parse_number_sound lit str
    unfolding parse_scalar_def parse_string_raw_def
    by (auto split: if_split_asm option.split_asm)
qed

lemma sound_empty: "sound sbj_array" "sound sbj_object"
  by (simp_all add: sound_def sbj_array_def sbj_object_def)

lemma parse_at_sound:
  assumes "\<And>pv. deeper = Some pv \<Longrightarrow> sound_parser pv"
  shows "sound_parser (parse_at deeper strict)"
proof -
  have arr: "sound v" if "parse_array_at deeper s = Inr (v, r)" for s v r
    using that assms sound_empty parse_arr_sound
    by (auto simp: parse_array_at_def Let_def simp del: parse_arr.simps
        split: option.split_asm if_split_asm)
  have obj: "sound v" if "parse_object_at deeper strict s = Inr (v, r)" for s v r
    using that assms sound_empty parse_obj_sound
    by (auto simp: parse_object_at_def Let_def simp del: parse_obj.simps
        split: option.split_asm if_split_asm)
  show ?thesis
    using arr obj parse_scalar_sound
    by (auto simp: sound_parser_def parse_at_def split: list.split_asm if_split_asm)
qed

lemma parse_value_sound: "sound_parser (parse_value k strict)"
proof (induction k)
  case 0
  have "parse_value 0 strict = parse_at None strict" by (rule ext) simp
  then show ?case using parse_at_sound [of None] by simp
next
  case (Suc k)
  then show ?case unfolding parse_value_Suc by (intro parse_at_sound) simp
qed

lemma parse_document_sound: "parse_document t strict = Inr v \<Longrightarrow> wf_json v \<and> valid_strings v"
  using sound_parserD [OF parse_value_sound]
  by (auto simp: parse_document_def sound_def Let_def split: option.split_asm sum.split_asm if_split_asm)

lemma validate_value_iff:
  "validate_value v = Inr () \<longleftrightarrow> valid_strings v"
  "validate_items xs = Inr () \<longleftrightarrow> (\<forall>x\<in>set xs. valid_strings x)"
  "validate_members kvs = Inr () \<longleftrightarrow> (\<forall>(k, x)\<in>set kvs. valid_utf8 k \<and> valid_strings x)"
  by (induction v and xs and kvs rule: validate_value_validate_items_validate_members.induct)
    (auto simp: utf8_check_iff [symmetric] split: sum.splits)

subsection \<open>Strict parsing\<close>

text \<open>Rejecting duplicate keys only narrows what is accepted.\<close>

definition narrows :: "(string \<Rightarrow> 'a parsed) \<Rightarrow> (string \<Rightarrow> 'a parsed) \<Rightarrow> bool" where
  "narrows p q \<longleftrightarrow> (\<forall>s x. p s = Inr x \<longrightarrow> q s = Inr x)"

lemma narrowsD: "narrows p q \<Longrightarrow> p s = Inr x \<Longrightarrow> q s = Inr x"
  unfolding narrows_def by blast

lemma parse_key_narrows: "parse_key True u s = Inr x \<Longrightarrow> parse_key False u s = Inr x"
  by (auto simp: parse_key_def Let_def res_bind_eq_Inr split: if_split_asm)

lemma parse_arr_narrows:
  "narrows p q \<Longrightarrow> parse_arr p n a s = Inr x \<Longrightarrow> parse_arr q n a s = Inr x"
proof (induction n arbitrary: a s)
  case (Suc n)
  then obtain w r0 where w: "p s = Inr (w, r0)" by (auto simp: res_bind_eq_Inr)
  with narrowsD [OF Suc.prems(1) w] Suc show ?case
    by (auto simp: Let_def split: if_split_asm)
qed simp

lemma parse_obj_narrows:
  "narrows p q \<Longrightarrow> parse_obj p True n u s = Inr x \<Longrightarrow> parse_obj q False n u s = Inr x"
proof (induction n arbitrary: u s)
  case (Suc n)
  then obtain k r0 w r1 where k: "parse_key True u s = Inr (k, r0)" and w: "p r0 = Inr (w, r1)"
    by (auto simp: res_bind_eq_Inr)
  with narrowsD [OF Suc.prems(1) w] parse_key_narrows [OF k] Suc show ?case
    by (auto simp: Let_def split: if_split_asm)
qed simp

lemma parse_at_narrows:
  assumes "rel_option narrows d e"
  shows "narrows (parse_at d True) (parse_at e False)"
proof -
  have arr: "parse_array_at e s = Inr x" if "parse_array_at d s = Inr x" for s x
    using assms that parse_arr_narrows
    by (cases d; cases e) (auto simp: parse_array_at_def Let_def simp del: parse_arr.simps
        split: if_split_asm)
  have obj: "parse_object_at e False s = Inr x" if "parse_object_at d True s = Inr x" for s x
    using assms that parse_obj_narrows
    by (cases d; cases e) (auto simp: parse_object_at_def Let_def simp del: parse_obj.simps
        split: if_split_asm)
  show ?thesis
    unfolding narrows_def parse_at_def
    using arr obj by (auto split: list.split_asm if_split_asm)
qed

lemma parse_value_narrows: "narrows (parse_value k True) (parse_value k False)"
proof (induction k)
  case 0
  have "parse_value 0 strict = parse_at None strict" for strict by (rule ext) simp
  then show ?case using parse_at_narrows [of None None] by simp
next
  case (Suc k)
  then show ?case unfolding parse_value_Suc by (intro parse_at_narrows) simp
qed

subsection \<open>Printed text\<close>

lemma isdigit_not_nul: "isdigit c \<Longrightarrow> c \<noteq> CHR 0x00"
  by (auto simp: isdigit_def)

lemma show_nat_nul_free: "nul_free (show_nat n)"
  using show_nat_digits isdigit_not_nul by (auto simp: nul_free_def)

lemma show_hex4_nul_free: "nul_free (show_hex4 n)"
proof -
  have "hex_digit d \<noteq> CHR 0x00" if "d < 16" for d
  proof -
    have "byte (hex_digit d) \<noteq> 0" using that by (simp add: hex_digit_def)
    then show ?thesis by auto
  qed
  then show ?thesis by (simp add: show_hex4_def)
qed

lemma escape_nul_free: "nul_free (escape s)"
proof (induction s)
  case (Cons c s)
  have "nul_free (case dump_esc c of Some e \<Rightarrow> e | None \<Rightarrow> [c])"
  proof (cases "dump_esc c")
    case None
    with dump_esc_None [OF None] show ?thesis by auto
  next
    case (Some e)
    from dump_esc_forms [OF Some] show ?thesis
    proof (elim disjE exE conjE)
      fix x assume x: "e = [CHR 0x5C, x]" "simple_escape x = Some c"
      then have "x \<noteq> CHR 0x00" by (auto simp: simple_escape_def)
      with x Some show ?thesis by simp
    next
      assume "e = CHR 0x5C # CHR ''u'' # show_hex4 (byte c)"
      with Some show_hex4_nul_free show ?thesis by simp
    qed
  qed
  with Cons show ?case by (simp add: escape_def)
qed (simp add: escape_def)

lemma newline_nul_free: "nul_free (dump_newline indent level)"
  by (auto simp: dump_newline_def nul_free_def)

lemma dump_nul_free:
  "float_free v \<Longrightarrow> nul_free (dump_value indent level v)"
  "\<forall>x\<in>set xs. float_free x \<Longrightarrow> nul_free (dump_items indent level first xs)"
  "\<forall>(k, x)\<in>set kvs. float_free x \<Longrightarrow> nul_free (dump_members indent level first kvs)"
  by (induction indent level v and indent level first xs and indent level first kvs
      rule: dump_value_dump_items_dump_members.induct)
    (auto simp: show_int_def show_nat_nul_free dump_string_escape escape_nul_free newline_nul_free)

subsection \<open>Properties\<close>

lemma parse_document_dump:
  assumes "wf_json v" "float_free v" "valid_strings v" "depth_le SBJ_MAX_DEPTH v"
  shows "parse_document (Some (sbj_dump (Some v) indent)) strict = Inr v"
  using readsD [OF parse_value_dump [OF assms, of strict indent 0], of "[]" "[]"]
  by (simp add: parse_document_def sbj_dump_def skip_ws_def)

lemma parse_strict_is_document: "sbj_parse_strict t = parse_document t True"
proof (cases "parse_document t True")
  case (Inr v)
  then have "validate_value v = Inr ()"
    using parse_document_sound [OF Inr] validate_value_iff(1) by simp
  with Inr show ?thesis by (simp add: sbj_parse_strict_def sbj_validate_utf8_def)
qed (simp add: sbj_parse_strict_def)

lemma parse_one: "parse_document (Some ''[1]'') strict = Inr (SBJ_ARRAY [SBJ_INT 1])"
proof -
  have "of_byte 49 = of_byte (byte (CHR ''1''))" by simp
  then have "of_byte 49 = CHR ''1''" by (simp only: char_of_char)
  then have "show_int 1 = ''1''" by (simp add: show_int_def show_nat.simps)
  then show ?thesis
    using parse_document_dump [of "SBJ_ARRAY [SBJ_INT 1]" "- 1" strict]
    by (simp add: in_i64_def SBJ_MAX_DEPTH_def sbj_dump_def dump_newline_def)
qed

interpretation json: codec "\<lambda>v. sbj_dump (Some v) indent"
  "\<lambda>t. case sbj_parse (Some t) of Inl e \<Rightarrow> None | Inr v \<Rightarrow> Some v"
  "\<lambda>v. wf_json v \<and> float_free v \<and> valid_strings v \<and> depth_le SBJ_MAX_DEPTH v"
  for indent
  by unfold_locales (simp add: sbj_parse_def parse_document_dump)

text \<open>(C9) Round trip. A well-formed value without floats, whose strings are valid UTF-8 and whose
  nesting stays within the limit, is parsed back from its printed form, compact or indented, by the
  lenient and by the strict parser.\<close>

theorem sbj_parse_dump:
  assumes "wf_json v" "float_free v" "valid_strings v" "depth_le SBJ_MAX_DEPTH v"
  shows "sbj_parse (Some (sbj_dump (Some v) indent)) = Inr v
    \<and> sbj_parse_strict (Some (sbj_dump (Some v) indent)) = Inr v"
  by (simp add: sbj_parse_def parse_strict_is_document parse_document_dump [OF assms])

theorem sbj_parse_dump_witness:
  "sbj_parse (Some (sbj_dump (Some (SBJ_OBJECT [(''a'', SBJ_ARRAY [SBJ_INT (- 5), SBJ_BOOL True]),
      (''b'', SBJ_STRING [CHR 0x0A, CHR 0xC3, CHR 0xA9])])) 2)) =
    Inr (SBJ_OBJECT [(''a'', SBJ_ARRAY [SBJ_INT (- 5), SBJ_BOOL True]),
      (''b'', SBJ_STRING [CHR 0x0A, CHR 0xC3, CHR 0xA9])])"
  using sbj_parse_dump [of "SBJ_OBJECT [(''a'', SBJ_ARRAY [SBJ_INT (- 5), SBJ_BOOL True]),
      (''b'', SBJ_STRING [CHR 0x0A, CHR 0xC3, CHR 0xA9])]" 2]
  by (simp add: in_i64_def less_char_def SBJ_MAX_DEPTH_def valid_utf8.simps utf8_lead_def two_bad)

text \<open>(C12) Termination. Parsing a value either fails with an error of the grammar, never for lack of
  fuel, or returns a value after consuming at least one byte.\<close>

theorem parse_value_total:
  "case parse_value k strict s of
     Inl e \<Rightarrow> fst e \<noteq> ''out of fuel''
   | Inr (v, r) \<Rightarrow> length r < length s"
  using parse_value_good [of k strict]
  by (auto simp: progressing_def fuelled_def split: sum.splits prod.splits)

text \<open>(C11) Well-formedness. A parsed document has its members strictly sorted by key at every
  level, its integers in range, and only valid UTF-8 in its strings and keys.\<close>

theorem sbj_parse_sound:
  assumes "sbj_parse t = Inr v"
  shows "wf_json v \<and> valid_strings v"
  using assms parse_document_sound by (simp add: sbj_parse_def)

theorem sbj_parse_sound_witness:
  "sbj_parse (Some ''[1]'') = Inr (SBJ_ARRAY [SBJ_INT 1])
     \<and> wf_json (SBJ_ARRAY [SBJ_INT 1]) \<and> valid_strings (SBJ_ARRAY [SBJ_INT 1])"
proof -
  have p: "sbj_parse (Some ''[1]'') = Inr (SBJ_ARRAY [SBJ_INT 1])"
    by (simp add: sbj_parse_def parse_one)
  show ?thesis using p sbj_parse_sound [OF p] by simp
qed

text \<open>(C23) The UTF-8 pass of \<open>sbj_parse_strict\<close> never rejects what the parser accepted: strict
  parsing is parsing with duplicate keys refused.\<close>

theorem sbj_parse_strict_validation:
  "sbj_parse_strict t = parse_document t True"
  by (rule parse_strict_is_document)

text \<open>What strict parsing accepts, lenient parsing accepts with the same value.\<close>

lemma sbj_parse_strict_narrows:
  assumes "sbj_parse_strict t = Inr v"
  shows "sbj_parse t = Inr v"
proof -
  obtain s r where s: "t = Some s" "parse_value SBJ_MAX_DEPTH True s = Inr (v, r)" "skip_ws r = []"
    using assms unfolding parse_strict_is_document
    by (auto simp: parse_document_def Let_def split: option.split_asm sum.split_asm if_split_asm)
  then show ?thesis
    using narrowsD [OF parse_value_narrows s(2)] by (simp add: sbj_parse_def parse_document_def)
qed

text \<open>(C22) The two UTF-8 decoders of the file agree: \<open>utf8_check\<close> accepts exactly the strings that
  split into sequences \<open>utf8_seq\<close> accepts.\<close>

theorem utf8_validators_agree:
  "utf8_check s = Inr () \<longleftrightarrow> valid_utf8 s"
  by (rule utf8_check_iff)

text \<open>The printed text of a value without floats holds no NUL byte, so the C string
  \<open>sbj_dump\<close> returns is the whole text, whatever NUL bytes the strings inside hold.\<close>

lemma sbj_dump_nul_free:
  assumes "pred_option float_free v"
  shows "cstr (sbj_dump v indent) = sbj_dump v indent"
  using assms dump_nul_free(1) by (cases v) (auto simp: sbj_dump_def)

end
