(* ===== verification/Types.thy ===== *)
theory Types
  imports Util_Encoding Json_Roundtrip
begin

text \<open>
  \<open>c/src/types.c\<close>: the proxy nodes and the render request that the parser, the stores and the
  renderer exchange. A buffer with its length is a \<open>string\<close>; the vectors are lists, and pushing
  a slot and filling it is appending the filled record.
\<close>

abbreviation jget :: "sbj option \<Rightarrow> string \<Rightarrow> sbj option" where
  "jget v k \<equiv> sbj_get v (Some k)"

abbreviation jset :: "sbj \<Rightarrow> string \<Rightarrow> sbj \<Rightarrow> sbj" where
  "jset u k v \<equiv> sbj_set u (Some k) (Some v)"

abbreviation jset_str :: "sbj \<Rightarrow> string \<Rightarrow> string \<Rightarrow> sbj" where
  "jset_str u k s \<equiv> sbj_set_str u (Some k) (Some s)"

abbreviation jset_int :: "sbj \<Rightarrow> string \<Rightarrow> int \<Rightarrow> sbj" where
  "jset_int u k i \<equiv> sbj_set_int u (Some k) i"

abbreviation jset_bool :: "sbj \<Rightarrow> string \<Rightarrow> bool \<Rightarrow> sbj" where
  "jset_bool u k b \<equiv> sbj_set_bool u (Some k) b"

subsection \<open>Profile modes\<close>

datatype sb_profile_mode = SB_PROFILE_MANAGED | SB_PROFILE_FULL

definition sb_profile_mode_name :: "sb_profile_mode \<Rightarrow> string" where
  "sb_profile_mode_name mode = (if mode = SB_PROFILE_FULL then ''full'' else ''managed'')"

definition sb_profile_mode_parse :: "string option \<Rightarrow> sb_profile_mode option" where
  "sb_profile_mode_parse name =
     (if sb_streq name (Some ''managed'') then Some SB_PROFILE_MANAGED
      else if sb_streq name (Some ''full'') then Some SB_PROFILE_FULL
      else None)"

subsection \<open>Proxy nodes\<close>

record sb_proxy_node =
  pn_id :: string
  pn_tag :: string
  pn_type :: string
  pn_enabled :: bool
  pn_server :: string
  pn_server_port :: nat
  pn_protocol_config :: sbj

definition sb_proxy_node_init :: sb_proxy_node where
  "sb_proxy_node_init =
     \<lparr>pn_id = [], pn_tag = [], pn_type = [], pn_enabled = True, pn_server = [],
      pn_server_port = 0, pn_protocol_config = sbj_object\<rparr>"

definition sb_proxy_node_copy :: "sb_proxy_node \<Rightarrow> sb_proxy_node" where
  "sb_proxy_node_copy n =
     \<lparr>pn_id = pn_id n, pn_tag = pn_tag n, pn_type = pn_type n, pn_enabled = pn_enabled n,
      pn_server = pn_server n, pn_server_port = pn_server_port n,
      pn_protocol_config = sbj_clone (pn_protocol_config n)\<rparr>"

text \<open>The bytes of a string value; the callers have checked that it is one.\<close>

fun str_of :: "sbj option \<Rightarrow> string" where
  "str_of (Some (SBJ_STRING s)) = s"
| "str_of _ = []"

text \<open>\<open>protocol_config\<close> may be an object or the text of one.\<close>

definition node_protocol_config :: "sbj option \<Rightarrow> sbj option res" where
  "node_protocol_config pc =
     (if sbj_is_string pc
      then (case sbj_parse (Some (str_of pc)) of
              Inl e \<Rightarrow> sb_fail SB_ERR_VALIDATION ''protocol_config is not valid JSON''
            | Inr v \<Rightarrow> Inr (Some v))
      else Inr (map_option sbj_clone pc))"

definition sb_proxy_node_from_json :: "sbj option \<Rightarrow> sb_proxy_node res" where
  "sb_proxy_node_from_json v =
     (let out = sb_proxy_node_init; tag = jget v ''tag'' in
      if \<not> sbj_is_string tag
      then sb_fail SB_ERR_VALIDATION ''proxy node requires a string tag''
      else
        (let out = out\<lparr>pn_tag := str_of tag\<rparr>;
             id' = jget v ''id'';
             id' = (if \<not> sbj_is_string id' then tag else id');
             out = out\<lparr>pn_id := str_of id'\<rparr>;
             type = jget v ''type'';
             type = (if \<not> sbj_is_string type then jget v ''node_type'' else type);
             out = (if sbj_is_string type then out\<lparr>pn_type := str_of type\<rparr> else out);
             out = out\<lparr>pn_enabled := sbj_get_bool v (Some ''enabled'') True\<rparr>;
             server = jget v ''server'';
             out = (if sbj_is_string server then out\<lparr>pn_server := str_of server\<rparr> else out);
             port = sbj_get_int v (Some ''server_port'') 0 in
         if port < 0 \<or> port > 65535
         then sb_fail SB_ERR_VALIDATION ''proxy server_port is out of range''
         else
           (let out = out\<lparr>pn_server_port := nat port\<rparr> in
            res_bind (node_protocol_config (jget v ''protocol_config'')) (\<lambda>config.
              let config = (if \<not> sbj_is_object config then Some sbj_object else config) in
              Inr (out\<lparr>pn_protocol_config := the config\<rparr>)))))"

definition sb_proxy_node_to_json :: "sb_proxy_node \<Rightarrow> sbj" where
  "sb_proxy_node_to_json n =
     (let u = sbj_object;
          u = jset u ''id'' (sbj_strn (pn_id n));
          u = jset u ''tag'' (sbj_strn (pn_tag n));
          u = jset u ''type'' (sbj_strn (pn_type n));
          u = jset_bool u ''enabled'' (pn_enabled n);
          u = jset u ''server'' (sbj_strn (pn_server n));
          u = jset_int u ''server_port'' (int (pn_server_port n));
          u = jset u ''protocol_config'' (sbj_clone (pn_protocol_config n)) in
      u)"

subsection \<open>Render requests\<close>

record sb_render_request =
  rr_mode :: sb_profile_mode
  rr_profile :: sbj
  rr_nodes :: "sb_proxy_node list"
  rr_host_context :: sbj
  rr_external_route_tags :: sbj
  rr_priority_route_rules :: sbj
  rr_network_outbounds :: sbj
  rr_control_plane_server :: string
  rr_rule_script :: "string option"
  rr_clash_controller :: string
  rr_clash_secret :: string

definition sb_render_request_init :: sb_render_request where
  "sb_render_request_init =
     \<lparr>rr_mode = SB_PROFILE_MANAGED, rr_profile = sbj_object, rr_nodes = [],
      rr_host_context = sbj_object, rr_external_route_tags = sbj_array,
      rr_priority_route_rules = sbj_array, rr_network_outbounds = sbj_array,
      rr_control_plane_server = [], rr_rule_script = None, rr_clash_controller = [],
      rr_clash_secret = []\<rparr>"

subsection \<open>Parsed nodes\<close>

record sb_parsed_node =
  ps_node_type :: string
  ps_tag :: string
  ps_server :: string
  ps_server_port :: nat
  ps_protocol_config :: sbj

definition sb_parsed_node_init :: sb_parsed_node where
  "sb_parsed_node_init =
     \<lparr>ps_node_type = [], ps_tag = [], ps_server = [], ps_server_port = 0,
      ps_protocol_config = sbj_object\<rparr>"

text \<open>The credentials that identify a node of each type.\<close>

definition fingerprint_keys :: "string \<Rightarrow> string option \<times> string option" where
  "fingerprint_keys t =
     (if t = ''shadowsocks'' \<or> t = ''trojan'' \<or> t = ''hysteria2'' then (Some ''password'', None)
      else if t = ''vmess'' \<or> t = ''vless'' then (Some ''uuid'', None)
      else if t = ''tuic'' then (Some ''uuid'', Some ''password'')
      else if t = ''http'' \<or> t = ''socks'' then (Some ''username'', Some ''password'')
      else (None, None))"

definition fingerprint_raw :: "sb_parsed_node \<Rightarrow> string" where
  "fingerprint_raw n =
     (let (first, second) = fingerprint_keys (ps_node_type n);
          c = Some (ps_protocol_config n) in
      ps_server n @ '':'' @ show_nat (ps_server_port n) @ '':'' @ ps_node_type n @ '':''
      @ (case first of None \<Rightarrow> [] | Some k \<Rightarrow> str_of (jget c k))
      @ (case second of None \<Rightarrow> [] | Some k \<Rightarrow> '':'' @ str_of (jget c k)))"

text \<open>\<open>sha256\<close> stands for OpenSSL's digest.\<close>

definition sb_parsed_node_fingerprint :: "(string \<Rightarrow> string) \<Rightarrow> sb_parsed_node \<Rightarrow> string" where
  "sb_parsed_node_fingerprint sha256 n = sb_hex_encode (sha256 (fingerprint_raw n))"

subsection \<open>Facts\<close>

lemma str_of_iff: "sbj_is_string v \<Longrightarrow> v = Some (SBJ_STRING (str_of v))"
  by (cases v rule: str_of.cases) auto

lemma profile_mode_roundtrip: "sb_profile_mode_parse (Some (sb_profile_mode_name m)) = Some m"
  by (cases m) (simp_all add: sb_profile_mode_parse_def sb_profile_mode_name_def sb_streq_iff)

lemma wf_jset_scalars [simp, intro]:
  "wf_json u \<Longrightarrow> wf_json (jset_str u k s)"
  "wf_json u \<Longrightarrow> wf_json (jset_bool u k b)"
  "wf_json u \<Longrightarrow> in_i64 i \<Longrightarrow> wf_json (jset_int u k i)"
  by (auto simp: sbj_set_str_def sbj_set_bool_def sbj_set_int_def sbj_str_def sbj_ctor_defs)

lemma jset_kind [simp]:
  "sbj_is_object (Some (jset_str u k s)) \<longleftrightarrow> sbj_is_object (Some u)"
  "sbj_is_object (Some (jset_bool u k b)) \<longleftrightarrow> sbj_is_object (Some u)"
  "sbj_is_object (Some (jset_int u k i)) \<longleftrightarrow> sbj_is_object (Some u)"
  by (simp_all add: sbj_set_str_def sbj_set_bool_def sbj_set_int_def)

lemma wf_object [simp]: "wf_json sbj_object" "wf_json sbj_array" "wf_json sbj_null"
    "wf_json (sbj_bool b)" "wf_json (sbj_strn s)" "wf_json (sbj_str os)"
  by (auto simp: sbj_ctor_defs sbj_str_def split: option.splits)

lemma object_is_object [simp]: "sbj_is_object (Some sbj_object)" "sbj_is_array (Some sbj_array)"
  by (simp_all add: sbj_object_def sbj_array_def)

text \<open>Reading a member of an object built by a chain of writes.\<close>

lemma jget_jset [simp]:
  "wf_json u \<Longrightarrow> sbj_is_object (Some u) \<Longrightarrow>
     jget (Some (jset u k v)) l = (if l = k then Some v else jget (Some u) l)"
  "wf_json u \<Longrightarrow> sbj_is_object (Some u) \<Longrightarrow>
     jget (Some (jset_str u k s)) l = (if l = k then Some (SBJ_STRING s) else jget (Some u) l)"
  "wf_json u \<Longrightarrow> sbj_is_object (Some u) \<Longrightarrow>
     jget (Some (jset_bool u k b)) l = (if l = k then Some (SBJ_BOOL b) else jget (Some u) l)"
  "wf_json u \<Longrightarrow> sbj_is_object (Some u) \<Longrightarrow>
     jget (Some (jset_int u k i)) l = (if l = k then Some (SBJ_INT i) else jget (Some u) l)"
  by (simp_all add: sbj_get_set or_null_def sbj_set_str_def sbj_set_bool_def sbj_set_int_def
      sbj_str_def sbj_ctor_defs)

lemma jget_object [simp]: "jget (Some sbj_object) k = None"
  by (simp add: sbj_object_def sbj_accessors obj.lookup_empty)

lemma wf_jset [simp]: "wf_json u \<Longrightarrow> wf_json v \<Longrightarrow> wf_json (jset u k v)"
  by (rule wf_sbj_set) simp_all

text \<open>Well-formed objects, the shape every configuration under construction keeps.\<close>

definition wf_obj :: "sbj \<Rightarrow> bool" where
  "wf_obj u \<longleftrightarrow> wf_json u \<and> sbj_is_object (Some u)"

named_theorems obj_intros

lemma wf_objD [simp]: "wf_obj u \<Longrightarrow> wf_json u" "wf_obj u \<Longrightarrow> sbj_is_object (Some u)"
  by (simp_all add: wf_obj_def)

lemma wf_obj_object [simp, obj_intros]: "wf_obj sbj_object"
  by (simp add: wf_obj_def)

lemma wf_obj_jset [simp, obj_intros]:
  "wf_obj u \<Longrightarrow> wf_json v \<Longrightarrow> wf_obj (jset u k v)"
  "wf_obj u \<Longrightarrow> wf_obj (jset_str u k s)"
  "wf_obj u \<Longrightarrow> wf_obj (jset_bool u k b)"
  "wf_obj u \<Longrightarrow> in_i64 i \<Longrightarrow> wf_obj (jset_int u k i)"
  unfolding wf_obj_def by simp_all

lemma jget_object_only: "jget (Some u) k = Some v \<Longrightarrow> sbj_is_object (Some u)"
  by (cases u) (simp_all add: sbj_accessors)

definition wf_node :: "sb_proxy_node \<Rightarrow> bool" where
  "wf_node n \<longleftrightarrow> wf_json (pn_protocol_config n) \<and> sbj_is_object (Some (pn_protocol_config n))
     \<and> pn_server_port n \<le> 65535"

lemma in_i64_port [simp]: "n \<le> 65535 \<Longrightarrow> in_i64 (int n)"
  by (simp add: in_i64_def)

lemma wf_node_to_json: "wf_node n \<Longrightarrow> wf_json (sb_proxy_node_to_json n)"
  by (simp add: sb_proxy_node_to_json_def wf_node_def sbj_clone_id Let_def)

text \<open>(C27) Writing a node as JSON and reading it back gives the same node: every field, the
  port and the protocol configuration included, survives \<open>sb_proxy_node_to_json\<close> followed by
  \<open>sb_proxy_node_from_json\<close>.\<close>

theorem proxy_node_roundtrip:
  assumes "wf_node n"
  shows "sb_proxy_node_from_json (Some (sb_proxy_node_to_json n)) = Inr n"
proof -
  have "sbj_get_bool (Some (sb_proxy_node_to_json n)) (Some ''enabled'') True = pn_enabled n"
    "sbj_get_int (Some (sb_proxy_node_to_json n)) (Some ''server_port'') 0 = int (pn_server_port n)"
    using assms by (simp_all add: sb_proxy_node_to_json_def wf_node_def sbj_clone_id Let_def
        sbj_get_bool_def sbj_get_int_def)
  moreover have "jget (Some (sb_proxy_node_to_json n)) k = 
    (if k = ''protocol_config'' then Some (pn_protocol_config n)
     else if k = ''server_port'' then Some (SBJ_INT (int (pn_server_port n)))
     else if k = ''server'' then Some (SBJ_STRING (pn_server n))
     else if k = ''enabled'' then Some (SBJ_BOOL (pn_enabled n))
     else if k = ''type'' then Some (SBJ_STRING (pn_type n))
     else if k = ''tag'' then Some (SBJ_STRING (pn_tag n))
     else if k = ''id'' then Some (SBJ_STRING (pn_id n)) else None)" for k
    using assms by (simp add: sb_proxy_node_to_json_def wf_node_def sbj_clone_id Let_def
        sbj_strn_def)
  ultimately show ?thesis
    using assms by (auto simp: sb_proxy_node_from_json_def sb_proxy_node_init_def Let_def
        node_protocol_config_def wf_node_def sbj_clone_id sbj_is_object_iff)
qed

theorem proxy_node_roundtrip_witness:
  "sb_proxy_node_from_json (Some (sb_proxy_node_to_json (sb_proxy_node_init\<lparr>pn_tag := ''a''\<rparr>)))
     = Inr (sb_proxy_node_init\<lparr>pn_tag := ''a''\<rparr>)"
  by (rule proxy_node_roundtrip) (simp add: wf_node_def sb_proxy_node_init_def)

end
