(* ===== verification/Net_Addr.thy ===== *)
theory Net_Addr
  imports Util_Strings
begin

text \<open>
  What the sources use of the C library for network addresses: \<open>inet_pton\<close> for both families, as
  glibc reads them. The result is the address in network byte order, 4 or 16 octets.
\<close>

text \<open>One field of a dotted quad: one to three digits, no leading zero, at most 255.\<close>

definition octet :: "string \<Rightarrow> nat option" where
  "octet s =
     (if s \<noteq> [] \<and> list_all isdigit s \<and> (hd s = CHR ''0'' \<longrightarrow> s = ''0'') \<and> digits_val s \<le> 255
      then Some (digits_val s) else None)"

fun octets :: "string list \<Rightarrow> nat list option" where
  "octets [] = Some []"
| "octets (f # fs) =
     (case octet f of
        None \<Rightarrow> None
      | Some b \<Rightarrow> (case octets fs of None \<Rightarrow> None | Some bs \<Rightarrow> Some (b # bs)))"

definition inet_pton4 :: "string \<Rightarrow> nat list option" where
  "inet_pton4 s =
     (let fs = split_loop (CHR ''.'') [] s in if length fs = 4 then octets fs else None)"

definition xdigit :: "char \<Rightarrow> nat option" where
  "xdigit c =
     (if isdigit c then Some (byte c - 48)
      else if 97 \<le> byte c \<and> byte c \<le> 102 then Some (byte c - 87)
      else if 65 \<le> byte c \<and> byte c \<le> 70 then Some (byte c - 55)
      else None)"

text \<open>The end of the scan: the last group, then \<open>::\<close> replaced by the zeros it stands for.\<close>

definition pton6_end :: "nat list \<Rightarrow> nat option \<Rightarrow> nat \<Rightarrow> nat \<Rightarrow> nat list option" where
  "pton6_end tp colonp seen val =
     (if seen > 0 \<and> length tp + 2 > 16 then None
      else
        (let tp = (if seen > 0 then tp @ [val div 256, val mod 256] else tp) in
         case colonp of
           Some c \<Rightarrow>
             (if length tp = 16 then None
              else Some (take c tp @ replicate (16 - length tp) 0 @ drop c tp))
         | None \<Rightarrow> (if length tp = 16 then Some tp else None)))"

fun pton6_loop ::
  "string \<Rightarrow> string \<Rightarrow> nat list \<Rightarrow> nat option \<Rightarrow> nat \<Rightarrow> nat \<Rightarrow> nat list option" where
  "pton6_loop [] curtok tp colonp seen val = pton6_end tp colonp seen val"
| "pton6_loop (ch # src) curtok tp colonp seen val =
     (case xdigit ch of
        Some d \<Rightarrow>
          (if seen = 4 then None
           else pton6_loop src curtok tp colonp (seen + 1) (16 * val + d))
      | None \<Rightarrow>
          (if ch = CHR '':'' then
             (if seen = 0 then
                (if colonp \<noteq> None then None
                 else pton6_loop src src tp (Some (length tp)) 0 val)
              else if src = [] then None
              else if length tp + 2 > 16 then None
              else pton6_loop src src (tp @ [val div 256, val mod 256]) colonp 0 0)
           else if ch = CHR ''.'' \<and> length tp + 4 \<le> 16 then
             (case inet_pton4 curtok of
                None \<Rightarrow> None
              | Some v4 \<Rightarrow> pton6_end (tp @ v4) colonp 0 0)
           else None))"

definition inet_pton6 :: "string \<Rightarrow> nat list option" where
  "inet_pton6 s =
     (case s of
        [] \<Rightarrow> None
      | c # src \<Rightarrow>
          (if c = CHR '':'' then
             (if src = [] \<or> hd src \<noteq> CHR '':'' then None
              else pton6_loop src src [] None 0 0)
           else pton6_loop s s [] None 0 0))"

subsection \<open>Facts\<close>

lemma octets_length: "octets fs = Some bs \<Longrightarrow> length bs = length fs"
  by (induction fs arbitrary: bs) (auto split: option.splits)

lemma octets_range: "octets fs = Some bs \<Longrightarrow> b \<in> set bs \<Longrightarrow> b < 256"
  by (induction fs arbitrary: bs)
    (auto simp: octet_def split: option.splits if_split_asm)

lemma inet_pton4_length: "inet_pton4 s = Some bs \<Longrightarrow> length bs = 4"
  by (auto simp: inet_pton4_def Let_def dest: octets_length split: if_split_asm)

lemma inet_pton4_range: "inet_pton4 s = Some bs \<Longrightarrow> b \<in> set bs \<Longrightarrow> b < 256"
  by (auto simp: inet_pton4_def Let_def dest: octets_range split: if_split_asm)

lemma octet_show_nat: "n \<le> 255 \<Longrightarrow> octet (show_nat n) = Some n"
proof (cases "n = 0")
  case True
  have "show_nat 0 = ''0''"
    by (subst show_nat.simps) (simp add: char_of_def bit_Suc_0_iff)
  with True show ?thesis
    by (simp add: octet_def isdigit_def digits_val_def digit_val_def)
next
  case False
  assume "n \<le> 255"
  with False show ?thesis
    using hd_show_nat_zero [of n] by (simp add: octet_def list_all_iff show_nat_digits)
qed

lemma pton6_end_length:
  "pton6_end tp colonp seen val = Some bs \<Longrightarrow> length tp \<le> 16 \<Longrightarrow>
     pred_option (\<lambda>c. c \<le> length tp) colonp \<Longrightarrow> length bs = 16"
  by (cases colonp) (auto simp: pton6_end_def Let_def split: if_split_asm)

lemma pred_option_le: "pred_option (\<lambda>c. c \<le> m) x \<Longrightarrow> m \<le> n \<Longrightarrow> pred_option (\<lambda>c. c \<le> n) x"
  for m n :: nat
  by (cases x) auto

lemma pton6_loop_length:
  "pton6_loop src curtok tp colonp seen val = Some bs \<Longrightarrow> length tp \<le> 16 \<Longrightarrow>
     pred_option (\<lambda>c. c \<le> length tp) colonp \<Longrightarrow> length bs = 16"
proof (induction src curtok tp colonp seen val rule: pton6_loop.induct)
  case (2 ch src curtok tp colonp seen val)
  have c: "pred_option (\<lambda>c. c \<le> length tp + n) colonp" for n
    using 2(6) by (rule pred_option_le) simp
  show ?case
  proof (cases "xdigit ch")
    case (Some d)
    then show ?thesis using 2 by (simp split: if_split_asm)
  next
    case None
    show ?thesis
    proof (cases "ch = CHR '':''")
      case True
      then show ?thesis using 2 None c [of 2] by (simp split: if_split_asm)
    next
      case False
      then obtain v4 where "inet_pton4 curtok = Some v4" "length tp + 4 \<le> 16"
        "pton6_end (tp @ v4) colonp 0 0 = Some bs"
        using 2(4) None by (auto split: if_split_asm option.splits)
      then show ?thesis
        using c [of 4] by (intro pton6_end_length) (auto dest!: inet_pton4_length)
    qed
  qed
qed (auto intro: pton6_end_length)

lemma inet_pton6_length: "inet_pton6 s = Some bs \<Longrightarrow> length bs = 16"
  by (auto simp: inet_pton6_def simp del: pton6_loop.simps intro: pton6_loop_length
      split: list.splits if_split_asm)

end
