(* ===== verification/Renderer.thy ===== *)
theory Renderer
  imports Types Net_Addr
begin

text \<open>
  \<open>c/src/config_renderer.c\<close>: rendering the sing-box configuration of a device from its profile,
  the proxy nodes and the rules the server adds. The configuration is passed through the steps in
  the order of \<open>sb_config_renderer_render\<close>; a write through a borrowed pointer is \<open>sbj_modify\<close>.
  The script engine (QuickJS) is the parameter \<open>build_rules\<close> of the definitions that call it: the
  script and its context give the rules or an error.
\<close>

subsection \<open>Accessors\<close>

definition type_error_value :: "sbj option \<Rightarrow> 'a res" where
  "type_error_value object =
     sb_fail SB_ERR_GENERIC
       (''[json.exception.type_error.306] cannot use value() with '' @ sbj_type_name object)"

definition value_str :: "sbj option \<Rightarrow> string \<Rightarrow> string \<Rightarrow> string res" where
  "value_str object key fallback =
     (if \<not> sbj_is_object object then type_error_value object
      else
        (case jget object key of
           None \<Rightarrow> Inr fallback
         | Some found \<Rightarrow>
             (if \<not> sbj_is_string (Some found)
              then sb_fail SB_ERR_GENERIC
                (''[json.exception.type_error.302] type must be string, but is ''
                 @ sbj_type_name (Some found))
              else Inr (cstr (str_of (Some found))))))"

definition value_bool :: "sbj option \<Rightarrow> string \<Rightarrow> bool \<Rightarrow> bool res" where
  "value_bool object key fallback =
     (if \<not> sbj_is_object object then type_error_value object
      else
        (case jget object key of
           None \<Rightarrow> Inr fallback
         | Some (SBJ_BOOL b) \<Rightarrow> Inr b
         | Some found \<Rightarrow>
             sb_fail SB_ERR_GENERIC
               (''[json.exception.type_error.302] type must be boolean, but is ''
                @ sbj_type_name (Some found))))"

text \<open>The conversion of a double to \<open>int\<close>: \<open>cvttsd2si\<close> gives \<open>INT_MIN\<close> out of range.\<close>

definition dbl_to_i32 :: "double \<Rightarrow> int" where
  "dbl_to_i32 d =
     (if isfinite d \<and> - (2 ^ 31) \<le> dbl_trunc d \<and> dbl_trunc d < 2 ^ 31
      then dbl_trunc d else - (2 ^ 31))"

definition value_int :: "sbj option \<Rightarrow> string \<Rightarrow> int \<Rightarrow> int res" where
  "value_int object key fallback =
     (if \<not> sbj_is_object object then type_error_value object
      else
        (case jget object key of
           None \<Rightarrow> Inr fallback
         | Some (SBJ_INT i) \<Rightarrow> Inr (wrap_i32 i)
         | Some (SBJ_UINT u) \<Rightarrow> Inr (wrap_i32 (int u))
         | Some (SBJ_FLOAT f) \<Rightarrow> Inr (dbl_to_i32 f)
         | Some (SBJ_BOOL b) \<Rightarrow> Inr (if b then 1 else 0)
         | Some found \<Rightarrow>
             sb_fail SB_ERR_GENERIC
               (''[json.exception.type_error.302] type must be number, but is ''
                @ sbj_type_name (Some found))))"

definition value_or_null :: "sbj option \<Rightarrow> string \<Rightarrow> sbj" where
  "value_or_null v key =
     (case jget v key of Some found \<Rightarrow> sbj_clone found | None \<Rightarrow> sbj_null)"

definition copy_if_present :: "sbj \<Rightarrow> sbj option \<Rightarrow> string \<Rightarrow> sbj" where
  "copy_if_present destination source key =
     (case jget source key of
        Some found \<Rightarrow> jset destination key (sbj_clone found)
      | None \<Rightarrow> destination)"

definition string_or :: "sbj option \<Rightarrow> string \<Rightarrow> string \<Rightarrow> sbj" where
  "string_or v key fallback =
     (let found = jget v key in
      if sbj_is_string found then sbj_clone (the found) else sbj_str (Some fallback))"

text \<open>\<open>index_or_null\<close> gives the object with the slot in it; the slot is read with \<open>jget\<close>.\<close>

definition index_or_null :: "sbj \<Rightarrow> string \<Rightarrow> sbj" where
  "index_or_null object key =
     (if jget (Some object) key = None then jset object key sbj_null else object)"

definition set_get :: "sbj \<Rightarrow> string \<Rightarrow> sbj \<Rightarrow> sbj" where
  "set_get object key v = jset object key v"

text \<open>The pair of lines that makes an absent or null slot an empty container.\<close>

definition index_or_empty :: "sbj \<Rightarrow> string \<Rightarrow> sbj \<Rightarrow> sbj" where
  "index_or_empty object key container =
     (let object = index_or_null object key in
      if sbj_is_null (jget (Some object) key) then set_get object key container else object)"

text \<open>The items that \<open>SBJ_ARR_FOREACH\<close> visits, and a loop that writes to each of them.\<close>

fun arr_items :: "sbj option \<Rightarrow> sbj list" where
  "arr_items (Some (SBJ_ARRAY xs)) = xs"
| "arr_items _ = []"

fun arr_map :: "(sbj \<Rightarrow> sbj) \<Rightarrow> sbj \<Rightarrow> sbj" where
  "arr_map f (SBJ_ARRAY xs) = SBJ_ARRAY (map f xs)"
| "arr_map f v = v"

subsection \<open>Rule validation\<close>

lemma obj_find_loop_found:
  "obj_find_loop kvs key lo hi = (i, True) \<Longrightarrow> i < hi"
proof (induction kvs key lo hi rule: obj_find_loop.induct)
  case (1 kvs key lo hi)
  have "lo < hi \<Longrightarrow> lo + (hi - lo) div 2 < hi" by simp
  with 1 show ?case
    by (subst (asm) (3) obj_find_loop.simps) (fastforce simp: Let_def split: if_split_asm)
qed

lemma size_jget: "jget (Some u) k = Some v \<Longrightarrow> size v < size u"
proof -
  assume a: "jget (Some u) k = Some v"
  then obtain kvs where u: "u = SBJ_OBJECT kvs"
    by (cases u) (simp_all add: sbj_accessors)
  obtain i where "obj_find kvs k = (i, True)" "v = snd (kvs ! i)"
    using a u by (auto simp: sbj_accessors obj_getn_def split: prod.splits if_split_asm)
  then have "i < length kvs" "v = snd (kvs ! i)"
    using obj_find_loop_found by (auto simp: obj_find_def)
  then have "(fst (kvs ! i), v) \<in> set kvs"
    by (metis nth_mem prod.collapse)
  then show ?thesis
    using u size_member by simp
qed

lemma size_arr_items: "jget (Some u) k = v \<Longrightarrow> sbj_is_array v \<Longrightarrow> size_list size (arr_items v) < size u"
  using size_jget [of u k] by (force simp: sbj_is_array_iff)

function validate_rule_tags :: "sbj list \<Rightarrow> sbj \<Rightarrow> unit res" where
  "validate_rule_tags [] allowed = Inr ()"
| "validate_rule_tags (rule # rules) allowed =
     (let outbound = jget (Some rule) ''outbound'' in
      if sbj_is_string outbound \<and> sbj_getn (Some allowed) (Some (str_of outbound)) = None
      then sb_fail SB_ERR_SCRIPT
        (''generated rule references unknown outbound tag: '' @ cstr (str_of outbound))
      else
        (let nested = jget (Some rule) ''rules'' in
         case (if sbj_is_array nested then validate_rule_tags (arr_items nested) allowed
               else Inr ()) of
           Inl e \<Rightarrow> Inl e
         | Inr _ \<Rightarrow> validate_rule_tags rules allowed))"
  by pat_completeness auto
termination
  by (relation "measure (\<lambda>(rs, a). size_list size rs)")
    (auto intro: size_arr_items [THEN less_trans])

subsection \<open>Clash API\<close>

definition inject_clash_api :: "sbj \<Rightarrow> sb_render_request \<Rightarrow> sbj" where
  "inject_clash_api config request =
     (if rr_clash_controller request = [] \<or> \<not> sbj_is_object (Some config) then config
      else
        (let existing = jget (Some config) ''experimental'' in
         if sbj_is_object existing \<and> sbj_has existing (Some ''clash_api'') then config
         else
           (let config = index_or_empty config ''experimental'' sbj_object in
            if \<not> sbj_is_object (jget (Some config) ''experimental'') then config
            else
              (let clash_api = jset sbj_object ''external_controller''
                     (sbj_strn (rr_clash_controller request));
                   clash_api = (if rr_clash_secret request \<noteq> []
                     then jset clash_api ''secret'' (sbj_strn (rr_clash_secret request))
                     else clash_api) in
               sbj_modify config ''experimental'' (\<lambda>e. jset e ''clash_api'' clash_api)))))"

definition disable_clash_dashboard :: "sbj \<Rightarrow> sbj" where
  "disable_clash_dashboard config =
     (let experimental = jget (Some config) ''experimental'' in
      if \<not> sbj_is_object experimental then config
      else
        (let api = jget experimental ''clash_api'' in
         if \<not> sbj_is_object api then config
         else sbj_modify config ''experimental'' (\<lambda>e. sbj_modify e ''clash_api'' (\<lambda>api.
           let api = snd (sbj_del api (Some ''external_ui''));
               api = snd (sbj_del api (Some ''external_ui_download_url''));
               api = snd (sbj_del api (Some ''external_ui_download_detour'')) in
           api))))"

subsection \<open>Control plane route\<close>

text \<open>\<open>strstr\<close>: the suffix at the first occurrence.\<close>

fun strstr :: "string \<Rightarrow> string \<Rightarrow> string option" where
  "strstr s needle =
     (if take (length needle) s = needle then Some s
      else (case s of [] \<Rightarrow> None | c # cs \<Rightarrow> strstr cs needle))"

definition url_host :: "string option \<Rightarrow> string" where
  "url_host input =
     (let v = (case input of None \<Rightarrow> [] | Some s \<Rightarrow> s);
          v = (case strstr v ''://'' of Some scheme \<Rightarrow> drop 3 scheme | None \<Rightarrow> v);
          host = takeWhile (\<lambda>c. c \<notin> set ''/?#'') v in
      if host \<noteq> [] \<and> hd host = CHR ''[''
      then (if CHR '']'' \<in> set host then takeWhile (\<lambda>c. c \<noteq> CHR '']'') (tl host) else [])
      else if length (filter (\<lambda>c. c = CHR '':'') host) = 1
      then takeWhile (\<lambda>c. c \<noteq> CHR '':'') host
      else host)"

definition direct_rule :: "string \<Rightarrow> string \<Rightarrow> sbj" where
  "direct_rule key v =
     (let rule = sbj_object;
          arr = sbj_arr_push sbj_array (Some (sbj_strn v));
          rule = jset rule key arr;
          rule = jset_str rule ''outbound'' ''direct'' in
      rule)"

definition control_plane_route :: "string option \<Rightarrow> sbj option" where
  "control_plane_route server =
     (let host = url_host server in
      if host = [] then None
      else if inet_pton4 host \<noteq> None then Some (direct_rule ''ip_cidr'' (host @ ''/32''))
      else if inet_pton6 host \<noteq> None then Some (direct_rule ''ip_cidr'' (host @ ''/128''))
      else Some (direct_rule ''domain'' host))"

subsection \<open>Managed DNS and geo policy\<close>

definition normalize_managed_dns_detours :: "sbj \<Rightarrow> bool \<Rightarrow> string option \<Rightarrow> sbj" where
  "normalize_managed_dns_detours config has_auto proxy_selector =
     (if \<not> sbj_is_object (jget (Some config) ''dns'') then config
      else sbj_modify config ''dns'' (\<lambda>dns.
        let dns = index_or_null dns ''servers'' in
        if \<not> sbj_is_array (jget (Some dns) ''servers'') then dns
        else
          (let target = (if \<not> has_auto then ''direct''
                 else (case proxy_selector of Some p \<Rightarrow> p | None \<Rightarrow> ''auto'')) in
           sbj_modify dns ''servers'' (arr_map (\<lambda>server.
             let detour = jget (Some server) ''detour'' in
             if \<not> sbj_is_object (Some server) \<or> \<not> sbj_is_string detour then server
             else if sbj_string_is detour (Some ''Proxy'') \<or> sbj_string_is detour (Some ''Auto'')
             then jset_str server ''detour'' target
             else server)))))"

definition meta_rules_base :: string where
  "meta_rules_base = ''https://cdn.jsdelivr.net/gh/MetaCubeX/meta-rules-dat@sing/geo/''"

definition rule_set_tag_matches :: "sbj option \<Rightarrow> string \<Rightarrow> bool" where
  "rule_set_tag_matches v tag =
     (if sbj_is_string v then sbj_string_is v (Some tag)
      else if \<not> sbj_is_array v then False
      else list_ex (\<lambda>item. sbj_is_string (Some item) \<and> sbj_string_is (Some item) (Some tag))
             (arr_items v))"

definition has_rule_for_set :: "sbj option \<Rightarrow> string \<Rightarrow> bool" where
  "has_rule_for_set rules tag =
     (if \<not> sbj_is_array rules then False
      else list_ex (\<lambda>rule.
        let found = (if sbj_is_object (Some rule) then jget (Some rule) ''rule_set'' else None) in
        found \<noteq> None \<and> rule_set_tag_matches found tag) (arr_items rules))"

fun private_ip_loop :: "sbj list \<Rightarrow> bool res" where
  "private_ip_loop [] = Inr False"
| "private_ip_loop (rule # rules) =
     (if \<not> sbj_is_object (Some rule) then private_ip_loop rules
      else (case value_bool (Some rule) ''ip_is_private'' False of
              Inl e \<Rightarrow> Inl e
            | Inr flag \<Rightarrow> (if flag then Inr True else private_ip_loop rules)))"

definition has_private_ip_rule :: "sbj option \<Rightarrow> bool res" where
  "has_private_ip_rule rules =
     (if \<not> sbj_is_array rules then Inr False else private_ip_loop (arr_items rules))"

text \<open>The search of \<open>add_remote_rule_set\<close>: whether an item already has the tag.\<close>

fun rule_set_present :: "sbj list \<Rightarrow> string \<Rightarrow> bool res" where
  "rule_set_present [] tag = Inr False"
| "rule_set_present (item # items) tag =
     (if \<not> sbj_is_object (Some item) then rule_set_present items tag
      else (case value_str (Some item) ''tag'' [] of
              Inl e \<Rightarrow> Inl e
            | Inr existing \<Rightarrow>
                (if sbj_string_is (jget (Some item) ''tag'') (Some tag) then Inr True
                 else rule_set_present items tag)))"

definition add_remote_rule_set :: "sbj \<Rightarrow> string \<Rightarrow> string \<Rightarrow> sbj res" where
  "add_remote_rule_set rule_sets tag relative_url =
     res_bind (rule_set_present (arr_items (Some rule_sets)) tag) (\<lambda>present.
       if present then Inr rule_sets
       else
         (let entry = sbj_object;
              entry = jset_str entry ''type'' ''remote'';
              entry = jset_str entry ''tag'' tag;
              entry = jset_str entry ''format'' ''binary'';
              entry = jset entry ''url'' (sbj_strn (meta_rules_base @ relative_url));
              entry = jset_str entry ''download_detour'' ''direct'';
              entry = jset_str entry ''update_interval'' ''7d'' in
          Inr (sbj_arr_push rule_sets (Some entry))))"

definition rule_set_rule :: "string \<Rightarrow> sbj" where
  "rule_set_rule tag =
     (let rule = sbj_object;
          arr = sbj_arr_push sbj_array (Some (sbj_str (Some tag)));
          rule = jset rule ''rule_set'' arr;
          rule = jset_str rule ''outbound'' ''direct'' in
      rule)"

definition push_unless :: "bool \<Rightarrow> sbj \<Rightarrow> sbj \<Rightarrow> sbj" where
  "push_unless present rules rule = (if present then rules else sbj_arr_push rules (Some rule))"

text \<open>The rules the managed defaults append, on the \<open>rules\<close> array of the route.\<close>

definition geo_rules :: "sbj \<Rightarrow> sbj res" where
  "geo_rules rules =
     (let rules = push_unless (has_rule_for_set (Some rules) ''geosite-private'') rules
            (rule_set_rule ''geosite-private'') in
      res_bind (has_private_ip_rule (Some rules)) (\<lambda>has_private.
        let rule = jset_str (jset_bool sbj_object ''ip_is_private'' True) ''outbound'' ''direct'';
            rules = push_unless has_private rules rule;
            rules = push_unless (has_rule_for_set (Some rules) ''geosite-cn'') rules
              (rule_set_rule ''geosite-cn'');
            rules = push_unless (has_rule_for_set (Some rules) ''geoip-cn'') rules
              (rule_set_rule ''geoip-cn'') in
        Inr rules))"

definition geo_route :: "sbj \<Rightarrow> sbj res" where
  "geo_route route =
     (let route = index_or_empty route ''rules'' sbj_array;
          rules = jget (Some route) ''rules'' in
      if \<not> sbj_is_array rules
      then sb_fail SB_ERR_VALIDATION ''managed route rules must be an array''
      else
        (let route = index_or_empty route ''rule_set'' sbj_array;
             rule_sets = jget (Some route) ''rule_set'' in
         if \<not> sbj_is_array rule_sets
         then sb_fail SB_ERR_VALIDATION ''managed route rule_set must be an array''
         else
           res_bind (add_remote_rule_set (the rule_sets) ''geosite-private'' ''geosite/private.srs'')
             (\<lambda>rule_sets.
           res_bind (add_remote_rule_set rule_sets ''geosite-cn'' ''geosite/cn.srs'')
             (\<lambda>rule_sets.
           res_bind (add_remote_rule_set rule_sets ''geoip-cn'' ''geoip/cn.srs'')
             (\<lambda>rule_sets.
           res_bind (geo_rules (the rules)) (\<lambda>rules.
             let route = jset route ''rule_set'' rule_sets;
                 route = jset route ''rules'' rules in
             Inr route))))))"

definition inject_managed_geo_policy :: "sbj \<Rightarrow> sbj res" where
  "inject_managed_geo_policy config =
     (let config = index_or_empty config ''route'' sbj_object;
          route = jget (Some config) ''route'' in
      if \<not> sbj_is_object route
      then sb_fail SB_ERR_VALIDATION ''managed route must be a JSON object''
      else
        res_bind (geo_route (the route)) (\<lambda>route.
          let config = jset config ''route'' route;
              config = index_or_empty config ''experimental'' sbj_object in
          Inr (if sbj_is_object (jget (Some config) ''experimental'')
               then sbj_modify config ''experimental'' (\<lambda>e.
                 let e = index_or_empty e ''cache_file'' sbj_object in
                 if sbj_is_object (jget (Some e) ''cache_file'')
                 then sbj_modify e ''cache_file'' (\<lambda>c. jset_bool c ''enabled'' True)
                 else e)
               else config)))"

subsection \<open>Outbounds\<close>

definition outbound_base :: "string \<Rightarrow> sb_proxy_node \<Rightarrow> sbj" where
  "outbound_base type node =
     (let u = sbj_object;
          u = jset_str u ''type'' type;
          u = jset u ''tag'' (sbj_strn (pn_tag node));
          u = jset u ''server'' (sbj_strn (pn_server node));
          u = jset_int u ''server_port'' (int (pn_server_port node)) in
      u)"

definition sb_config_generate_outbound :: "sb_proxy_node \<Rightarrow> sbj res" where
  "sb_config_generate_outbound node =
     (let config = Some (pn_protocol_config node); type = pn_type node in
      if type = ''shadowsocks'' then
        (let u = outbound_base ''shadowsocks'' node;
             u = jset u ''method'' (value_or_null config ''method'');
             u = jset u ''password'' (value_or_null config ''password'') in
         Inr u)
      else if type = ''vmess'' then
        res_bind (value_int config ''alter_id'' 0) (\<lambda>alter_id.
          let u = outbound_base ''vmess'' node;
              u = jset u ''uuid'' (value_or_null config ''uuid'');
              u = jset_int u ''alter_id'' alter_id;
              u = jset u ''security'' (string_or config ''security'' ''auto'');
              u = copy_if_present u config ''transport'';
              u = copy_if_present u config ''tls'' in
          Inr u)
      else if type = ''trojan'' then
        (let u = outbound_base ''trojan'' node;
             u = jset u ''password'' (value_or_null config ''password'');
             u = copy_if_present u config ''transport'';
             u = copy_if_present u config ''tls'' in
         Inr u)
      else if type = ''vless'' then
        (let u = outbound_base ''vless'' node;
             u = jset u ''uuid'' (value_or_null config ''uuid'');
             u = jset u ''flow'' (string_or config ''flow'' []);
             u = jset u ''packet_encoding'' (string_or config ''packet_encoding'' ''xudp'');
             u = copy_if_present u config ''transport'';
             u = copy_if_present u config ''tls'' in
         Inr u)
      else if type = ''hysteria2'' then
        (let u = outbound_base ''hysteria2'' node;
             u = jset u ''password'' (value_or_null config ''password'');
             u = copy_if_present u config ''tls'';
             u = copy_if_present u config ''obfs'' in
         Inr u)
      else if type = ''tuic'' then
        (let u = outbound_base ''tuic'' node;
             u = jset u ''uuid'' (value_or_null config ''uuid'');
             u = jset u ''password'' (value_or_null config ''password'');
             u = jset u ''congestion_control'' (string_or config ''congestion_control'' ''bbr'');
             u = jset u ''udp_relay_mode'' (string_or config ''udp_relay_mode'' ''native'');
             u = copy_if_present u config ''tls'' in
         Inr u)
      else if type = ''http'' \<or> type = ''socks'' then
        (let socks = (type = ''socks'');
             u = outbound_base (if socks then ''socks'' else ''http'') node;
             u = copy_if_present u config ''username'';
             u = copy_if_present u config ''password'' in
         Inr (if socks
              then (let u = copy_if_present u config ''version'';
                        u = copy_if_present u config ''network'' in
                    copy_if_present u config ''udp_over_tcp'')
              else copy_if_present u config ''tls''))
      else
        (let u = sbj_object;
             u = jset_str u ''type'' ''direct'';
             u = jset u ''tag'' (sbj_strn (pn_tag node)) in
         Inr u))"

text \<open>\<open>(unsigned)previous->v.i + 1\<close>; the table only holds integers.\<close>

fun next_occurrence :: "sbj option \<Rightarrow> nat" where
  "next_occurrence (Some (SBJ_INT i)) = nat ((i + 1) mod 2 ^ 32)"
| "next_occurrence _ = 1"

definition occurrence_tag :: "string \<Rightarrow> nat \<Rightarrow> string" where
  "occurrence_tag tag occurrence =
     (if occurrence > 1 then tag @ '' #'' @ show_nat occurrence else tag)"

fun outbounds_loop :: "sb_proxy_node list \<Rightarrow> sbj \<Rightarrow> sbj \<Rightarrow> sbj \<Rightarrow> (sbj \<times> sbj) res" where
  "outbounds_loop [] seen_counts outbounds auto_tags = Inr (outbounds, auto_tags)"
| "outbounds_loop (node # nodes) seen_counts outbounds auto_tags =
     (if \<not> pn_enabled node then outbounds_loop nodes seen_counts outbounds auto_tags
      else
        (case sb_config_generate_outbound node of
           Inl e \<Rightarrow> Inl e
         | Inr outbound \<Rightarrow>
             (let previous = sbj_getn (Some seen_counts) (Some (pn_tag node));
                  occurrence = next_occurrence previous;
                  seen_counts = sbj_setn seen_counts (Some (pn_tag node))
                    (Some (sbj_int (int occurrence)));
                  tag = occurrence_tag (pn_tag node) occurrence;
                  outbound = jset outbound ''tag'' (sbj_strn tag);
                  auto_tags = sbj_arr_push auto_tags (Some (sbj_strn tag));
                  outbounds = sbj_arr_push outbounds (Some outbound) in
              outbounds_loop nodes seen_counts outbounds auto_tags)))"

definition sb_config_generate_outbounds :: "sb_proxy_node list \<Rightarrow> sbj res" where
  "sb_config_generate_outbounds nodes =
     res_bind (outbounds_loop nodes sbj_object sbj_array sbj_array) (\<lambda>(outbounds, auto_tags).
       if sbj_arr_len (Some auto_tags) > 0 then
         (let urltest = sbj_object;
              urltest = jset_str urltest ''type'' ''urltest'';
              urltest = jset_str urltest ''tag'' ''auto'';
              urltest = jset urltest ''outbounds'' auto_tags;
              urltest = jset_str urltest ''url'' ''https://www.gstatic.com/generate_204'';
              urltest = jset_str urltest ''interval'' ''24h'';
              urltest = jset_str urltest ''idle_timeout'' ''24h'' in
          Inr (sbj_arr_push outbounds (Some urltest)))
       else Inr outbounds)"

definition outbounds_have_tag :: "sbj \<Rightarrow> string \<Rightarrow> bool" where
  "outbounds_have_tag outbounds tag =
     list_ex (\<lambda>u. sbj_string_is (jget (Some u) ''tag'') (Some tag)) (arr_items (Some outbounds))"

subsection \<open>Managed profiles\<close>

text \<open>The string tags of the outbounds; the selector's name grows past the longest of them.\<close>

definition outbound_tags :: "sbj \<Rightarrow> string list" where
  "outbound_tags outbounds =
     map (\<lambda>u. str_of (jget (Some u) ''tag''))
       (filter (\<lambda>u. sbj_is_string (jget (Some u) ''tag'')) (arr_items (Some outbounds)))"

lemma sbj_string_is_iff [simp]: "sbj_string_is v (Some s) \<longleftrightarrow> v = Some (SBJ_STRING s)"
  by (auto simp: sbj_string_is_def split: option.splits sbj.splits)

lemma outbounds_have_tag_iff: "outbounds_have_tag outbounds tag \<longleftrightarrow> tag \<in> set (outbound_tags outbounds)"
  by (force simp: outbounds_have_tag_def outbound_tags_def list_ex_iff sbj_is_string_iff)

function selector_tag_loop :: "sbj \<Rightarrow> string \<Rightarrow> string" where
  "selector_tag_loop outbounds tag =
     (if outbounds_have_tag outbounds tag then selector_tag_loop outbounds (tag @ '' group'')
      else tag)"
  by pat_completeness auto
termination
proof (relation "measure (\<lambda>(us, tag). Suc (Max (set (0 # map length (outbound_tags us)))) - length tag)",
    simp, goal_cases)
  case (1 us tag)
  then have "length tag \<le> Max (set (0 # map length (outbound_tags us)))"
    by (intro Max_ge) (auto simp: outbounds_have_tag_iff)
  then show ?case by simp
qed

declare selector_tag_loop.simps [simp del]

definition is_android :: "sbj option \<Rightarrow> bool res" where
  "is_android capabilities =
     (if sbj_is_object capabilities then
        res_bind (value_str capabilities ''platform'' []) (\<lambda>platform.
          Inr (sbj_string_is (jget capabilities ''platform'') (Some ''android'')))
      else Inr False)"

definition selector_outbounds :: "sbj \<Rightarrow> sbj" where
  "selector_outbounds outbounds =
     foldl (\<lambda>acc u.
       let tag = jget (Some u) ''tag'' in
       if sbj_is_string tag \<and> str_of tag \<noteq> [] \<and> \<not> sbj_string_is tag (Some ''auto'')
       then sbj_arr_push acc (map_option sbj_clone tag) else acc)
       (sbj_arr_push sbj_array (Some (sbj_str (Some ''auto'')))) (arr_items (Some outbounds))"

definition proxy_selector_outbound :: "sbj \<Rightarrow> string \<Rightarrow> sbj" where
  "proxy_selector_outbound outbounds selector_tag =
     (let selector = sbj_object;
          selector = jset_str selector ''type'' ''selector'';
          selector = jset_str selector ''tag'' selector_tag;
          selector = jset selector ''outbounds'' (selector_outbounds outbounds);
          selector = jset_str selector ''default'' ''auto'' in
      selector)"

definition managed_final :: "bool \<Rightarrow> string option \<Rightarrow> sbj \<Rightarrow> sbj" where
  "managed_final has_auto proxy_selector route =
     (let final_value = jget (Some route) ''final'' in
      if \<not> sbj_is_string final_value then route
      else
        (let legacy = (sbj_string_is final_value (Some ''Proxy'')
               \<or> sbj_string_is final_value (Some ''Auto'')) in
         if \<not> has_auto then jset_str route ''final'' ''direct''
         else if proxy_selector \<noteq> None \<and> (legacy \<or> sbj_string_is final_value (Some ''auto''))
         then jset_str route ''final'' (the proxy_selector)
         else if legacy then jset_str route ''final'' ''auto''
         else route))"

definition render_managed :: "sb_render_request \<Rightarrow> sbj \<Rightarrow> (sbj \<times> bool) res" where
  "render_managed request config =
     res_bind (sb_config_generate_outbounds (rr_nodes request)) (\<lambda>outbounds.
       let has_auto = outbounds_have_tag outbounds ''auto'';
           host_context = Some (rr_host_context request) in
       if \<not> sbj_is_object host_context then type_error_value host_context
       else
         (let capabilities = jget host_context ''capabilities'' in
          res_bind (is_android capabilities) (\<lambda>android.
            let supports_proxy_selection =
                  (android \<or> sbj_get_bool capabilities (Some ''supports_proxy_selection'') False);
                direct = jset_str (jset_str sbj_object ''type'' ''direct'') ''tag'' ''direct'';
                outbounds = (if \<not> outbounds_have_tag outbounds ''direct''
                  then sbj_arr_push outbounds (Some direct) else outbounds);
                proxy_selector = (if has_auto \<and> supports_proxy_selection
                  then Some (selector_tag_loop outbounds ''Proxy'') else None);
                outbounds = (case proxy_selector of
                    Some selector_tag \<Rightarrow>
                      sbj_arr_push outbounds (Some (proxy_selector_outbound outbounds selector_tag))
                  | None \<Rightarrow> outbounds);
                config = jset config ''outbounds'' outbounds;
                config = normalize_managed_dns_detours config has_auto proxy_selector;
                config = (if sbj_is_object (jget (Some config) ''route'')
                  then sbj_modify config ''route'' (managed_final has_auto proxy_selector)
                  else config) in
            Inr (config, has_auto))))"

subsection \<open>Rendering\<close>

text \<open>The outbound tags a script may name, as the members of an object.\<close>

definition allowed_tags :: "sbj \<Rightarrow> sb_render_request \<Rightarrow> sbj" where
  "allowed_tags config request =
     (let allowed = sbj_object;
          allowed = jset allowed ''direct'' (sbj_bool True);
          allowed = jset allowed ''block'' (sbj_bool True);
          allowed = jset allowed ''dns'' (sbj_bool True);
          allowed = jset allowed ''reject'' (sbj_bool True);
          allowed = foldl (\<lambda>allowed u.
            let tag = jget (Some u) ''tag'' in
            if sbj_is_string tag
            then sbj_setn allowed (Some (str_of tag)) (Some (sbj_bool True)) else allowed)
            allowed (arr_items (jget (Some config) ''outbounds''));
          allowed = foldl (\<lambda>allowed tag.
            if sbj_is_string (Some tag)
            then sbj_setn allowed (Some (str_of (Some tag))) (Some (sbj_bool True)) else allowed)
            allowed (arr_items (Some (rr_external_route_tags request))) in
      allowed)"

fun obj_keys :: "sbj \<Rightarrow> string list" where
  "obj_keys (SBJ_OBJECT kvs) = map fst kvs"
| "obj_keys _ = []"

definition script_context :: "sb_render_request \<Rightarrow> sbj \<Rightarrow> sbj option \<Rightarrow> sbj" where
  "script_context request allowed route =
     (let context = sbj_object;
          context = jset context ''host'' (sbj_clone (rr_host_context request));
          tags = foldl (\<lambda>tags k. sbj_arr_push tags (Some (sbj_strn k))) sbj_array (obj_keys allowed);
          context = jset context ''outboundTags'' tags;
          context = jset context ''currentRules''
            (case jget route ''rules'' of
               Some current_rules \<Rightarrow> sbj_clone current_rules
             | None \<Rightarrow> sbj_array) in
      context)"

type_synonym script_engine = "string \<Rightarrow> sbj \<Rightarrow> sbj res"

definition render_rule_script ::
  "script_engine \<Rightarrow> sb_render_request \<Rightarrow> string \<Rightarrow> sbj \<Rightarrow> sbj res" where
  "render_rule_script build_rules request script config =
     (let config = (if \<not> sbj_is_object (jget (Some config) ''route'')
            then set_get config ''route'' sbj_object else config);
          allowed = allowed_tags config request;
          context = script_context request allowed (jget (Some config) ''route'') in
      res_bind (build_rules script context) (\<lambda>rules.
      res_bind (validate_rule_tags (arr_items (Some rules)) allowed) (\<lambda>_.
        Inr (sbj_modify config ''route'' (\<lambda>route. jset route ''rules'' rules)))))"

definition add_network_outbounds :: "sb_render_request \<Rightarrow> sbj \<Rightarrow> sbj res" where
  "add_network_outbounds request config =
     (if sbj_arr_len (Some (rr_network_outbounds request)) = 0 then Inr config
      else
        (let outbounds = jget (Some config) ''outbounds'' in
         if outbounds \<noteq> None \<and> \<not> sbj_is_array outbounds
         then sb_fail SB_ERR_VALIDATION
           ''Network transports require profile.outbounds to be an array''
         else
           (let config = sbj_get_or_array config (Some ''outbounds'') in
            Inr (sbj_modify config ''outbounds'' (\<lambda>outbounds.
              foldl (\<lambda>outbounds u. sbj_arr_push outbounds (Some (sbj_clone u))) outbounds
                (arr_items (Some (rr_network_outbounds request))))))))"

definition protected_rules :: "sb_render_request \<Rightarrow> sbj list" where
  "protected_rules request =
     (case control_plane_route (Some (rr_control_plane_server request)) of
        Some control_rule \<Rightarrow> [control_rule]
      | None \<Rightarrow> [])
     @ map sbj_clone (arr_items (Some (rr_priority_route_rules request)))"

text \<open>\<open>for (i = 0; i < n; ++i) sbj_arr_insert(rules, i, sbj_arr_take(protected_rules, 0))\<close>\<close>

fun insert_protected :: "nat \<Rightarrow> sbj list \<Rightarrow> sbj \<Rightarrow> sbj" where
  "insert_protected i [] rules = rules"
| "insert_protected i (rule # protected) rules =
     insert_protected (i + 1) protected (sbj_arr_insert rules i (Some rule))"

definition protect_route :: "sb_render_request \<Rightarrow> sbj \<Rightarrow> sbj" where
  "protect_route request config =
     (let protected = protected_rules request in
      if protected = [] then config
      else
        (let config = (if \<not> sbj_is_object (jget (Some config) ''route'')
               then set_get config ''route'' sbj_object else config) in
         sbj_modify config ''route'' (\<lambda>route.
           let route = index_or_null route ''rules'';
               route = (if \<not> sbj_is_array (jget (Some route) ''rules'')
                 then set_get route ''rules'' sbj_array else route) in
           sbj_modify route ''rules'' (insert_protected 0 protected))))"

definition sb_config_renderer_render :: "script_engine \<Rightarrow> sb_render_request \<Rightarrow> sbj res" where
  "sb_config_renderer_render build_rules request =
     (if \<not> sbj_is_object (Some (rr_profile request))
      then sb_fail SB_ERR_VALIDATION ''profile template must be a JSON object''
      else
        (let config = sbj_clone (rr_profile request) in
         res_bind (if rr_mode request = SB_PROFILE_MANAGED then render_managed request config
                   else Inr (config, False)) (\<lambda>(config, managed_has_proxy).
         res_bind (add_network_outbounds request config) (\<lambda>config.
         res_bind (case rr_rule_script request of
                     Some script \<Rightarrow>
                       (if script \<noteq> [] then render_rule_script build_rules request script config
                        else Inr config)
                   | None \<Rightarrow> Inr config) (\<lambda>config.
         res_bind (if managed_has_proxy then inject_managed_geo_policy config
                   else Inr config) (\<lambda>config.
           let config = protect_route request config;
               config = inject_clash_api config request;
               config = disable_clash_dashboard config in
           Inr config))))))"

end
