(* ===== verification/Renderer_Facts.thy ===== *)
theory Renderer_Facts
  imports Renderer
begin

text \<open>
  What \<open>sb_config_renderer_render\<close> guarantees: every step keeps the configuration a well-formed
  object, the protected rules come first, the dashboard fields are gone, scripted rules only name
  known outbounds, the legacy names of managed profiles resolve, and when outbound tags are
  distinct.
\<close>

subsection \<open>Facts: objects under the renderer's writes\<close>

lemma modify_kind [simp]: "sbj_is_object (Some (sbj_modify u k f)) \<longleftrightarrow> sbj_is_object (Some u)"
  by (simp add: sbj_modify_def split: option.split)

lemma jget_modify [simp]:
  "wf_json u \<Longrightarrow> jget (Some (sbj_modify u k f)) l =
     (if l = k then map_option f (jget (Some u) k) else jget (Some u) l)"
  by (cases "jget (Some u) k") (auto simp: sbj_modify_def dest: jget_object_only)

lemma modify_cong:
  "(\<And>v. jget (Some u) k = Some v \<Longrightarrow> f v = g v) \<Longrightarrow> sbj_modify u k f = sbj_modify u k g"
  by (simp add: sbj_modify_def split: option.split)

lemma wf_obj_modify [obj_intros]:
  "wf_obj u \<Longrightarrow> (\<And>v. jget (Some u) k = Some v \<Longrightarrow> wf_json v \<Longrightarrow> wf_json (f v)) \<Longrightarrow>
     wf_obj (sbj_modify u k f)"
  unfolding wf_obj_def sbj_modify_def
  using wf_sbj_get_Some [of u "Some k"] by (auto split: option.split)

lemma wf_obj_jget [intro]: "wf_obj u \<Longrightarrow> jget (Some u) k = Some v \<Longrightarrow> wf_json v"
  using wf_sbj_get_Some wf_objD(1) by blast

lemma wf_obj_member: "wf_obj u \<Longrightarrow> sbj_is_object (jget (Some u) k) \<Longrightarrow> wf_obj (the (jget (Some u) k))"
  by (auto simp: wf_obj_def sbj_is_object_iff simp del: wf_objD intro: wf_sbj_get_Some)

lemma wf_obj_memberE:
  assumes "wf_obj u" "sbj_is_object (jget (Some u) k)"
  obtains v where "jget (Some u) k = Some v" "wf_obj v"
proof (cases "jget (Some u) k")
  case (Some v)
  then show thesis using that wf_obj_member [OF assms] by simp
qed (use assms in simp)

lemma wf_index_or_null [simp, obj_intros]: "wf_obj u \<Longrightarrow> wf_obj (index_or_null u k)"
  by (simp add: index_or_null_def)

lemma jget_index_or_null [simp]:
  "wf_obj u \<Longrightarrow> jget (Some (index_or_null u k)) l =
     (if l = k \<and> jget (Some u) k = None then Some SBJ_NULL else jget (Some u) l)"
  by (simp add: index_or_null_def sbj_null_def)

lemma wf_set_get [simp, obj_intros]: "wf_obj u \<Longrightarrow> wf_json v \<Longrightarrow> wf_obj (set_get u k v)"
  by (simp add: set_get_def)

lemma jget_set_get [simp]:
  "wf_obj u \<Longrightarrow> jget (Some (set_get u k v)) l = (if l = k then Some v else jget (Some u) l)"
  by (simp add: set_get_def)

lemma wf_index_or_empty [simp, obj_intros]:
  "wf_obj u \<Longrightarrow> wf_json c \<Longrightarrow> wf_obj (index_or_empty u k c)"
  by (simp add: index_or_empty_def Let_def)

lemma jget_index_or_empty [simp]:
  "wf_obj u \<Longrightarrow> jget (Some (index_or_empty u k c)) l =
     (if l = k \<and> sbj_is_null (jget (Some u) k) then Some c else jget (Some u) l)"
  by (auto simp: index_or_empty_def Let_def)

lemma wf_json_index [simp]:
  "wf_json u \<Longrightarrow> wf_json v \<Longrightarrow> wf_json (set_get u k v)"
  "wf_json u \<Longrightarrow> wf_json (index_or_null u k)"
  "wf_json u \<Longrightarrow> wf_json c \<Longrightarrow> wf_json (index_or_empty u k c)"
  by (simp_all add: index_or_empty_def index_or_null_def set_get_def Let_def)

lemma wf_arr_push [simp, obj_intros]:
  "wf_json a \<Longrightarrow> wf_json v \<Longrightarrow> wf_json (sbj_arr_push a (Some v))"
  by (simp add: wf_arr_ops)

lemma arr_push_kind [simp]: "sbj_is_array (Some (sbj_arr_push a v)) \<longleftrightarrow> sbj_is_array (Some a)"
  by (cases a) simp_all

lemma arr_items_push [simp]:
  "sbj_is_array (Some a) \<Longrightarrow> arr_items (Some (sbj_arr_push a (Some v))) = arr_items (Some a) @ [v]"
  by (cases a) (simp_all add: or_null_def)

lemma wf_arr_items: "wf_opt a \<Longrightarrow> x \<in> set (arr_items a) \<Longrightarrow> wf_json x"
  by (cases a rule: arr_items.cases) auto

lemma wf_arr_map: "wf_json a \<Longrightarrow> (\<And>x. wf_json x \<Longrightarrow> wf_json (f x)) \<Longrightarrow> wf_json (arr_map f a)"
  by (cases a) auto

lemma wf_foldl:
  "wf_json a \<Longrightarrow> (\<And>acc x. wf_json acc \<Longrightarrow> x \<in> set xs \<Longrightarrow> wf_json (f acc x)) \<Longrightarrow>
     wf_json (foldl f a xs)"
  by (induction xs arbitrary: a) auto

lemma arr_items_map [simp]: "arr_items (Some (arr_map f a)) = map f (arr_items (Some a))"
  by (cases a) simp_all

lemma array_items: "sbj_is_array v \<Longrightarrow> v = Some (SBJ_ARRAY (arr_items v))"
  by (auto simp: sbj_is_array_iff)

subsection \<open>Facts: every step keeps the configuration a well-formed object\<close>

definition wf_request :: "sb_render_request \<Rightarrow> bool" where
  "wf_request r \<longleftrightarrow> wf_json (rr_profile r) \<and> list_all wf_node (rr_nodes r)
     \<and> wf_json (rr_host_context r) \<and> wf_json (rr_external_route_tags r)
     \<and> wf_json (rr_priority_route_rules r) \<and> wf_json (rr_network_outbounds r)"

text \<open>What the renderer relies on of the script engine: its results are values of the JSON library.\<close>

definition wf_engine :: "script_engine \<Rightarrow> bool" where
  "wf_engine build_rules \<longleftrightarrow>
     (\<forall>script context rules. build_rules script context = Inr rules \<longrightarrow> wf_json rules)"

lemma wf_inject_clash_api [obj_intros]: "wf_obj config \<Longrightarrow> wf_obj (inject_clash_api config request)"
  by (auto simp: inject_clash_api_def Let_def intro!: obj_intros)

lemma wf_disable_clash_dashboard [obj_intros]:
  "wf_obj config \<Longrightarrow> wf_obj (disable_clash_dashboard config)"
  by (auto simp: disable_clash_dashboard_def Let_def intro!: obj_intros wf_sbj_modify wf_sbj_del)

lemma wf_direct_rule [simp]: "wf_json (direct_rule k v)"
  by (simp add: direct_rule_def Let_def)

lemma wf_control_plane_route: "control_plane_route s = Some r \<Longrightarrow> wf_json r"
  by (auto simp: control_plane_route_def Let_def split: if_split_asm)

lemma wf_normalize_managed_dns_detours [obj_intros]:
  "wf_obj config \<Longrightarrow> wf_obj (normalize_managed_dns_detours config has_auto sel)"
  unfolding normalize_managed_dns_detours_def Let_def
  by (auto intro!: obj_intros wf_sbj_modify wf_arr_map simp: index_or_null_def)

lemma wf_add_remote_rule_set:
  "add_remote_rule_set rs tag url = Inr rs' \<Longrightarrow> wf_json rs \<Longrightarrow> wf_json rs'"
  by (auto simp: add_remote_rule_set_def Let_def split: if_split_asm)

lemma wf_push_unless [simp]: "wf_json rs \<Longrightarrow> wf_json r \<Longrightarrow> wf_json (push_unless b rs r)"
  by (simp add: push_unless_def)

lemma wf_rule_set_rule [simp]: "wf_json (rule_set_rule tag)"
  by (simp add: rule_set_rule_def Let_def)

lemma wf_geo_rules: "geo_rules rs = Inr rs' \<Longrightarrow> wf_json rs \<Longrightarrow> wf_json rs'"
  by (auto simp: geo_rules_def Let_def)

lemma geo_route_eq:
  assumes "geo_route route = Inr route'" "wf_obj route"
  shows "\<exists>sets rules. wf_json sets \<and> wf_json rules \<and>
    route' = jset (jset (index_or_empty (index_or_empty route ''rules'' sbj_array)
        ''rule_set'' sbj_array) ''rule_set'' sets) ''rules'' rules"
proof -
  let ?r1 = "index_or_empty route ''rules'' sbj_array"
  let ?r2 = "index_or_empty ?r1 ''rule_set'' sbj_array"
  have r: "wf_obj ?r1" "wf_obj ?r2"
    using assms(2) by simp_all
  obtain rules sets where "jget (Some ?r1) ''rules'' = Some rules"
      "jget (Some ?r2) ''rule_set'' = Some sets"
    using assms(1) unfolding geo_route_def Let_def
    by (auto simp: sbj_is_array_iff simp del: jget_index_or_empty split: if_split_asm)
  moreover from this have "wf_json rules" "wf_json sets"
    using r wf_obj_jget by blast+
  ultimately show ?thesis
    using assms(1) unfolding geo_route_def Let_def
    by (auto simp del: jget_index_or_empty split: if_split_asm
        dest!: wf_add_remote_rule_set wf_geo_rules)
qed

lemma wf_geo_route: "geo_route route = Inr route' \<Longrightarrow> wf_obj route \<Longrightarrow> wf_obj route'"
  by (drule (1) geo_route_eq) auto

lemma wf_inject_managed_geo_policy:
  assumes "inject_managed_geo_policy config = Inr config'" "wf_obj config"
  shows "wf_obj config'"
proof -
  let ?c = "index_or_empty config ''route'' sbj_object"
  obtain route where r: "geo_route (the (jget (Some ?c) ''route'')) = Inr route"
      "sbj_is_object (jget (Some ?c) ''route'')"
    using assms(1) unfolding inject_managed_geo_policy_def Let_def
    by (auto simp del: jget_index_or_empty split: if_split_asm)
  have "wf_obj route"
    using r assms(2) by (intro wf_geo_route [OF r(1)] wf_obj_member) simp_all
  then show ?thesis
    using assms r unfolding inject_managed_geo_policy_def Let_def
    by (auto simp del: jget_index_or_empty split: if_split_asm
        intro!: obj_intros wf_sbj_modify)
qed

lemma value_int_range: "value_int v k 0 = Inr i \<Longrightarrow> in_i64 i"
  by (auto simp: value_int_def in_i64_def wrap_i32_def dbl_to_i32_def type_error_value_def
      split: if_split_asm option.splits sbj.splits)

lemma wf_copies [simp]:
  "wf_json c \<Longrightarrow> wf_json (value_or_null (Some c) k)"
  "wf_json c \<Longrightarrow> wf_json (string_or (Some c) k fb)"
  "wf_json c \<Longrightarrow> wf_obj u \<Longrightarrow> wf_obj (copy_if_present u (Some c) k)"
  using wf_sbj_get_Some [of c "Some k"]
  by (auto simp: value_or_null_def string_or_def copy_if_present_def sbj_clone_id Let_def
      sbj_is_string_iff split: option.split)

lemma wf_outbound_base [simp]: "wf_node n \<Longrightarrow> wf_obj (outbound_base t n)"
  by (simp add: outbound_base_def Let_def wf_node_def)

lemma wf_generate_outbound:
  assumes "sb_config_generate_outbound n = Inr u" "wf_node n"
  shows "wf_obj u"
proof -
  have "wf_json (pn_protocol_config n)" using assms(2) by (simp add: wf_node_def)
  then show ?thesis
    using assms unfolding sb_config_generate_outbound_def Let_def
    by (auto simp: value_int_range split: if_split_asm)
qed

lemma wf_outbounds_loop:
  "outbounds_loop ns seen us ts = Inr (us', ts') \<Longrightarrow> list_all wf_node ns \<Longrightarrow>
     wf_json us \<and> wf_json ts \<and> sbj_is_array (Some us) \<and> sbj_is_array (Some ts) \<Longrightarrow>
     wf_json us' \<and> wf_json ts' \<and> sbj_is_array (Some us') \<and> sbj_is_array (Some ts')"
proof (induction ns seen us ts rule: outbounds_loop.induct)
  case (2 n ns seen us ts)
  show ?case
  proof (cases "pn_enabled n")
    case True
    then obtain u where "sb_config_generate_outbound n = Inr u"
      using "2.prems"(1) by (auto split: sum.splits)
    then show ?thesis
      using 2 True wf_generate_outbound [of n u] by (simp add: Let_def)
  qed (use 2 in simp)
qed simp

lemma wf_generate_outbounds:
  "sb_config_generate_outbounds ns = Inr us \<Longrightarrow> list_all wf_node ns \<Longrightarrow>
     wf_json us \<and> sbj_is_array (Some us)"
  by (auto simp: sb_config_generate_outbounds_def Let_def dest!: wf_outbounds_loop
      split: if_split_asm)

lemma wf_selector_outbounds [simp]: "wf_json (selector_outbounds us)"
  unfolding selector_outbounds_def by (rule wf_foldl) (auto simp: sbj_is_string_iff Let_def)

lemma wf_proxy_selector_outbound [simp]: "wf_json (proxy_selector_outbound us tag)"
  by (simp add: proxy_selector_outbound_def Let_def)

lemma wf_managed_final [simp]: "wf_json route \<Longrightarrow> wf_json (managed_final a s route)"
  by (cases s) (simp_all add: managed_final_def Let_def)

text \<open>The steps of \<open>render_managed\<close> that can fail, and the configuration it then builds.\<close>

definition with_direct :: "sbj \<Rightarrow> sbj" where
  "with_direct us = (if \<not> outbounds_have_tag us ''direct''
     then sbj_arr_push us (Some (jset_str (jset_str sbj_object ''type'' ''direct'') ''tag'' ''direct''))
     else us)"

definition with_selector :: "string option \<Rightarrow> sbj \<Rightarrow> sbj" where
  "with_selector sel us = (case sel of
     Some tag \<Rightarrow> sbj_arr_push us (Some (proxy_selector_outbound us tag)) | None \<Rightarrow> us)"

definition managed_config :: "bool \<Rightarrow> string option \<Rightarrow> sbj \<Rightarrow> sbj \<Rightarrow> sbj" where
  "managed_config has_auto sel us config =
     (let config = normalize_managed_dns_detours (jset config ''outbounds'' us) has_auto sel in
      if sbj_is_object (jget (Some config) ''route'')
      then sbj_modify config ''route'' (managed_final has_auto sel) else config)"

lemma render_managedE:
  assumes "render_managed request config = Inr (config', has_proxy)"
  obtains us sel where "sb_config_generate_outbounds (rr_nodes request) = Inr us"
    "has_proxy = outbounds_have_tag us ''auto''"
    "sel = None \<or> has_proxy \<and> sel = Some (selector_tag_loop (with_direct us) ''Proxy'')"
    "config' = managed_config has_proxy sel (with_selector sel (with_direct us)) config"
proof -
  obtain us android where u: "sb_config_generate_outbounds (rr_nodes request) = Inr us"
      "is_android (jget (Some (rr_host_context request)) ''capabilities'') = Inr android"
    using assms unfolding render_managed_def Let_def
    by (auto simp: type_error_value_def split: if_split_asm)
  let ?b = "outbounds_have_tag us ''auto'' \<and> (android \<or> sbj_get_bool
    (jget (Some (rr_host_context request)) ''capabilities'') (Some ''supports_proxy_selection'') False)"
  let ?sel = "if ?b then Some (selector_tag_loop (with_direct us) ''Proxy'') else None"
  have "config' = managed_config has_proxy ?sel (with_selector ?sel (with_direct us)) config
      \<and> has_proxy = outbounds_have_tag us ''auto''"
    using assms u unfolding render_managed_def Let_def managed_config_def with_direct_def
      with_selector_def by (auto simp: type_error_value_def split: if_split_asm)
  then show thesis
    using that [of us ?sel] u by simp
qed

lemma wf_with_direct [simp]:
  "wf_json us \<Longrightarrow> wf_json (with_direct us)"
  "sbj_is_array (Some (with_direct us)) \<longleftrightarrow> sbj_is_array (Some us)"
  by (simp_all add: with_direct_def)

lemma wf_with_selector [simp]:
  "wf_json us \<Longrightarrow> wf_json (with_selector sel us)"
  "sbj_is_array (Some (with_selector sel us)) \<longleftrightarrow> sbj_is_array (Some us)"
  by (simp_all add: with_selector_def split: option.split)

lemma wf_managed_config:
  "wf_obj config \<Longrightarrow> wf_json us \<Longrightarrow> wf_obj (managed_config a sel us config)"
  by (simp add: managed_config_def Let_def obj_intros)

lemma wf_render_managed:
  assumes "render_managed request config = Inr (config', has_proxy)" "wf_obj config"
    "wf_request request"
  shows "wf_obj config'"
  using assms(1)
proof (rule render_managedE)
  fix us sel
  assume us: "sb_config_generate_outbounds (rr_nodes request) = Inr us"
  assume c: "config' = managed_config has_proxy sel (with_selector sel (with_direct us)) config"
  have "wf_json us" using wf_generate_outbounds [OF us] assms(3) by (simp add: wf_request_def)
  then show ?thesis using c assms(2) by (simp add: wf_managed_config)
qed

lemma wf_add_network_outbounds:
  assumes "add_network_outbounds request config = Inr config'" "wf_obj config" "wf_request request"
  shows "wf_obj config'"
proof -
  have n: "wf_json x" if "x \<in> set (arr_items (Some (rr_network_outbounds request)))" for x
    using that assms(3) wf_arr_items [of "Some (rr_network_outbounds request)"]
    by (simp add: wf_request_def)
  have "wf_obj (sbj_get_or_array config (Some ''outbounds''))"
    using assms(2) by (auto simp: sbj_get_or_array_def split: option.split)
  then show ?thesis
    using assms(1,2) n unfolding add_network_outbounds_def Let_def
    by (auto split: if_split_asm intro!: obj_intros wf_foldl simp: sbj_clone_id)
qed

lemma wf_render_rule_script:
  "render_rule_script b request s config = Inr config' \<Longrightarrow> wf_obj config \<Longrightarrow> wf_engine b \<Longrightarrow>
     wf_obj config'"
  by (auto simp: render_rule_script_def Let_def wf_engine_def intro!: obj_intros split: if_split_asm)

lemma wf_protected_rules: "wf_request request \<Longrightarrow> r \<in> set (protected_rules request) \<Longrightarrow> wf_json r"
  using wf_arr_items [of "Some (rr_priority_route_rules request)"]
  by (auto simp: protected_rules_def wf_request_def sbj_clone_id wf_control_plane_route
      split: option.splits)

lemma wf_insert_protected:
  "wf_json rules \<Longrightarrow> \<forall>r\<in>set ps. wf_json r \<Longrightarrow> wf_json (insert_protected i ps rules)"
  by (induction i ps rules rule: insert_protected.induct) (auto simp: wf_arr_ops)

lemma wf_protect_route [obj_intros]:
  assumes "wf_obj config" "wf_request request"
  shows "wf_obj (protect_route request config)"
  using assms wf_protected_rules [OF assms(2)] unfolding protect_route_def Let_def
  by (auto intro!: obj_intros wf_sbj_modify wf_insert_protected simp: set_get_def)

text \<open>Every successful rendering ends with the three steps on a well-formed configuration.\<close>

lemma renderE:
  assumes "sb_config_renderer_render b request = Inr config" "wf_request request" "wf_engine b"
  obtains c where "wf_obj c"
    "config = disable_clash_dashboard (inject_clash_api (protect_route request c) request)"
proof -
  have p: "wf_obj (rr_profile request)" "sbj_clone (rr_profile request) = rr_profile request"
    using assms(1,2) by (auto simp: sb_config_renderer_render_def wf_request_def wf_obj_def
        sbj_clone_id simp del: wf_objD split: if_split_asm)
  show thesis
    using assms p that unfolding sb_config_renderer_render_def Let_def
    by (auto dest!: wf_render_managed wf_add_network_outbounds wf_render_rule_script
        wf_inject_managed_geo_policy split: if_split_asm option.splits)
qed

subsection \<open>Facts: what the last steps leave alone\<close>

lemma jget_inject_clash_api:
  "wf_obj config \<Longrightarrow> k \<noteq> ''experimental'' \<Longrightarrow>
     jget (Some (inject_clash_api config request)) k = jget (Some config) k"
  by (simp add: inject_clash_api_def Let_def)

lemma jget_disable_clash_dashboard:
  "wf_obj config \<Longrightarrow> k \<noteq> ''experimental'' \<Longrightarrow>
     jget (Some (disable_clash_dashboard config)) k = jget (Some config) k"
  by (simp add: disable_clash_dashboard_def Let_def)

lemma jget_protect_route:
  "wf_obj config \<Longrightarrow> k \<noteq> ''route'' \<Longrightarrow>
     jget (Some (protect_route request config)) k = jget (Some config) k"
  by (simp add: protect_route_def Let_def)

definition route_rules :: "sbj \<Rightarrow> sbj list" where
  "route_rules config = arr_items (jget (jget (Some config) ''route'') ''rules'')"

lemma insert_protected_front:
  "i \<le> length xs \<Longrightarrow>
     insert_protected i ps (SBJ_ARRAY xs) = SBJ_ARRAY (take i xs @ ps @ drop i xs)"
proof (induction ps arbitrary: i xs)
  case (Cons p ps)
  have "insert_protected i (p # ps) (SBJ_ARRAY xs) =
      insert_protected (i + 1) ps (SBJ_ARRAY (take i xs @ p # drop i xs))"
    using Cons.prems by (simp add: or_null_def)
  also have "\<dots> = SBJ_ARRAY (take i xs @ (p # ps) @ drop i xs)"
    using Cons.prems by (subst Cons.IH) (simp_all add: min_def)
  finally show ?case .
qed simp

lemma protect_route_rules:
  assumes "wf_obj config"
  shows "\<exists>rest. route_rules (protect_route request config) = protected_rules request @ rest"
proof (cases "protected_rules request = []")
  case False
  define c where "c = (if \<not> sbj_is_object (jget (Some config) ''route'')
    then set_get config ''route'' sbj_object else config)"
  have c: "wf_obj c" "sbj_is_object (jget (Some c) ''route'')"
    using assms by (simp_all add: c_def)
  then obtain route where r: "jget (Some c) ''route'' = Some route" "wf_obj route"
    using wf_obj_member [OF c] by (auto simp: sbj_is_object_iff)
  define s where "s = (if \<not> sbj_is_array (jget (Some (index_or_null route ''rules'')) ''rules'')
    then set_get (index_or_null route ''rules'') ''rules'' sbj_array
    else index_or_null route ''rules'')"
  have s: "wf_obj s" "sbj_is_array (jget (Some s) ''rules'')"
    using r(2) by (simp_all add: s_def)
  then obtain xs where xs: "jget (Some s) ''rules'' = Some (SBJ_ARRAY xs)"
    by (auto simp: sbj_is_array_iff)
  have "protect_route request config = sbj_modify c ''route'' (\<lambda>_.
      sbj_modify s ''rules'' (insert_protected 0 (protected_rules request)))"
    using False r by (auto simp: protect_route_def Let_def c_def [symmetric] s_def
        intro!: modify_cong)
  then have "route_rules (protect_route request config) = protected_rules request @ xs"
    using c(1) s(1) r(1) xs by (simp add: route_rules_def insert_protected_front)
  then show ?thesis by blast
qed simp

subsection \<open>Properties of the rendered configuration\<close>

text \<open>(C13) Whatever the profile and the script say, the rules the server protects are the first
  rules of every rendered route, in order: the rule that keeps the control plane reachable, then
  the priority rules of the request.\<close>

theorem protected_rules_first:
  assumes "sb_config_renderer_render b request = Inr config" "wf_request request" "wf_engine b"
  shows "\<exists>rest. route_rules config = protected_rules request @ rest"
  using assms
proof (rule renderE)
  fix c assume c: "wf_obj c"
    "config = disable_clash_dashboard (inject_clash_api (protect_route request c) request)"
  have "wf_obj (protect_route request c)" using c(1) assms(2) by (rule wf_protect_route)
  then have "route_rules config = route_rules (protect_route request c)"
    by (simp add: c(2) route_rules_def jget_disable_clash_dashboard jget_inject_clash_api
        wf_inject_clash_api)
  then show ?thesis using protect_route_rules [OF c(1)] by simp
qed

definition demo_request :: sb_render_request where
  "demo_request = sb_render_request_init
     \<lparr>rr_mode := SB_PROFILE_FULL, rr_control_plane_server := ''https://c.io:8443/x'',
      rr_priority_route_rules := SBJ_ARRAY [SBJ_INT 1]\<rparr>"

definition no_script :: script_engine where
  "no_script script context = sb_fail SB_ERR_SCRIPT script"

lemma demo_wf: "wf_request demo_request" "wf_engine no_script"
  by (simp_all add: demo_request_def sb_render_request_init_def wf_request_def wf_engine_def
      no_script_def in_i64_def)

lemma demo_render: "\<exists>config. sb_config_renderer_render no_script demo_request = Inr config"
  by (simp add: sb_config_renderer_render_def demo_request_def sb_render_request_init_def
      add_network_outbounds_def Let_def sbj_array_def)

lemma demo_protected:
  "protected_rules demo_request = [direct_rule ''domain'' ''c.io'', SBJ_INT 1]"
  by (simp add: protected_rules_def demo_request_def sb_render_request_init_def
      control_plane_route_def url_host_def inet_pton4_def inet_pton6_def xdigit_def isdigit_def
      Let_def sbj_int_def)

theorem protected_rules_first_witness:
  "\<exists>config rest. sb_config_renderer_render no_script demo_request = Inr config
     \<and> route_rules config = direct_rule ''domain'' ''c.io'' # SBJ_INT 1 # rest"
proof -
  obtain config where c: "sb_config_renderer_render no_script demo_request = Inr config"
    using demo_render by blast
  show ?thesis
    using protected_rules_first [OF c demo_wf] c by (simp add: demo_protected)
qed

lemma dashboard_removed:
  assumes "wf_obj c"
  shows "let api = jget (jget (Some (disable_clash_dashboard c)) ''experimental'') ''clash_api'' in
    jget api ''external_ui'' = None \<and> jget api ''external_ui_download_url'' = None
    \<and> jget api ''external_ui_download_detour'' = None"
proof (cases "sbj_is_object (jget (jget (Some c) ''experimental'') ''clash_api'')")
  case True
  then have "sbj_is_object (jget (Some c) ''experimental'')"
    by (rule contrapos_pp) (simp add: sbj_accessors)
  then obtain e where e: "jget (Some c) ''experimental'' = Some e" "wf_obj e"
    by (rule wf_obj_memberE [OF assms])
  then obtain a where "jget (Some e) ''clash_api'' = Some a" "wf_obj a"
    using True by (auto elim: wf_obj_memberE [OF e(2)])
  then show ?thesis
    using e assms True by (simp add: disable_clash_dashboard_def Let_def sbj_get_del wf_sbj_del)
next
  case False
  then have "\<And>k. jget (jget (jget (Some c) ''experimental'') ''clash_api'') k = None"
    using jget_object_only by (simp add: sbj_accessors)
  then show ?thesis
    using False by (auto simp: disable_clash_dashboard_def Let_def)
qed

text \<open>(C16) Rendering keeps the type of a configuration: from well-formed inputs and a script engine
  that returns JSON values, the result is a well-formed object, and its clash API never carries
  the dashboard fields, which would make a client download and serve a web interface.\<close>

theorem render_type_safe:
  assumes "sb_config_renderer_render b request = Inr config" "wf_request request" "wf_engine b"
  shows "wf_json config \<and> sbj_is_object (Some config)
    \<and> (let api = jget (jget (Some config) ''experimental'') ''clash_api'' in
       jget api ''external_ui'' = None \<and> jget api ''external_ui_download_url'' = None
       \<and> jget api ''external_ui_download_detour'' = None)"
  using assms
proof (rule renderE)
  fix c assume c: "wf_obj c"
    "config = disable_clash_dashboard (inject_clash_api (protect_route request c) request)"
  let ?d = "inject_clash_api (protect_route request c) request"
  have d: "wf_obj ?d"
    using c(1) assms(2) by (intro wf_inject_clash_api wf_protect_route)
  then have "wf_obj config"
    unfolding c(2) by (rule wf_disable_clash_dashboard)
  then show ?thesis
    using dashboard_removed [OF d] by (simp add: c(2) Let_def)
qed

theorem render_type_safe_witness:
  "\<exists>config. sb_config_renderer_render no_script demo_request = Inr config
     \<and> wf_json config \<and> sbj_is_object (Some config)"
proof -
  obtain config where c: "sb_config_renderer_render no_script demo_request = Inr config"
    using demo_render by blast
  show ?thesis
    using render_type_safe [OF c demo_wf] c by blast
qed

subsection \<open>Properties of scripted rules\<close>

text \<open>A rule of a list, or a rule nested in one of its rules, at any depth.\<close>

inductive rule_within :: "sbj list \<Rightarrow> sbj \<Rightarrow> bool" for rules where
  rule_here: "r \<in> set rules \<Longrightarrow> rule_within rules r"
| rule_nested: "rule_within rules r \<Longrightarrow> jget (Some r) ''rules'' = Some (SBJ_ARRAY rs) \<Longrightarrow>
    r' \<in> set rs \<Longrightarrow> rule_within rules r'"

inductive_cases rule_within_NilE: "rule_within [] r"

lemma rule_within_empty: "\<not> rule_within [] r"
proof
  assume "rule_within [] r" then show False
    by (induction rule: rule_within.induct) simp_all
qed

lemma rule_within_mono: "rule_within rules r \<Longrightarrow> set rules \<subseteq> set rules' \<Longrightarrow> rule_within rules' r"
  by (induction rule: rule_within.induct) (auto intro: rule_within.intros)

lemma rule_within_nested:
  "rule_within rs r \<Longrightarrow> jget (Some x) ''rules'' = Some (SBJ_ARRAY rs) \<Longrightarrow> x \<in> set rules \<Longrightarrow>
     rule_within rules r"
  by (induction rule: rule_within.induct) (blast intro: rule_within.intros)+

lemma rule_within_Cons:
  "rule_within (x # xs) r \<longleftrightarrow>
     r = x \<or> rule_within (arr_items (jget (Some x) ''rules'')) r \<or> rule_within xs r"
proof
  assume "rule_within (x # xs) r"
  then show "r = x \<or> rule_within (arr_items (jget (Some x) ''rules'')) r \<or> rule_within xs r"
  proof (induction rule: rule_within.induct)
    case (rule_here r)
    then show ?case by (auto intro: rule_within.intros)
  next
    case (rule_nested r rs r')
    then show ?case
      using rule_within.rule_nested [of _ r rs r'] rule_within.rule_here [of r' rs]
      by (metis arr_items.simps(1))
  qed
next
  assume "r = x \<or> rule_within (arr_items (jget (Some x) ''rules'')) r \<or> rule_within xs r"
  then show "rule_within (x # xs) r"
  proof (elim disjE)
    assume n: "rule_within (arr_items (jget (Some x) ''rules'')) r"
    then have "sbj_is_array (jget (Some x) ''rules'')"
      using rule_within_empty by (cases "jget (Some x) ''rules''" rule: arr_items.cases) auto
    then show ?thesis
      using n rule_within_nested [of _ r x] by (auto simp: sbj_is_array_iff)
  qed (auto intro: rule_within.rule_here rule_within_mono)
qed

definition tag_ok :: "sbj \<Rightarrow> sbj \<Rightarrow> bool" where
  "tag_ok allowed r \<longleftrightarrow> (sbj_is_string (jget (Some r) ''outbound'') \<longrightarrow>
     sbj_getn (Some allowed) (Some (str_of (jget (Some r) ''outbound''))) \<noteq> None)"

lemma arr_items_not_array: "\<not> sbj_is_array v \<Longrightarrow> arr_items v = []"
  by (cases v rule: arr_items.cases) auto

lemma validate_rule_tags_iff:
  "validate_rule_tags rules allowed = Inr () \<longleftrightarrow> (\<forall>r. rule_within rules r \<longrightarrow> tag_ok allowed r)"
proof (induction rules allowed rule: validate_rule_tags.induct)
  case (1 allowed)
  then show ?case using rule_within_empty by simp
next
  case (2 rule rules allowed)
  let ?n = "jget (Some rule) ''rules''"
  let ?v = "if sbj_is_array ?n then validate_rule_tags (arr_items ?n) allowed else Inr ()"
  have n: "?v = Inr () \<longleftrightarrow> (\<forall>r. rule_within (arr_items ?n) r \<longrightarrow> tag_ok allowed r)"
    if "tag_ok allowed rule"
    using 2(1) that by (auto simp: tag_ok_def arr_items_not_array rule_within_empty)
  have "validate_rule_tags (rule # rules) allowed = Inr () \<longleftrightarrow>
      tag_ok allowed rule \<and> ?v = Inr () \<and> validate_rule_tags rules allowed = Inr ()"
    by (cases ?v) (simp_all add: tag_ok_def Let_def)
  moreover have "validate_rule_tags rules allowed = Inr () \<longleftrightarrow>
      (\<forall>r. rule_within rules r \<longrightarrow> tag_ok allowed r)"
    if "tag_ok allowed rule" "?v = Inr ()"
    using 2(2) [OF refl _ refl that(2)] that(1) by (auto simp: tag_ok_def)
  ultimately show ?case
    using n by (auto simp: rule_within_Cons)
qed

lemma getn_setn:
  "wf_obj u \<Longrightarrow> sbj_getn (Some (sbj_setn u (Some k) (Some v))) (Some l) =
     (if l = k then Some v else sbj_getn (Some u) (Some l))"
  using sbj_get_set [of u k "Some v" l] by (simp add: sbj_get_def sbj_set_def or_null_def)

lemma wf_obj_setn: "wf_obj u \<Longrightarrow> wf_json v \<Longrightarrow> wf_obj (sbj_setn u (Some k) (Some v))"
  using wf_obj_jset(1) [of u v k] by (simp add: sbj_set_def)

text \<open>Marking the selected keys of a list, as both loops of \<open>allowed_tags\<close> do.\<close>

lemma foldl_mark:
  assumes "wf_obj u"
  shows "wf_obj (foldl (\<lambda>u x. if P x then sbj_setn u (Some (f x)) (Some (sbj_bool True)) else u) u xs)
    \<and> (sbj_getn (Some (foldl (\<lambda>u x. if P x then sbj_setn u (Some (f x)) (Some (sbj_bool True))
          else u) u xs)) (Some t) \<noteq> None
       \<longleftrightarrow> sbj_getn (Some u) (Some t) \<noteq> None \<or> (\<exists>x\<in>set xs. P x \<and> f x = t))"
  using assms
proof (induction xs arbitrary: u)
  case (Cons x xs)
  let ?u = "if P x then sbj_setn u (Some (f x)) (Some (sbj_bool True)) else u"
  have "wf_obj ?u" using Cons.prems by (simp add: wf_obj_setn)
  then show ?case
    using Cons.IH [of ?u] Cons.prems by (auto simp: getn_setn)
qed simp

definition route_tags :: "sbj option \<Rightarrow> string set" where
  "route_tags us = {t. \<exists>u\<in>set (arr_items us). jget (Some u) ''tag'' = Some (SBJ_STRING t)}"

definition external_tags :: "sb_render_request \<Rightarrow> string set" where
  "external_tags request = {t. SBJ_STRING t \<in> set (arr_items (Some (rr_external_route_tags request)))}"

lemma allowed_tags_iff:
  "sbj_getn (Some (allowed_tags config request)) (Some t) \<noteq> None \<longleftrightarrow>
     t \<in> {''direct'', ''block'', ''dns'', ''reject''}
       \<union> route_tags (jget (Some config) ''outbounds'') \<union> external_tags request"
proof -
  define a0 where "a0 = jset (jset (jset (jset sbj_object ''direct'' (sbj_bool True))
    ''block'' (sbj_bool True)) ''dns'' (sbj_bool True)) ''reject'' (sbj_bool True)"
  have a0: "wf_obj a0"
    "sbj_getn (Some a0) (Some t) \<noteq> None \<longleftrightarrow> t \<in> {''direct'', ''block'', ''dns'', ''reject''}"
    unfolding sbj_get_def [symmetric] by (auto simp: a0_def)
  define a1 where "a1 = foldl (\<lambda>u x. if sbj_is_string (jget (Some x) ''tag'')
    then sbj_setn u (Some (str_of (jget (Some x) ''tag''))) (Some (sbj_bool True)) else u) a0
    (arr_items (jget (Some config) ''outbounds''))"
  have a1: "wf_obj a1" "sbj_getn (Some a1) (Some t) \<noteq> None \<longleftrightarrow>
      sbj_getn (Some a0) (Some t) \<noteq> None \<or> t \<in> route_tags (jget (Some config) ''outbounds'')"
    using foldl_mark [OF a0(1), of "\<lambda>u. sbj_is_string (jget (Some u) ''tag'')"
      "\<lambda>u. str_of (jget (Some u) ''tag'')" "arr_items (jget (Some config) ''outbounds'')" t]
    unfolding a1_def [symmetric] by (force simp: route_tags_def sbj_is_string_iff)+
  have "allowed_tags config request = foldl (\<lambda>u x. if sbj_is_string (Some x)
    then sbj_setn u (Some (str_of (Some x))) (Some (sbj_bool True)) else u) a1
    (arr_items (Some (rr_external_route_tags request)))"
    by (simp add: allowed_tags_def Let_def a0_def a1_def)
  then have "sbj_getn (Some (allowed_tags config request)) (Some t) \<noteq> None \<longleftrightarrow>
      sbj_getn (Some a1) (Some t) \<noteq> None \<or> t \<in> external_tags request"
    using foldl_mark [OF a1(1), of "\<lambda>x. sbj_is_string (Some x)" "\<lambda>x. str_of (Some x)"
      "arr_items (Some (rr_external_route_tags request))" t]
    by (force simp: external_tags_def sbj_is_string_iff)
  then show ?thesis
    using a0(2) a1(2) by blast
qed

text \<open>(C14) A script cannot route traffic to an outbound that does not exist: when the scripted
  rules are accepted, each rule of the rendered route, nested rules included, names a built-in
  target, an outbound of the configuration or a tag the request declares as external.\<close>

theorem script_rules_known_tags:
  assumes "render_rule_script b request script config = Inr config'" "wf_engine b"
    "wf_json config" "sbj_is_object (Some config)"
    and "rule_within (route_rules config') r" "jget (Some r) ''outbound'' = Some (SBJ_STRING t)"
  shows "t \<in> {''direct'', ''block'', ''dns'', ''reject''}
    \<union> route_tags (jget (Some config') ''outbounds'') \<union> external_tags request"
proof -
  define c where "c = (if \<not> sbj_is_object (jget (Some config) ''route'')
    then set_get config ''route'' sbj_object else config)"
  have "wf_obj config" using assms(3,4) unfolding wf_obj_def by blast
  then have c: "wf_obj c" "sbj_is_object (jget (Some c) ''route'')"
    by (simp_all add: c_def)
  then obtain route where r: "jget (Some c) ''route'' = Some route" "wf_obj route"
    by (rule wf_obj_memberE)
  obtain rules where rules: "validate_rule_tags (arr_items (Some rules)) (allowed_tags c request) = Inr ()"
    "config' = sbj_modify c ''route'' (\<lambda>route. jset route ''rules'' rules)"
    using assms(1) by (auto simp: render_rule_script_def Let_def c_def [symmetric])
  have o: "jget (Some config') ''outbounds'' = jget (Some c) ''outbounds''"
      "route_rules config' = arr_items (Some rules)"
    using c(1) r by (simp_all add: rules(2) route_rules_def)
  have "tag_ok (allowed_tags c request) r"
    using rules(1) assms(5) unfolding validate_rule_tags_iff o(2) by blast
  then show ?thesis
    using assms(6) allowed_tags_iff [of c request t] unfolding o(1) by (simp add: tag_ok_def)
qed

theorem script_rules_known_tags_witness:
  "let b = (\<lambda>script context. Inr (SBJ_ARRAY [SBJ_OBJECT [(''outbound'', SBJ_STRING ''dns'')]])) in
   wf_engine b \<and> (\<exists>config'. render_rule_script b sb_render_request_init ''s'' sbj_object = Inr config'
     \<and> rule_within (route_rules config') (SBJ_OBJECT [(''outbound'', SBJ_STRING ''dns'')])
     \<and> ''dns'' \<in> {''direct'', ''block'', ''dns'', ''reject''}
         \<union> route_tags (jget (Some config') ''outbounds'') \<union> external_tags sb_render_request_init)"
proof -
  let ?r = "SBJ_OBJECT [(''outbound'', SBJ_STRING ''dns'')]"
  define b :: script_engine where "b = (\<lambda>script context. Inr (SBJ_ARRAY [?r]))"
  have b: "wf_engine b" by (simp add: wf_engine_def b_def)
  have r: "jget (Some ?r) ''outbound'' = Some (SBJ_STRING ''dns'')" "jget (Some ?r) ''rules'' = None"
    by (simp_all add: sbj_accessors obj_getn_map_of)
  have "tag_ok (allowed_tags c sb_render_request_init) ?r" for c
    using allowed_tags_iff [of c sb_render_request_init "''dns''"] r by (simp add: tag_ok_def)
  then obtain config' where c: "render_rule_script b sb_render_request_init ''s'' sbj_object = Inr config'"
      "route_rules config' = [?r]"
    using r by (simp add: render_rule_script_def b_def tag_ok_def Let_def route_rules_def)
  then have w: "rule_within (route_rules config') ?r"
    by (simp add: rule_within.rule_here)
  then show ?thesis
    using script_rules_known_tags [OF c(1) b _ _ w r(1)] b c unfolding b_def by auto
qed

subsection \<open>Properties of managed profiles\<close>

definition route_final :: "sbj \<Rightarrow> sbj option" where
  "route_final config = jget (jget (Some config) ''route'') ''final''"

definition dns_servers :: "sbj \<Rightarrow> sbj list" where
  "dns_servers config = arr_items (jget (jget (Some config) ''dns'') ''servers'')"

text \<open>What the steps after \<open>render_managed\<close> keep.\<close>

definition frame :: "sbj \<Rightarrow> sbj \<Rightarrow> bool" where
  "frame c d \<longleftrightarrow> route_final d = route_final c \<and> dns_servers d = dns_servers c
     \<and> route_tags (jget (Some c) ''outbounds'') \<subseteq> route_tags (jget (Some d) ''outbounds'')"

lemma frame_refl [simp]: "frame c c"
  by (simp add: frame_def)

lemma frame_trans [trans]: "frame c d \<Longrightarrow> frame d e \<Longrightarrow> frame c e"
  by (auto simp: frame_def)

lemma frameI:
  assumes "\<And>k. k \<in> {''dns'', ''outbounds''} \<Longrightarrow> jget (Some d) k = jget (Some c) k"
    "jget (jget (Some d) ''route'') ''final'' = jget (jget (Some c) ''route'') ''final''"
  shows "frame c d"
  using assms by (simp add: frame_def route_final_def dns_servers_def)

lemma jget_not_object [simp]: "\<not> sbj_is_object v \<Longrightarrow> jget v k = None"
  by (simp add: sbj_accessors)

lemma jget_jget_modify:
  "wf_json u \<Longrightarrow> (\<And>v. jget (Some u) k = Some v \<Longrightarrow> jget (Some (f v)) l = jget (Some v) l) \<Longrightarrow>
     jget (jget (Some (sbj_modify u k f)) k) l = jget (jget (Some u) k) l"
  by (cases "jget (Some u) k") simp_all

lemma jget_jset_other [simp]:
  "wf_json u \<Longrightarrow> l \<noteq> k \<Longrightarrow> jget (Some (jset u k v)) l = jget (Some u) l"
  "wf_json u \<Longrightarrow> l \<noteq> k \<Longrightarrow> jget (Some (set_get u k v)) l = jget (Some u) l"
  "wf_json u \<Longrightarrow> l \<noteq> k \<Longrightarrow> jget (Some (index_or_null u k)) l = jget (Some u) l"
  "wf_json u \<Longrightarrow> wf_json v \<Longrightarrow> l \<noteq> k \<Longrightarrow> jget (Some (index_or_empty u k v)) l = jget (Some u) l"
proof -
  have s: "wf_json u \<Longrightarrow> l \<noteq> k \<Longrightarrow> jget (Some (jset u k v)) l = jget (Some u) l" for u v
    by (cases "sbj_is_object (Some u)") (simp_all add: sbj_accessors(6))
  show "wf_json u \<Longrightarrow> l \<noteq> k \<Longrightarrow> jget (Some (jset u k v)) l = jget (Some u) l"
    "wf_json u \<Longrightarrow> l \<noteq> k \<Longrightarrow> jget (Some (set_get u k v)) l = jget (Some u) l"
    "wf_json u \<Longrightarrow> l \<noteq> k \<Longrightarrow> jget (Some (index_or_null u k)) l = jget (Some u) l"
    "wf_json u \<Longrightarrow> wf_json v \<Longrightarrow> l \<noteq> k \<Longrightarrow> jget (Some (index_or_empty u k v)) l = jget (Some u) l"
    using s by (simp_all add: set_get_def index_or_null_def index_or_empty_def Let_def)
qed

definition or_route :: "sbj \<Rightarrow> sbj" where
  "or_route config = (if \<not> sbj_is_object (jget (Some config) ''route'')
     then set_get config ''route'' sbj_object else config)"

lemma frame_or_route: "wf_obj c \<Longrightarrow> frame c (or_route c)" "wf_obj c \<Longrightarrow> wf_obj (or_route c)"
  by (auto simp: or_route_def intro!: frameI)

lemma frame_modify_route:
  assumes "wf_obj c" "\<And>v. wf_json v \<Longrightarrow> jget (Some (f v)) ''final'' = jget (Some v) ''final''"
  shows "frame c (sbj_modify c ''route'' f)"
proof (rule frameI)
  show "jget (jget (Some (sbj_modify c ''route'' f)) ''route'') ''final''
      = jget (jget (Some c) ''route'') ''final''"
    using assms by (intro jget_jget_modify) (auto dest: wf_obj_jget)
qed (use assms(1) in auto)

lemma frame_render_rule_script:
  assumes "render_rule_script b request s config = Inr config'" "wf_obj config" "wf_engine b"
  shows "frame config config'"
proof -
  obtain rules where "config' = sbj_modify (or_route config) ''route'' (\<lambda>route. jset route ''rules'' rules)"
    using assms(1) by (auto simp: render_rule_script_def Let_def or_route_def [symmetric])
  then have "frame (or_route config) config'"
    using assms(2) by (auto intro!: frame_modify_route simp: frame_or_route)
  then show ?thesis
    using frame_or_route(1) [OF assms(2)] frame_trans by blast
qed

lemma frame_protect_route:
  assumes "wf_obj c"
  shows "frame c (protect_route request c)"
proof (cases "protected_rules request = []")
  case False
  note frame_or_route(1) [OF assms]
  also have "frame (or_route c) (protect_route request c)"
    using False frame_or_route(2) [OF assms]
    unfolding protect_route_def Let_def or_route_def [symmetric]
    by (simp only: if_False) (rule frame_modify_route, auto)
  finally show ?thesis .
qed (simp add: protect_route_def)

lemma frame_inject_managed_geo_policy:
  assumes "inject_managed_geo_policy c = Inr d" "wf_obj c"
  shows "frame c d"
proof -
  let ?c = "index_or_empty c ''route'' sbj_object"
  obtain route where r: "geo_route (the (jget (Some ?c) ''route'')) = Inr route"
      "sbj_is_object (jget (Some ?c) ''route'')"
    using assms(1) unfolding inject_managed_geo_policy_def Let_def
    by (auto simp del: jget_index_or_empty split: if_split_asm)
  have w: "wf_obj ?c" using assms(2) by simp
  then obtain v where v: "jget (Some ?c) ''route'' = Some v" "wf_obj v"
    using r(2) by (rule wf_obj_memberE)
  have f: "wf_obj route" "jget (Some route) ''final'' = jget (Some v) ''final''"
    using r(1) v wf_geo_route [of v route] geo_route_eq [of v route] by auto
  have "jget (Some v) ''final'' = jget (jget (Some c) ''route'') ''final''"
    using v(1) assms(2) by (auto simp: sbj_is_null_iff split: if_split_asm)
  then show ?thesis
    using assms r f w unfolding inject_managed_geo_policy_def Let_def
    by (intro frameI) (auto simp del: jget_index_or_empty split: if_split_asm)
qed

lemma sbj_get_or_array_eq:
  "wf_obj c \<Longrightarrow> jget (Some (sbj_get_or_array c (Some k))) l =
     (if l = k \<and> sbj_is_null (jget (Some c) k) then Some sbj_array else jget (Some c) l)"
  "wf_obj c \<Longrightarrow> wf_obj (sbj_get_or_array c (Some k))"
  by (auto simp: sbj_get_or_array_def sbj_is_null_iff split: option.split)

lemma foldl_push:
  "foldl (\<lambda>us u. sbj_arr_push us (Some (f u))) (SBJ_ARRAY xs) ys = SBJ_ARRAY (xs @ map f ys)"
  by (induction ys arbitrary: xs) (simp_all add: or_null_def)

lemma frame_add_network_outbounds:
  assumes "add_network_outbounds request c = Inr d" "wf_obj c"
  shows "frame c d"
proof (cases "sbj_arr_len (Some (rr_network_outbounds request)) = 0")
  case False
  let ?c = "sbj_get_or_array c (Some ''outbounds'')"
  let ?ns = "arr_items (Some (rr_network_outbounds request))"
  have d: "d = sbj_modify ?c ''outbounds'' (\<lambda>us. foldl (\<lambda>us u. sbj_arr_push us (Some (sbj_clone u))) us ?ns)"
      and o: "jget (Some c) ''outbounds'' = None \<or> sbj_is_array (jget (Some c) ''outbounds'')"
    using assms(1) False by (auto simp: add_network_outbounds_def Let_def split: if_split_asm)
  define us where "us = arr_items (jget (Some c) ''outbounds'')"
  have "jget (Some ?c) ''outbounds'' = Some (SBJ_ARRAY us)"
    using o assms(2) by (auto simp: sbj_get_or_array_eq us_def sbj_is_null_iff sbj_is_array_iff
        sbj_array_def)
  then have "jget (Some d) ''outbounds'' = Some (SBJ_ARRAY (us @ map sbj_clone ?ns))"
    using assms(2) by (simp add: d sbj_get_or_array_eq foldl_push)
  then show ?thesis
    using assms(2) by (auto simp: frame_def route_final_def dns_servers_def d sbj_get_or_array_eq
        route_tags_def us_def)
qed (use assms in \<open>simp add: add_network_outbounds_def\<close>)

lemma frame_clash:
  "wf_obj c \<Longrightarrow> frame c (disable_clash_dashboard (inject_clash_api c request))"
  by (rule frameI)
    (auto simp: jget_disable_clash_dashboard jget_inject_clash_api wf_inject_clash_api)

lemma render_frame:
  assumes "sb_config_renderer_render b request = Inr config" "wf_request request" "wf_engine b"
    and m: "rr_mode request = SB_PROFILE_MANAGED"
  obtains c has_proxy where "render_managed request (rr_profile request) = Inr (c, has_proxy)"
    "wf_obj c" "frame c config"
proof -
  have p: "wf_obj (rr_profile request)" "sbj_clone (rr_profile request) = rr_profile request"
    using assms(1,2) by (auto simp: sb_config_renderer_render_def wf_request_def wf_obj_def
        sbj_clone_id simp del: wf_objD split: if_split_asm)
  obtain c hp d e f where c: "render_managed request (rr_profile request) = Inr (c, hp)"
      "add_network_outbounds request c = Inr d"
      "(case rr_rule_script request of
          Some script \<Rightarrow>
            (if script \<noteq> [] then render_rule_script b request script d else Inr d)
        | None \<Rightarrow> Inr d) = Inr e"
      "(if hp then inject_managed_geo_policy e else Inr e) = Inr f"
      "config = disable_clash_dashboard (inject_clash_api (protect_route request f) request)"
    using assms(1) p m unfolding sb_config_renderer_render_def Let_def by auto
  have w: "wf_obj c" using wf_render_managed [OF c(1) p(1) assms(2)] .
  then have d: "wf_obj d" "frame c d"
    using c(2) assms(2) by (auto intro: wf_add_network_outbounds frame_add_network_outbounds)
  then have e: "wf_obj e" "frame d e"
    using c(3) assms(3) by (auto intro: wf_render_rule_script frame_render_rule_script
        split: option.splits if_split_asm)
  then have f: "wf_obj f" "frame e f"
    using c(4) by (auto intro: wf_inject_managed_geo_policy frame_inject_managed_geo_policy
        split: if_split_asm)
  then have "frame f config"
    unfolding c(5) using assms(2)
    by (meson frame_clash frame_protect_route frame_trans wf_protect_route)
  then show thesis
    using that c(1) w d e f frame_trans by metis
qed

lemma route_tags_Some: "route_tags (Some us) = set (outbound_tags us)"
  by (force simp: route_tags_def outbound_tags_def sbj_is_string_iff)

lemma outbound_tags_push:
  "sbj_is_array (Some us) \<Longrightarrow> jget (Some u) ''tag'' = Some (SBJ_STRING t) \<Longrightarrow>
     outbound_tags (sbj_arr_push us (Some u)) = outbound_tags us @ [t]"
  by (simp add: outbound_tags_def)

lemma selector_outbound_tag:
  "jget (Some (proxy_selector_outbound us tag)) ''tag'' = Some (SBJ_STRING tag)"
  by (simp add: proxy_selector_outbound_def Let_def)

lemma with_direct_tags:
  "sbj_is_array (Some us) \<Longrightarrow> set (outbound_tags (with_direct us)) = insert ''direct'' (set (outbound_tags us))"
  by (auto simp: with_direct_def outbounds_have_tag_iff outbound_tags_push)

lemma with_selector_tags:
  "sbj_is_array (Some us) \<Longrightarrow>
     set (outbound_tags (with_selector sel us)) = set_option sel \<union> set (outbound_tags us)"
  by (cases sel) (auto simp: with_selector_def outbound_tags_push selector_outbound_tag)

text \<open>The name every legacy reference is replaced with.\<close>

definition managed_target :: "bool \<Rightarrow> string option \<Rightarrow> string" where
  "managed_target has_auto sel =
     (if \<not> has_auto then ''direct'' else (case sel of Some p \<Rightarrow> p | None \<Rightarrow> ''auto''))"

lemma managed_target_known:
  assumes "sbj_is_array (Some us)" "has_auto = outbounds_have_tag us ''auto''"
    "sel = None \<or> has_auto \<and> sel = Some (selector_tag_loop (with_direct us) ''Proxy'')"
  shows "managed_target has_auto sel \<in> set (outbound_tags (with_selector sel (with_direct us)))"
  using assms by (auto simp: managed_target_def with_selector_tags with_direct_tags
      outbounds_have_tag_iff)

lemma jget_normalize_managed_dns_detours:
  "wf_obj c \<Longrightarrow> k \<noteq> ''dns'' \<Longrightarrow> jget (Some (normalize_managed_dns_detours c a sel)) k = jget (Some c) k"
  by (simp add: normalize_managed_dns_detours_def)

lemma managed_config_outbounds:
  "wf_obj config \<Longrightarrow> wf_json us \<Longrightarrow> jget (Some (managed_config a sel us config)) ''outbounds'' = Some us"
  by (simp add: managed_config_def Let_def obj_intros jget_normalize_managed_dns_detours)

lemma managed_config_final:
  assumes "wf_obj config" "wf_json us" "route_final config = Some (SBJ_STRING f)"
    "f \<in> {''Proxy'', ''Auto'', ''auto''}"
  shows "route_final (managed_config a sel us config) = Some (SBJ_STRING (managed_target a sel))"
proof -
  let ?c = "normalize_managed_dns_detours (jset config ''outbounds'' us) a sel"
  have "sbj_is_object (jget (Some config) ''route'')"
    using assms(3) by (rule contrapos_pp) (simp add: route_final_def)
  then obtain v where v: "jget (Some config) ''route'' = Some v" "wf_obj v"
    by (rule wf_obj_memberE [OF assms(1)])
  have c: "wf_obj ?c" using assms by (simp add: obj_intros)
  have "jget (Some ?c) ''route'' = Some v"
    using v assms by (simp add: jget_normalize_managed_dns_detours)
  then show ?thesis
    using v c assms(3,4) by (cases sel)
      (auto simp: managed_config_def Let_def route_final_def managed_final_def managed_target_def)
qed

definition legacy_detour :: "sbj \<Rightarrow> bool" where
  "legacy_detour s \<longleftrightarrow>
     jget (Some s) ''detour'' \<in> {Some (SBJ_STRING ''Proxy''), Some (SBJ_STRING ''Auto'')}"

lemma normalized_detour:
  "(let detour = jget (Some s) ''detour'' in
    if \<not> sbj_is_object (Some s) \<or> \<not> sbj_is_string detour then s
    else if sbj_string_is detour (Some ''Proxy'') \<or> sbj_string_is detour (Some ''Auto'')
    then jset_str s ''detour'' t else s) =
   (if legacy_detour s then jset_str s ''detour'' t else s)"
  by (cases "sbj_is_object (Some s)")
    (auto simp: legacy_detour_def sbj_is_string_iff Let_def)

lemma normalize_dns_eq:
  "normalize_managed_dns_detours c a sel =
     (if \<not> sbj_is_object (jget (Some c) ''dns'') then c
      else sbj_modify c ''dns'' (\<lambda>dns.
        let dns = index_or_null dns ''servers'' in
        if \<not> sbj_is_array (jget (Some dns) ''servers'') then dns
        else sbj_modify dns ''servers'' (arr_map (\<lambda>s.
          if legacy_detour s then jset_str s ''detour'' (managed_target a sel) else s))))"
  unfolding normalize_managed_dns_detours_def managed_target_def Let_def
    normalized_detour [unfolded Let_def] ..

lemma managed_config_dns:
  assumes "wf_obj config" "wf_json us"
  shows "dns_servers (managed_config a sel us config) =
    map (\<lambda>s. if legacy_detour s then jset_str s ''detour'' (managed_target a sel) else s)
      (dns_servers config)"
proof -
  let ?c = "normalize_managed_dns_detours (jset config ''outbounds'' us) a sel"
  have "dns_servers (managed_config a sel us config) = dns_servers ?c"
    using assms by (simp add: dns_servers_def managed_config_def Let_def obj_intros)
  also have "\<dots> = map (\<lambda>s. if legacy_detour s then jset_str s ''detour'' (managed_target a sel) else s)
      (dns_servers config)"
  proof (cases "sbj_is_object (jget (Some config) ''dns'')")
    case True
    then obtain v where v: "jget (Some config) ''dns'' = Some v" "wf_obj v"
      by (rule wf_obj_memberE [OF assms(1)])
    then show ?thesis
      using assms by (cases "sbj_is_array (jget (Some v) ''servers'')")
        (auto simp: dns_servers_def normalize_dns_eq Let_def arr_items_not_array sbj_is_array_iff)
  next
    case False
    then show ?thesis
      using assms by (simp add: dns_servers_def normalize_managed_dns_detours_def)
  qed
  finally show ?thesis .
qed

text \<open>(C15) In a managed profile the legacy names are rewritten to an outbound that exists. There is
  one tag, of an outbound of the rendered configuration, such that every DNS server of the profile
  whose detour is \<open>Proxy\<close> or \<open>Auto\<close> is rendered with that tag as its detour, every other DNS server
  is rendered as it is, and a final route of \<open>Proxy\<close>, \<open>Auto\<close> or \<open>auto\<close> is rendered as that tag: no
  reference is left dangling, whatever nodes are enabled.\<close>

theorem managed_targets_resolve:
  assumes "sb_config_renderer_render b request = Inr config" "wf_request request" "wf_engine b"
    and "rr_mode request = SB_PROFILE_MANAGED"
  shows "\<exists>t. t \<in> route_tags (jget (Some config) ''outbounds'')
    \<and> dns_servers config = map (\<lambda>s. if legacy_detour s then jset_str s ''detour'' t else s)
        (dns_servers (rr_profile request))
    \<and> (\<forall>f. route_final (rr_profile request) = Some (SBJ_STRING f)
        \<and> f \<in> {''Proxy'', ''Auto'', ''auto''} \<longrightarrow> route_final config = Some (SBJ_STRING t))"
  using assms
proof (rule render_frame)
  fix c hp assume r: "render_managed request (rr_profile request) = Inr (c, hp)" "frame c config"
  have p: "wf_obj (rr_profile request)"
    using assms(1,2) by (auto simp: sb_config_renderer_render_def wf_request_def wf_obj_def
        simp del: wf_objD split: if_split_asm)
  from r(1) show ?thesis
  proof (rule render_managedE)
    fix us sel
    assume us: "sb_config_generate_outbounds (rr_nodes request) = Inr us"
      "hp = outbounds_have_tag us ''auto''"
      "sel = None \<or> hp \<and> sel = Some (selector_tag_loop (with_direct us) ''Proxy'')"
      and c: "c = managed_config hp sel (with_selector sel (with_direct us)) (rr_profile request)"
    have w: "wf_json us" "sbj_is_array (Some us)"
      using wf_generate_outbounds [OF us(1)] assms(2) by (simp_all add: wf_request_def)
    have "managed_target hp sel \<in> route_tags (jget (Some c) ''outbounds'')"
      using managed_target_known [OF w(2) us(2,3)] w(1) p
      by (simp add: c managed_config_outbounds route_tags_Some)
    moreover have "route_final c = Some (SBJ_STRING (managed_target hp sel))"
      if "route_final (rr_profile request) = Some (SBJ_STRING f)" "f \<in> {''Proxy'', ''Auto'', ''auto''}" for f
      using managed_config_final [OF p _ that] w(1) by (simp add: c)
    moreover have "dns_servers c = map (\<lambda>s. if legacy_detour s
        then jset_str s ''detour'' (managed_target hp sel) else s) (dns_servers (rr_profile request))"
      using managed_config_dns [OF p] w(1) by (simp add: c)
    ultimately show ?thesis
      using r(2) unfolding frame_def by (intro exI [of _ "managed_target hp sel"]) auto
  qed
qed

definition demo_managed :: sb_render_request where
  "demo_managed = sb_render_request_init
     \<lparr>rr_profile := jset (jset sbj_object ''dns'' (jset sbj_object ''servers'' (SBJ_ARRAY
          [jset_str sbj_object ''detour'' ''Proxy'', jset_str sbj_object ''detour'' ''lan''])))
        ''route'' (jset_str sbj_object ''final'' ''Auto'')\<rparr>"

lemma demo_managed_wf: "wf_request demo_managed" "rr_mode demo_managed = SB_PROFILE_MANAGED"
  "route_final (rr_profile demo_managed) = Some (SBJ_STRING ''Auto'')"
  "dns_servers (rr_profile demo_managed) =
     [jset_str sbj_object ''detour'' ''Proxy'', jset_str sbj_object ''detour'' ''lan'']"
  by (simp_all add: demo_managed_def sb_render_request_init_def wf_request_def route_final_def
      dns_servers_def)

lemma demo_managed_render: "\<exists>config. sb_config_renderer_render no_script demo_managed = Inr config"
  by (simp add: sb_config_renderer_render_def demo_managed_def sb_render_request_init_def
      add_network_outbounds_def Let_def sbj_array_def render_managed_def
      sb_config_generate_outbounds_def outbounds_have_tag_def is_android_def)

theorem managed_targets_resolve_witness:
  "\<exists>config t. sb_config_renderer_render no_script demo_managed = Inr config
     \<and> t \<in> route_tags (jget (Some config) ''outbounds'')
     \<and> map (\<lambda>s. jget (Some s) ''detour'') (dns_servers config)
         = [Some (SBJ_STRING t), Some (SBJ_STRING ''lan'')]
     \<and> route_final config = Some (SBJ_STRING t)"
proof -
  obtain config where c: "sb_config_renderer_render no_script demo_managed = Inr config"
    using demo_managed_render by blast
  show ?thesis
    using managed_targets_resolve [OF c demo_managed_wf(1) demo_wf(2) demo_managed_wf(2)] c
    by (auto simp: demo_managed_wf(3,4) legacy_detour_def)
qed

lemma selector_tag_loop_fresh: "selector_tag_loop us tag \<notin> set (outbound_tags us)"
proof (induction us tag rule: selector_tag_loop.induct)
  case (1 us tag)
  then show ?case
    by (subst selector_tag_loop.simps) (simp add: outbounds_have_tag_iff)
qed

lemma selector_tag_loop_shape: "\<exists>n. selector_tag_loop us tag = tag @ concat (replicate n '' group'')"
proof (induction us tag rule: selector_tag_loop.induct)
  case (1 us tag)
  show ?case
  proof (cases "outbounds_have_tag us tag")
    case True
    then obtain n where "selector_tag_loop us (tag @ '' group'')
        = (tag @ '' group'') @ concat (replicate n '' group'')"
      using 1 by blast
    then have "selector_tag_loop us tag = tag @ concat (replicate (Suc n) '' group'')"
      using True by (subst selector_tag_loop.simps) simp
    then show ?thesis by blast
  next
    case False
    then have "selector_tag_loop us tag = tag @ concat (replicate 0 '' group'')"
      by (subst selector_tag_loop.simps) simp
    then show ?thesis by blast
  qed
qed

text \<open>(C26) The search for the selector's name ends for every list of outbounds, with a name that
  no outbound has: \<open>Proxy\<close> followed by as many \<open>group\<close>s as needed.\<close>

theorem selector_tag_terminates:
  "\<exists>n. selector_tag_loop us ''Proxy'' = ''Proxy'' @ concat (replicate n '' group'')
     \<and> \<not> outbounds_have_tag us (''Proxy'' @ concat (replicate n '' group''))"
  using selector_tag_loop_fresh [of us "''Proxy''"] selector_tag_loop_shape [of us "''Proxy''"]
  by (auto simp: outbounds_have_tag_iff)

subsection \<open>Properties of outbound tags\<close>

text \<open>The tags of the enabled nodes, in order: the second and later occurrences are numbered.\<close>

fun occurrence_tags :: "string list \<Rightarrow> string list \<Rightarrow> string list" where
  "occurrence_tags seen [] = []"
| "occurrence_tags seen (t # ts) =
     occurrence_tag t (Suc (count_list seen t)) # occurrence_tags (t # seen) ts"

definition counts_of :: "sbj \<Rightarrow> string list \<Rightarrow> bool" where
  "counts_of u seen \<longleftrightarrow> wf_obj u \<and> (\<forall>t. sbj_getn (Some u) (Some t) =
     (if count_list seen t = 0 then None else Some (SBJ_INT (int (count_list seen t)))))"

lemma next_occurrence_count:
  "counts_of u seen \<Longrightarrow> length seen + 1 < 2 ^ 32 \<Longrightarrow>
     next_occurrence (sbj_getn (Some u) (Some t)) = Suc (count_list seen t)"
  using count_le_length [of seen t] by (simp add: counts_of_def nat_add_distrib)

lemma counts_of_step:
  assumes "counts_of u seen" "length seen + 1 < 2 ^ 32"
  shows "counts_of (sbj_setn u (Some t) (Some (sbj_int (int (Suc (count_list seen t)))))) (t # seen)"
proof -
  have "wf_json (sbj_int (int (Suc (count_list seen t))))"
    using assms(2) count_le_length [of seen t] by (simp add: sbj_int_def in_i64_def)
  then show ?thesis
    using assms(1) by (auto simp: counts_of_def getn_setn wf_obj_setn sbj_int_def)
qed

lemma generate_outbound_object: "sb_config_generate_outbound n = Inr u \<Longrightarrow> wf_node n \<Longrightarrow>
    jget (Some (jset u ''tag'' (sbj_strn t))) ''tag'' = Some (SBJ_STRING t)"
  using wf_generate_outbound [of n u] by (simp add: sbj_strn_def)

lemma outbounds_loop_tags:
  "outbounds_loop ns u us ts = Inr (us', ts') \<Longrightarrow> list_all wf_node ns \<Longrightarrow> counts_of u seen \<Longrightarrow>
     length seen + length ns < 2 ^ 32 \<Longrightarrow> sbj_is_array (Some us) \<Longrightarrow> sbj_is_array (Some ts) \<Longrightarrow>
     outbound_tags us' = outbound_tags us @ occurrence_tags seen (map pn_tag (filter pn_enabled ns))
     \<and> sbj_is_array (Some us')
     \<and> sbj_arr_len (Some ts') = sbj_arr_len (Some ts) + length (filter pn_enabled ns)"
proof (induction ns arbitrary: u us ts seen)
  case (Cons n ns)
  show ?case
  proof (cases "pn_enabled n")
    case True
    then obtain v where v: "sb_config_generate_outbound n = Inr v"
      using Cons.prems(1) by (auto split: sum.splits)
    let ?c = "Suc (count_list seen (pn_tag n))"
    let ?t = "occurrence_tag (pn_tag n) ?c"
    let ?u = "sbj_setn u (Some (pn_tag n)) (Some (sbj_int (int ?c)))"
    have o: "next_occurrence (sbj_getn (Some u) (Some (pn_tag n))) = ?c"
      using Cons.prems(3,4) by (intro next_occurrence_count) simp_all
    have "counts_of ?u (pn_tag n # seen)"
      using Cons.prems(3,4) by (intro counts_of_step) simp_all
    moreover have "outbounds_loop ns ?u (sbj_arr_push us (Some (jset v ''tag'' (sbj_strn ?t))))
        (sbj_arr_push ts (Some (sbj_strn ?t))) = Inr (us', ts')"
      using Cons.prems(1) True v o by (simp add: Let_def)
    moreover have "sbj_arr_len (Some (sbj_arr_push ts x)) = Suc (sbj_arr_len (Some ts))" for x
      using Cons.prems(6) by (cases ts) simp_all
    ultimately show ?thesis
      using Cons.IH [of ?u _ _ "pn_tag n # seen"] Cons.prems True v
      by (simp add: outbound_tags_push generate_outbound_object)
  next
    case False
    then show ?thesis using Cons.IH [of u us ts seen] Cons.prems by simp
  qed
qed simp

lemma generate_outbounds_tags:
  assumes "sb_config_generate_outbounds ns = Inr us" "list_all wf_node ns" "length ns < 2 ^ 32"
  shows "outbound_tags us = occurrence_tags [] (map pn_tag (filter pn_enabled ns))
    @ (if filter pn_enabled ns = [] then [] else [''auto''])"
proof -
  obtain vs ts where l: "outbounds_loop ns sbj_object sbj_array sbj_array = Inr (vs, ts)"
    using assms(1) by (auto simp: sb_config_generate_outbounds_def)
  have "counts_of sbj_object []"
    by (auto simp: counts_of_def sbj_get_def [symmetric])
  then have "outbound_tags vs = occurrence_tags [] (map pn_tag (filter pn_enabled ns))"
      "sbj_is_array (Some vs)" "sbj_arr_len (Some ts) = length (filter pn_enabled ns)" "wf_json ts"
    using outbounds_loop_tags [OF l assms(2), of "[]"] wf_outbounds_loop [OF l assms(2)] assms(3)
    by (simp_all add: outbound_tags_def, simp_all add: sbj_array_def)
  then show ?thesis
    using assms(1) l
    by (auto simp: sb_config_generate_outbounds_def Let_def outbound_tags_push split: if_split_asm)
qed

lemma occurrence_tag_inj:
  assumes "CHR ''#'' \<notin> set s" "CHR ''#'' \<notin> set t" "0 < j" "0 < k"
    "occurrence_tag s j = occurrence_tag t k"
  shows "s = t \<and> j = k"
proof -
  have split: "takeWhile (\<lambda>c. c \<noteq> CHR ''#'') (x @ '' #'' @ y) = x @ '' ''"
      "dropWhile (\<lambda>c. c \<noteq> CHR ''#'') (x @ '' #'' @ y) = CHR ''#'' # y"
    if "CHR ''#'' \<notin> set x" for x y :: string
    using that by (induction x) auto
  have hash: "CHR ''#'' \<in> set (occurrence_tag x i) \<longleftrightarrow> i > 1" if "CHR ''#'' \<notin> set x" "0 < i" for x i
    using that by (simp add: occurrence_tag_def)
  show ?thesis
  proof (cases "j > 1")
    case True
    then have k: "k > 1" using hash assms by metis
    then have "s @ '' #'' @ show_nat j = t @ '' #'' @ show_nat k"
      using assms(5) True by (simp add: occurrence_tag_def)
    then have "s @ '' '' = t @ '' ''" "CHR ''#'' # show_nat j = CHR ''#'' # show_nat k"
      using split assms(1,2) by metis+
    then show ?thesis by (simp add: show_nat_inj)
  next
    case False
    then have "\<not> k > 1" using hash assms by metis
    then show ?thesis using False assms(3-5) by (simp add: occurrence_tag_def)
  qed
qed

lemma occurrence_tags_elem:
  "x \<in> set (occurrence_tags seen ts) \<Longrightarrow>
     \<exists>t\<in>set ts. \<exists>k>count_list seen t. x = occurrence_tag t k"
proof (induction ts arbitrary: seen)
  case (Cons t ts)
  show ?case
  proof (cases "x = occurrence_tag t (Suc (count_list seen t))")
    case False
    then obtain t' k where "t' \<in> set ts" "k > count_list (t # seen) t'" "x = occurrence_tag t' k"
      using Cons by fastforce
    moreover from this have "k > count_list seen t'" by (simp split: if_split_asm)
    ultimately show ?thesis by auto
  qed auto
qed simp

lemma occurrence_tags_distinct:
  "\<forall>t\<in>set ts. CHR ''#'' \<notin> set t \<Longrightarrow> distinct (occurrence_tags seen ts)"
proof (induction ts arbitrary: seen)
  case (Cons t ts)
  have "occurrence_tag t (Suc (count_list seen t)) \<notin> set (occurrence_tags (t # seen) ts)"
  proof
    assume "occurrence_tag t (Suc (count_list seen t)) \<in> set (occurrence_tags (t # seen) ts)"
    then obtain t' k where k: "t' \<in> set ts" "k > count_list (t # seen) t'"
        "occurrence_tag t (Suc (count_list seen t)) = occurrence_tag t' k"
      using occurrence_tags_elem by blast
    then have "t = t' \<and> Suc (count_list seen t) = k"
      using Cons.prems by (intro occurrence_tag_inj) auto
    then show False using k(2) by auto
  qed
  then show ?case using Cons by simp
qed simp

text \<open>(C24) The outbounds of a rendered configuration are told apart by their tags, as long as no
  enabled node has a \<open>#\<close> in its tag or is called \<open>auto\<close>: repeated tags are numbered, the numbers
  never clash, and the \<open>urltest\<close> group comes last.\<close>

theorem outbound_tags_distinct:
  assumes "sb_config_generate_outbounds nodes = Inr us" "list_all wf_node nodes"
    "length nodes < 2 ^ 32"
    "\<And>n. n \<in> set nodes \<Longrightarrow> pn_enabled n \<Longrightarrow> CHR ''#'' \<notin> set (pn_tag n) \<and> pn_tag n \<noteq> ''auto''"
  shows "distinct (outbound_tags us)
    \<and> outbound_tags us = occurrence_tags [] (map pn_tag (filter pn_enabled nodes))
        @ (if filter pn_enabled nodes = [] then [] else [''auto''])"
proof -
  let ?ts = "map pn_tag (filter pn_enabled nodes)"
  have "CHR ''#'' \<notin> set t \<and> t \<noteq> ''auto''" if "t \<in> set ?ts" for t
    using that assms(4) by auto
  then have h: "\<forall>t\<in>set ?ts. CHR ''#'' \<notin> set t" "''auto'' \<notin> set ?ts"
    by blast+
  have "''auto'' \<notin> set (occurrence_tags [] ?ts)"
  proof
    assume "''auto'' \<in> set (occurrence_tags [] ?ts)"
    then obtain t k where k: "t \<in> set ?ts" "k > count_list [] t" "''auto'' = occurrence_tag t k"
      using occurrence_tags_elem by blast
    have "occurrence_tag ''auto'' 1 = occurrence_tag t k"
      unfolding k(3) [symmetric] by (simp add: occurrence_tag_def)
    then have "''auto'' = t \<and> 1 = k"
      using h(1) k(1,2) by (intro occurrence_tag_inj) (simp_all del: set_map)
    then show False using k(1) h(2) by simp
  qed
  then show ?thesis
    using generate_outbounds_tags [OF assms(1-3)] occurrence_tags_distinct [OF h(1), of "[]"] by simp
qed

definition demo_node :: "string \<Rightarrow> sb_proxy_node" where
  "demo_node tag = sb_proxy_node_init\<lparr>pn_tag := tag\<rparr>"

lemma demo_node_simps [simp]: "wf_node (demo_node t)" "pn_tag (demo_node t) = t" "pn_enabled (demo_node t)"
  by (simp_all add: demo_node_def wf_node_def sb_proxy_node_init_def)

lemma demo_generate: "\<exists>us. sb_config_generate_outbounds (map demo_node ts) = Inr us"
proof -
  have "\<exists>r. outbounds_loop (map demo_node ts) s us as = Inr r" for s us as
    by (induction ts arbitrary: s us as)
      (simp_all add: sb_config_generate_outbound_def demo_node_def sb_proxy_node_init_def Let_def)
  then obtain us as where "outbounds_loop (map demo_node ts) sbj_object sbj_array sbj_array = Inr (us, as)"
    by fastforce
  then show ?thesis
    by (simp add: sb_config_generate_outbounds_def Let_def)
qed

lemma show_nat_2: "show_nat (Suc (Suc 0)) = ''2''"
  by (subst show_nat.simps) (simp add: char_of_def bit_Suc_0_iff)

theorem outbound_tags_distinct_witness:
  "\<exists>us. sb_config_generate_outbounds (map demo_node [''a'', ''a'']) = Inr us
     \<and> outbound_tags us = [''a'', ''a #2'', ''auto'']"
proof -
  obtain us where u: "sb_config_generate_outbounds (map demo_node [''a'', ''a'']) = Inr us"
    using demo_generate by blast
  then show ?thesis
    using outbound_tags_distinct [OF u] by (simp add: occurrence_tag_def show_nat_2)
qed

text \<open>(C25) Without that restriction the numbering is not enough. Nodes tagged \<open>a\<close>, \<open>a\<close> and \<open>a #2\<close>
  give two outbounds tagged \<open>a #2\<close>, and a node tagged \<open>auto\<close> shares its tag with the \<open>urltest\<close>
  group: the rendered list then has two outbounds with one tag.\<close>

theorem outbound_tags_collide:
  "(\<exists>us. sb_config_generate_outbounds (map demo_node [''a'', ''a'', ''a #2'']) = Inr us
      \<and> \<not> distinct (outbound_tags us))
   \<and> (\<exists>us. sb_config_generate_outbounds (map demo_node [''auto'']) = Inr us
      \<and> \<not> distinct (outbound_tags us))"
proof (rule conjI)
  obtain us where u: "sb_config_generate_outbounds (map demo_node [''a'', ''a'', ''a #2'']) = Inr us"
    using demo_generate by blast
  then show "\<exists>us. sb_config_generate_outbounds (map demo_node [''a'', ''a'', ''a #2'']) = Inr us
      \<and> \<not> distinct (outbound_tags us)"
    using generate_outbounds_tags [OF u] by (simp add: occurrence_tag_def show_nat_2)
  obtain us where u: "sb_config_generate_outbounds (map demo_node [''auto'']) = Inr us"
    using demo_generate by blast
  then show "\<exists>us. sb_config_generate_outbounds (map demo_node [''auto'']) = Inr us
      \<and> \<not> distinct (outbound_tags us)"
    using generate_outbounds_tags [OF u] by (simp add: occurrence_tag_def)
qed

end
