(* ===== verification/Proxy_Uri.thy ===== *)
theory Proxy_Uri
  imports Types
begin

text \<open>
  \<open>c/src/proxy_parser.c\<close>, first part: share links (\<open>ss\<close>, \<open>vmess\<close>, \<open>trojan\<close>, \<open>vless\<close>, \<open>hysteria2\<close>,
  \<open>tuic\<close>). A view \<open>sv\<close> and an owned \<open>str\<close> are both a \<open>string\<close>; \<open>NPOS\<close> is \<open>None\<close>; a parser that
  returns 1 with a node or 0 without gives an \<open>option\<close>, and \<open>-1\<close> is an error. The block decoder of
  OpenSSL is the parameter \<open>evp\<close>: the decoded bytes, padding characters read as zero bits, or
  \<open>None\<close>.
\<close>

subsection \<open>String helpers\<close>

definition sv_sub :: "string \<Rightarrow> nat \<Rightarrow> nat option \<Rightarrow> string" where
  "sv_sub v off len =
     (let v = drop off v in case len of None \<Rightarrow> v | Some n \<Rightarrow> take n v)"

definition sv_from :: "string \<Rightarrow> nat \<Rightarrow> string" where
  "sv_from v off = sv_sub v off None"

definition sv_starts :: "string \<Rightarrow> string \<Rightarrow> bool" where
  "sv_starts v s \<longleftrightarrow> length v \<ge> length s \<and> take (length s) v = s"

fun sv_find :: "string \<Rightarrow> char \<Rightarrow> nat option" where
  "sv_find [] c = None"
| "sv_find (x # xs) c = (if x = c then Some 0 else map_option Suc (sv_find xs c))"

fun sv_rfind_loop :: "string \<Rightarrow> char \<Rightarrow> nat \<Rightarrow> nat option" where
  "sv_rfind_loop v c 0 = None"
| "sv_rfind_loop v c (Suc i) = (if v ! i = c then Some i else sv_rfind_loop v c i)"

definition sv_rfind :: "string \<Rightarrow> char \<Rightarrow> nat option" where
  "sv_rfind v c = sv_rfind_loop v c (length v)"

definition is_space :: "char \<Rightarrow> bool" where
  "is_space c \<longleftrightarrow> byte c \<in> {32, 9, 10, 11, 12, 13}"

definition is_alnum :: "char \<Rightarrow> bool" where
  "is_alnum c \<longleftrightarrow> (48 \<le> byte c \<and> byte c \<le> 57) \<or> (97 \<le> byte c \<and> byte c \<le> 122)
     \<or> (65 \<le> byte c \<and> byte c \<le> 90)"

definition sv_trim :: "string \<Rightarrow> string" where
  "sv_trim v = rev (dropWhile is_space (rev (dropWhile is_space v)))"

definition sbj_sv :: "string \<Rightarrow> sbj" where
  "sbj_sv v = sbj_strn v"

definition hex_value :: "char \<Rightarrow> nat option" where
  "hex_value c =
     (if 48 \<le> byte c \<and> byte c \<le> 57 then Some (byte c - 48)
      else if 97 \<le> byte c \<and> byte c \<le> 102 then Some (10 + byte c - 97)
      else if 65 \<le> byte c \<and> byte c \<le> 70 then Some (10 + byte c - 65)
      else None)"

fun hex_pair :: "string \<Rightarrow> char option" where
  "hex_pair (h # l # rest) =
     (case (hex_value h, hex_value l) of
        (Some hi, Some lo) \<Rightarrow> Some (of_byte (16 * hi + lo))
      | _ \<Rightarrow> None)"
| "hex_pair _ = None"

fun percent_decode :: "string \<Rightarrow> bool \<Rightarrow> string" where
  "percent_decode [] plus_as_space = []"
| "percent_decode (c # v) plus_as_space =
     (case (if c = CHR ''%'' then hex_pair v else None) of
        Some b \<Rightarrow> b # percent_decode (drop 2 v) plus_as_space
      | None \<Rightarrow>
          (if plus_as_space \<and> c = CHR ''+'' then CHR '' '' else c)
            # percent_decode v plus_as_space)"

type_synonym decode_block = "string \<Rightarrow> string option"

text \<open>The characters kept, URL-safe ones translated, then the padding completed.\<close>

definition b64_normalize :: "string \<Rightarrow> string" where
  "b64_normalize enc =
     map (\<lambda>c. if c = CHR ''-'' then CHR ''+'' else if c = CHR ''_'' then CHR ''/'' else c)
       (filter (\<lambda>c. \<not> is_space c) enc)"

definition b64_padding :: "string \<Rightarrow> nat" where
  "b64_padding norm =
     (let padding = (if norm \<noteq> [] \<and> last norm = CHR ''='' then 1 else 0) in
      if padding = 1 \<and> length norm > 1 \<and> norm ! (length norm - 2) = CHR ''=''
      then padding + 1 else padding)"

definition b64_grammar :: "string \<Rightarrow> bool" where
  "b64_grammar norm \<longleftrightarrow>
     (\<forall>i<length norm. let c = norm ! i in
        is_alnum c \<or> c = CHR ''+'' \<or> c = CHR ''/''
        \<or> c = CHR ''='' \<and> i \<ge> length norm - b64_padding norm)"

definition decode_base64 :: "decode_block \<Rightarrow> string \<Rightarrow> string option" where
  "decode_base64 evp enc =
     (let norm = b64_normalize enc in
      if norm = [] \<or> length norm mod 4 = 1 \<or> length norm > 2 ^ 31 - 1 then None
      else
        (let norm = norm @ replicate ((4 - length norm mod 4) mod 4) (CHR ''='') in
         if \<not> b64_grammar norm then None
         else
           (case evp norm of
              None \<Rightarrow> None
            | Some buf \<Rightarrow>
                (let size = length buf;
                     size = (if length norm \<ge> 2 \<and> last norm = CHR ''=''
                               \<and> norm ! (length norm - 2) = CHR ''='' then size - 2
                             else if last norm = CHR ''='' then size - 1
                             else size) in
                 Some (take size buf)))))"

fun parse_port_loop :: "string \<Rightarrow> nat \<Rightarrow> nat option" where
  "parse_port_loop [] port = Some port"
| "parse_port_loop (c # v) port =
     (if byte c < 48 \<or> byte c > 57 then None
      else
        (let port = port * 10 + (byte c - 48) in
         if port > 2 ^ 32 - 1 then None else parse_port_loop v port))"

definition parse_port :: "string \<Rightarrow> nat option" where
  "parse_port v =
     (if v = [] then None
      else
        (case parse_port_loop v 0 of
           None \<Rightarrow> None
         | Some port \<Rightarrow> (if port = 0 \<or> port > 65535 then None else Some port)))"

definition parse_host_port :: "string \<Rightarrow> nat \<Rightarrow> (string \<times> nat) option" where
  "parse_host_port v default_port =
     (if v = [] then None
      else if v ! 0 = CHR ''['' then
        (case sv_find v (CHR '']'') of
           None \<Rightarrow> None
         | Some close \<Rightarrow>
             (if close = 1 then None
              else
                (let h = sv_sub v 1 (Some (close - 1)) in
                 if close + 1 = length v then Some (h, default_port)
                 else if v ! (close + 1) \<noteq> CHR '':'' then None
                 else map_option (\<lambda>port. (h, port)) (parse_port (sv_from v (close + 2))))))
      else
        (case sv_rfind v (CHR '':'') of
           None \<Rightarrow> Some (v, default_port)
         | Some colon \<Rightarrow>
             (case parse_port (sv_from v (colon + 1)) of
                None \<Rightarrow> None
              | Some port \<Rightarrow>
                  (if colon = 0 then None else Some (sv_sub v 0 (Some colon), port)))))"

subsection \<open>Structured URIs\<close>

record suri =
  u_user_info :: string
  u_host :: string
  u_fragment :: string
  u_port :: nat
  u_query :: "(string \<times> string) list"

lemma sv_find_less: "sv_find v c = Some i \<Longrightarrow> i < length v"
  by (induction v arbitrary: i) (auto split: if_split_asm)

function query_pairs :: "string \<Rightarrow> (string \<times> string) list" where
  "query_pairs query =
     (if query = [] then []
      else
        (let amp = sv_find query (CHR ''&'');
             pair = sv_sub query 0 amp;
             eq = sv_find pair (CHR ''='');
             key = percent_decode (sv_sub pair 0 eq) True;
             val = (case eq of
                 None \<Rightarrow> []
               | Some e \<Rightarrow> percent_decode (sv_from pair (e + 1)) True) in
         (key, val) # (case amp of None \<Rightarrow> [] | Some a \<Rightarrow> query_pairs (sv_from query (a + 1)))))"
  by pat_completeness auto
termination
  by (relation "measure length") (auto simp: sv_from_def sv_sub_def)

declare query_pairs.simps [simp del]

definition parse_structured_uri :: "string \<Rightarrow> string \<Rightarrow> nat \<Rightarrow> suri option" where
  "parse_structured_uri uri scheme default_port =
     (let prefix = scheme @ ''://'' in
      if \<not> sv_starts uri prefix then None
      else
        (let uri = sv_from uri (length prefix);
             hash = sv_find uri (CHR ''#'');
             fragment = (case hash of
                 Some h \<Rightarrow> percent_decode (sv_from uri (h + 1)) False
               | None \<Rightarrow> []);
             uri = sv_sub uri 0 hash;
             q = sv_find uri (CHR ''?'');
             query = (case q of Some n \<Rightarrow> sv_from uri (n + 1) | None \<Rightarrow> []);
             uri = sv_sub uri 0 q;
             slash = sv_find uri (CHR ''/'');
             uri = sv_sub uri 0 slash in
         case sv_rfind uri (CHR ''@'') of
           None \<Rightarrow> None
         | Some at \<Rightarrow>
             (let user_info = percent_decode (sv_sub uri 0 (Some at)) False in
              case parse_host_port (sv_from uri (at + 1)) default_port of
                None \<Rightarrow> None
              | Some (host, port) \<Rightarrow>
                  Some \<lparr>u_user_info = user_info, u_host = host, u_fragment = fragment,
                        u_port = port, u_query = query_pairs query\<rparr>)))"

definition query_value :: "suri \<Rightarrow> string \<Rightarrow> string" where
  "query_value u key =
     (case find (\<lambda>(k, v). k = key) (rev (u_query u)) of Some (k, v) \<Rightarrow> v | None \<Rightarrow> [])"

definition query_true :: "suri \<Rightarrow> string \<Rightarrow> bool" where
  "query_true u key =
     (let v = query_value u key in
      if length v = 1 then v ! 0 = CHR ''1''
      else if length v \<noteq> 4 then False
      else map (\<lambda>c. if isupper c then of_byte (byte c - 65 + 97) else c) v = ''true'')"

function alpn_items :: "string \<Rightarrow> sbj list" where
  "alpn_items remaining =
     (if remaining = [] then []
      else
        (let comma = sv_find remaining (CHR '','') in
         sbj_sv (sv_trim (sv_sub remaining 0 comma))
           # (case comma of None \<Rightarrow> [] | Some i \<Rightarrow> alpn_items (sv_from remaining (i + 1)))))"
  by pat_completeness auto
termination
  by (relation "measure length") (auto simp: sv_from_def sv_sub_def)

declare alpn_items.simps [simp del]

definition split_alpn :: "string \<Rightarrow> sbj" where
  "split_alpn remaining =
     foldl (\<lambda>arr item. sbj_arr_push arr (Some item)) sbj_array (alpn_items remaining)"

definition utls :: "sbj \<Rightarrow> sbj" where
  "utls fingerprint =
     (let u = sbj_object;
          u = jset_bool u ''enabled'' True;
          u = jset u ''fingerprint'' fingerprint in
      u)"

text \<open>The first of two query parameters, the second when the first is empty.\<close>

definition query_or :: "suri \<Rightarrow> string \<Rightarrow> string \<Rightarrow> string" where
  "query_or u k l = (let v = query_value u k in if v = [] then query_value u l else v)"

definition tls_from_uri :: "suri \<Rightarrow> sbj" where
  "tls_from_uri u =
     (let tls = sbj_object;
          tls = jset_bool tls ''enabled'' True;
          sni = query_or u ''sni'' ''servername'';
          tls = (if sni \<noteq> [] then jset tls ''server_name'' (sbj_sv sni) else tls);
          alpn = query_value u ''alpn'';
          tls = (if alpn \<noteq> [] then jset tls ''alpn'' (split_alpn alpn) else tls);
          fp = query_or u ''fp'' ''fingerprint'';
          tls = (if fp \<noteq> [] then jset tls ''utls'' (utls (sbj_sv fp)) else tls);
          tls = (if query_true u ''allowInsecure'' \<or> query_true u ''skip-cert-verify''
                   \<or> query_true u ''insecure''
                 then jset_bool tls ''insecure'' True else tls) in
      tls)"

definition has_nonempty_string :: "sbj option \<Rightarrow> string \<Rightarrow> bool" where
  "has_nonempty_string v field =
     (let f = jget v field in sbj_is_string f \<and> length (str_of f) > 0)"

definition has_required_secret :: "string \<Rightarrow> sbj option \<Rightarrow> bool" where
  "has_required_secret type pc =
     (if type = ''shadowsocks''
      then has_nonempty_string pc ''method'' \<and> has_nonempty_string pc ''password''
      else if type = ''vmess'' \<or> type = ''vless'' then has_nonempty_string pc ''uuid''
      else if type = ''trojan'' \<or> type = ''hysteria2'' then has_nonempty_string pc ''password''
      else if type = ''tuic''
      then has_nonempty_string pc ''uuid'' \<and> has_nonempty_string pc ''password''
      else type = ''http'' \<or> type = ''socks'')"

definition finish_node ::
  "string \<Rightarrow> string \<Rightarrow> string \<Rightarrow> nat \<Rightarrow> sbj \<Rightarrow> bool \<Rightarrow> sb_parsed_node option" where
  "finish_node type tag server port config check_secret =
     (if check_secret \<and> \<not> has_required_secret type (Some config) then None
      else Some \<lparr>ps_node_type = type, ps_tag = tag, ps_server = server, ps_server_port = port,
                 ps_protocol_config = config\<rparr>)"

subsection \<open>Typed members\<close>

definition type_error :: "string \<Rightarrow> sbj \<Rightarrow> 'a res" where
  "type_error want v =
     sb_fail SB_ERR_GENERIC
       (''[json.exception.type_error.302] type must be '' @ want @ '', but is ''
        @ sbj_type_name (Some v))"

definition value_string :: "sbj option \<Rightarrow> string \<Rightarrow> string \<Rightarrow> string res" where
  "value_string obj key fallback =
     (case jget obj key of
        None \<Rightarrow> Inr fallback
      | Some f \<Rightarrow>
          (if \<not> sbj_is_string (Some f) then type_error ''string'' f
           else Inr (str_of (Some f))))"

definition member_int :: "sbj option \<Rightarrow> string \<Rightarrow> int \<Rightarrow> int res" where
  "member_int obj key fallback =
     (case jget obj key of
        None \<Rightarrow> Inr fallback
      | Some (SBJ_BOOL b) \<Rightarrow> Inr (if b then 1 else 0)
      | Some (SBJ_INT i) \<Rightarrow> Inr (wrap_i32 i)
      | Some (SBJ_UINT u) \<Rightarrow> Inr (wrap_i32 (int u))
      | Some (SBJ_FLOAT d) \<Rightarrow>
          Inr (if isfinite d \<and> - (2 ^ 31) \<le> dbl_trunc d \<and> dbl_trunc d < 2 ^ 31
               then dbl_trunc d else - (2 ^ 31))
      | Some f \<Rightarrow> type_error ''number'' f)"

subsection \<open>URI parsers\<close>

text \<open>The tag of a node that has none: its server and port.\<close>

definition address_tag :: "string \<Rightarrow> nat \<Rightarrow> string" where
  "address_tag host port = host @ '':'' @ show_nat port"

text \<open>The credentials and the address of a Shadowsocks link, in its two forms.\<close>

definition shadowsocks_parts :: "decode_block \<Rightarrow> string \<Rightarrow> (string \<times> string) option" where
  "shadowsocks_parts evp uri =
     (case sv_rfind uri (CHR ''@'') of
        Some at \<Rightarrow>
          (case decode_base64 evp (sv_sub uri 0 (Some at)) of
             None \<Rightarrow> None
           | Some credentials \<Rightarrow> Some (credentials, sv_from uri (at + 1)))
      | None \<Rightarrow>
          (case decode_base64 evp uri of
             None \<Rightarrow> None
           | Some decoded \<Rightarrow>
               (case sv_rfind decoded (CHR ''@'') of
                  None \<Rightarrow> None
                | Some dat \<Rightarrow> Some (sv_sub decoded 0 (Some dat), sv_from decoded (dat + 1)))))"

definition parse_shadowsocks :: "decode_block \<Rightarrow> string \<Rightarrow> sb_parsed_node option" where
  "parse_shadowsocks evp uri =
     (let uri = sv_from uri 5;
          hash = sv_find uri (CHR ''#'');
          tag = (case hash of Some h \<Rightarrow> percent_decode (sv_from uri (h + 1)) False | None \<Rightarrow> []);
          uri = sv_sub uri 0 hash;
          uri = sv_sub uri 0 (sv_find uri (CHR ''?'')) in
      case shadowsocks_parts evp uri of
        None \<Rightarrow> None
      | Some (credentials, host_port) \<Rightarrow>
          (case sv_find credentials (CHR '':'') of
             None \<Rightarrow> None
           | Some colon \<Rightarrow>
               (case parse_host_port host_port 8388 of
                  None \<Rightarrow> None
                | Some (host, port) \<Rightarrow>
                    (let config = sbj_object;
                         config = jset config ''method''
                           (sbj_sv (sv_sub credentials 0 (Some colon)));
                         config = jset config ''password''
                           (sbj_sv (sv_from credentials (colon + 1)));
                         tag = (if tag = [] then address_tag host port else tag) in
                     finish_node ''shadowsocks'' tag host port config True))))"

text \<open>A port given as a JSON number or as text.\<close>

definition json_port :: "sbj option \<Rightarrow> nat option" where
  "json_port p =
     (case p of
        Some (SBJ_UINT u) \<Rightarrow> (if u > 0 \<and> u \<le> 65535 then Some u else None)
      | Some (SBJ_INT i) \<Rightarrow> (if i > 0 \<and> i \<le> 65535 then Some (nat i) else None)
      | Some (SBJ_STRING s) \<Rightarrow> parse_port s
      | _ \<Rightarrow> None)"

definition utf8_bom :: string where
  "utf8_bom = [CHR 0xEF, CHR 0xBB, CHR 0xBF]"

definition vmess_transport :: "sbj option \<Rightarrow> string \<Rightarrow> sbj" where
  "vmess_transport v net =
     (let transport = sbj_object;
          transport = jset transport ''type'' (sbj_sv net);
          path = jget v ''path'';
          transport = (if sbj_is_string path
            then jset transport ''path'' (sbj_clone (the path)) else transport);
          host = jget v ''host'' in
      if sbj_is_string host
      then jset transport ''headers'' (jset sbj_object ''Host'' (sbj_clone (the host)))
      else transport)"

definition vmess_tls :: "sbj option \<Rightarrow> sbj" where
  "vmess_tls v =
     (let tls = jset_bool sbj_object ''enabled'' True; sni = jget v ''sni'' in
      if sbj_is_string sni then jset tls ''server_name'' (sbj_clone (the sni)) else tls)"

text \<open>The node of a decoded \<open>vmess\<close> document.\<close>

definition vmess_node :: "sbj option \<Rightarrow> sb_parsed_node option res" where
  "vmess_node v =
     (if \<not> sbj_is_object v then Inr None
      else
        (let server_value = jget v ''add'';
             server_value = (if \<not> sbj_is_string server_value then jget v ''host''
               else server_value) in
         if \<not> sbj_is_string server_value \<or> length (str_of server_value) = 0 then Inr None
         else
           (case json_port (jget v ''port'') of
              None \<Rightarrow> Inr None
            | Some port \<Rightarrow>
                (let server = str_of server_value in
                 res_bind (value_string v ''name'' ''vmess'') (\<lambda>name.
                 res_bind (value_string v ''ps'' name) (\<lambda>tag.
                 res_bind (value_string v ''id'' []) (\<lambda>id'.
                 res_bind (member_int v ''aid'' 0) (\<lambda>aid.
                 res_bind (value_string v ''scy'' ''auto'') (\<lambda>scy.
                   let config = sbj_object;
                       config = jset config ''uuid'' (sbj_sv id');
                       config = jset_int config ''alter_id'' aid;
                       config = jset config ''security'' (sbj_sv scy) in
                   res_bind (value_string v ''net'' ''tcp'') (\<lambda>net.
                     let config = (if net \<noteq> ''tcp''
                           then jset config ''transport'' (vmess_transport v net) else config) in
                     res_bind (value_string v ''tls'' []) (\<lambda>tlsv.
                       let config = (if tlsv = ''tls'' then jset config ''tls'' (vmess_tls v)
                             else config) in
                       Inr (finish_node ''vmess'' tag server port config True))))))))))))"

definition parse_vmess :: "decode_block \<Rightarrow> string \<Rightarrow> sb_parsed_node option res" where
  "parse_vmess evp uri =
     (let uri = sv_from uri 8 in
      case decode_base64 evp uri of
        None \<Rightarrow> Inr None
      | Some decoded \<Rightarrow>
          (let skip = (if length decoded \<ge> 3 \<and> take 3 decoded = utf8_bom then 3 else 0) in
           vmess_node (case sbj_parse (Some (drop skip decoded)) of
               Inl e \<Rightarrow> None
             | Inr v \<Rightarrow> Some v)))"

definition frag_or :: "suri \<Rightarrow> string \<Rightarrow> string" where
  "frag_or u fallback = (if u_fragment u \<noteq> [] then u_fragment u else fallback)"

definition parse_trojan :: "string \<Rightarrow> sb_parsed_node option" where
  "parse_trojan uri =
     (case parse_structured_uri uri ''trojan'' 443 of
        None \<Rightarrow> None
      | Some u \<Rightarrow>
          (let config = sbj_object;
               config = jset config ''password'' (sbj_sv (u_user_info u));
               config = jset config ''tls'' (tls_from_uri u) in
           finish_node ''trojan'' (frag_or u ''trojan'') (u_host u) (u_port u) config True))"

definition vless_transport :: "suri \<Rightarrow> string \<Rightarrow> sbj" where
  "vless_transport u network =
     (let transport = sbj_object;
          transport = jset transport ''type'' (sbj_sv network);
          path = query_value u ''path'';
          transport = (if path \<noteq> [] then jset transport ''path'' (sbj_sv path) else transport);
          host = query_value u ''host'' in
      if host \<noteq> []
      then jset transport ''headers'' (jset sbj_object ''Host'' (sbj_sv host))
      else transport)"

definition vless_config :: "suri \<Rightarrow> sbj" where
  "vless_config u =
     (let config = sbj_object;
          config = jset config ''uuid'' (sbj_sv (u_user_info u));
          config = jset config ''flow'' (sbj_sv (query_value u ''flow''));
          config = jset_str config ''packet_encoding'' ''xudp'';
          network = query_or u ''type'' ''network'';
          config = (if network \<noteq> [] \<and> network \<noteq> ''tcp''
            then jset config ''transport'' (vless_transport u network) else config);
          security = query_value u ''security'' in
      if security = ''tls'' \<or> security = ''reality''
      then jset config ''tls'' (tls_from_uri u) else config)"

definition parse_vless :: "string \<Rightarrow> sb_parsed_node option" where
  "parse_vless uri =
     (case parse_structured_uri uri ''vless'' 443 of
        None \<Rightarrow> None
      | Some u \<Rightarrow>
          finish_node ''vless'' (frag_or u ''vless'') (u_host u) (u_port u) (vless_config u) True)"

text \<open>A TLS object with more than \<open>enabled\<close> in it is kept.\<close>

definition set_tls :: "sbj \<Rightarrow> sbj \<Rightarrow> sbj" where
  "set_tls config tls = (if sbj_obj_len (Some tls) > 1 then jset config ''tls'' tls else config)"

definition parse_hysteria2 :: "string \<Rightarrow> sb_parsed_node option" where
  "parse_hysteria2 uri =
     (let norm = (if sv_starts uri ''hy2://'' then ''hysteria2://'' @ drop 6 uri else uri) in
      case parse_structured_uri norm ''hysteria2'' 443 of
        None \<Rightarrow> None
      | Some u \<Rightarrow>
          (let config = sbj_object;
               config = jset config ''password'' (sbj_sv (u_user_info u));
               config = set_tls config (tls_from_uri u);
               obfs = query_value u ''obfs'';
               pw = query_value u ''obfs-password'';
               config = (if obfs \<noteq> [] then
                   (let ob = jset sbj_object ''type'' (sbj_sv obfs);
                        ob = (if pw \<noteq> [] then jset ob ''password'' (sbj_sv pw) else ob) in
                    jset config ''obfs'' ob)
                 else config) in
           finish_node ''hysteria2'' (frag_or u ''hysteria2'') (u_host u) (u_port u) config True))"

definition parse_tuic :: "string \<Rightarrow> sb_parsed_node option" where
  "parse_tuic uri =
     (case parse_structured_uri uri ''tuic'' 443 of
        None \<Rightarrow> None
      | Some u \<Rightarrow>
          (case sv_find (u_user_info u) (CHR '':'') of
             None \<Rightarrow> None
           | Some colon \<Rightarrow>
               (let config = sbj_object;
                    config = jset config ''uuid'' (sbj_sv (sv_sub (u_user_info u) 0 (Some colon)));
                    config = jset config ''password'' (sbj_sv (sv_from (u_user_info u) (colon + 1)));
                    config = jset_str config ''congestion_control'' ''bbr'';
                    config = jset_str config ''udp_relay_mode'' ''native'';
                    config = jset_str config ''heartbeat'' ''10s'';
                    cc = query_or u ''congestion_control'' ''congestion'';
                    config = (if cc \<noteq> [] then jset config ''congestion_control'' (sbj_sv cc)
                      else config);
                    config = set_tls config (tls_from_uri u) in
                finish_node ''tuic'' (frag_or u ''tuic'') (u_host u) (u_port u) config True)))"

definition sb_parse_proxy_uri_ex :: "decode_block \<Rightarrow> string option \<Rightarrow> sb_parsed_node option res" where
  "sb_parse_proxy_uri_ex evp uri =
     (let v = sv_trim (case uri of None \<Rightarrow> [] | Some s \<Rightarrow> s) in
      if sv_starts v ''ss://'' then Inr (parse_shadowsocks evp v)
      else if sv_starts v ''vmess://'' then parse_vmess evp v
      else if sv_starts v ''trojan://'' then Inr (parse_trojan v)
      else if sv_starts v ''vless://'' then Inr (parse_vless v)
      else if sv_starts v ''hysteria2://'' \<or> sv_starts v ''hy2://'' then Inr (parse_hysteria2 v)
      else if sv_starts v ''tuic://'' then Inr (parse_tuic v)
      else Inr None)"

definition sb_parse_proxy_uri :: "decode_block \<Rightarrow> string option \<Rightarrow> sb_parsed_node option" where
  "sb_parse_proxy_uri evp uri =
     (case sb_parse_proxy_uri_ex evp uri of Inr (Some n) \<Rightarrow> Some n | _ \<Rightarrow> None)"

subsection \<open>Facts: accepted nodes\<close>

text \<open>What every accepted node satisfies: the \<open>sing-box\<close> types the renderer knows, an address that
  can be dialled, the credentials of its type, and a well-formed configuration object.\<close>

definition node_types :: "string list" where
  "node_types = [''shadowsocks'', ''vmess'', ''trojan'', ''vless'', ''hysteria2'', ''tuic'', ''http'', ''socks'']"

definition sound_node :: "sb_parsed_node \<Rightarrow> bool" where
  "sound_node n \<longleftrightarrow> ps_node_type n \<in> set node_types \<and> ps_server n \<noteq> []
     \<and> 0 < ps_server_port n \<and> ps_server_port n \<le> 65535
     \<and> has_required_secret (ps_node_type n) (Some (ps_protocol_config n))
     \<and> wf_obj (ps_protocol_config n)"

lemma wf_set_tls [simp]: "wf_obj u \<Longrightarrow> wf_json t \<Longrightarrow> wf_obj (set_tls u t)"
  by (simp add: set_tls_def)

lemma parse_port_range: "parse_port v = Some p \<Longrightarrow> 0 < p \<and> p \<le> 65535"
  by (auto simp: parse_port_def split: if_split_asm option.splits)

lemma json_port_range: "json_port v = Some p \<Longrightarrow> 0 < p \<and> p \<le> 65535"
  by (auto simp: json_port_def dest: parse_port_range split: if_split_asm option.splits sbj.splits)

lemma sv_find_nth: "sv_find v c = Some i \<Longrightarrow> v ! i = c"
  by (induction v arbitrary: i) (auto split: if_split_asm)

lemma sv_rfind_less: "sv_rfind v c = Some i \<Longrightarrow> i < length v"
proof -
  have "sv_rfind_loop v c n = Some i \<Longrightarrow> i < n" for n
    by (induction n) (auto split: if_split_asm)
  then show "sv_rfind v c = Some i \<Longrightarrow> ?thesis" by (simp add: sv_rfind_def)
qed

lemma parse_host_port_sound:
  assumes "parse_host_port v d = Some (host, port)" "0 < d" "d \<le> 65535"
  shows "host \<noteq> [] \<and> 0 < port \<and> port \<le> 65535"
proof (cases "v ! 0 = CHR ''[''")
  case True
  then obtain close where c: "sv_find v (CHR '']'') = Some close" "close \<noteq> 1"
    "host = take (close - 1) (drop 1 v)"
    using assms(1) by (auto simp: parse_host_port_def Let_def sv_sub_def
        split: if_split_asm option.splits)
  have "close \<noteq> 0"
    using sv_find_nth [OF c(1)] True by (cases close) simp_all
  then have "host \<noteq> []"
    using c sv_find_less [OF c(1)] by simp
  then show ?thesis
    using assms True by (auto simp: parse_host_port_def Let_def dest: parse_port_range
        split: if_split_asm option.splits)
next
  case False
  then show ?thesis
    using assms sv_rfind_less [of v "CHR '':''"]
    by (auto simp: parse_host_port_def sv_sub_def dest: parse_port_range
        split: if_split_asm option.splits)
qed

lemma finish_node_eq:
  "finish_node t tag server port config True = Some n \<longleftrightarrow> has_required_secret t (Some config)
     \<and> n = \<lparr>ps_node_type = t, ps_tag = tag, ps_server = server, ps_server_port = port,
            ps_protocol_config = config\<rparr>"
  by (auto simp: finish_node_def)

lemma structured_uri_sound:
  "parse_structured_uri uri s d = Some u \<Longrightarrow> 0 < d \<Longrightarrow> d \<le> 65535 \<Longrightarrow>
     u_host u \<noteq> [] \<and> 0 < u_port u \<and> u_port u \<le> 65535"
  by (auto simp: parse_structured_uri_def Let_def dest: parse_host_port_sound
      split: if_split_asm option.splits)

lemma wf_sbj_sv [simp]: "wf_json (sbj_sv v)"
  by (simp add: sbj_sv_def)

lemma wf_push_all: "wf_json a \<Longrightarrow> \<forall>x\<in>set xs. wf_json x \<Longrightarrow>
    wf_json (foldl (\<lambda>arr item. sbj_arr_push arr (Some item)) a xs)"
  by (induction xs arbitrary: a) (auto simp: wf_arr_ops)

lemma wf_alpn_items: "x \<in> set (alpn_items s) \<Longrightarrow> wf_json x"
proof (induction s rule: alpn_items.induct)
  case (1 s)
  then show ?case
    by (subst (asm) (2) alpn_items.simps) (auto simp: Let_def split: if_split_asm option.splits)
qed

lemma wf_split_alpn [simp]: "wf_json (split_alpn s)"
  unfolding split_alpn_def by (rule wf_push_all) (auto intro: wf_alpn_items)

lemma wf_utls [simp]: "wf_json v \<Longrightarrow> wf_json (utls v)"
  by (simp add: utls_def Let_def)

lemma wf_tls_from_uri [simp]: "wf_json (tls_from_uri u)"
  by (simp add: tls_from_uri_def Let_def)

lemma wf_vless_transport [simp]: "wf_json (vless_transport u n)"
  by (simp add: vless_transport_def Let_def)

lemma wf_string_member: "sbj_is_string v \<Longrightarrow> wf_json (sbj_clone (the v))"
  by (auto simp: sbj_is_string_iff)

lemma wf_vmess_parts [simp]: "wf_json (vmess_transport v n)" "wf_json (vmess_tls v)"
  by (simp_all add: vmess_transport_def vmess_tls_def Let_def wf_string_member)

lemma member_int_range: "member_int v k 0 = Inr i \<Longrightarrow> in_i64 i"
  by (auto simp: member_int_def in_i64_def wrap_i32_def type_error_def
      split: if_split_asm option.splits sbj.splits)

lemmas node_sound_simps = finish_node_eq sound_node_def node_types_def Let_def

lemma shadowsocks_sound: "parse_shadowsocks evp uri = Some n \<Longrightarrow> sound_node n \<and> ps_node_type n = ''shadowsocks''"
  by (auto simp: parse_shadowsocks_def node_sound_simps split: option.splits
      dest!: parse_host_port_sound)

lemma vmess_node_sound: "vmess_node v = Inr (Some n) \<Longrightarrow> sound_node n \<and> ps_node_type n = ''vmess''"
  by (auto simp: vmess_node_def node_sound_simps member_int_range split: option.splits if_split_asm
      dest: json_port_range)

lemma trojan_sound: "parse_trojan uri = Some n \<Longrightarrow> sound_node n \<and> ps_node_type n = ''trojan''"
  by (fastforce simp: parse_trojan_def node_sound_simps split: option.split_asm if_split_asm
      dest!: structured_uri_sound)

lemma wf_vless_config [simp]: "wf_obj (vless_config u)"
  by (simp add: vless_config_def Let_def)

lemma vless_sound: "parse_vless uri = Some n \<Longrightarrow> sound_node n \<and> ps_node_type n = ''vless''"
  by (fastforce simp: parse_vless_def node_sound_simps split: option.split_asm if_split_asm
      dest!: structured_uri_sound)

lemma hysteria2_sound: "parse_hysteria2 uri = Some n \<Longrightarrow> sound_node n \<and> ps_node_type n = ''hysteria2''"
  by (fastforce simp: parse_hysteria2_def node_sound_simps split: option.split_asm if_split_asm
      dest!: structured_uri_sound)

lemma tuic_sound: "parse_tuic uri = Some n \<Longrightarrow> sound_node n \<and> ps_node_type n = ''tuic''"
  by (fastforce simp: parse_tuic_def node_sound_simps split: option.split_asm if_split_asm
      dest!: structured_uri_sound)

lemmas parsers_sound = shadowsocks_sound vmess_node_sound trojan_sound vless_sound hysteria2_sound
  tuic_sound

lemma proxy_uri_ex_sound:
  "sb_parse_proxy_uri_ex evp uri = Inr (Some n) \<Longrightarrow> sound_node n \<and>
     ps_node_type n \<in> {''shadowsocks'', ''vmess'', ''trojan'', ''vless'', ''hysteria2'', ''tuic''}"
  by (auto simp: sb_parse_proxy_uri_ex_def parse_vmess_def Let_def
      dest: parsers_sound split: if_split_asm option.splits)

subsection \<open>Facts: links built from their fields\<close>

lemma sv_find_append: "c \<notin> set x \<Longrightarrow> sv_find (x @ c # y) c = Some (length x)"
  by (induction x) auto

lemma sv_find_None: "c \<notin> set x \<Longrightarrow> sv_find x c = None"
  by (induction x) auto

lemma sv_rfind_append: "c \<notin> set y \<Longrightarrow> sv_rfind (x @ c # y) c = Some (length x)"
proof -
  assume c: "c \<notin> set y"
  have "sv_rfind_loop (x @ c # y) c (Suc (length x) + n) = Some (length x)" if "n \<le> length y" for n
    using that
  proof (induction n)
    case (Suc n)
    then have "(x @ c # y) ! (Suc (length x) + n) = y ! n" "y ! n \<in> set y"
      by (simp_all add: nth_append)
    with Suc c show ?case by auto
  qed simp
  from this [of "length y"] show ?thesis by (simp add: sv_rfind_def)
qed

lemma sv_cut:
  "sv_sub (x @ c # y) 0 (Some (length x)) = x" "sv_from (x @ c # y) (length x + 1) = y"
  "sv_from (x @ c # y) (Suc (length x)) = y"
  by (simp_all add: sv_sub_def sv_from_def)

lemma sv_prefix: "sv_from (x @ y) (length x) = y"
  by (simp add: sv_sub_def sv_from_def)

lemma sv_sub_all: "sv_sub v 0 None = v"
  by (simp add: sv_sub_def)

lemma hex_pair_hexval: "hex_pair v = (case v of h # l # _ \<Rightarrow>
    (case (hexval h, hexval l) of (Some x, Some y) \<Rightarrow> Some (of_byte (x * 16 + y)) | _ \<Rightarrow> None) | _ \<Rightarrow> None)"
proof -
  have "hex_value c = hexval c" for c
    by (auto simp: hex_value_def hexval_def ctype_defs)
  then show ?thesis
    by (cases v rule: hex_pair.cases) (auto simp: mult.commute split: option.splits)
qed

lemma percent_decode_eq: "percent_decode v p = url_decode_buf v p"
proof (induction v p rule: percent_decode.induct)
  case (2 c v p)
  show ?case
  proof (cases "if c = CHR ''%'' then hex_pair v else None")
    case None
    then show ?thesis
      using 2(1) by (cases "c = CHR ''%''")
        (simp_all add: url_decode_buf.simps(2) hex_pair_hexval [symmetric])
  next
    case (Some b)
    then have "c = CHR ''%''" "hex_pair v = Some b" by (simp_all split: if_split_asm)
    then show ?thesis
      using 2(2) [OF Some] by (simp add: url_decode_buf.simps(2) hex_pair_hexval [symmetric])
  qed
qed simp

text \<open>(C40) The two percent decoders, of the share-link parser and of \<open>util.c\<close>, decode alike, with or
  without \<open>+\<close> read as a space: on every text the result of \<open>sb_url_decode\<close>, a C string, is the result
  of \<open>percent_decode\<close>, which carries its length, up to the first NUL, so the two are equal unless the
  text holds a NUL or \<open>%00\<close>. And what \<open>sb_url_encode\<close> writes for a C string, the bytes up to its
  NUL, \<open>percent_decode\<close> reads back exactly.\<close>

theorem percent_decoders_agree:
  "sb_url_decode (Some v) pas = cstr (percent_decode v pas)
    \<and> percent_decode (sb_url_encode (Some s)) pas = cstr s"
  by (simp add: percent_decode_eq sb_url_decode_def url_decode_encode)

definition host_ok :: "string \<Rightarrow> bool" where
  "host_ok host \<longleftrightarrow> host \<noteq> [] \<and> list_all url_unreserved host"

definition structured_link :: "string \<Rightarrow> string \<Rightarrow> string \<Rightarrow> nat \<Rightarrow> string \<Rightarrow> string \<Rightarrow> string" where
  "structured_link scheme user host port query tag =
     scheme @ ''://'' @ percent_escape user @ ''@'' @ host @ '':'' @ show_nat port
     @ ''?'' @ query @ ''#'' @ percent_escape tag"

definition plain_char :: "char \<Rightarrow> bool" where
  "plain_char c \<longleftrightarrow> c \<notin> set ''#?/@:[] '' \<and> \<not> is_space c"

lemma unreserved_plain: "url_unreserved c \<Longrightarrow> plain_char c"
  by (auto simp: url_unreserved_def plain_char_def is_space_def ctype_defs)

lemma encoded_plain: "c \<in> set (percent_escape s) \<Longrightarrow> plain_char c"
  using percent_escape_unreserved [of c s] unreserved_plain [of c]
  by (auto simp: plain_char_def is_space_def)

lemma show_nat_plain: "c \<in> set (show_nat n) \<Longrightarrow> plain_char c"
  using show_nat_digits [of c n] by (auto simp: plain_char_def is_space_def ctype_defs)

lemma parse_port_show:
  assumes "0 < n" "n \<le> 65535"
  shows "parse_port (show_nat n) = Some n"
proof -
  have mono: "foldl (\<lambda>n c. 10 * n + digit_val c) m s \<ge> m" for m s
  proof (induction s arbitrary: m)
    case (Cons c s)
    have "m \<le> 10 * m + digit_val c" by simp
    also have "\<dots> \<le> foldl (\<lambda>n c. 10 * n + digit_val c) (10 * m + digit_val c) s"
      by (rule Cons.IH)
    finally show ?case by simp
  qed simp
  have "parse_port_loop s m = Some (foldl (\<lambda>n c. 10 * n + digit_val c) m s)"
    if "list_all isdigit s" "foldl (\<lambda>n c. 10 * n + digit_val c) m s \<le> 65535" for s m
    using that
  proof (induction s arbitrary: m)
    case (Cons c s)
    then have "10 * m + digit_val c \<le> 65535"
      using mono [of "10 * m + digit_val c" s] by simp
    then show ?case
      using Cons by (simp add: isdigit_def digit_val_def Let_def mult.commute)
  qed simp
  from this [of "show_nat n" 0] show ?thesis
    using assms show_nat_digits [of _ n] digits_val_show_nat [of n]
    by (simp add: parse_port_def list_all_iff digits_val_def)
qed

lemma parse_host_port_build:
  assumes "host_ok host" "0 < port" "port \<le> 65535"
  shows "parse_host_port (host @ '':'' @ show_nat port) d = Some (host, port)"
proof -
  have h: "host \<noteq> []" "CHR ''['' \<notin> set host"
    using assms(1) unreserved_plain by (auto simp: host_ok_def list_all_iff plain_char_def)
  then have "(host @ '':'' @ show_nat port) ! 0 \<noteq> CHR ''[''"
    by (cases host) auto
  moreover have "CHR '':'' \<notin> set (show_nat port)"
    using show_nat_plain [of "CHR '':''" port] by (auto simp: plain_char_def)
  ultimately show ?thesis
    using h(1) sv_rfind_append [of "CHR '':''" "show_nat port" host] parse_port_show [OF assms(2,3)]
    by (simp add: parse_host_port_def sv_from_def sv_sub_def)
qed

lemma structured_link_parse:
  assumes "host_ok host" "0 < port" "port \<le> 65535" "CHR ''#'' \<notin> set query"
  shows "parse_structured_uri (structured_link scheme user host port query tag) scheme d =
    Some \<lparr>u_user_info = user, u_host = host, u_fragment = tag, u_port = port,
          u_query = query_pairs query\<rparr>"
proof -
  let ?a = "host @ '':'' @ show_nat port"
  let ?e = "percent_escape user"
  have p: "plain_char c \<or> c = CHR '':''" if "c \<in> set ?a" for c
    using that assms(1) unreserved_plain show_nat_plain by (auto simp: host_ok_def list_all_iff)
  have a: "c \<notin> set ?a" if "c \<in> {CHR ''#'', CHR ''?'', CHR ''/'', CHR ''@''}" for c
    using p [of c] that by (auto simp: plain_char_def)
  have e: "c \<notin> set ?e" if "c \<in> {CHR ''#'', CHR ''?'', CHR ''/''}" for c
    using encoded_plain [of c] that by (auto simp: plain_char_def)
  define v where "v = ?e @ CHR ''@'' # ?a"
  define w where "w = v @ CHR ''?'' # query"
  have link: "structured_link scheme user host port query tag =
      (scheme @ ''://'') @ w @ CHR ''#'' # percent_escape tag"
    by (simp add: structured_link_def v_def w_def)
  have "CHR ''#'' \<notin> set w" "CHR ''?'' \<notin> set v" "CHR ''/'' \<notin> set v" "CHR ''@'' \<notin> set ?a"
    using a e assms(4) by (auto simp: v_def w_def)
  note sep = this
  have "sv_find (w @ CHR ''#'' # t) (CHR ''#'') = Some (length w)" for t
    using sep(1) by (rule sv_find_append)
  moreover have "sv_find w (CHR ''?'') = Some (length v)"
    unfolding w_def using sep(2) by (rule sv_find_append)
  moreover have "sv_find v (CHR ''/'') = None"
    using sep(3) by (rule sv_find_None)
  moreover have "sv_rfind v (CHR ''@'') = Some (length ?e)"
    unfolding v_def using sep(4) by (rule sv_rfind_append)
  moreover have "sv_sub w 0 (Some (length v)) = v" "sv_from w (length v + 1) = query"
      "sv_sub v 0 (Some (length ?e)) = ?e" "sv_from v (length ?e + 1) = ?a"
    unfolding v_def w_def by (simp_all only: sv_cut)
  ultimately show ?thesis
    unfolding link parse_structured_uri_def
    using parse_host_port_build [OF assms(1-3), of d]
      sv_prefix [of "scheme @ ''://''" "w @ CHR ''#'' # percent_escape tag"]
    by (simp add: sv_starts_def sv_cut percent_decode_eq url_decode_percent sv_sub_all Let_def)
qed

definition sni_query :: "string \<Rightarrow> string" where
  "sni_query sni = ''sni='' @ percent_escape sni"

lemma sni_query_pairs: "query_pairs (sni_query sni) = [(''sni'', sni)]"
proof -
  have "CHR ''&'' \<notin> set (percent_escape sni)"
    using percent_escape_unreserved [of "CHR ''&''" sni]
    by (auto simp: url_unreserved_def ctype_defs)
  then have "sv_find (sni_query sni) (CHR ''&'') = None"
    by (intro sv_find_None) (simp add: sni_query_def)
  moreover have "sv_find (sni_query sni) (CHR ''='') = Some 3"
    using sv_find_append [of "CHR ''=''" "''sni''" "percent_escape sni"]
    by (simp add: sni_query_def)
  moreover have "sni_query sni \<noteq> []" "percent_decode (take 3 (sni_query sni)) True = ''sni''"
      "drop 4 (sni_query sni) = percent_escape sni"
    by (simp_all add: sni_query_def)
  ultimately show ?thesis
    by (subst query_pairs.simps)
      (simp add: Let_def sv_sub_def sv_from_def percent_decode_eq url_decode_percent)
qed

lemma sni_query_hash: "CHR ''#'' \<notin> set (sni_query sni)"
  using encoded_plain [of "CHR ''#''" sni] by (auto simp: sni_query_def plain_char_def)

lemma trim_plain: "v \<noteq> [] \<Longrightarrow> \<not> is_space (hd v) \<Longrightarrow> \<not> is_space (last v) \<Longrightarrow> sv_trim v = v"
proof -
  assume v: "v \<noteq> []" "\<not> is_space (hd v)" "\<not> is_space (last v)"
  then have "dropWhile is_space v = v" "dropWhile is_space (rev v) = rev v"
    by (simp_all add: dropWhile_eq_self_iff hd_rev)
  then show ?thesis by (simp add: sv_trim_def)
qed

lemma structured_link_trim:
  assumes "scheme \<noteq> []" "\<not> is_space (hd scheme)"
  shows "sv_trim (structured_link scheme user host port query tag)
    = structured_link scheme user host port query tag"
proof (rule trim_plain)
  let ?l = "structured_link scheme user host port query tag"
  show "?l \<noteq> []" by (simp add: structured_link_def)
  show "\<not> is_space (hd ?l)" using assms by (cases scheme) (simp_all add: structured_link_def)
  have "last ?l = (if percent_escape tag = [] then CHR ''#'' else last (percent_escape tag))"
    by (simp add: structured_link_def)
  moreover have "\<not> is_space (last (percent_escape tag))" if "percent_escape tag \<noteq> []"
    using encoded_plain [OF last_in_set [OF that]] by (simp add: plain_char_def)
  ultimately show "\<not> is_space (last ?l)" by (simp add: is_space_def)
qed

lemma trojan_link_node:
  assumes "host_ok host" "0 < port" "port \<le> 65535" "pw \<noteq> []" "sni \<noteq> []" "tag \<noteq> []"
  shows "sb_parse_proxy_uri_ex evp
      (Some (structured_link ''trojan'' pw host port (sni_query sni) tag)) =
    Inr (Some \<lparr>ps_node_type = ''trojan'', ps_tag = tag, ps_server = host, ps_server_port = port,
      ps_protocol_config = jset (jset sbj_object ''password'' (SBJ_STRING pw)) ''tls''
        (jset (jset_bool sbj_object ''enabled'' True) ''server_name'' (SBJ_STRING sni))\<rparr>)"
proof -
  let ?l = "structured_link ''trojan'' pw host port (sni_query sni) tag"
  let ?u = "\<lparr>u_user_info = pw, u_host = host, u_fragment = tag, u_port = port,
    u_query = [(''sni'', sni)]\<rparr>"
  have u: "parse_structured_uri ?l ''trojan'' 443 = Some ?u"
    using structured_link_parse [OF assms(1-3) sni_query_hash] by (simp add: sni_query_pairs)
  have q: "query_value ?u k = (if k = ''sni'' then sni else [])" for k
    by (simp add: query_value_def)
  have tls: "tls_from_uri ?u = jset (jset_bool sbj_object ''enabled'' True) ''server_name'' (SBJ_STRING sni)"
    using assms(5) by (simp add: tls_from_uri_def query_or_def q query_true_def Let_def sbj_sv_def
        sbj_strn_def)
  have "sv_trim ?l = ?l"
    by (rule structured_link_trim) (simp_all add: is_space_def)
  moreover have "\<not> sv_starts ?l ''ss://''" "\<not> sv_starts ?l ''vmess://''" "sv_starts ?l ''trojan://''"
    by (simp_all add: structured_link_def sv_starts_def)
  ultimately have "sb_parse_proxy_uri_ex evp (Some ?l) = Inr (parse_trojan ?l)"
    by (simp add: sb_parse_proxy_uri_ex_def)
  then show ?thesis
    using assms(4,6) u tls
    by (simp add: parse_trojan_def finish_node_def has_required_secret_def has_nonempty_string_def
        frag_or_def sbj_sv_def sbj_strn_def)
qed

text \<open>(C34) A Trojan link built from its fields is read back with every field intact. The password,
  the server name and the tag are non-empty, are percent-escaped byte by byte (which on a C string is
  what \<open>sb_url_encode\<close> writes) and may hold any bytes; the host is a non-empty run of unreserved
  characters (letters, digits, \<open>-\<close>, \<open>_\<close>, \<open>.\<close> and \<open>~\<close>); the port is between 1 and 65535; \<open>sni\<close> is the
  only query parameter. In particular a NUL written \<open>%00\<close> in the tag is kept and counted in
  \<open>tag_len\<close>, where the comment on \<open>sb_parse_proxy_uri_ex\<close> in \<open>proxy_parser.h\<close> says that it truncates
  the tag.\<close>

theorem trojan_link_roundtrip:
  assumes "host_ok host" "0 < port" "port \<le> 65535" "pw \<noteq> []" "sni \<noteq> []" "tag \<noteq> []"
  shows "sb_parse_proxy_uri_ex evp
      (Some (structured_link ''trojan'' pw host port (sni_query sni) tag)) =
    Inr (Some \<lparr>ps_node_type = ''trojan'', ps_tag = tag, ps_server = host, ps_server_port = port,
      ps_protocol_config = jset (jset sbj_object ''password'' (SBJ_STRING pw)) ''tls''
        (jset (jset_bool sbj_object ''enabled'' True) ''server_name'' (SBJ_STRING sni))\<rparr>)"
  using assms by (rule trojan_link_node)

theorem trojan_link_roundtrip_witness:
  "sb_parse_proxy_uri_ex (\<lambda>s. None)
      (Some (structured_link ''trojan'' ''p@ss'' ''h.io'' 443 (sni_query ''s.io'') [CHR ''a'', CHR 0x00, CHR ''b''])) =
    Inr (Some \<lparr>ps_node_type = ''trojan'', ps_tag = [CHR ''a'', CHR 0x00, CHR ''b''], ps_server = ''h.io'',
      ps_server_port = 443,
      ps_protocol_config = jset (jset sbj_object ''password'' (SBJ_STRING ''p@ss'')) ''tls''
        (jset (jset_bool sbj_object ''enabled'' True) ''server_name'' (SBJ_STRING ''s.io''))\<rparr>)"
  by (rule trojan_link_roundtrip) (simp_all add: host_ok_def url_unreserved_def ctype_defs)

text \<open>(C33) Every node a share link yields can be rendered: its type is one the renderer knows, it
  has a server and a port between 1 and 65535, the credentials its type needs are non-empty
  strings, and its protocol configuration is a well-formed object. No input makes the parser
  return anything else.\<close>

theorem proxy_uri_sound:
  assumes "sb_parse_proxy_uri_ex evp uri = Inr (Some n)"
  shows "ps_node_type n \<in> {''shadowsocks'', ''vmess'', ''trojan'', ''vless'', ''hysteria2'', ''tuic''}
    \<and> ps_server n \<noteq> [] \<and> 0 < ps_server_port n \<and> ps_server_port n \<le> 65535
    \<and> has_required_secret (ps_node_type n) (Some (ps_protocol_config n))
    \<and> wf_json (ps_protocol_config n) \<and> sbj_is_object (Some (ps_protocol_config n))"
  using proxy_uri_ex_sound [OF assms] by (simp add: sound_node_def)

theorem proxy_uri_sound_witness:
  "\<exists>n. sb_parse_proxy_uri_ex (\<lambda>s. None)
       (Some (structured_link ''trojan'' ''pw'' ''h'' 80 (sni_query ''s'') ''t'')) = Inr (Some n)
     \<and> ps_server_port n \<le> 65535 \<and> ps_server n \<noteq> []"
proof -
  obtain n where n: "sb_parse_proxy_uri_ex (\<lambda>s. None)
      (Some (structured_link ''trojan'' ''pw'' ''h'' 80 (sni_query ''s'') ''t'')) = Inr (Some n)"
    using trojan_link_node [of "''h''" 80 "''pw''" "''s''" "''t''" "\<lambda>s. None"]
    by (simp add: host_ok_def url_unreserved_def ctype_defs)
  then show ?thesis using proxy_uri_sound [OF n] by blast
qed

end
