(* ===== verification/Yaml_Bytes.thy ===== *)
theory Yaml_Bytes
  imports Util_Strings
begin

text \<open>
  \<open>c/src/proxy_parser.c\<close>, the bytes of a YAML subscription before \<open>libyaml\<close> reads them: the
  encoding guessed from the first bytes, the transcoding of UTF-16 and UTF-32 to UTF-8, and the
  re-encoding of the bytes \<open>libyaml\<close> would reject, with its inverse on the scalars that come back.
\<close>

subsection \<open>Encoding detection\<close>

datatype uis =
    uis_start | uis_utfbe_b1 | uis_utf32be_b2 | uis_utf32be_bom3 | uis_utf32be | uis_utf16be
  | uis_utf16be_bom1 | uis_utfle_bom1 | uis_utf16le_bom2 | uis_utf32le_bom3 | uis_utf16le
  | uis_utf32le | uis_utf8_imp | uis_utf16le_imp | uis_utf32le_imp3 | uis_utf8_bom1 | uis_utf8_bom2
  | uis_utf8 | uis_error

definition intro_final :: "uis \<Rightarrow> bool" where
  "intro_final s \<longleftrightarrow>
     s \<in> {uis_utf32be, uis_utf16be, uis_utf16le, uis_utf32le, uis_utf8, uis_error}"

fun intro_transitions :: "uis \<Rightarrow> uis list" where
  "intro_transitions uis_start =
     [uis_utfbe_b1, uis_utf8, uis_utf8, uis_utf8_bom1, uis_utf16be_bom1, uis_utfle_bom1,
      uis_utf8_imp, uis_utf8]"
| "intro_transitions uis_utfbe_b1 =
     [uis_utf32be_b2, uis_utf8, uis_utf8, uis_utf8, uis_utf8, uis_utf8, uis_utf16be, uis_utf8]"
| "intro_transitions uis_utf32be_b2 =
     [uis_utf32be, uis_utf8, uis_utf8, uis_utf8, uis_utf32be_bom3, uis_utf8, uis_utf8, uis_utf8]"
| "intro_transitions uis_utf32be_bom3 =
     [uis_utf8, uis_utf8, uis_utf8, uis_utf8, uis_utf8, uis_utf32be, uis_utf8, uis_utf8]"
| "intro_transitions uis_utf32be = replicate 8 uis_utf32be"
| "intro_transitions uis_utf16be = replicate 8 uis_utf16be"
| "intro_transitions uis_utf16be_bom1 =
     [uis_utf8, uis_utf8, uis_utf8, uis_utf8, uis_utf8, uis_utf16be, uis_utf8, uis_utf8]"
| "intro_transitions uis_utfle_bom1 =
     [uis_utf8, uis_utf8, uis_utf8, uis_utf8, uis_utf16le_bom2, uis_utf8, uis_utf8, uis_utf8]"
| "intro_transitions uis_utf16le_bom2 = uis_utf32le_bom3 # replicate 7 uis_utf16le"
| "intro_transitions uis_utf32le_bom3 = uis_utf32le # replicate 7 uis_utf16le"
| "intro_transitions uis_utf16le = replicate 8 uis_utf16le"
| "intro_transitions uis_utf32le = replicate 8 uis_utf32le"
| "intro_transitions uis_utf8_imp = uis_utf16le_imp # replicate 7 uis_utf8"
| "intro_transitions uis_utf16le_imp = uis_utf32le_imp3 # replicate 7 uis_utf16le"
| "intro_transitions uis_utf32le_imp3 = uis_utf32le # replicate 7 uis_utf16le"
| "intro_transitions uis_utf8_bom1 =
     [uis_utf8, uis_utf8_bom2, uis_utf8, uis_utf8, uis_utf8, uis_utf8, uis_utf8, uis_utf8]"
| "intro_transitions uis_utf8_bom2 = replicate 8 uis_utf8"
| "intro_transitions uis_utf8 = replicate 8 uis_utf8"
| "intro_transitions uis_error = replicate 8 uis_error"

fun intro_unget :: "uis \<Rightarrow> nat list" where
  "intro_unget uis_start = [0, 1, 1, 0, 0, 0, 0, 1]"
| "intro_unget uis_utfbe_b1 = [0, 2, 2, 2, 2, 2, 2, 2]"
| "intro_unget uis_utf32be_b2 = [3, 3, 3, 3, 0, 3, 3, 3]"
| "intro_unget uis_utf32be_bom3 = [4, 4, 4, 4, 4, 0, 4, 4]"
| "intro_unget uis_utf32be = replicate 8 1"
| "intro_unget uis_utf16be = replicate 8 1"
| "intro_unget uis_utf16be_bom1 = [2, 2, 2, 2, 2, 0, 2, 2]"
| "intro_unget uis_utfle_bom1 = [2, 2, 2, 2, 0, 2, 2, 2]"
| "intro_unget uis_utf16le_bom2 = 0 # replicate 7 1"
| "intro_unget uis_utf32le_bom3 = 0 # replicate 7 2"
| "intro_unget uis_utf16le = replicate 8 1"
| "intro_unget uis_utf32le = replicate 8 1"
| "intro_unget uis_utf8_imp = [0, 2, 2, 2, 2, 2, 2, 2]"
| "intro_unget uis_utf16le_imp = [0, 3, 3, 3, 3, 3, 3, 3]"
| "intro_unget uis_utf32le_imp3 = replicate 8 4"
| "intro_unget uis_utf8_bom1 = [2, 0, 2, 2, 2, 2, 2, 2]"
| "intro_unget uis_utf8_bom2 = [3, 3, 0, 3, 3, 3, 3, 3]"
| "intro_unget uis_utf8 = replicate 8 1"
| "intro_unget uis_error = replicate 8 0"

text \<open>The end of the input is \<open>None\<close>.\<close>

definition intro_char_type :: "char option \<Rightarrow> nat" where
  "intro_char_type ch =
     (case ch of
        None \<Rightarrow> 7
      | Some c \<Rightarrow>
          (if byte c = 0 then 0 else if byte c = 0xBB then 1 else if byte c = 0xBF then 2
           else if byte c = 0xEF then 3 else if byte c = 0xFE then 4 else if byte c = 0xFF then 5
           else 6))"

text \<open>\<open>intro\<close> holds the characters read and not given back, the last one first.\<close>

fun unget :: "nat \<Rightarrow> char option list \<Rightarrow> nat \<Rightarrow> char option list \<times> nat" where
  "unget (Suc u) (ch # intro) pos = unget u intro (if ch \<noteq> None then pos - 1 else pos)"
| "unget _ intro pos = (intro, pos)"

text \<open>How far a state is from a final one.\<close>

fun intro_rank :: "uis \<Rightarrow> nat" where
  "intro_rank uis_start = 4"
| "intro_rank uis_utfbe_b1 = 3"
| "intro_rank uis_utf32be_b2 = 2"
| "intro_rank uis_utf32be_bom3 = 1"
| "intro_rank uis_utf16be_bom1 = 3"
| "intro_rank uis_utfle_bom1 = 3"
| "intro_rank uis_utf16le_bom2 = 2"
| "intro_rank uis_utf32le_bom3 = 1"
| "intro_rank uis_utf8_imp = 3"
| "intro_rank uis_utf16le_imp = 2"
| "intro_rank uis_utf32le_imp3 = 1"
| "intro_rank uis_utf8_bom1 = 3"
| "intro_rank uis_utf8_bom2 = 2"
| "intro_rank _ = 0"

lemma intro_char_type_less: "intro_char_type ch < 8"
  by (auto simp: intro_char_type_def split: option.split)

lemma intro_rank_step:
  assumes "\<not> intro_final s" "t < 8"
  shows "intro_rank (intro_transitions s ! t) < intro_rank s"
proof -
  have "t \<in> {0, 1, 2, 3, 4, 5, 6, 7}" using assms(2) by auto
  with assms(1) show ?thesis
    by (cases s) (auto simp: intro_final_def)
qed

function intro_loop :: "string \<Rightarrow> nat \<Rightarrow> char option list \<Rightarrow> uis \<Rightarrow> uis \<times> nat" where
  "intro_loop input pos intro state =
     (if intro_final state then (state, pos)
      else
        (let ch = (if pos < length input then Some (input ! pos) else None);
             pos = (if pos < length input then pos + 1 else pos);
             type = intro_char_type ch;
             (intro, pos) = unget (intro_unget state ! type) (ch # intro) pos in
         intro_loop input pos intro (intro_transitions state ! type)))"
  by pat_completeness auto
termination
  by (relation "measure (\<lambda>(i, p, n, s). intro_rank s)")
    (auto intro: intro_rank_step intro_char_type_less)

declare intro_loop.simps [simp del]

subsection \<open>Transcoding\<close>

definition yamlcpp_queue :: "nat \<Rightarrow> string" where
  "yamlcpp_queue ch =
     (let ch = (if ch = 0x04 then 0xFFFD else ch) in
      map of_byte
        (if ch < 0x80 then [ch]
         else if ch < 0x800 then [0xC0 + ch div 64 mod 32, 0x80 + ch mod 64]
         else if ch < 0x10000
         then [0xE0 + ch div 4096 mod 16, 0x80 + ch div 64 mod 64, 0x80 + ch mod 64]
         else [0xF0 + ch div 262144 mod 8, 0x80 + ch div 4096 mod 64, 0x80 + ch div 64 mod 64,
               0x80 + ch mod 64]))"

definition utf16_unit :: "bool \<Rightarrow> char \<Rightarrow> char \<Rightarrow> nat" where
  "utf16_unit be a b = (if be then byte a * 256 + byte b else byte b * 256 + byte a)"

text \<open>\<open>utf16_low\<close> is the inner loop, after the high surrogate \<open>ch\<close>.\<close>

fun utf16_loop :: "bool \<Rightarrow> string \<Rightarrow> string"
  and utf16_low :: "bool \<Rightarrow> nat \<Rightarrow> string \<Rightarrow> string" where
  "utf16_loop be (a # b # rest) =
     (let ch = utf16_unit be a b in
      if ch \<ge> 0xDC00 \<and> ch < 0xE000 then yamlcpp_queue 0xFFFD @ utf16_loop be rest
      else if ch \<ge> 0xD800 \<and> ch < 0xDC00 then utf16_low be ch rest
      else yamlcpp_queue ch @ utf16_loop be rest)"
| "utf16_loop be _ = []"
| "utf16_low be ch (a # b # rest) =
     (let low = utf16_unit be a b in
      if low < 0xDC00 \<or> low \<ge> 0xE000 then
        yamlcpp_queue 0xFFFD @
        (if low < 0xD800 \<or> low \<ge> 0xE000 then yamlcpp_queue ch @ utf16_loop be rest
         else utf16_low be low rest)
      else
        yamlcpp_queue ((ch mod 1024) * 1024 + low mod 1024 + 0x10000) @ utf16_loop be rest)"
| "utf16_low be ch _ = yamlcpp_queue 0xFFFD"

fun utf32_loop :: "bool \<Rightarrow> string \<Rightarrow> string" where
  "utf32_loop be (a # b # c # d # rest) =
     (let ch = (if be then ((byte a * 256 + byte b) * 256 + byte c) * 256 + byte d
                else ((byte d * 256 + byte c) * 256 + byte b) * 256 + byte a) in
      yamlcpp_queue ch @ utf32_loop be rest)"
| "utf32_loop be _ = []"

text \<open>The text \<open>yload_first\<close> goes on with: the transcoded input, or the input without the byte order
  mark that was consumed.\<close>

definition yamlcpp_decode :: "string \<Rightarrow> string" where
  "yamlcpp_decode input =
     (let (state, pos) = intro_loop input 0 [] uis_start; rest = drop pos input in
      if state = uis_utf16le \<or> state = uis_utf16be then utf16_loop (state = uis_utf16be) rest
      else if state = uis_utf32le \<or> state = uis_utf32be then utf32_loop (state = uis_utf32be) rest
      else rest)"

subsection \<open>Raw bytes\<close>

definition YS_RAW_BASE :: nat where
  "YS_RAW_BASE = 0xF0000"

definition YS_ESCAPE :: nat where
  "YS_ESCAPE = 0xF0100"

fun decode_cont :: "nat \<Rightarrow> string \<Rightarrow> nat \<Rightarrow> nat option" where
  "decode_cont 0 p v = Some v"
| "decode_cont (Suc n) (c # p) v =
     (if byte c div 64 \<noteq> 2 then None else decode_cont n p (v * 64 + byte c mod 64))"
| "decode_cont (Suc n) [] v = None"

text \<open>The length of the sequence at the start of \<open>p\<close> and its code point.\<close>

definition utf8_decode :: "string \<Rightarrow> (nat \<times> nat) option" where
  "utf8_decode p =
     (case p of
        [] \<Rightarrow> None
      | ch # rest \<Rightarrow>
          (let c = byte ch in
           if c < 0x80 then Some (1, c)
           else
             (case (if c \<ge> 0xC2 \<and> c \<le> 0xDF then Some (2, c mod 32, 0x80)
                    else if c \<ge> 0xE0 \<and> c \<le> 0xEF then Some (3, c mod 16, 0x800)
                    else if c \<ge> 0xF0 \<and> c \<le> 0xF4 then Some (4, c mod 8, 0x10000)
                    else None) of
                None \<Rightarrow> None
              | Some (len, v, mn) \<Rightarrow>
                  (case decode_cont (len - 1) rest v of
                     None \<Rightarrow> None
                   | Some v \<Rightarrow>
                       (if v < mn \<or> v > 0x10FFFF \<or> (v \<ge> 0xD800 \<and> v \<le> 0xDFFF) then None
                        else Some (len, v))))))"

definition yaml_plain_ok :: "nat \<Rightarrow> bool" where
  "yaml_plain_ok v \<longleftrightarrow> v = 0x09 \<or> v = 0x0A \<or> v = 0x0D \<or> (v \<ge> 0x20 \<and> v \<le> 0x7E)
     \<or> (v \<ge> 0xA0 \<and> v \<le> 0xD7FF \<and> v \<noteq> 0x2028 \<and> v \<noteq> 0x2029)
     \<or> (v \<ge> 0xE000 \<and> v \<le> 0xFFFD \<and> v \<noteq> 0xFEFF) \<or> (v \<ge> 0x10000 \<and> v \<le> 0x10FFFF)"

definition yaml_needs_escape :: "nat \<Rightarrow> bool" where
  "yaml_needs_escape v \<longleftrightarrow> (v \<ge> YS_RAW_BASE \<and> v \<le> YS_RAW_BASE + 0xFF) \<or> v = YS_ESCAPE"

lemma utf8_decode_pos: "utf8_decode p = Some (n, cp) \<Longrightarrow> 0 < n"
  by (auto simp: utf8_decode_def Let_def split: list.splits if_split_asm option.splits)

function sanitize_needed :: "string \<Rightarrow> bool" where
  "sanitize_needed p =
     (if p = [] then False
      else
        (case utf8_decode p of
           None \<Rightarrow> True
         | Some (n, cp) \<Rightarrow>
             (if \<not> yaml_plain_ok cp \<or> yaml_needs_escape cp then True
              else sanitize_needed (drop n p))))"
  by pat_completeness auto
termination
  by (relation "measure length") (auto dest: utf8_decode_pos)

function sanitize_loop :: "string \<Rightarrow> string" where
  "sanitize_loop p =
     (if p = [] then []
      else
        (case utf8_decode p of
           Some (n, cp) \<Rightarrow>
             (if yaml_needs_escape cp
              then yamlcpp_queue YS_ESCAPE @ take n p
              else if yaml_plain_ok cp then take n p
              else concat (map (\<lambda>c. yamlcpp_queue (YS_RAW_BASE + byte c)) (take n p)))
             @ sanitize_loop (drop n p)
         | None \<Rightarrow> yamlcpp_queue (YS_RAW_BASE + byte (hd p)) @ sanitize_loop (tl p)))"
  by pat_completeness auto
termination
  by (relation "measure length") (auto dest: utf8_decode_pos)

declare sanitize_needed.simps [simp del] sanitize_loop.simps [simp del]

definition yaml_sanitize :: "string \<Rightarrow> string option" where
  "yaml_sanitize text = (if sanitize_needed text then Some (sanitize_loop text) else None)"

function yaml_unsanitize :: "string \<Rightarrow> string" where
  "yaml_unsanitize s =
     (if s = [] then []
      else
        (case utf8_decode s of
           None \<Rightarrow> hd s # yaml_unsanitize (tl s)
         | Some (len, cp) \<Rightarrow>
             (case (if len = 4 \<and> cp = YS_ESCAPE \<and> 4 < length s then utf8_decode (drop 4 s)
                    else None) of
                Some (nl, next') \<Rightarrow> take nl (drop 4 s) @ yaml_unsanitize (drop (4 + nl) s)
              | None \<Rightarrow>
                  (if len = 4 \<and> cp \<ge> YS_RAW_BASE \<and> cp \<le> YS_RAW_BASE + 0xFF
                   then of_byte (cp - YS_RAW_BASE) # yaml_unsanitize (drop 4 s)
                   else take len s @ yaml_unsanitize (drop len s)))))"
  by pat_completeness auto
termination
  by (relation "measure length") (auto dest: utf8_decode_pos)

declare yaml_unsanitize.simps [simp del]

lemma decode_cont_cong:
  "n \<le> length p \<Longrightarrow> decode_cont n (take n p @ q) v = decode_cont n p v"
  by (induction n p v rule: decode_cont.induct) auto

subsection \<open>Facts: raw bytes survive\<close>

lemma decode_cont_take:
  "decode_cont n p v = Some w \<Longrightarrow> n \<le> length p \<and> decode_cont n (take n p @ q) v = Some w"
  by (induction n p v rule: decode_cont.induct) (auto split: if_split_asm)

lemma utf8_decode_take:
  "utf8_decode p = Some (n, cp) \<Longrightarrow> n \<le> length p \<and> utf8_decode (take n p @ q) = Some (n, cp)"
proof (cases p)
  case (Cons ch rest)
  assume d: "utf8_decode p = Some (n, cp)"
  show ?thesis
  proof (cases "byte ch < 0x80")
    case True
    then show ?thesis using d Cons by (auto simp: utf8_decode_def)
  next
    case False
    then obtain v where v: "decode_cont (n - 1) rest v = Some cp" "0 < n"
      using d Cons by (auto simp: utf8_decode_def Let_def split: if_split_asm option.splits)
    then have t: "n - 1 \<le> length rest" "decode_cont (n - 1) (take (n - 1) rest @ q) w = decode_cont (n - 1) rest w"
      for w
      using decode_cont_take [OF v(1)] decode_cont_cong [of "n - 1" rest q] by auto
    have "take n p = ch # take (n - 1) rest"
      using Cons v(2) by (cases n) simp_all
    then show ?thesis
      using d Cons t v(2) False
      by (auto simp: utf8_decode_def Let_def split: if_split_asm option.splits)
  qed
qed (simp add: utf8_decode_def)

lemma raw_queue:
  assumes "k \<le> 256"
  shows "yamlcpp_queue (YS_RAW_BASE + k) =
    map of_byte [0xF3, 0xB0, 0x80 + k div 64, 0x80 + k mod 64]"
proof -
  have "(983040 + k) div 262144 = 3" "(983040 + k) div 4096 = 240"
    by (rule div_nat_eqI; use assms in simp)+
  moreover have "(983040 + k) div 64 = 15360 + k div 64" by simp
  moreover have "(15360 + k div 64) mod 64 = k div 64"
    using assms by (simp add: mod_add_eq [symmetric])
  moreover have "(983040 + k) mod 64 = k mod 64" by (simp add: mod_add_eq [symmetric])
  ultimately show ?thesis
    by (simp add: yamlcpp_queue_def YS_RAW_BASE_def)
qed

lemma raw_cont_byte: "x < 64 \<Longrightarrow> (128 + x) div 64 = 2" "x < 64 \<Longrightarrow> (128 + x) mod 64 = x" for x :: nat
proof -
  assume x: "x < 64"
  show "(128 + x) div 64 = 2" using x by (intro div_nat_eqI) simp_all
  have "(2 * 64 + x) mod 64 = x mod 64" by (rule mod_mult_self3)
  then show "(128 + x) mod 64 = x" using x by simp
qed

lemma decode_cont_3:
  "decode_cont 3 (a # b # c # q) v =
     (if byte a div 64 = 2 \<and> byte b div 64 = 2 \<and> byte c div 64 = 2
      then Some (((v * 64 + byte a mod 64) * 64 + byte b mod 64) * 64 + byte c mod 64) else None)"
  by (simp add: numeral_3_eq_3)

lemma decode_raw:
  assumes "k \<le> 256"
  shows "utf8_decode (yamlcpp_queue (YS_RAW_BASE + k) @ q) = Some (4, YS_RAW_BASE + k)"
    "length (yamlcpp_queue (YS_RAW_BASE + k)) = 4"
proof -
  define x y where "x = k mod 64" and "y = k div 64"
  have k: "y < 64" "x < 64" "k = 64 * y + x"
    using assms by (simp_all add: x_def y_def)
  have b: "byte (of_byte (0x80 + x)) = 0x80 + x" "byte (of_byte (0x80 + y)) = 0x80 + y"
    by (rule byte_of_byte; use k in linarith)+
  have m: "(128 + x) div 64 = 2" "(128 + y) div 64 = 2" "(128 + x) mod 64 = x" "(128 + y) mod 64 = y"
    using k(1,2) by (simp_all only: raw_cont_byte)
  have "decode_cont 3 (of_byte 0xB0 # of_byte (0x80 + y) # of_byte (0x80 + x) # q) 3 = Some (983040 + k)"
    unfolding decode_cont_3 b m k(3) by simp
  then show "utf8_decode (yamlcpp_queue (YS_RAW_BASE + k) @ q) = Some (4, YS_RAW_BASE + k)"
    using assms unfolding raw_queue [OF assms] x_def [symmetric] y_def [symmetric]
    by (simp add: utf8_decode_def YS_RAW_BASE_def)
  show "length (yamlcpp_queue (YS_RAW_BASE + k)) = 4"
    using assms by (simp add: raw_queue)
qed

lemma unsanitize_raw:
  "yaml_unsanitize (concat (map (\<lambda>c. yamlcpp_queue (YS_RAW_BASE + byte c)) xs) @ s) = xs @ yaml_unsanitize s"
proof (induction xs)
  case (Cons c xs)
  let ?r = "concat (map (\<lambda>c. yamlcpp_queue (YS_RAW_BASE + byte c)) xs) @ s"
  have c: "byte c \<le> 256" "byte c \<noteq> 256" by (simp_all add: less_imp_le less_imp_neq [OF byte_less_256])
  have "yaml_unsanitize (yamlcpp_queue (YS_RAW_BASE + byte c) @ ?r) = c # yaml_unsanitize ?r"
    using decode_raw(1) [OF c(1), of ?r] decode_raw(2) [OF c(1)] c(2)
    by (subst yaml_unsanitize.simps) (auto simp: YS_ESCAPE_def YS_RAW_BASE_def)
  with Cons show ?case by simp
qed simp

lemma unsanitize_sanitize: "yaml_unsanitize (sanitize_loop p) = p"
proof (induction p rule: sanitize_loop.induct)
  case (1 p)
  show ?case
  proof (cases "p = []")
    case False
    show ?thesis
    proof (cases "utf8_decode p")
      case None
      have "sanitize_loop p = yamlcpp_queue (YS_RAW_BASE + byte (hd p)) @ sanitize_loop (tl p)"
        using False None by (subst sanitize_loop.simps) simp
      then have "yaml_unsanitize (sanitize_loop p) = [hd p] @ yaml_unsanitize (sanitize_loop (tl p))"
        using unsanitize_raw [of "[hd p]"] by simp
      then show ?thesis using 1(1) [OF False None] False by simp
    next
      case (Some r)
      then obtain n cp where d: "utf8_decode p = Some (n, cp)" by (cases r) simp
      let ?s = "sanitize_loop (drop n p)"
      have ih: "yaml_unsanitize ?s = drop n p" using 1(2) [OF False d refl] .
      have t: "n \<le> length p" "utf8_decode (take n p @ q) = Some (n, cp)" "0 < n" for q
        using utf8_decode_take [OF d] utf8_decode_pos [OF d] by auto
      have e: "utf8_decode (yamlcpp_queue YS_ESCAPE @ q) = Some (4, YS_ESCAPE)"
          "length (yamlcpp_queue YS_ESCAPE) = 4" for q
        using decode_raw(1) [of 256 q] decode_raw(2) [of 256] by (simp_all add: YS_ESCAPE_def YS_RAW_BASE_def)
      consider (escape) "yaml_needs_escape cp" | (plain) "\<not> yaml_needs_escape cp" "yaml_plain_ok cp"
        | (raw) "\<not> yaml_needs_escape cp" "\<not> yaml_plain_ok cp" by blast
      then show ?thesis
      proof cases
        case escape
        then have "sanitize_loop p = yamlcpp_queue YS_ESCAPE @ take n p @ ?s"
          using False d by (subst sanitize_loop.simps) simp
        moreover have "yaml_unsanitize (yamlcpp_queue YS_ESCAPE @ take n p @ ?s) = take n p @ yaml_unsanitize ?s"
          using e t False by (subst yaml_unsanitize.simps) (auto simp: min_def)
        ultimately show ?thesis using ih by simp
      next
        case plain
        then have "sanitize_loop p = take n p @ ?s"
          using False d by (subst sanitize_loop.simps) simp
        moreover have "yaml_unsanitize (take n p @ ?s) = take n p @ yaml_unsanitize ?s"
          using plain(1) t False by (subst yaml_unsanitize.simps) (auto simp: yaml_needs_escape_def min_def)
        ultimately show ?thesis using ih by simp
      next
        case raw
        then have "sanitize_loop p =
            concat (map (\<lambda>c. yamlcpp_queue (YS_RAW_BASE + byte c)) (take n p)) @ ?s"
          using False d by (subst sanitize_loop.simps) simp
        then show ?thesis using ih by (simp add: unsanitize_raw)
      qed
    qed
  qed (simp add: sanitize_loop.simps yaml_unsanitize.simps)
qed

text \<open>Texts made of code points \<open>libyaml\<close> reads like the original loader did.\<close>

inductive yaml_accepts :: "string \<Rightarrow> bool" where
  accepts_Nil: "yaml_accepts []"
| accepts_char: "utf8_decode p = Some (n, cp) \<Longrightarrow> yaml_plain_ok cp \<Longrightarrow> yaml_accepts (drop n p) \<Longrightarrow>
    yaml_accepts p"

lemma accepts_append:
  "utf8_decode p = Some (length p, cp) \<Longrightarrow> yaml_plain_ok cp \<Longrightarrow> yaml_accepts q \<Longrightarrow> yaml_accepts (p @ q)"
  using utf8_decode_take [of p "length p" cp q] by (auto intro: accepts_char)

lemma raw_plain_ok: "k \<le> 256 \<Longrightarrow> yaml_plain_ok (YS_RAW_BASE + k)"
  unfolding yaml_plain_ok_def YS_RAW_BASE_def by (intro disjI2) simp

lemma accepts_raw:
  assumes "k \<le> 256" "yaml_accepts q"
  shows "yaml_accepts (yamlcpp_queue (YS_RAW_BASE + k) @ q)"
proof (rule accepts_append)
  show "utf8_decode (yamlcpp_queue (YS_RAW_BASE + k)) =
      Some (length (yamlcpp_queue (YS_RAW_BASE + k)), YS_RAW_BASE + k)"
    using decode_raw(1) [OF assms(1), of "[]"] decode_raw(2) [OF assms(1)] by simp
qed (use assms raw_plain_ok in auto)

lemma accepts_raws:
  "yaml_accepts q \<Longrightarrow> yaml_accepts (concat (map (\<lambda>c. yamlcpp_queue (YS_RAW_BASE + byte c)) xs) @ q)"
  by (induction xs) (auto intro: accepts_raw simp: less_imp_le)

lemma accepts_sanitize: "yaml_accepts (sanitize_loop p)"
proof (induction p rule: sanitize_loop.induct)
  case (1 p)
  show ?case
  proof (cases "p = []")
    case False
    show ?thesis
    proof (cases "utf8_decode p")
      case None
      then show ?thesis
        using False 1(1) accepts_raws [of _ "[hd p]"] by (subst sanitize_loop.simps) simp
    next
      case (Some r)
      then obtain n cp where d: "utf8_decode p = Some (n, cp)" by (cases r) simp
      have ih: "yaml_accepts (sanitize_loop (drop n p))" using 1(2) [OF False d refl] .
      have t: "utf8_decode (take n p) = Some (length (take n p), cp)"
        using utf8_decode_take [OF d, of "[]"] by (simp add: min_def)
      have "yaml_plain_ok cp" if "yaml_needs_escape cp"
      proof -
        have "cp - YS_RAW_BASE \<le> 256" "cp = YS_RAW_BASE + (cp - YS_RAW_BASE)"
          using that by (auto simp: yaml_needs_escape_def YS_RAW_BASE_def YS_ESCAPE_def)
        then show ?thesis using raw_plain_ok by metis
      qed
      moreover have "YS_ESCAPE = YS_RAW_BASE + 256" by (simp add: YS_RAW_BASE_def YS_ESCAPE_def)
      ultimately show ?thesis
        using False d ih t accepts_append [OF t] accepts_raw [of 256] accepts_raws
        by (subst sanitize_loop.simps) simp
    qed
  qed (simp add: sanitize_loop.simps accepts_Nil)
qed

lemma accepts_unneeded: "\<not> sanitize_needed p \<Longrightarrow> yaml_accepts p"
proof (induction p rule: sanitize_needed.induct)
  case (1 p)
  then show ?case
    by (subst (asm) (2) sanitize_needed.simps)
      (auto intro: accepts_char accepts_Nil split: option.splits if_split_asm)
qed

text \<open>(C35) Re-encoding loses nothing: whatever bytes a subscription holds, control characters, NUL
  and broken UTF-8 included, the text handed to \<open>libyaml\<close> consists of code points it accepts, and
  decoding the re-encoded text gives the original bytes back. Text that needs no re-encoding is
  passed on as it is.\<close>

theorem yaml_sanitize_roundtrip:
  "case yaml_sanitize text of
     Some s \<Rightarrow> yaml_accepts s \<and> yaml_unsanitize s = text
   | None \<Rightarrow> yaml_accepts text"
  by (simp add: yaml_sanitize_def accepts_sanitize accepts_unneeded unsanitize_sanitize)

subsection \<open>Facts: UTF-16 input\<close>

text \<open>The standard encoding, as the specification of what is decoded.\<close>

definition utf16_bytes :: "bool \<Rightarrow> nat \<Rightarrow> string" where
  "utf16_bytes be u =
     map of_byte (if be then [u div 256, u mod 256] else [u mod 256, u div 256])"

definition utf16_encode :: "bool \<Rightarrow> nat \<Rightarrow> string" where
  "utf16_encode be cp =
     (if cp < 0x10000 then utf16_bytes be cp
      else utf16_bytes be (0xD800 + (cp - 0x10000) div 1024)
        @ utf16_bytes be (0xDC00 + (cp - 0x10000) mod 1024))"

definition utf16_bom :: "bool \<Rightarrow> string" where
  "utf16_bom be = (if be then [CHR 0xFE, CHR 0xFF] else [CHR 0xFF, CHR 0xFE])"

definition scalar_value :: "nat \<Rightarrow> bool" where
  "scalar_value cp \<longleftrightarrow> cp \<le> 0x10FFFF \<and> \<not> (0xD800 \<le> cp \<and> cp \<le> 0xDFFF)"

lemma utf16_unit_bytes:
  assumes "u < 65536"
  shows "\<exists>a b. utf16_bytes be u = [a, b] \<and> utf16_unit be a b = u \<and> (u \<noteq> 0 \<longrightarrow> \<not> (byte a = 0 \<and> byte b = 0))"
proof -
  have "byte (of_byte (u div 256)) = u div 256" "byte (of_byte (u mod 256)) = u mod 256"
    by (rule byte_of_byte; use assms in simp)+
  then show ?thesis
    using div_mult_mod_eq [of u 256] by (auto simp: utf16_bytes_def utf16_unit_def)
qed

lemma utf16_loop_encode:
  assumes "scalar_value cp"
  shows "utf16_loop be (utf16_encode be cp @ rest) = yamlcpp_queue cp @ utf16_loop be rest"
proof (cases "cp < 0x10000")
  case True
  then obtain a b where u: "utf16_bytes be cp = [a, b]" "utf16_unit be a b = cp"
    using utf16_unit_bytes [of cp be] by auto
  have "\<not> (cp \<ge> 0xDC00 \<and> cp < 0xE000)" "\<not> (cp \<ge> 0xD800 \<and> cp < 0xDC00)"
    using assms by (auto simp: scalar_value_def)
  then show ?thesis
    using True u by (simp only: utf16_encode_def if_True append.simps utf16_loop.simps Let_def if_False)
next
  case False
  define h l where "h = (cp - 0x10000) div 1024" and "l = (cp - 0x10000) mod 1024"
  have "cp - 0x10000 < 1024 * 1024" using assms unfolding scalar_value_def by linarith
  then have hl: "h < 1024" "l < 1024"
    by (simp_all add: h_def l_def less_mult_imp_div_less)
  have cp: "h * 1024 + l + 0x10000 = cp"
    using False div_mult_mod_eq [of "cp - 0x10000" 1024] by (simp add: h_def l_def)
  have "0xD800 + h < 65536" "0xDC00 + l < 65536" using hl by linarith+
  then obtain a b c d where u: "utf16_bytes be (0xD800 + h) = [a, b]" "utf16_unit be a b = 0xD800 + h"
      "utf16_bytes be (0xDC00 + l) = [c, d]" "utf16_unit be c d = 0xDC00 + l"
    using utf16_unit_bytes by metis
  have "(54 * 1024 + h) mod 1024 = h" "(55 * 1024 + l) mod 1024 = l"
    using hl by (simp_all only: mod_mult_self3 mod_less)
  then have m: "(0xD800 + h) mod 1024 = h" "(0xDC00 + l) mod 1024 = l" by simp_all
  have "utf16_encode be cp = [a, b, c, d]"
    unfolding utf16_encode_def h_def [symmetric] l_def [symmetric] u using False by simp
  then have "utf16_loop be (utf16_encode be cp @ rest) = utf16_low be (0xD800 + h) (c # d # rest)"
    using u(2) hl by (simp add: Let_def)
  also have "\<dots> = yamlcpp_queue cp @ utf16_loop be rest"
    unfolding utf16_low.simps Let_def u(4) m cp using hl by simp
  finally show ?thesis .
qed

lemma utf16_loop_all:
  "list_all scalar_value cps \<Longrightarrow>
     utf16_loop be (concat (map (utf16_encode be) cps)) = concat (map yamlcpp_queue cps)"
  by (induction cps) (simp_all add: utf16_loop_encode)

lemma intro_be: "intro_loop (utf16_bom True @ rest) 0 [] uis_start = (uis_utf16be, 2)"
  by (subst intro_loop.simps, simp add: intro_final_def utf16_bom_def intro_char_type_def)
    (subst intro_loop.simps, simp add: intro_final_def intro_char_type_def intro_loop.simps)

lemma intro_type_nonzero: "byte a \<noteq> 0 \<Longrightarrow> \<exists>t<7. intro_char_type (Some a) = Suc t"
  by (auto simp: intro_char_type_def)

lemma intro_le:
  assumes "rest = [] \<or> (\<exists>a b r. rest = a # b # r \<and> \<not> (byte a = 0 \<and> byte b = 0))"
  shows "intro_loop (utf16_bom False @ rest) 0 [] uis_start = (uis_utf16le, 2)"
proof -
  let ?in = "utf16_bom False @ rest"
  have two: "(2::nat) = Suc (Suc 0)" by simp
  have "intro_loop ?in 0 [] uis_start = intro_loop ?in 2 [Some (CHR 0xFE), Some (CHR 0xFF)] uis_utf16le_bom2"
    by (simp add: intro_loop.simps [of _ _ _ uis_start] intro_loop.simps [of _ _ _ uis_utfle_bom1]
      intro_final_def utf16_bom_def intro_char_type_def two)
  also have "\<dots> = (uis_utf16le, 2)"
  proof (cases rest)
    case Nil
    then show ?thesis
      by (simp add: intro_loop.simps [of _ _ _ uis_utf16le_bom2] intro_loop.simps [of _ _ _ uis_utf16le]
          intro_final_def utf16_bom_def intro_char_type_def two)
  next
    case (Cons a r)
    then obtain b s where r: "rest = a # b # s" "\<not> (byte a = 0 \<and> byte b = 0)"
      using assms by auto
    show ?thesis
    proof (cases "byte a = 0")
      case False
      then obtain t where "t < 7" "intro_char_type (Some a) = Suc t"
        using intro_type_nonzero by blast
      then show ?thesis
        using r by (simp add: intro_loop.simps [of _ _ _ uis_utf16le_bom2]
            intro_loop.simps [of _ _ _ uis_utf16le] intro_final_def utf16_bom_def two)
    next
      case True
      then obtain t where "t < 7" "intro_char_type (Some b) = Suc t"
        using intro_type_nonzero r(2) by blast
      moreover have "intro_char_type (Some a) = 0" using True by (simp add: intro_char_type_def)
      ultimately show ?thesis
        using r by (simp add: intro_loop.simps [of _ _ _ uis_utf16le_bom2]
            intro_loop.simps [of _ _ _ uis_utf32le_bom3]
            intro_loop.simps [of _ _ _ uis_utf16le] intro_final_def utf16_bom_def two)
    qed
  qed
  finally show ?thesis .
qed

lemma utf16_encode_head:
  assumes "scalar_value cp" "cp \<noteq> 0"
  shows "\<exists>a b r. utf16_encode be cp @ rest = a # b # r \<and> \<not> (byte a = 0 \<and> byte b = 0)"
proof -
  define u where "u = (if cp < 0x10000 then cp else 0xD800 + (cp - 0x10000) div 1024)"
  have "(cp - 0x10000) div 1024 < 1024"
    using assms(1) by (intro less_mult_imp_div_less) (unfold scalar_value_def, linarith)
  then have "u < 65536" "u \<noteq> 0"
    using assms(2) by (simp_all add: u_def)
  then obtain a b where ab: "utf16_bytes be u = [a, b]" "\<not> (byte a = 0 \<and> byte b = 0)"
    using utf16_unit_bytes by blast
  have "\<exists>r. utf16_encode be cp = utf16_bytes be u @ r"
    by (simp add: utf16_encode_def u_def)
  then show ?thesis using ab by auto
qed

lemma utf16_decoded:
  assumes "list_all scalar_value cps" "be \<or> cps = [] \<or> hd cps \<noteq> 0"
  shows "yamlcpp_decode (utf16_bom be @ concat (map (utf16_encode be) cps))
    = concat (map yamlcpp_queue cps)"
proof -
  let ?t = "concat (map (utf16_encode be) cps)"
  have "intro_loop (utf16_bom be @ ?t) 0 [] uis_start = (if be then uis_utf16be else uis_utf16le, 2)"
  proof (cases be)
    case False
    have "?t = [] \<or> (\<exists>a b r. ?t = a # b # r \<and> \<not> (byte a = 0 \<and> byte b = 0))"
    proof (cases cps)
      case (Cons cp rest)
      then show ?thesis using assms False utf16_encode_head by simp
    qed simp
    then show ?thesis using False intro_le by simp
  qed (simp add: intro_be)
  moreover have "drop 2 (utf16_bom be @ ?t) = ?t" by (simp add: utf16_bom_def)
  ultimately show ?thesis
    using utf16_loop_all [OF assms(1)] by (simp add: yamlcpp_decode_def)
qed

text \<open>UTF-8 as RFC 3629 has it: a lead byte that carries the length and the high bits, then six bits a
  byte; and the code points of a text, read with the strict decoder \<open>utf8_decode\<close>.\<close>

fun utf8_tail :: "nat \<Rightarrow> nat \<Rightarrow> nat list" where
  "utf8_tail 0 cp = []"
| "utf8_tail (Suc n) cp = utf8_tail n (cp div 64) @ [0x80 + cp mod 64]"

definition utf8_of :: "nat \<Rightarrow> string" where
  "utf8_of cp = map of_byte
     (if cp < 0x80 then [cp]
      else if cp < 0x800 then (0xC0 + cp div 64) # utf8_tail 1 cp
      else if cp < 0x10000 then (0xE0 + cp div 64 ^ 2) # utf8_tail 2 cp
      else (0xF0 + cp div 64 ^ 3) # utf8_tail 3 cp)"

function utf8_points :: "string \<Rightarrow> nat list option" where
  "utf8_points p =
     (if p = [] then Some []
      else (case utf8_decode p of
              None \<Rightarrow> None
            | Some (n, cp) \<Rightarrow> map_option ((#) cp) (utf8_points (drop n p))))"
  by pat_completeness auto
termination
  by (relation "measure length") (auto dest: utf8_decode_pos)

declare utf8_points.simps [simp del]

lemma utf8_tails:
  "utf8_tail 1 cp = [0x80 + cp mod 64]"
  "utf8_tail 2 cp = [0x80 + cp div 64 mod 64, 0x80 + cp mod 64]"
  "utf8_tail 3 cp = [0x80 + cp div 64 div 64 mod 64, 0x80 + cp div 64 mod 64, 0x80 + cp mod 64]"
  by (simp_all add: numeral_2_eq_2 numeral_3_eq_3)

lemma decode_cont_six:
  assumes "b < 64"
  shows "decode_cont (Suc n) (of_byte (0x80 + b) # p) v = decode_cont n p (v * 64 + b)"
proof -
  have "byte (of_byte (0x80 + b)) = 2 * 64 + b" using assms by simp
  moreover have "(2 * 64 + b) div 64 = 2" "(2 * 64 + b) mod 64 = b"
    using assms by (simp_all only: div_mult_self3 mod_mult_self3 mod_less div_less)
  ultimately show ?thesis by (simp only: decode_cont.simps) simp
qed

lemma utf8_decode_lead:
  assumes "byte ch = c" "0x80 \<le> c"
    "(if c \<ge> 0xC2 \<and> c \<le> 0xDF then Some (2, c mod 32, 0x80)
      else if c \<ge> 0xE0 \<and> c \<le> 0xEF then Some (3, c mod 16, 0x800)
      else if c \<ge> 0xF0 \<and> c \<le> 0xF4 then Some (4, c mod 8, 0x10000)
      else None) = Some (n, v, least)"
    "decode_cont (n - 1) rest v = Some w" "least \<le> w" "scalar_value w"
  shows "utf8_decode (ch # rest) = Some (n, w)"
  using assms(2,4-6) unfolding utf8_decode_def list.case Let_def assms(1,3)
  by (simp add: scalar_value_def)

lemma utf8_two:
  assumes "2 \<le> a" "a < 32" "b < 64" "v = a * 64 + b"
  shows "utf8_decode (of_byte (0xC0 + a) # of_byte (0x80 + b) # q) = Some (2, v)"
proof (rule utf8_decode_lead)
  show "byte (of_byte (0xC0 + a)) = 0xC0 + a" "0x80 \<le> 0xC0 + a" using assms(2) by simp_all
  have "(6 * 32 + a) mod 32 = a" using assms(2) by (simp only: mod_mult_self3 mod_less)
  then show "(if 0xC0 + a \<ge> 0xC2 \<and> 0xC0 + a \<le> 0xDF then Some (2, (0xC0 + a) mod 32, 0x80)
      else if 0xC0 + a \<ge> 0xE0 \<and> 0xC0 + a \<le> 0xEF then Some (3, (0xC0 + a) mod 16, 0x800)
      else if 0xC0 + a \<ge> 0xF0 \<and> 0xC0 + a \<le> 0xF4 then Some (4, (0xC0 + a) mod 8, 0x10000)
      else None) = Some (2, a, 0x80)" using assms(1,2) by simp
  have "decode_cont (Suc 0) (of_byte (0x80 + b) # q) a = Some v"
    using decode_cont_six [OF assms(3)] assms(4) by simp
  then show "decode_cont (2 - 1) (of_byte (0x80 + b) # q) a = Some v" by simp
  show "0x80 \<le> v" "scalar_value v" using assms by (simp_all add: scalar_value_def)
qed

lemma utf8_three:
  assumes "a < 16" "b < 64" "c < 64" "v = (a * 64 + b) * 64 + c" "0x800 \<le> v" "scalar_value v"
  shows "utf8_decode (of_byte (0xE0 + a) # of_byte (0x80 + b) # of_byte (0x80 + c) # q) = Some (3, v)"
proof (rule utf8_decode_lead)
  show "byte (of_byte (0xE0 + a)) = 0xE0 + a" "0x80 \<le> 0xE0 + a" using assms(1) by simp_all
  have "(14 * 16 + a) mod 16 = a" using assms(1) by (simp only: mod_mult_self3 mod_less)
  then show "(if 0xE0 + a \<ge> 0xC2 \<and> 0xE0 + a \<le> 0xDF then Some (2, (0xE0 + a) mod 32, 0x80)
      else if 0xE0 + a \<ge> 0xE0 \<and> 0xE0 + a \<le> 0xEF then Some (3, (0xE0 + a) mod 16, 0x800)
      else if 0xE0 + a \<ge> 0xF0 \<and> 0xE0 + a \<le> 0xF4 then Some (4, (0xE0 + a) mod 8, 0x10000)
      else None) = Some (3, a, 0x800)" using assms(1) by simp
  have "decode_cont (Suc (Suc 0)) (of_byte (0x80 + b) # of_byte (0x80 + c) # q) a = Some v"
    using decode_cont_six [OF assms(2)] decode_cont_six [OF assms(3)] assms(4)
    by (simp only: decode_cont.simps(1))
  then show "decode_cont (3 - 1) (of_byte (0x80 + b) # of_byte (0x80 + c) # q) a = Some v"
    by (simp only: numeral_3_eq_3 diff_Suc_1)
qed (use assms(5,6) in simp_all)

lemma utf8_four:
  assumes "b < 64" "c < 64" "d < 64" "v = ((a * 64 + b) * 64 + c) * 64 + d" "0x10000 \<le> v"
    "scalar_value v"
  shows "utf8_decode (of_byte (0xF0 + a) # of_byte (0x80 + b) # of_byte (0x80 + c) # of_byte (0x80 + d) # q)
    = Some (4, v)"
proof (rule utf8_decode_lead)
  have "v = a * 262144 + b * 4096 + c * 64 + d" using assms(4) by simp
  moreover have "v \<le> 0x10FFFF" using assms(6) by (simp add: scalar_value_def)
  ultimately have a: "a \<le> 4" by linarith
  then show "byte (of_byte (0xF0 + a)) = 0xF0 + a" "0x80 \<le> 0xF0 + a" by simp_all
  have "(30 * 8 + a) mod 8 = a" using a by (simp only: mod_mult_self3 mod_less)
  then show "(if 0xF0 + a \<ge> 0xC2 \<and> 0xF0 + a \<le> 0xDF then Some (2, (0xF0 + a) mod 32, 0x80)
      else if 0xF0 + a \<ge> 0xE0 \<and> 0xF0 + a \<le> 0xEF then Some (3, (0xF0 + a) mod 16, 0x800)
      else if 0xF0 + a \<ge> 0xF0 \<and> 0xF0 + a \<le> 0xF4 then Some (4, (0xF0 + a) mod 8, 0x10000)
      else None) = Some (4, a, 0x10000)" using a by simp
  have "decode_cont (Suc (Suc (Suc 0)))
      (of_byte (0x80 + b) # of_byte (0x80 + c) # of_byte (0x80 + d) # q) a = Some v"
    using decode_cont_six [OF assms(1)] decode_cont_six [OF assms(2)] decode_cont_six [OF assms(3)] assms(4)
    by (simp only: decode_cont.simps(1))
  moreover have "4 - 1 = Suc (Suc (Suc 0))" by simp
  ultimately show "decode_cont (4 - 1)
      (of_byte (0x80 + b) # of_byte (0x80 + c) # of_byte (0x80 + d) # q) a = Some v"
    by (simp only:)
qed (use assms(5,6) in simp_all)

lemma utf8_decode_of:
  assumes "scalar_value cp"
  shows "utf8_decode (utf8_of cp @ q) = Some (length (utf8_of cp), cp)"
proof -
  have m: "cp mod 64 < 64" "cp div 64 mod 64 < 64" "cp div 64 div 64 mod 64 < 64" by simp_all
  have cp: "cp = cp div 64 * 64 + cp mod 64" "cp div 64 = cp div 64 div 64 * 64 + cp div 64 mod 64"
      "cp div 64 div 64 = cp div 64 div 64 div 64 * 64 + cp div 64 div 64 mod 64"
    by simp_all
  have d: "cp div 64 ^ 2 = cp div 64 div 64" "cp div 64 ^ 3 = cp div 64 div 64 div 64"
    by (simp_all add: div_mult2_eq [symmetric])
  consider (one) "cp < 0x80" | (two) "0x80 \<le> cp" "cp < 0x800"
    | (three) "0x800 \<le> cp" "cp < 0x10000" | (four) "0x10000 \<le> cp" by linarith
  then show ?thesis
  proof cases
    case one
    then show ?thesis by (simp add: utf8_of_def utf8_decode_def)
  next
    case two
    have "2 \<le> cp div 64" "cp div 64 < 32" using two cp(1) m by linarith+
    then show ?thesis
      using two utf8_two [OF _ _ m(1) cp(1)] by (simp add: utf8_of_def utf8_tails [unfolded One_nat_def])
  next
    case three
    have "cp div 64 div 64 < 16" using three cp(1,2) by linarith
    moreover have "cp = (cp div 64 div 64 * 64 + cp div 64 mod 64) * 64 + cp mod 64"
      using cp(1,2) by simp
    ultimately have "utf8_decode (of_byte (0xE0 + cp div 64 div 64) # of_byte (0x80 + cp div 64 mod 64)
        # of_byte (0x80 + cp mod 64) # q) = Some (3, cp)"
      using utf8_three m(1,2) three(1) assms by blast
    then show ?thesis using three unfolding utf8_of_def utf8_tails d by simp
  next
    case four
    have "cp = ((cp div 64 div 64 div 64 * 64 + cp div 64 div 64 mod 64) * 64 + cp div 64 mod 64) * 64
        + cp mod 64"
      using cp by simp
    then have "utf8_decode (of_byte (0xF0 + cp div 64 div 64 div 64)
        # of_byte (0x80 + cp div 64 div 64 mod 64) # of_byte (0x80 + cp div 64 mod 64)
        # of_byte (0x80 + cp mod 64) # q) = Some (4, cp)"
      using utf8_four [OF m(3,2,1)] four assms by blast
    then show ?thesis using four unfolding utf8_of_def utf8_tails d by simp
  qed
qed

lemma utf8_points_of:
  "list_all scalar_value cps \<Longrightarrow> utf8_points (concat (map utf8_of cps)) = Some cps"
proof (induction cps)
  case (Cons cp cps)
  have "utf8_of cp \<noteq> []" by (simp add: utf8_of_def)
  then show ?case
    using Cons utf8_decode_of [of cp "concat (map utf8_of cps)"]
    by (subst utf8_points.simps) simp
qed (simp add: utf8_points.simps)

text \<open>\<open>QueueUnicodeCodepoint\<close> writes the UTF-8 of the code point, but for the end-of-text mark.\<close>

lemma yamlcpp_queue_of:
  assumes "scalar_value cp"
  shows "yamlcpp_queue cp = utf8_of (if cp = 0x04 then 0xFFFD else cp)"
proof -
  have "cp div 64 mod 32 = cp div 64" if "cp < 0x800"
    using that by (intro mod_less) linarith
  moreover have "cp div 4096 mod 16 = cp div 4096" if "cp < 0x10000"
    using that by (intro mod_less) linarith
  moreover have "cp div 262144 mod 8 = cp div 262144"
    using assms unfolding scalar_value_def by (intro mod_less) linarith
  ultimately show ?thesis
    by (simp add: yamlcpp_queue_def utf8_of_def utf8_tails [unfolded One_nat_def] div_mult2_eq [symmetric])
qed

text \<open>(C36) A subscription saved as UTF-16 with a byte order mark, in either byte order, is read as
  the UTF-8 text of its code points, surrogate pairs included; the strict decoder of the YAML
  sanitizer accepts that text and reads the code points back. One code point is not kept: U+0004,
  the end-of-input mark of the YAML reader, becomes U+FFFD. In little-endian order the first code
  point must not be NUL, since the mark followed by two zero bytes is the mark of UTF-32.\<close>

theorem utf16_transcoded:
  assumes "list_all scalar_value cps" "be \<or> cps = [] \<or> hd cps \<noteq> 0"
    and "cps' = map (\<lambda>cp. if cp = 0x04 then 0xFFFD else cp) cps"
  shows "yamlcpp_decode (utf16_bom be @ concat (map (utf16_encode be) cps)) = concat (map utf8_of cps')
    \<and> utf8_points (yamlcpp_decode (utf16_bom be @ concat (map (utf16_encode be) cps))) = Some cps'"
proof -
  have "map yamlcpp_queue cps = map utf8_of cps'"
    using assms(1,3) yamlcpp_queue_of by (simp add: list_all_iff)
  moreover have "list_all scalar_value cps'"
    using assms(1,3) by (auto simp: list_all_iff scalar_value_def)
  ultimately show ?thesis
    using utf16_decoded [OF assms(1,2)] utf8_points_of by simp
qed

theorem utf16_transcoded_witness:
  "yamlcpp_decode [CHR 0xFF, CHR 0xFE, CHR ''a'', CHR 0x00, CHR 0xE9, CHR 0x00, CHR 0x04, CHR 0x00,
       CHR 0x3D, CHR 0xD8, CHR 0x00, CHR 0xDE]
     = [CHR ''a'', CHR 0xC3, CHR 0xA9, CHR 0xEF, CHR 0xBF, CHR 0xBD,
        CHR 0xF0, CHR 0x9F, CHR 0x98, CHR 0x80]"
proof -
  have "list_all scalar_value [0x61, 0xE9, 0x04, 0x1F600]" by (simp add: scalar_value_def)
  moreover have "utf16_bom False @ concat (map (utf16_encode False) [0x61, 0xE9, 0x04, 0x1F600]) =
      [CHR 0xFF, CHR 0xFE, CHR ''a'', CHR 0x00, CHR 0xE9, CHR 0x00, CHR 0x04, CHR 0x00,
       CHR 0x3D, CHR 0xD8, CHR 0x00, CHR 0xDE]"
    by (simp add: utf16_bom_def utf16_encode_def utf16_bytes_def char_of_def bit_numeral_rec bit_Suc_0_iff)
  moreover have "concat (map utf8_of [0x61, 0xE9, 0xFFFD, 0x1F600]) =
      [CHR ''a'', CHR 0xC3, CHR 0xA9, CHR 0xEF, CHR 0xBF, CHR 0xBD,
       CHR 0xF0, CHR 0x9F, CHR 0x98, CHR 0x80]"
    by (simp add: utf8_of_def utf8_tails [unfolded One_nat_def] char_of_def bit_numeral_rec bit_Suc_0_iff)
  ultimately show ?thesis
    using utf16_transcoded [of "[0x61, 0xE9, 0x04, 0x1F600]" False "[0x61, 0xE9, 0xFFFD, 0x1F600]"]
    by simp
qed

end
