(* ===== verification/Yaml_Fix.thy ===== *)
theory Yaml_Fix
  imports Util_Strings
begin

text \<open>
  \<open>c/src/proxy_parser.c\<close>, the rewrites of a YAML text that \<open>libyaml\<close> rejected at a construct the
  original loader accepts. Each takes the error \<open>libyaml\<close> reported, the text, and gives the
  rewritten text or \<open>None\<close>. The text is indexed as in the source: \<open>n\<close> is its length, and every
  index is tested against it before the byte is read.
\<close>

text \<open>What the rewrites read of a failed \<open>yaml_parser_t\<close>.\<close>

record yproblem =
  yp_problem :: "string option"
  yp_context :: "string option"
  yp_problem_index :: nat
  yp_context_index :: nat
  yp_context_column :: nat

text \<open>An open collection.\<close>

record yopen =
  yo_map :: bool
  yo_flow :: bool
  yo_column :: nat

subsection \<open>Scanning helpers\<close>

text \<open>\<open>while (i < n && P) ++i\<close> and \<open>while (i > lo && P) --i\<close>.\<close>

function advance :: "(nat \<Rightarrow> bool) \<Rightarrow> nat \<Rightarrow> nat \<Rightarrow> nat" where
  "advance P n i = (if i < n \<and> P i then advance P n (i + 1) else i)"
  by pat_completeness auto
termination by (relation "measure (\<lambda>(P, n, i). n - i)") auto

declare advance.simps [simp del]

fun retreat :: "(nat \<Rightarrow> bool) \<Rightarrow> nat \<Rightarrow> nat \<Rightarrow> nat" where
  "retreat P lo 0 = 0"
| "retreat P lo (Suc i) = (if Suc i > lo \<and> P (Suc i) then retreat P lo i else Suc i)"

definition slice :: "string \<Rightarrow> nat \<Rightarrow> nat \<Rightarrow> string" where
  "slice t i j = take (j - i) (drop i t)"

text \<open>\<open>strchr(set, c)\<close> also finds the terminator.\<close>

definition strchr :: "string \<Rightarrow> char \<Rightarrow> bool" where
  "strchr s c \<longleftrightarrow> c \<in> set s \<or> c = CHR 0x00"

fun char_to_byte_loop :: "string \<Rightarrow> nat \<Rightarrow> nat \<Rightarrow> nat" where
  "char_to_byte_loop t 0 b = b"
| "char_to_byte_loop t (Suc index) b =
     (if b < length t
      then char_to_byte_loop t index
        (advance (\<lambda>j. byte (t ! j) div 64 = 2) (length t) (b + 1))
      else b)"

definition char_to_byte :: "string \<Rightarrow> nat \<Rightarrow> nat" where
  "char_to_byte t index = char_to_byte_loop t index 0"

definition problem_is :: "yproblem \<Rightarrow> string \<Rightarrow> string option \<Rightarrow> bool" where
  "problem_is p problem context \<longleftrightarrow>
     yp_problem p = Some problem \<and> (context = None \<or> yp_context p = context)"

definition is_blank_c :: "char \<Rightarrow> bool" where
  "is_blank_c c \<longleftrightarrow> c = CHR '' '' \<or> c = CHR 0x09"

definition is_break_c :: "char \<Rightarrow> bool" where
  "is_break_c c \<longleftrightarrow> c = CHR 0x0A \<or> c = CHR 0x0D"

definition break_len :: "string \<Rightarrow> nat \<Rightarrow> nat" where
  "break_len t i =
     (if t ! i = CHR 0x0D \<and> i + 1 < length t \<and> t ! (i + 1) = CHR 0x0A then 2 else 1)"

text \<open>\<open>i == n || is_blank_c(t[i]) || is_break_c(t[i])\<close>\<close>

definition ends_at :: "string \<Rightarrow> nat \<Rightarrow> bool" where
  "ends_at t i \<longleftrightarrow> i = length t \<or> is_blank_c (t ! i) \<or> is_break_c (t ! i)"

function quoted_end_loop :: "string \<Rightarrow> char \<Rightarrow> nat \<Rightarrow> nat" where
  "quoted_end_loop t q i =
     (if i < length t then
        (if q = CHR 0x22 \<and> t ! i = CHR 0x5C then quoted_end_loop t q (i + 2)
         else if t ! i = q then
           (if q = CHR 0x27 \<and> i + 1 < length t \<and> t ! (i + 1) = CHR 0x27
            then quoted_end_loop t q (i + 2)
            else i + 1)
         else quoted_end_loop t q (i + 1))
      else 0)"
  by pat_completeness auto
termination by (relation "measure (\<lambda>(t, q, i). length t - i)") auto

declare quoted_end_loop.simps [simp del]

definition quoted_end :: "string \<Rightarrow> nat \<Rightarrow> nat" where
  "quoted_end t i = quoted_end_loop t (t ! i) (i + 1)"

lemma quoted_end_loop_less: "quoted_end_loop t q i = e \<Longrightarrow> e \<noteq> 0 \<Longrightarrow> i < e"
proof (induction t q i rule: quoted_end_loop.induct)
  case (1 t q i)
  then show ?case
    unfolding quoted_end_loop.simps [of t q i] by (auto split: if_split_asm)
qed

lemma advance_ge: "i \<le> advance P n i"
proof (induction P n i rule: advance.induct)
  case (1 P n i)
  then show ?case by (auto simp: advance.simps [of P n i])
qed

lemma advance_gt: "i < n \<Longrightarrow> P i \<Longrightarrow> i < advance P n i"
  using advance_ge [of "i + 1" P n] by (subst advance.simps) simp

lemma hash_not_break: "c = CHR ''#'' \<Longrightarrow> \<not> is_break_c c"
  by (simp add: is_break_c_def)

function flow_end :: "string \<Rightarrow> nat \<Rightarrow> int \<Rightarrow> nat" where
  "flow_end t i depth =
     (if i < length t then
        (let c = t ! i in
         if c = CHR 0x22 \<or> c = CHR 0x27 then
           (let e = quoted_end t i in if e = 0 then 0 else flow_end t e depth)
         else if c = CHR ''#'' \<and> (i = 0 \<or> is_blank_c (t ! (i - 1)) \<or> is_break_c (t ! (i - 1)))
         then flow_end t (advance (\<lambda>j. \<not> is_break_c (t ! j)) (length t) i) depth
         else if c = CHR ''['' \<or> c = CHR ''{'' then flow_end t (i + 1) (depth + 1)
         else if c = CHR '']'' \<or> c = CHR ''}''
         then (if depth - 1 = 0 then i + 1 else flow_end t (i + 1) (depth - 1))
         else flow_end t (i + 1) depth)
      else 0)"
  by pat_completeness auto
termination
proof (relation "measure (\<lambda>(t, i, d). length t - i)", goal_cases)
  case (2 t i depth c e)
  then show ?case
    using quoted_end_loop_less [of t "t ! i" "i + 1"] by (auto simp: quoted_end_def)
next
  case (3 t i depth c)
  then show ?case
    using advance_gt [of i "length t" "\<lambda>j. \<not> is_break_c (t ! j)"]
      hash_not_break [of "t ! i"] by (auto intro: diff_less_mono2)
qed auto

definition only_comment_to_eof :: "string \<Rightarrow> nat \<Rightarrow> bool" where
  "only_comment_to_eof t i =
     (let i = advance (\<lambda>j. is_blank_c (t ! j)) (length t) i;
          i = (if i < length t \<and> t ! i = CHR ''#''
               then advance (\<lambda>j. \<not> is_break_c (t ! j)) (length t) i else i) in
      i = length t)"

definition doc_indicator_at :: "string \<Rightarrow> nat \<Rightarrow> bool" where
  "doc_indicator_at t i \<longleftrightarrow>
     length t - i \<ge> 3 \<and> (slice t i (i + 3) = ''---'' \<or> slice t i (i + 3) = ''...'')
     \<and> ends_at t (i + 3)"

definition plain_end_at :: "string \<Rightarrow> nat \<Rightarrow> bool" where
  "plain_end_at t i =
     (if t ! i = CHR '':'' then ends_at t (i + 1)
      else (is_blank_c (t ! i) \<or> is_break_c (t ! i)) \<and> i + 1 < length t \<and> t ! (i + 1) = CHR ''#'')"

text \<open>One line of \<open>plain_key_survives\<close>: where the scan stands after the indentation of the next line
  and its column, or the final answer. \<open>Some stop\<close> in the answer is the place where the scan of a
  surviving key stopped.\<close>

datatype plain_step = Stop "nat option" | Next nat nat

definition plain_key_line :: "string \<Rightarrow> nat \<Rightarrow> nat \<Rightarrow> plain_step" where
  "plain_key_line t i indent =
     (let n = length t;
          i = advance (\<lambda>j. \<not> plain_end_at t j \<and> \<not> is_break_c (t ! j)) n i in
      if i \<ge> n then Stop (Some i)
      else if plain_end_at t i then
        Stop (if t ! i = CHR '':'' then None
              else if is_break_c (t ! i) then None
              else if only_comment_to_eof t i then Some i else None)
      else
        (let start = i + break_len t i;
             i = advance (\<lambda>j. t ! j = CHR '' '' \<and> j - start < indent \<and> \<not> plain_end_at t j) n start;
             i = advance (\<lambda>j. is_blank_c (t ! j) \<and> \<not> (t ! j = CHR 0x09 \<and> j - start < indent)
                     \<and> \<not> plain_end_at t j) n i in
         if i < n \<and> t ! i = CHR 0x09 \<and> i - start < indent then Stop None
         else Next i (i - start)))"

lemma plain_key_line_progress: "plain_key_line t i indent = Next j c \<Longrightarrow> i < j"
proof -
  assume n: "plain_key_line t i indent = Next j c"
  define a where "a = advance (\<lambda>j. \<not> plain_end_at t j \<and> \<not> is_break_c (t ! j)) (length t) i"
  define s where "s = a + break_len t a"
  define b where "b = advance (\<lambda>j. t ! j = CHR '' '' \<and> j - s < indent \<and> \<not> plain_end_at t j) (length t) s"
  have "j = advance (\<lambda>j. is_blank_c (t ! j) \<and> \<not> (t ! j = CHR 0x09 \<and> j - s < indent)
      \<and> \<not> plain_end_at t j) (length t) b"
    using n by (auto simp: plain_key_line_def Let_def a_def s_def b_def split: if_split_asm)
  then have "b \<le> j" by (simp add: advance_ge)
  moreover have "s \<le> b" by (simp add: b_def advance_ge)
  moreover have "a < s" by (simp add: s_def break_len_def)
  moreover have "i \<le> a" by (simp add: a_def advance_ge)
  ultimately show ?thesis by linarith
qed

function plain_key_survives :: "string \<Rightarrow> nat \<Rightarrow> nat \<Rightarrow> nat option" where
  "plain_key_survives t i indent =
     (case plain_key_line t i indent of
        Stop r \<Rightarrow> r
      | Next j col \<Rightarrow>
          (if j \<ge> length t then Some j
           else if \<not> is_break_c (t ! j) \<and> col < indent then
             (if col = 0 \<and> doc_indicator_at t j then Some j
              else if only_comment_to_eof t j \<and> (is_blank_c (t ! j) \<or> t ! j = CHR ''#'')
              then Some j else None)
           else plain_key_survives t j indent))"
  by pat_completeness auto
termination
proof (relation "measure (\<lambda>(t, i, d). length t - i)", goal_cases)
  case (2 t i indent j col)
  then show ?case using plain_key_line_progress [of t i indent j col] by simp
qed simp

declare flow_end.simps [simp del] plain_key_survives.simps [simp del]

subsection \<open>The rewrites\<close>

text \<open>\<open>PopIndentToHere\<close>: how many open collections are left at column \<open>K\<close>.\<close>

fun pop_indent :: "yopen list \<Rightarrow> nat \<Rightarrow> nat \<Rightarrow> nat" where
  "pop_indent open K 0 = 0"
| "pop_indent open K (Suc d) =
     (if yo_column (open ! d) > K \<or> (yo_column (open ! d) = K \<and> \<not> yo_map (open ! d))
      then pop_indent open K d else Suc d)"

text \<open>The tag and anchor properties in front of a key.\<close>

definition key_property :: "string \<Rightarrow> nat \<Rightarrow> nat" where
  "key_property t k =
     (let n = length t;
          k = (if t ! k = CHR ''!'' \<and> k + 1 < n \<and> t ! (k + 1) = CHR ''<'' then
                 (let k = advance (\<lambda>j. t ! j \<noteq> CHR ''>'' \<and> \<not> is_break_c (t ! j)) n k in
                  if k < n \<and> t ! k = CHR ''>'' then k + 1 else k)
               else k);
          k = advance (\<lambda>j. \<not> is_blank_c (t ! j) \<and> \<not> is_break_c (t ! j)) n k in
      advance (\<lambda>j. is_blank_c (t ! j)) n k)"

lemma key_property_progress:
  assumes "k < length t" "t ! k = CHR ''!'' \<or> t ! k = CHR ''&''"
  shows "k < key_property t k"
proof -
  define k1 where "k1 = (if t ! k = CHR ''!'' \<and> k + 1 < length t \<and> t ! (k + 1) = CHR ''<'' then
       (let k = advance (\<lambda>j. t ! j \<noteq> CHR ''>'' \<and> \<not> is_break_c (t ! j)) (length t) k in
        if k < length t \<and> t ! k = CHR ''>'' then k + 1 else k)
     else k)"
  have nb: "\<not> is_blank_c (t ! k)" "\<not> is_break_c (t ! k)"
    using assms(2) by (auto simp: is_blank_c_def is_break_c_def)
  have k1: "k1 = k \<or> k < k1"
    using advance_gt [of k "length t" "\<lambda>j. t ! j \<noteq> CHR ''>'' \<and> \<not> is_break_c (t ! j)"] assms(1) nb
    by (auto simp: k1_def Let_def)
  define k2 where "k2 = advance (\<lambda>j. \<not> is_blank_c (t ! j) \<and> \<not> is_break_c (t ! j)) (length t) k1"
  have "k < k2"
    using k1 advance_gt [of k "length t" "\<lambda>j. \<not> is_blank_c (t ! j) \<and> \<not> is_break_c (t ! j)"]
      advance_ge [of k1 "\<lambda>j. \<not> is_blank_c (t ! j) \<and> \<not> is_break_c (t ! j)" "length t"] assms(1) nb
    by (auto simp: k2_def)
  moreover have "key_property t k = advance (\<lambda>j. is_blank_c (t ! j)) (length t) k2"
    by (simp add: key_property_def k2_def k1_def Let_def)
  ultimately show ?thesis
    using advance_ge [of k2 "\<lambda>j. is_blank_c (t ! j)" "length t"] by simp
qed

function key_properties :: "string \<Rightarrow> nat \<Rightarrow> nat" where
  "key_properties t k =
     (if k < length t \<and> (t ! k = CHR ''!'' \<or> t ! k = CHR ''&'')
      then key_properties t (key_property t k) else k)"
  by pat_completeness auto
termination
proof (relation "measure (\<lambda>(t, k). length t - k)", goal_cases)
  case (2 t k)
  then show ?case
    using key_property_progress [of k t] by (auto intro: diff_less_mono2)
qed simp

declare key_properties.simps [simp del]

text \<open>Where the pending key starting at \<open>k\<close> ends, when it survives to the end of the input.\<close>

definition pending_key_end :: "string \<Rightarrow> nat \<Rightarrow> nat \<Rightarrow> nat option" where
  "pending_key_end t k K =
     (let n = length t in
      if k = n \<or> is_break_c (t ! k) \<or> t ! k = CHR ''#'' then
        (if only_comment_to_eof t k then Some k else None)
      else if t ! k \<in> {CHR 0x22, CHR 0x27, CHR ''['', CHR ''{'', CHR ''*''} then
        (let stop =
           (if t ! k = CHR ''*''
            then advance (\<lambda>j. \<not> is_blank_c (t ! j) \<and> \<not> is_break_c (t ! j)) n (k + 1)
            else if t ! k = CHR 0x22 \<or> t ! k = CHR 0x27 then quoted_end t k
            else flow_end t k 0) in
         if stop = 0 \<or> \<not> only_comment_to_eof t stop then None else Some stop)
      else plain_key_survives t k (K + 1))"

definition raw_nul :: string where
  "raw_nul = map of_byte [0xF3, 0xB0, 0x80, 0x80]"

definition trailing_key_fix :: "yproblem \<Rightarrow> yopen list \<Rightarrow> string \<Rightarrow> string option" where
  "trailing_key_fix p open t =
     (if \<not> problem_is p (''could not find expected '' @ [CHR 0x27, CHR '':'', CHR 0x27])
           (Some ''while scanning a simple key'') then None
      else
        (let n = length t; K = yp_context_column p; kb = char_to_byte t (yp_context_index p);
             nul = advance (\<lambda>j. j + 3 < n \<and> \<not> is_break_c (t ! j) \<and> slice t j (j + 4) \<noteq> raw_nul) n kb in
         if kb \<ge> n then None
         else if nul + 3 < n \<and> \<not> is_break_c (t ! nul) then None
         else if list_ex yo_flow open then None
         else
           (let depth = pop_indent open K (length open) in
            if depth = 0 then Some (take (retreat (\<lambda>j. \<not> is_break_c (t ! (j - 1))) 0 kb) t)
            else if \<not> yo_map (open ! (depth - 1)) \<or> yo_column (open ! (depth - 1)) \<noteq> K then None
            else
              (case pending_key_end t (key_properties t kb) K of
                 None \<Rightarrow> None
               | Some stop \<Rightarrow>
                   Some (take kb t @ ''? '' @ slice t kb stop @ [CHR 0x0A] @ replicate K (CHR '' '')
                         @ '':'' @ [CHR 0x0A] @ drop stop t)))))"

text \<open>The rest of a double-quoted scalar with \<open>\'\<close> replaced, and what follows it.\<close>

fun quote_escape_rest :: "string \<Rightarrow> string" where
  "quote_escape_rest [] = []"
| "quote_escape_rest [c] = [c]"
| "quote_escape_rest (c # d # r) =
     (if c = CHR 0x5C then (if d = CHR 0x27 then [d] else [c, d]) @ quote_escape_rest r
      else if c = CHR 0x22 then c # d # r
      else c # quote_escape_rest (d # r))"

definition quote_escape_fix :: "yproblem \<Rightarrow> string \<Rightarrow> string option" where
  "quote_escape_fix p t =
     (if \<not> problem_is p ''found unknown escape character'' None then None
      else
        (let at = char_to_byte t (yp_problem_index p) in
         if at + 1 \<ge> length t \<or> t ! at \<noteq> CHR 0x5C \<or> t ! (at + 1) \<noteq> CHR 0x27 then None
         else Some (take at t @ quote_escape_rest (drop at t))))"

definition splice :: "string \<Rightarrow> nat \<Rightarrow> nat \<Rightarrow> string \<Rightarrow> string" where
  "splice t at del ins = take at t @ ins @ drop (at + del) t"

definition flow_value_end :: "string \<Rightarrow> nat \<Rightarrow> bool" where
  "flow_value_end t i \<longleftrightarrow> ends_at t i \<or> strchr '',]}'' (t ! i)"

definition flow_colon_fix :: "yproblem \<Rightarrow> yopen list \<Rightarrow> string \<Rightarrow> string option" where
  "flow_colon_fix p open t =
     (if \<not> problem_is p ''did not find expected node content'' None then None
      else if open = [] \<or> \<not> yo_flow (last open) then None
      else
        (let n = length t; at = char_to_byte t (yp_problem_index p) in
         if at < n \<and> t ! at = CHR '','' then Some (splice t at 0 ''~'')
         else if at \<ge> n \<or> t ! at \<noteq> CHR '':'' then None
         else if flow_value_end t (at + 1) then Some (splice t at 0 ''~'')
         else if strchr ''[{?'' (t ! (at + 1)) then None
         else
           (let e = advance (\<lambda>e. \<not> is_break_c (t ! e) \<and> \<not> strchr '',?[]{}'' (t ! e)
                      \<and> \<not> (t ! e = CHR '':'' \<and> flow_value_end t (e + 1))
                      \<and> \<not> (is_blank_c (t ! e) \<and> e + 1 < n \<and> t ! (e + 1) = CHR ''#'')) n (at + 1);
                e = retreat (\<lambda>j. is_blank_c (t ! (j - 1))) at e in
            Some (take at t @ [CHR 0x22]
              @ concat (map (\<lambda>c. if c = CHR 0x22 \<or> c = CHR 0x5C then [CHR 0x5C, c] else [c])
                  (slice t at e))
              @ [CHR 0x22] @ drop e t))))"

definition unterminated_quote_fix :: "yproblem \<Rightarrow> string \<Rightarrow> string option" where
  "unterminated_quote_fix p t =
     (if \<not> problem_is p ''found unexpected end of stream'' (Some ''while scanning a quoted scalar'')
      then None
      else
        (let n = length t; at = char_to_byte t (yp_context_index p) in
         if at \<ge> n \<or> (t ! at \<noteq> CHR 0x22 \<and> t ! at \<noteq> CHR 0x27) then None
         else
           (let tail = retreat (\<lambda>j. \<not> is_break_c (t ! (j - 1))) (at + 1) n in
            if (if tail = at + 1 then n \<noteq> at + 1 else \<not> list_all is_blank_c (drop tail t))
            then None
            else Some (splice t n 0 [t ! at]))))"

definition empty_key_fix :: "yproblem \<Rightarrow> string \<Rightarrow> string option" where
  "empty_key_fix p t =
     (if \<not> problem_is p ''did not find expected key'' (Some ''while parsing a block mapping'') then None
      else
        (let at = char_to_byte t (yp_problem_index p) in
         if at \<ge> length t \<or> t ! at \<noteq> CHR '':'' \<or> \<not> ends_at t (at + 1) then None
         else Some (splice t at 0 ''~'')))"

definition tab_fix :: "yproblem \<Rightarrow> string \<Rightarrow> string option" where
  "tab_fix p t =
     (if \<not> problem_is p ''found character that cannot start any token'' None then None
      else
        (let n = length t; at = char_to_byte t (yp_problem_index p);
             e = advance (\<lambda>j. is_blank_c (t ! j)) n at;
             v = advance (\<lambda>j. \<not> is_break_c (t ! j) \<and> \<not> (t ! j = CHR '':'' \<and> ends_at t (j + 1))) n e in
         if at \<ge> n \<or> t ! at \<noteq> CHR 0x09 then None
         else if e < n \<and> \<not> is_break_c (t ! e) \<and> t ! e \<noteq> CHR ''#''
              \<and> (t ! e \<in> {CHR ''-'', CHR ''?'', CHR '':''} \<and> ends_at t (e + 1)
                 \<or> v < n \<and> \<not> is_break_c (t ! v))
         then None
         else Some (take at t @ map (\<lambda>c. if c = CHR 0x09 then CHR '' '' else c) (slice t at e)
                    @ drop e t)))"

definition anchor_name_end :: "char \<Rightarrow> bool" where
  "anchor_name_end c \<longleftrightarrow> is_blank_c c \<or> is_break_c c \<or> strchr ''[]{},'' c"

definition anchor_at :: "yproblem \<Rightarrow> string \<Rightarrow> nat option" where
  "anchor_at p t =
     (if problem_is p ''did not find expected alphabetic or numeric character'' None
         \<and> (yp_context p = Some ''while scanning an anchor''
            \<or> yp_context p = Some ''while scanning an alias'')
      then Some (char_to_byte t (yp_context_index p))
      else if problem_is p ''found character that cannot start any token'' None then
        (let e = char_to_byte t (yp_problem_index p) in
         if e \<ge> length t \<or> \<not> strchr ''%@`'' (t ! e) then None
         else Some (retreat (\<lambda>j. \<not> is_blank_c (t ! (j - 1)) \<and> \<not> is_break_c (t ! (j - 1))
                      \<and> \<not> strchr ''[]{},'' (t ! (j - 1))) 0 e))
      else None)"

definition anchor_rename :: "string \<Rightarrow> string" where
  "anchor_rename name =
     ''__sbx_'' @ concat (map (\<lambda>c. [''0123456789abcdef'' ! (byte c div 16),
                                 ''0123456789abcdef'' ! (byte c mod 16)]) name)"

definition anchor_token :: "string \<Rightarrow> string \<Rightarrow> nat \<Rightarrow> bool" where
  "anchor_token t name i \<longleftrightarrow>
     (t ! i = CHR ''&'' \<or> t ! i = CHR ''*'') \<and> length t - i - 1 \<ge> length name
     \<and> slice t (i + 1) (i + 1 + length name) = name
     \<and> \<not> (i + 1 + length name < length t \<and> \<not> anchor_name_end (t ! (i + 1 + length name)))
     \<and> \<not> (i > 0 \<and> \<not> is_blank_c (t ! (i - 1)) \<and> \<not> is_break_c (t ! (i - 1)) \<and> \<not> strchr ''[{,'' (t ! (i - 1)))"

function anchor_loop :: "string \<Rightarrow> nat \<Rightarrow> string \<Rightarrow> bool \<Rightarrow> nat \<Rightarrow> nat \<Rightarrow> string" where
  "anchor_loop t at name bulk i copied =
     (if i < length t then
        (if i = at \<or> (bulk \<and> anchor_token t name i) then
           slice t copied (i + 1) @ anchor_rename name
           @ anchor_loop t at name bulk (i + 1 + length name) (i + 1 + length name)
         else if \<not> bulk then drop copied t
         else anchor_loop t at name bulk (i + 1) copied)
      else drop copied t)"
  by pat_completeness auto
termination
  by (relation "measure (\<lambda>(t, at, name, bulk, i, copied). length t - i)") auto

declare anchor_loop.simps [simp del]

definition anchor_fix :: "yproblem \<Rightarrow> string \<Rightarrow> bool \<Rightarrow> string option" where
  "anchor_fix p t bulk =
     (case anchor_at p t of
        None \<Rightarrow> None
      | Some at \<Rightarrow>
          (let n = length t; e = advance (\<lambda>j. \<not> anchor_name_end (t ! j)) n (at + 1) in
           if at \<ge> n \<or> (t ! at \<noteq> CHR ''&'' \<and> t ! at \<noteq> CHR ''*'') then None
           else if e = at + 1 \<or> (e < n \<and> (t ! e = CHR ''['' \<or> t ! e = CHR ''{'')) then None
           else Some (anchor_loop t at (slice t (at + 1) e) bulk (if bulk then 0 else at) 0)))"

end
