(* ===== verification/Yaml_Load.thy ===== *)
theory Yaml_Load
  imports Types Yaml_Bytes Yaml_Fix
begin

text \<open>
  \<open>c/src/proxy_parser.c\<close>, from a YAML text to JSON: the tree built from the events of \<open>libyaml\<close>, the
  rewrite-and-retry rounds, and \<open>yaml_to_json\<close>. \<open>libyaml\<close> is a parameter: a function from a text
  to the events it delivers and the error it reports after them. A pointer to a node is its index
  in \<open>yl_all\<close>, so that aliases share nodes and may form cycles, as in the source.
\<close>

subsection \<open>Events and the loader's state\<close>

datatype scalar_style =
  PLAIN_STYLE | SINGLE_QUOTED_STYLE | DOUBLE_QUOTED_STYLE | LITERAL_STYLE | FOLDED_STYLE

text \<open>A scalar event carries its anchor, its value, whether it has a tag, and its style; a
  collection start its anchor and whether it is in flow style; a document end whether it is
  implicit.\<close>

datatype yevent_data =
    STREAM_START
  | STREAM_END
  | DOCUMENT_START
  | DOCUMENT_END bool
  | ALIAS string
  | SCALAR "string option" string bool scalar_style
  | SEQUENCE_START "string option" bool
  | SEQUENCE_END
  | MAPPING_START "string option" bool
  | MAPPING_END

record yevent =
  ev_data :: yevent_data
  ev_start_index :: nat
  ev_start_column :: nat
  ev_end_index :: nat
  ev_end_column :: nat

type_synonym libyaml = "string \<Rightarrow> yevent list \<times> yproblem"

datatype ynode = Y_NULL | Y_SCALAR string | Y_SEQ "nat list" | Y_MAP "nat list"

text \<open>\<open>yl_events\<close> are the events the parser has not delivered yet, and \<open>yl_error\<close> the error it
  reported when asked for more.\<close>

record yload =
  yl_events :: "yevent list"
  yl_problem :: yproblem
  yl_error :: bool
  yl_all :: "ynode list"
  yl_parsed_nodes :: nat
  yl_anchors :: "(string \<times> nat) list"
  yl_open :: "yopen list"
  yl_text :: string
  yl_cur_char :: nat
  yl_cur_byte :: nat
  yl_sanitized :: bool

definition no_problem :: yproblem where
  "no_problem = \<lparr>yp_problem = None, yp_context = None, yp_problem_index = 0, yp_context_index = 0,
     yp_context_column = 0\<rparr>"

text \<open>What the rewrites see of the parser: no error unless the parser failed.\<close>

definition parser_problem :: "yload \<Rightarrow> yproblem" where
  "parser_problem L = (if yl_error L then yl_problem L else no_problem)"

definition yaml_parser_parse :: "yload \<Rightarrow> yevent option \<times> yload" where
  "yaml_parser_parse L =
     (case yl_events L of
        [] \<Rightarrow> (None, L\<lparr>yl_error := True\<rparr>)
      | ev # evs \<Rightarrow> (Some ev, L\<lparr>yl_events := evs\<rparr>))"

definition ynew :: "yload \<Rightarrow> ynode \<Rightarrow> nat \<times> yload" where
  "ynew L kind = (length (yl_all L), L\<lparr>yl_all := yl_all L @ [kind]\<rparr>)"

definition ypush :: "yload \<Rightarrow> nat \<Rightarrow> nat \<Rightarrow> yload" where
  "ypush L parent child =
     L\<lparr>yl_all := (yl_all L)[parent :=
        (case yl_all L ! parent of
           Y_SEQ items \<Rightarrow> Y_SEQ (items @ [child])
         | Y_MAP items \<Rightarrow> Y_MAP (items @ [child])
         | other \<Rightarrow> other)]\<rparr>"

definition yanchor :: "yload \<Rightarrow> string option \<Rightarrow> nat \<Rightarrow> yload" where
  "yanchor L name node =
     (case name of
        None \<Rightarrow> L
      | Some name \<Rightarrow> L\<lparr>yl_anchors := yl_anchors L @ [(name, node)]\<rparr>)"

definition yload_clear :: "yload \<Rightarrow> yload" where
  "yload_clear L = L\<lparr>yl_events := [], yl_error := False, yl_all := [], yl_anchors := [], yl_open := []\<rparr>"

definition is_null_string :: "string \<Rightarrow> bool" where
  "is_null_string s \<longleftrightarrow> s \<in> {'''', ''~'', ''null'', ''Null'', ''NULL''}"

subsection \<open>Events to nodes\<close>

definition YAML_MAX_NODES :: nat where
  "YAML_MAX_NODES = 2 ^ 64 - 1"

definition YAML_MAX_DEPTH :: nat where
  "YAML_MAX_DEPTH = 500"

fun yl_cursor :: "string \<Rightarrow> nat \<Rightarrow> nat \<Rightarrow> nat \<Rightarrow> nat \<times> nat" where
  "yl_cursor t 0 c b = (c, b)"
| "yl_cursor t (Suc k) c b =
     (if b < length t
      then yl_cursor t k (c + 1) (advance (\<lambda>j. byte (t ! j) div 64 = 2) (length t) (b + 1))
      else (c, b))"

definition yl_byte_at :: "yload \<Rightarrow> nat \<Rightarrow> nat \<times> yload" where
  "yl_byte_at L index =
     (let (c, b) = (if index < yl_cur_char L then (0, 0) else (yl_cur_char L, yl_cur_byte L));
          (c, b) = yl_cursor (yl_text L) (index - c) c b in
      (b, L\<lparr>yl_cur_char := c, yl_cur_byte := b\<rparr>))"

definition block_column :: "yload \<Rightarrow> yevent \<Rightarrow> bool \<Rightarrow> nat \<times> yload" where
  "block_column L ev is_seq =
     (let col = ev_end_column ev in
      if is_seq \<and> col > 0 then
        (let (b, L) = yl_byte_at L (ev_end_index ev) in
         (if \<not> (b < length (yl_text L) \<and> yl_text L ! b = CHR ''-'') then col - 1 else col, L))
      else (col, L))"

text \<open>The last anchor of that name.\<close>

fun anchor_lookup :: "(string \<times> 'a) list \<Rightarrow> string \<Rightarrow> 'a option" where
  "anchor_lookup [] name = None"
| "anchor_lookup ((k, v) # as) name =
     (case anchor_lookup as name of Some w \<Rightarrow> Some w | None \<Rightarrow> if k = name then Some v else None)"

definition yparse_scalar ::
  "yload \<Rightarrow> string option \<Rightarrow> string \<Rightarrow> bool \<Rightarrow> scalar_style \<Rightarrow> nat option \<times> yload" where
  "yparse_scalar L anchor v tagged style =
     (if style = PLAIN_STYLE \<and> \<not> tagged \<and> is_null_string v then
        (let (node, L) = ynew L Y_NULL in (Some node, yanchor L anchor node))
      else
        (let s = (if yl_sanitized L then yaml_unsanitize v else v); (node, L) = ynew L (Y_SCALAR s) in
         if style \<in> {PLAIN_STYLE, LITERAL_STYLE, FOLDED_STYLE} \<and> CHR 0x00 \<in> set s then (None, L)
         else if style = PLAIN_STYLE \<and> yl_open L \<noteq> [] \<and> yo_flow (last (yl_open L))
              \<and> CHR ''?'' \<in> set s then (None, L)
         else (Some node, yanchor L anchor node)))"

definition yopen_push :: "yload \<Rightarrow> yevent \<Rightarrow> bool \<Rightarrow> bool \<Rightarrow> yload" where
  "yopen_push L ev is_seq flow =
     (let (col, L) = (if flow then (ev_start_column ev, L) else block_column L ev is_seq) in
      L\<lparr>yl_open := yl_open L @ [\<lparr>yo_map = \<not> is_seq, yo_flow = flow, yo_column = col\<rparr>]\<rparr>)"

text \<open>The loop over the children of a collection. Each round takes an event of the parser, so fuel
  for one more round than there are events is enough (\<open>yparse_items_fuel\<close>).\<close>

fun yparse_items ::
  "(yload \<Rightarrow> yevent \<Rightarrow> nat option \<times> yload) \<Rightarrow> yevent_data \<Rightarrow> nat \<Rightarrow> nat \<Rightarrow> yload
     \<Rightarrow> nat option \<times> yload" where
  "yparse_items child stop node 0 L = (None, L)"
| "yparse_items child stop node (Suc fuel) L =
     (case yaml_parser_parse L of
        (None, L) \<Rightarrow> (None, L)
      | (Some ev, L) \<Rightarrow>
          (if ev_data ev = stop then (Some node, L\<lparr>yl_open := butlast (yl_open L)\<rparr>)
           else
             (case child L ev of
                (None, L) \<Rightarrow> (None, L)
              | (Some c, L) \<Rightarrow> yparse_items child stop node fuel (ypush L node c))))"

definition yparse_collection ::
  "(yload \<Rightarrow> yevent \<Rightarrow> nat option \<times> yload) \<Rightarrow> yload \<Rightarrow> yevent \<Rightarrow> bool \<Rightarrow> string option \<Rightarrow> bool
     \<Rightarrow> nat option \<times> yload" where
  "yparse_collection child L ev is_seq anchor flow =
     (let (node, L) = ynew L (if is_seq then Y_SEQ [] else Y_MAP []);
          L = yopen_push (yanchor L anchor node) ev is_seq flow in
      yparse_items child (if is_seq then SEQUENCE_END else MAPPING_END) node
        (Suc (length (yl_events L))) L)"

text \<open>The first argument is how many levels the depth is below \<open>YAML_MAX_DEPTH\<close>.\<close>

primrec yparse_node :: "nat \<Rightarrow> yload \<Rightarrow> yevent \<Rightarrow> nat option \<times> yload" where
  "yparse_node 0 L ev = (None, L)"
| "yparse_node (Suc d) L ev =
     (if yl_parsed_nodes L \<ge> YAML_MAX_NODES then (None, L)
      else
        (let L = L\<lparr>yl_parsed_nodes := yl_parsed_nodes L + 1\<rparr> in
         case ev_data ev of
           ALIAS name \<Rightarrow> (anchor_lookup (yl_anchors L) name, L)
         | SCALAR anchor v tagged style \<Rightarrow> yparse_scalar L anchor v tagged style
         | SEQUENCE_START anchor flow \<Rightarrow> yparse_collection (yparse_node d) L ev True anchor flow
         | MAPPING_START anchor flow \<Rightarrow> yparse_collection (yparse_node d) L ev False anchor flow
         | _ \<Rightarrow> (None, L)))"

subsection \<open>Attempts and rounds\<close>

text \<open>The result is \<open>None\<close> where \<open>*ok\<close> stays false.\<close>

definition yload_attempt :: "libyaml \<Rightarrow> yload \<Rightarrow> string \<Rightarrow> nat option \<times> yload" where
  "yload_attempt libyaml L text =
     (let (evs, problem) = libyaml text;
          L = L\<lparr>yl_events := evs, yl_problem := problem, yl_error := False, yl_text := text,
                yl_cur_char := 0, yl_cur_byte := 0\<rparr> in
      case yaml_parser_parse L of
        (None, L) \<Rightarrow> (None, L)
      | (Some _, L) \<Rightarrow>
          (case yaml_parser_parse L of
             (None, L) \<Rightarrow> (None, L)
           | (Some ev, L) \<Rightarrow>
               (if ev_data ev = STREAM_END
                then (let (node, L) = ynew L Y_NULL in (Some node, L))
                else
                  (case yaml_parser_parse L of
                     (None, L) \<Rightarrow> (None, L)
                   | (Some ev, L) \<Rightarrow>
                       (case yparse_node (YAML_MAX_DEPTH - 1) L ev of
                          (None, L) \<Rightarrow> (None, L)
                        | (Some root, L) \<Rightarrow>
                            (case yaml_parser_parse L of
                               (None, L) \<Rightarrow> (None, L)
                             | (Some ev, L) \<Rightarrow>
                                 (let next = char_to_byte text (ev_start_index ev) in
                                  if next < length text
                                     \<and> (text ! next = CHR '']'' \<or> text ! next = CHR ''}'')
                                  then (None, L)
                                  else if ev_data ev = DOCUMENT_END False then
                                    (case yaml_parser_parse L of
                                       (None, L) \<Rightarrow>
                                         (if \<not> problem_is (parser_problem L)
                                               ''did not find expected <document start>'' None
                                          then (None, L) else (Some root, L))
                                     | (Some _, L) \<Rightarrow> (Some root, L))
                                  else (Some root, L))))))))"

definition YAML_MAX_FIX_ROUNDS :: nat where
  "YAML_MAX_FIX_ROUNDS = 1024"

definition YAML_MAX_FIX_BYTES :: nat where
  "YAML_MAX_FIX_BYTES = 256 * 1024 * 1024"

definition or_else :: "'a option \<Rightarrow> 'a option \<Rightarrow> 'a option" where
  "or_else a b = (case a of None \<Rightarrow> b | Some x \<Rightarrow> Some x)"

text \<open>The rewrites that keep anchor names, up to \<open>anchor_fix\<close>.\<close>

definition early_fixes :: "yload \<Rightarrow> string \<Rightarrow> string option" where
  "early_fixes L text =
     (let p = parser_problem L in
      or_else (quote_escape_fix p text) (or_else (flow_colon_fix p (yl_open L) text)
        (or_else (unterminated_quote_fix p text) (or_else (empty_key_fix p text) (tab_fix p text)))))"

text \<open>The first argument counts the rounds left; the flag tells whether a name was changed.\<close>

primrec yload_rounds ::
  "nat \<Rightarrow> libyaml \<Rightarrow> bool \<Rightarrow> nat \<Rightarrow> bool \<Rightarrow> yload \<Rightarrow> string \<Rightarrow> nat option \<times> bool \<times> yload" where
  "yload_rounds 0 libyaml bulk work renamed L text =
     (case yload_attempt libyaml L text of (root, L) \<Rightarrow> (root, renamed, L))"
| "yload_rounds (Suc r) libyaml bulk work renamed L text =
     (case yload_attempt libyaml L text of
        (Some root, L) \<Rightarrow> (Some root, renamed, L)
      | (None, L) \<Rightarrow>
          (let work = work + length text; p = parser_problem L in
           if work > YAML_MAX_FIX_BYTES then (None, renamed, L)
           else
             (case early_fixes L text of
                Some fixed \<Rightarrow> yload_rounds r libyaml bulk work renamed (yload_clear L) fixed
              | None \<Rightarrow>
                  (case anchor_fix p text bulk of
                     Some fixed \<Rightarrow> yload_rounds r libyaml bulk work True (yload_clear L) fixed
                   | None \<Rightarrow>
                       (case trailing_key_fix p (yl_open L) text of
                          Some fixed \<Rightarrow> yload_rounds r libyaml bulk work renamed (yload_clear L) fixed
                        | None \<Rightarrow> (None, renamed, L))))))"

fun has_infix :: "string \<Rightarrow> string \<Rightarrow> bool" where
  "has_infix p [] \<longleftrightarrow> p = []"
| "has_infix p (c # s) \<longleftrightarrow> take (length p) (c # s) = p \<or> has_infix p s"

definition rename_leaked :: "yload \<Rightarrow> bool" where
  "rename_leaked L =
     list_ex (\<lambda>n. case n of Y_SCALAR s \<Rightarrow> has_infix ''__sbx_'' s | _ \<Rightarrow> False) (yl_all L)"

definition yload_init :: "bool \<Rightarrow> yload" where
  "yload_init sanitized =
     \<lparr>yl_events = [], yl_problem = no_problem, yl_error = False, yl_all = [], yl_parsed_nodes = 0,
      yl_anchors = [], yl_open = [], yl_text = [], yl_cur_char = 0, yl_cur_byte = 0,
      yl_sanitized = sanitized\<rparr>"

definition yload_first :: "libyaml \<Rightarrow> string \<Rightarrow> (nat \<times> yload) option" where
  "yload_first libyaml text =
     (let text = yamlcpp_decode text;
          (text, L) = (case yaml_sanitize text of
             Some s \<Rightarrow> (s, yload_init True) | None \<Rightarrow> (text, yload_init False));
          (root, renamed, L) = yload_rounds YAML_MAX_FIX_ROUNDS libyaml True 0 False L text;
          (root, renamed, L) =
            (if root \<noteq> None \<and> renamed \<and> rename_leaked L
             then yload_rounds YAML_MAX_FIX_ROUNDS libyaml False 0 False (yload_clear L) text
             else (root, renamed, L)) in
      map_option (\<lambda>root. (root, L)) root)"

subsection \<open>Nodes to JSON\<close>

definition YAML_CONVERT_BUDGET :: nat where
  "YAML_CONVERT_BUDGET = 2000000"

definition YAML_CONVERT_DEPTH :: nat where
  "YAML_CONVERT_DEPTH = 1000"

definition YAML_CONVERT_STRING_BUDGET :: nat where
  "YAML_CONVERT_STRING_BUDGET = 2 ^ 64 - 1"

record yaml_convert_limits =
  lim_nodes :: nat
  lim_bytes :: nat
  lim_exhausted :: bool

type_synonym convert = "nat \<Rightarrow> yaml_convert_limits \<Rightarrow> sbj \<times> yaml_convert_limits"

fun convert_items :: "convert \<Rightarrow> nat list \<Rightarrow> sbj \<Rightarrow> yaml_convert_limits \<Rightarrow> sbj \<times> yaml_convert_limits" where
  "convert_items conv [] a budget = (a, budget)"
| "convert_items conv (i # items) a budget =
     (let (v, budget) = conv i budget in convert_items conv items (sbj_arr_push a (Some v)) budget)"

fun convert_pairs ::
  "convert \<Rightarrow> ynode list \<Rightarrow> nat list \<Rightarrow> sbj \<Rightarrow> yaml_convert_limits \<Rightarrow> sbj \<times> yaml_convert_limits" where
  "convert_pairs conv all (k # v # items) ob budget =
     (case all ! k of
        Y_SCALAR s \<Rightarrow>
          (if CHR 0x00 \<in> set s then convert_pairs conv all items ob budget
           else if length s > lim_bytes budget then (ob, budget\<lparr>lim_exhausted := True\<rparr>)
           else
             (let (w, budget) = conv v (budget\<lparr>lim_bytes := lim_bytes budget - length s\<rparr>) in
              convert_pairs conv all items (sbj_setn ob (Some s) (Some w)) budget))
      | _ \<Rightarrow> convert_pairs conv all items ob budget)"
| "convert_pairs conv all _ ob budget = (ob, budget)"

text \<open>The first argument is how many levels are left up to \<open>YAML_CONVERT_DEPTH\<close>; \<open>visiting\<close> are the
  nodes whose flag is set, the ones on the path from the root.\<close>

primrec yaml_to_json :: "nat \<Rightarrow> ynode list \<Rightarrow> nat set \<Rightarrow> convert" where
  "yaml_to_json 0 all visiting n budget = (sbj_null, budget\<lparr>lim_exhausted := True\<rparr>)"
| "yaml_to_json (Suc d) all visiting n budget =
     (if lim_nodes budget = 0 \<or> n \<in> visiting then (sbj_null, budget\<lparr>lim_exhausted := True\<rparr>)
      else
        (let budget = budget\<lparr>lim_nodes := lim_nodes budget - 1\<rparr> in
         case all ! n of
           Y_SCALAR s \<Rightarrow>
             (if length s > lim_bytes budget then (sbj_null, budget\<lparr>lim_exhausted := True\<rparr>)
              else (sbj_strn s, budget\<lparr>lim_bytes := lim_bytes budget - length s\<rparr>))
         | Y_SEQ items \<Rightarrow> convert_items (yaml_to_json d all (insert n visiting)) items sbj_array budget
         | Y_MAP items \<Rightarrow>
             convert_pairs (yaml_to_json d all (insert n visiting)) all items sbj_object budget
         | Y_NULL \<Rightarrow> (sbj_null, budget)))"

end
