(* ===== verification/Proxy_Import.thy ===== *)
theory Proxy_Import
  imports Proxy_Uri Yaml_Load
begin

text \<open>
  \<open>c/src/proxy_parser.c\<close>, last part: Clash proxies, subscription bodies, subscription reports and the
  import of sing-box outbounds. OpenSSL's block decoder and \<open>libyaml\<close> are parameters; a
  \<open>sb_parsed_node_vec\<close> and a \<open>sb_strvec\<close> are lists.
\<close>

subsection \<open>Clash proxies\<close>

definition string_value :: "sbj option \<Rightarrow> string \<Rightarrow> string option" where
  "string_value v field =
     (case jget v field of
        None \<Rightarrow> None
      | Some (SBJ_STRING s) \<Rightarrow> Some s
      | Some (SBJ_BOOL b) \<Rightarrow> Some (if b then ''true'' else ''false'')
      | Some f \<Rightarrow>
          (if sbj_is_number (Some f) then Some (cstr (sbj_dump (Some f) (- 1))) else None))"

definition string_value_or :: "sbj option \<Rightarrow> string \<Rightarrow> string \<Rightarrow> string" where
  "string_value_or v field fallback =
     (case string_value v field of None \<Rightarrow> fallback | Some s \<Rightarrow> s)"

text \<open>The magnitude of a decimal number, \<open>None\<close> on another character or above \<open>UINT64_MAX\<close>.\<close>

fun magnitude :: "string \<Rightarrow> nat \<Rightarrow> nat option" where
  "magnitude [] mag = Some mag"
| "magnitude (c # s) mag =
     (if byte c < 48 \<or> byte c > 57 then None
      else
        (let d = byte c - 48 in
         if mag > (2 ^ 64 - 1 - d) div 10 then None else magnitude s (mag * 10 + d)))"

definition integer_value :: "sbj option \<Rightarrow> string \<Rightarrow> int option" where
  "integer_value v field =
     (case jget v field of
        Some (SBJ_INT i) \<Rightarrow> Some i
      | Some (SBJ_UINT u) \<Rightarrow> Some (wrap_i64 (int u))
      | Some (SBJ_STRING s) \<Rightarrow>
          (let neg = (s \<noteq> [] \<and> s ! 0 = CHR ''-''); digits = (if neg then drop 1 s else s) in
           if digits = [] then None
           else
             (case magnitude digits 0 of
                None \<Rightarrow> None
              | Some mag \<Rightarrow>
                  (if neg
                   then (if mag > 2 ^ 63 then None else Some (- int mag))
                   else (if mag > 2 ^ 63 - 1 then None else Some (int mag)))))
      | _ \<Rightarrow> None)"

definition ascii_ieq :: "string \<Rightarrow> string \<Rightarrow> bool" where
  "ascii_ieq v lower =
     (map (\<lambda>c. if 65 \<le> byte c \<and> byte c \<le> 90 then of_byte (byte c + 32) else c) v = lower)"

definition boolean_value :: "sbj option \<Rightarrow> string \<Rightarrow> bool" where
  "boolean_value v field =
     (case jget v field of
        Some (SBJ_BOOL b) \<Rightarrow> b
      | Some (SBJ_STRING s) \<Rightarrow> ascii_ieq s ''true'' \<or> s = ''1''
      | _ \<Rightarrow> False)"

text \<open>\<open>if (sbj_has(o, k)) sbj_set(t, k, sbj_clone(sbj_get(o, k)))\<close>\<close>

definition copy_member :: "sbj \<Rightarrow> sbj option \<Rightarrow> string \<Rightarrow> sbj" where
  "copy_member t v k = (if sbj_has v (Some k) then jset t k (sbj_clone (the (jget v k))) else t)"

text \<open>\<open>if (string_value(v, field, &s)) sbj_set(t, key, sbj_take_str(&s))\<close>\<close>

definition set_string_value :: "sbj \<Rightarrow> string \<Rightarrow> sbj option \<Rightarrow> string \<Rightarrow> sbj" where
  "set_string_value t key v field =
     (case string_value v field of None \<Rightarrow> t | Some s \<Rightarrow> jset t key (sbj_strn s))"

definition clash_transport :: "sbj option \<Rightarrow> sbj option" where
  "clash_transport proxy =
     (let net = string_value_or proxy ''network'' [] in
      if net = ''ws'' then
        (let t = jset_str sbj_object ''type'' ''ws''; opts = jget proxy ''ws-opts'' in
         Some (if sbj_is_object opts then copy_member (copy_member t opts ''path'') opts ''headers''
               else set_string_value t ''path'' proxy ''ws-path''))
      else if net = ''grpc'' then
        (let t = jset_str sbj_object ''type'' ''grpc''; opts = jget proxy ''grpc-opts'' in
         Some (if sbj_is_object opts
               then set_string_value t ''service_name'' opts ''grpc-service-name'' else t))
      else if net = ''h2'' \<or> net = ''http'' then
        (let t = jset_str sbj_object ''type'' ''http'';
             opts = jget proxy (if net = ''h2'' then ''h2-opts'' else ''http-opts'') in
         if sbj_is_object opts then
           (let t = copy_member t opts ''host''; path = jget opts ''path'' in
            Some (if sbj_is_array path \<and> sbj_arr_len path > 0
                  then jset t ''path'' (sbj_clone (the (sbj_arr_at path 0)))
                  else if sbj_is_string path then jset t ''path'' (sbj_clone (the path))
                  else t))
         else Some t)
      else None)"

definition reality_tls :: "sbj \<Rightarrow> sbj option \<Rightarrow> sbj" where
  "reality_tls tls reality =
     (let r = jset_bool sbj_object ''enabled'' True;
          r = set_string_value r ''public_key'' reality ''public-key'';
          r = set_string_value r ''short_id'' reality ''short-id'';
          tls = jset tls ''reality'' r in
      if \<not> sbj_has (Some tls) (Some ''utls'')
      then jset tls ''utls'' (utls (sbj_strn ''chrome'')) else tls)"

definition clash_tls :: "sbj option \<Rightarrow> bool \<Rightarrow> sbj option" where
  "clash_tls proxy enabled =
     (if \<not> enabled then None
      else
        (let tls = jset_bool sbj_object ''enabled'' True;
             sni = string_value_or proxy ''sni'' [];
             sni = (if sni = [] then string_value_or proxy ''servername'' [] else sni);
             tls = (if sni \<noteq> [] then jset tls ''server_name'' (sbj_strn sni) else tls);
             tls = (if boolean_value proxy ''skip-cert-verify'' then jset_bool tls ''insecure'' True
                    else tls);
             alpn = jget proxy ''alpn'';
             tls = (if sbj_is_array alpn then jset tls ''alpn'' (sbj_clone (the alpn))
                    else if sbj_is_string alpn then jset tls ''alpn'' (split_alpn (str_of alpn))
                    else tls);
             fp = string_value_or proxy ''client-fingerprint'' [];
             tls = (if fp \<noteq> [] then jset tls ''utls'' (utls (sbj_strn fp)) else tls);
             reality = jget proxy ''reality-opts'' in
         Some (if sbj_is_object reality then reality_tls tls reality else tls)))"

definition set_opt :: "sbj \<Rightarrow> string \<Rightarrow> sbj option \<Rightarrow> sbj" where
  "set_opt config key v = (case v of None \<Rightarrow> config | Some x \<Rightarrow> jset config key x)"

definition set_str :: "sbj \<Rightarrow> string \<Rightarrow> string \<Rightarrow> sbj" where
  "set_str config key s = jset config key (sbj_strn s)"

definition clash_type :: "string \<Rightarrow> string option" where
  "clash_type t =
     (if t = ''ss'' \<or> t = ''shadowsocks'' then Some ''shadowsocks''
      else if t = ''hy2'' \<or> t = ''hysteria2'' then Some ''hysteria2''
      else if t = ''vmess'' then Some ''vmess''
      else if t = ''vless'' then Some ''vless''
      else if t = ''trojan'' then Some ''trojan''
      else if t = ''tuic'' then Some ''tuic''
      else if t = ''http'' then Some ''http''
      else if t = ''socks5'' \<or> t = ''socks'' then Some ''socks''
      else None)"

definition clash_hysteria2 :: "sbj option \<Rightarrow> sbj" where
  "clash_hysteria2 proxy =
     (let password = string_value_or proxy ''password'' [];
          password = (if password = [] then string_value_or proxy ''auth'' [] else password);
          password = (if password = [] then string_value_or proxy ''auth-str'' [] else password);
          config = set_str sbj_object ''password'' password;
          config = set_opt config ''tls'' (clash_tls proxy True);
          obfs = string_value_or proxy ''obfs'' [] in
      if obfs \<noteq> []
      then jset config ''obfs''
        (set_string_value (jset sbj_object ''type'' (sbj_strn obfs)) ''password'' proxy ''obfs-password'')
      else config)"

definition clash_basic :: "sbj option \<Rightarrow> string \<Rightarrow> sbj option" where
  "clash_basic proxy type =
     (let config = sbj_object;
          user = string_value_or proxy ''username'' [];
          config = (if user \<noteq> [] then set_str config ''username'' user else config);
          pw = string_value_or proxy ''password'' [];
          config = (if pw \<noteq> [] then set_str config ''password'' pw else config) in
      if type = ''socks'' then
        (if boolean_value proxy ''tls'' then None else Some (jset_str config ''version'' ''5''))
      else Some (set_opt config ''tls'' (clash_tls proxy (boolean_value proxy ''tls''))))"

definition alter_id :: "sbj option \<Rightarrow> int" where
  "alter_id proxy =
     (case integer_value proxy ''alterId'' of
        Some aid \<Rightarrow> aid
      | None \<Rightarrow> (case integer_value proxy ''alterid'' of Some aid \<Rightarrow> aid | None \<Rightarrow> 0))"

definition clash_config :: "sbj option \<Rightarrow> string \<Rightarrow> sbj option" where
  "clash_config proxy type =
     (let text = string_value_or proxy; config = sbj_object in
      if type = ''shadowsocks'' then
        Some (set_str (set_str config ''method'' (text ''cipher'' [])) ''password'' (text ''password'' []))
      else if type = ''vmess'' then
        (let config = set_str config ''uuid'' (text ''uuid'' []);
             config = jset_int config ''alter_id'' (alter_id proxy);
             config = set_str config ''security'' (text ''cipher'' ''auto'');
             config = set_opt config ''transport'' (clash_transport proxy) in
         Some (set_opt config ''tls'' (clash_tls proxy (boolean_value proxy ''tls''))))
      else if type = ''vless'' then
        (let config = set_str config ''uuid'' (text ''uuid'' []);
             config = set_str config ''flow'' (text ''flow'' []);
             config = jset_str config ''packet_encoding'' ''xudp'';
             config = set_opt config ''transport'' (clash_transport proxy);
             reality = sbj_has proxy (Some ''reality-opts'') in
         Some (set_opt config ''tls'' (clash_tls proxy (boolean_value proxy ''tls'' \<or> reality))))
      else if type = ''trojan'' then
        (let config = set_str config ''password'' (text ''password'' []);
             config = set_opt config ''transport'' (clash_transport proxy) in
         Some (set_opt config ''tls'' (clash_tls proxy True)))
      else if type = ''hysteria2'' then Some (clash_hysteria2 proxy)
      else if type = ''tuic'' then
        (let config = set_str config ''uuid'' (text ''uuid'' []);
             config = set_str config ''password'' (text ''password'' []);
             config = set_str config ''congestion_control'' (text ''congestion-controller'' ''bbr'');
             config = set_str config ''udp_relay_mode'' (text ''udp-relay-mode'' ''native'') in
         Some (set_opt config ''tls'' (clash_tls proxy True)))
      else clash_basic proxy type)"

definition clash_proxy :: "sbj option \<Rightarrow> sb_parsed_node option" where
  "clash_proxy proxy =
     (if \<not> sbj_is_object proxy then None
      else
        (let type = clash_type (string_value_or proxy ''type'' []);
             server = string_value_or proxy ''server'' [];
             raw_port = (case integer_value proxy ''port'' of None \<Rightarrow> 0 | Some p \<Rightarrow> p) in
         if server = [] \<or> raw_port \<le> 0 \<or> raw_port > 65535 then None
         else
           (let port = nat raw_port;
                tag = string_value_or proxy ''name'' [];
                tag = (if tag = [] then address_tag server port else tag) in
            case type of
              None \<Rightarrow> None
            | Some type \<Rightarrow>
                (case clash_config proxy type of
                   None \<Rightarrow> None
                 | Some config \<Rightarrow> finish_node type tag server port config True))))"

subsection \<open>Outbounds of a sing-box configuration\<close>

record sb_proxy_import =
  pi_nodes :: "sb_parsed_node list"
  pi_skipped :: "string list"

definition sb_proxy_import_init :: sb_proxy_import where
  "sb_proxy_import_init = \<lparr>pi_nodes = [], pi_skipped = []\<rparr>"

definition outbound_port :: "sbj option \<Rightarrow> nat option" where
  "outbound_port outbound =
     (case jget outbound ''server_port'' of
        Some (SBJ_UINT u) \<Rightarrow> (if u > 0 \<and> u \<le> 65535 then Some u else None)
      | Some (SBJ_INT i) \<Rightarrow> (if i > 0 \<and> i \<le> 65535 then Some (nat i) else None)
      | Some (SBJ_STRING s) \<Rightarrow> parse_port s
      | _ \<Rightarrow> None)"

definition value_or_wrapped :: "sbj option \<Rightarrow> string \<Rightarrow> sbj \<Rightarrow> sbj" where
  "value_or_wrapped ob key fallback =
     (case jget ob key of
        Some f \<Rightarrow> sbj_clone f
      | None \<Rightarrow> sbj_arr_push sbj_array (Some fallback))"

definition copy_if :: "sbj \<Rightarrow> sbj option \<Rightarrow> string \<Rightarrow> sbj" where
  "copy_if config outbound key =
     (case jget outbound key of None \<Rightarrow> config | Some f \<Rightarrow> jset config key (sbj_clone f))"

definition outbound_config :: "sbj option \<Rightarrow> string \<Rightarrow> sbj option" where
  "outbound_config ob type =
     (let config = sbj_object;
          wrapped = (\<lambda>config key fallback. jset config key (value_or_wrapped ob key fallback)) in
      if type = ''shadowsocks'' then
        Some (wrapped (wrapped config ''method'' sbj_null) ''password'' sbj_null)
      else if type = ''vmess'' then
        Some (wrapped (wrapped (wrapped config ''uuid'' sbj_null) ''alter_id'' (sbj_int 0))
                ''security'' (sbj_strn ''auto''))
      else if type = ''vless'' then
        Some (wrapped (wrapped (wrapped config ''uuid'' sbj_null) ''flow'' (sbj_strn []))
                ''packet_encoding'' (sbj_strn ''xudp''))
      else if type = ''trojan'' then Some (wrapped config ''password'' sbj_null)
      else if type = ''hysteria2'' then Some (copy_if (wrapped config ''password'' sbj_null) ob ''obfs'')
      else if type = ''tuic'' then
        Some (copy_if (copy_if (wrapped (wrapped config ''uuid'' sbj_null) ''password'' sbj_null)
                ob ''congestion_control'') ob ''udp_relay_mode'')
      else if type = ''http'' \<or> type = ''socks'' then
        (let config = copy_if (copy_if config ob ''username'') ob ''password'' in
         Some (if type = ''socks''
               then copy_if (copy_if (copy_if config ob ''version'') ob ''network'') ob ''udp_over_tcp''
               else config))
      else None)"

definition parse_outbound :: "sbj option \<Rightarrow> sb_parsed_node option res" where
  "parse_outbound outbound =
     (let t = jget outbound ''type''; s = jget outbound ''server'' in
      if \<not> sbj_is_object outbound \<or> \<not> sbj_is_string t \<or> \<not> sbj_is_string s then Inr None
      else
        (case outbound_port outbound of
           None \<Rightarrow> Inr None
         | Some port \<Rightarrow>
             (if str_of s = [] then Inr None
              else
                res_bind (value_string outbound ''tag'' (str_of s)) (\<lambda>tag.
                  case outbound_config outbound (str_of t) of
                    None \<Rightarrow> Inr None
                  | Some config \<Rightarrow>
                      (let config = (if str_of t \<noteq> ''shadowsocks''
                            then copy_if (copy_if config outbound ''tls'') outbound ''transport''
                            else config) in
                       Inr (finish_node (str_of t) tag (str_of s) port config False))))))"

definition supported_types :: "string list" where
  "supported_types =
     [''shadowsocks'', ''vmess'', ''vless'', ''trojan'', ''hysteria2'', ''tuic'', ''http'', ''socks'']"

definition import_outbound :: "sb_proxy_import \<Rightarrow> sbj \<Rightarrow> sb_proxy_import res" where
  "import_outbound out outbound =
     res_bind (if sbj_is_object (Some outbound) then value_string (Some outbound) ''type'' []
               else Inr []) (\<lambda>type.
       if type \<notin> set supported_types then Inr out
       else
         res_bind (parse_outbound (Some outbound)) (\<lambda>r.
           case r of
             Some node \<Rightarrow> Inr (out\<lparr>pi_nodes := pi_nodes out @ [node]\<rparr>)
           | None \<Rightarrow>
               res_bind (value_string (Some outbound) ''tag'' ''?'') (\<lambda>tag.
                 Inr (out\<lparr>pi_skipped := pi_skipped out @ [cstr (tag @ '' ('' @ type @ '')'')]\<rparr>))))"

fun import_outbounds :: "sb_proxy_import \<Rightarrow> sbj list \<Rightarrow> sb_proxy_import res" where
  "import_outbounds out [] = Inr out"
| "import_outbounds out (o1 # os) =
     res_bind (import_outbound out o1) (\<lambda>out. import_outbounds out os)"

fun array_items :: "sbj option \<Rightarrow> sbj list" where
  "array_items (Some (SBJ_ARRAY xs)) = xs"
| "array_items _ = []"

definition sb_parse_outbound_config :: "sbj option \<Rightarrow> sb_proxy_import res" where
  "sb_parse_outbound_config config =
     (let outbounds =
        (if sbj_is_object config \<and> sbj_is_array (jget config ''outbounds'')
         then jget config ''outbounds''
         else if sbj_is_array config then config else None) in
      case outbounds of
        None \<Rightarrow> Inr sb_proxy_import_init
      | Some _ \<Rightarrow> import_outbounds sb_proxy_import_init (array_items outbounds))"

subsection \<open>Subscription bodies\<close>

definition likely_base64 :: "string \<Rightarrow> bool" where
  "likely_base64 body =
     (let v = sv_trim body in
      length v > 20
      \<and> list_all (\<lambda>c. is_alnum c \<or> c \<in> {CHR ''+'', CHR ''/'', CHR ''-'', CHR ''_'', CHR ''=''} \<or> is_space c) v)"

fun proxies_key :: "ynode list \<Rightarrow> nat list \<Rightarrow> nat option" where
  "proxies_key all (k # v # items) =
     (if all ! k = Y_SCALAR ''proxies'' then Some v else proxies_key all items)"
| "proxies_key all _ = None"

definition unsupported_entry :: "sbj \<Rightarrow> bool" where
  "unsupported_entry proxy =
     (let network = jget (Some proxy) ''network'' in
      sbj_has (Some proxy) (Some ''plugin'') \<or> sbj_has (Some proxy) (Some ''plugin-opts'')
      \<or> (sbj_is_string network \<and> str_of network \<noteq> []
         \<and> str_of network \<notin> {''tcp'', ''ws'', ''grpc'', ''h2'', ''http''}))"

definition clash_message :: "nat \<Rightarrow> bool \<Rightarrow> string" where
  "clash_message i unsupported =
     ''Clash entry '' @ show_nat i @ '': ''
     @ (if unsupported then ''unsupported plugin or transport''
        else ''unsupported protocol or invalid required fields'')"

text \<open>One proxy; \<open>report\<close> tells whether there is a list for the entries left out.\<close>

definition clash_entry :: "bool \<Rightarrow> nat \<Rightarrow> sbj \<Rightarrow> sb_proxy_import \<Rightarrow> sb_proxy_import" where
  "clash_entry report i proxy out =
     (let unsupported = (report \<and> unsupported_entry proxy) in
      case (if unsupported then None else clash_proxy (Some proxy)) of
        Some node \<Rightarrow> out\<lparr>pi_nodes := pi_nodes out @ [node]\<rparr>
      | None \<Rightarrow>
          (if report
           then out\<lparr>pi_skipped := pi_skipped out @ [clash_message (i + 1) unsupported]\<rparr>
           else out))"

fun clash_entries ::
  "ynode list \<Rightarrow> nat \<Rightarrow> bool \<Rightarrow> nat \<Rightarrow> nat list \<Rightarrow> yaml_convert_limits \<Rightarrow> sb_proxy_import \<Rightarrow> sb_proxy_import"
where
  "clash_entries all proxies report i [] budget out = out"
| "clash_entries all proxies report i (item # items) budget out =
     (case yaml_to_json YAML_CONVERT_DEPTH all {proxies} item budget of
        (proxy, budget) \<Rightarrow>
          clash_entries all proxies report (i + 1) items budget (clash_entry report i proxy out))"

text \<open>The nodes of the document, the sequence under \<open>proxies\<close> and its entries; \<open>None\<close> where the
  YAML branch does not apply.\<close>

definition clash_list :: "libyaml \<Rightarrow> string \<Rightarrow> (ynode list \<times> nat \<times> nat list) option" where
  "clash_list libyaml text =
     (case yload_first libyaml text of
        None \<Rightarrow> None
      | Some (root, L) \<Rightarrow>
          (case yl_all L ! root of
             Y_MAP items \<Rightarrow>
               (case proxies_key (yl_all L) items of
                  None \<Rightarrow> None
                | Some proxies \<Rightarrow>
                    (case yl_all L ! proxies of
                       Y_SEQ entries \<Rightarrow>
                         (if entries = [] then None else Some (yl_all L, proxies, entries))
                     | _ \<Rightarrow> None))
           | _ \<Rightarrow> None))"

definition parse_clash_yaml :: "libyaml \<Rightarrow> string \<Rightarrow> bool \<Rightarrow> sb_proxy_import option" where
  "parse_clash_yaml libyaml text report =
     (case clash_list libyaml text of
        None \<Rightarrow> None
      | Some (all, proxies, entries) \<Rightarrow>
          Some (clash_entries all proxies report 0 entries
            \<lparr>lim_nodes = YAML_CONVERT_BUDGET, lim_bytes = YAML_CONVERT_STRING_BUDGET,
             lim_exhausted = False\<rparr> sb_proxy_import_init))"

text \<open>The lines of a list of links, trimmed.\<close>

function text_lines :: "string \<Rightarrow> string list" where
  "text_lines text =
     (if text = [] then []
      else
        (let nl = sv_find text (CHR 0x0A) in
         sv_trim (sv_sub text 0 nl)
         # (case nl of None \<Rightarrow> [] | Some i \<Rightarrow> text_lines (sv_from text (i + 1)))))"
  by pat_completeness auto
termination
  by (relation "measure length") (auto simp: sv_from_def sv_sub_def)

declare text_lines.simps [simp del]

definition comment_line :: "string \<Rightarrow> bool" where
  "comment_line line \<longleftrightarrow> line = [] \<or> line ! 0 = CHR ''#'' \<or> sv_starts line ''//''"

fun uri_lines :: "decode_block \<Rightarrow> string list \<Rightarrow> sb_parsed_node list \<Rightarrow> sb_parsed_node list res" where
  "uri_lines evp [] out = Inr out"
| "uri_lines evp (line # lines) out =
     (if comment_line line then uri_lines evp lines out
      else
        res_bind (sb_parse_proxy_uri_ex evp (Some line)) (\<lambda>r.
          uri_lines evp lines (case r of Some node \<Rightarrow> out @ [node] | None \<Rightarrow> out)))"

definition sb_parse_subscription_body_ex ::
  "decode_block \<Rightarrow> libyaml \<Rightarrow> string option \<Rightarrow> sb_parsed_node list res" where
  "sb_parse_subscription_body_ex evp libyaml body =
     (let input = (case body of None \<Rightarrow> [] | Some s \<Rightarrow> s);
          text =
            (if likely_base64 input
             then (case decode_base64 evp (sv_trim input) of Some d \<Rightarrow> d | None \<Rightarrow> input)
             else input) in
      case parse_clash_yaml libyaml text False of
        Some out \<Rightarrow> Inr (pi_nodes out)
      | None \<Rightarrow> uri_lines evp (text_lines text) [])"

definition sb_parse_subscription_body ::
  "decode_block \<Rightarrow> libyaml \<Rightarrow> string option \<Rightarrow> sb_parsed_node list" where
  "sb_parse_subscription_body evp libyaml body =
     (case sb_parse_subscription_body_ex evp libyaml body of Inl e \<Rightarrow> [] | Inr out \<Rightarrow> out)"

subsection \<open>Subscription reports\<close>

definition forbidden :: "string list" where
  "forbidden = [''certificate_path'', ''client_certificate_path'', ''client_key_path'', ''key_path'',
     ''config_path'', ''certificate_provider'', ''acme'']"

fun subscription_local_reference :: "sbj \<Rightarrow> nat \<Rightarrow> bool"
  and local_members :: "members \<Rightarrow> nat \<Rightarrow> bool"
  and local_items :: "sbj list \<Rightarrow> nat \<Rightarrow> bool" where
  "subscription_local_reference v depth =
     (if depth > 32 then True
      else
        (case v of
           SBJ_OBJECT kvs \<Rightarrow>
             list_ex (\<lambda>k. sbj_has (Some (SBJ_OBJECT kvs)) (Some k)) forbidden
             \<or> local_members kvs (depth + 1)
         | SBJ_ARRAY xs \<Rightarrow> local_items xs (depth + 1)
         | _ \<Rightarrow> False))"
| "local_members [] depth = False"
| "local_members ((k, v) # kvs) depth =
     (subscription_local_reference v depth \<or> local_members kvs depth)"
| "local_items [] depth = False"
| "local_items (v # xs) depth = (subscription_local_reference v depth \<or> local_items xs depth)"

declare subscription_local_reference.simps [simp del]

definition required_fields :: "string \<Rightarrow> string list" where
  "required_fields type =
     (if type = ''shadowsocks'' then [''method'', ''password'']
      else if type = ''vmess'' \<or> type = ''vless'' then [''uuid'']
      else if type = ''tuic'' then [''uuid'', ''password'']
      else if type = ''trojan'' \<or> type = ''hysteria2'' then [''password'']
      else [])"

definition subscription_node_valid :: "sb_parsed_node \<Rightarrow> bool" where
  "subscription_node_valid node =
     (let config = ps_protocol_config node; type = cstr (ps_node_type node) in
      if ps_server node = [] \<or> ps_server_port node = 0 \<or> CHR 0x00 \<in> set (ps_server node)
         \<or> CHR 0x00 \<in> set (ps_tag node) \<or> subscription_local_reference config 0 then False
      else if type = ''socks'' \<and> sbj_has (Some config) (Some ''tls'') then False
      else
        list_all (\<lambda>k. let field = jget (Some config) k in
            sbj_is_string field \<and> str_of field \<noteq> []) (required_fields type))"

definition basic_schemes :: "string list" where
  "basic_schemes = [''https'', ''http'', ''socks5'', ''socks4a'', ''socks4'', ''socks'']"

fun basic_scheme :: "string list \<Rightarrow> string \<Rightarrow> (string \<times> string) option" where
  "basic_scheme [] line = None"
| "basic_scheme (s # ss) line =
     (let prefix = s @ ''://'' in
      if sv_starts line prefix then Some (s, sv_from line (length prefix)) else basic_scheme ss line)"

definition basic_auth :: "decode_block \<Rightarrow> bool \<Rightarrow> string \<Rightarrow> sbj" where
  "basic_auth evp socks auth =
     (let auth =
        (if socks \<and> sv_find auth (CHR '':'') = None
         then (case decode_base64 evp auth of Some d \<Rightarrow> d | None \<Rightarrow> auth) else auth);
          colon = sv_find auth (CHR '':'');
          user = percent_decode (sv_sub auth 0 colon) False;
          password = (case colon of
              None \<Rightarrow> [] | Some c \<Rightarrow> percent_decode (sv_from auth (c + 1)) False) in
      set_str (set_str sbj_object ''username'' user) ''password'' password)"

definition subscription_basic_uri :: "decode_block \<Rightarrow> string \<Rightarrow> sb_parsed_node option" where
  "subscription_basic_uri evp line =
     (case basic_scheme basic_schemes line of
        None \<Rightarrow> None
      | Some (scheme, line) \<Rightarrow>
          (let hash = sv_find line (CHR ''#'');
               tag = (case hash of None \<Rightarrow> [] | Some h \<Rightarrow> percent_decode (sv_from line (h + 1)) False);
               line = sv_sub line 0 hash;
               line = takeWhile (\<lambda>c. c \<noteq> CHR ''/'' \<and> c \<noteq> CHR ''?'') line;
               socks = (take 5 scheme = ''socks'');
               at = sv_rfind line (CHR ''@'');
               address = (case at of None \<Rightarrow> line | Some a \<Rightarrow> sv_from line (a + 1)) in
           case parse_host_port address (if socks then 1080 else if scheme = ''https'' then 443 else 80) of
             None \<Rightarrow> None
           | Some (host, port) \<Rightarrow>
               (let tag = (if tag = [] then address_tag (cstr host) port else tag);
                    config = (case at of
                        None \<Rightarrow> sbj_object | Some a \<Rightarrow> basic_auth evp socks (sv_sub line 0 (Some a)));
                    config =
                      (if socks
                       then jset_str config ''version''
                         (if scheme = ''socks4a'' then ''4a'' else if scheme = ''socks4'' then ''4'' else ''5'')
                       else if scheme = ''https''
                       then jset config ''tls'' (jset_bool sbj_object ''enabled'' True)
                       else config) in
                finish_node (if socks then ''socks'' else ''http'') tag host port config True)))"

definition ignored_types :: "string list" where
  "ignored_types = [''selector'', ''urltest'', ''direct'', ''block'', ''dns'']"

text \<open>The scalar defaults of a subscription, instead of the wrapped ones of the import.\<close>

definition runnable_defaults :: "sbj \<Rightarrow> sb_parsed_node \<Rightarrow> sb_parsed_node" where
  "runnable_defaults entry node =
     (let config = ps_protocol_config node; type = jget (Some entry) ''type'';
          has = (\<lambda>k. sbj_has (Some entry) (Some k));
          config =
            (if sbj_string_is type (Some ''vmess'') then
               (let config = (if \<not> has ''alter_id'' then jset_int config ''alter_id'' 0 else config) in
                if \<not> has ''security'' then jset_str config ''security'' ''auto'' else config)
             else if sbj_string_is type (Some ''vless'') then
               (let config = (if \<not> has ''flow'' then snd (sbj_del config (Some ''flow'')) else config) in
                if \<not> has ''packet_encoding'' then jset_str config ''packet_encoding'' ''xudp'' else config)
             else config) in
      node\<lparr>ps_protocol_config := config\<rparr>)"

definition json_message :: "nat \<Rightarrow> string" where
  "json_message i =
     ''JSON outbound '' @ show_nat i @ '': unsupported protocol or invalid required fields''"

definition json_entry :: "nat \<Rightarrow> sbj \<Rightarrow> sb_proxy_import \<Rightarrow> sb_proxy_import" where
  "json_entry i entry out =
     (if list_ex (\<lambda>t. sbj_string_is (jget (Some entry) ''type'') (Some t)) ignored_types then out
      else
        (case sb_parse_outbound_config (Some (sbj_arr_push sbj_array (Some (sbj_clone entry)))) of
           Inr parsed \<Rightarrow>
             (case pi_nodes parsed of
                [node] \<Rightarrow> out\<lparr>pi_nodes := pi_nodes out @ [runnable_defaults entry node]\<rparr>
              | _ \<Rightarrow> out\<lparr>pi_skipped := pi_skipped out @ [json_message (i + 1)]\<rparr>)
         | Inl _ \<Rightarrow> out\<lparr>pi_skipped := pi_skipped out @ [json_message (i + 1)]\<rparr>))"

fun json_entries :: "nat \<Rightarrow> sbj list \<Rightarrow> sb_proxy_import \<Rightarrow> sb_proxy_import" where
  "json_entries i [] out = out"
| "json_entries i (entry # entries) out = json_entries (i + 1) entries (json_entry i entry out)"

function plugin_field :: "string \<Rightarrow> bool" where
  "plugin_field query =
     (if query = [] then False
      else
        (let amp = sv_find query (CHR ''&'');
             field = sv_sub query 0 amp;
             name = percent_decode (sv_sub field 0 (sv_find field (CHR ''=''))) True in
         name = ''plugin''
         \<or> (case amp of None \<Rightarrow> False | Some a \<Rightarrow> plugin_field (sv_from query (a + 1)))))"
  by pat_completeness auto
termination
  by (relation "measure length") (auto simp: sv_from_def sv_sub_def)

declare plugin_field.simps [simp del]

definition plugin_link :: "string \<Rightarrow> bool" where
  "plugin_link line =
     (sv_starts line ''ss://''
      \<and> (case sv_find line (CHR ''?'') of
           None \<Rightarrow> False
         | Some q \<Rightarrow>
             (let query = sv_from line (q + 1) in
              plugin_field (sv_sub query 0 (sv_find query (CHR ''#''))))))"

definition line_message :: "nat \<Rightarrow> bool \<Rightarrow> string" where
  "line_message n plugin =
     ''Line '' @ show_nat n
     @ (if plugin then '': unsupported Shadowsocks plugin''
        else '': unsupported URI or invalid required fields'')"

definition report_line ::
  "decode_block \<Rightarrow> nat \<Rightarrow> string \<Rightarrow> sb_proxy_import \<times> sb_err option \<Rightarrow> sb_proxy_import \<times> sb_err option" where
  "report_line evp n line st =
     (let (out, first_error) = st;
          skip = (\<lambda>plugin. out\<lparr>pi_skipped := pi_skipped out @ [line_message n plugin]\<rparr>) in
      if comment_line line then st
      else if plugin_link line then (skip True, first_error)
      else
        (case sb_parse_proxy_uri_ex evp (Some line) of
           Inl e \<Rightarrow> (skip False, if first_error = None then Some e else first_error)
         | Inr r \<Rightarrow>
             (case (case r of Some node \<Rightarrow> Some node | None \<Rightarrow> subscription_basic_uri evp line) of
                Some node \<Rightarrow> (out\<lparr>pi_nodes := pi_nodes out @ [node]\<rparr>, first_error)
              | None \<Rightarrow> (skip False, first_error))))"

fun report_lines ::
  "decode_block \<Rightarrow> nat \<Rightarrow> string list \<Rightarrow> sb_proxy_import \<times> sb_err option \<Rightarrow> sb_proxy_import \<times> sb_err option"
where
  "report_lines evp n [] st = st"
| "report_lines evp n (line # lines) st = report_lines evp (n + 1) lines (report_line evp (n + 1) line st)"

text \<open>The entries of native sing-box JSON, which is tried first.\<close>

definition json_list :: "string \<Rightarrow> sbj list option" where
  "json_list text =
     (if text \<noteq> [] \<and> (text ! 0 = CHR ''{'' \<or> text ! 0 = CHR ''['') then
        (let json = (case sbj_parse (Some text) of Inl e \<Rightarrow> None | Inr v \<Rightarrow> Some v);
             entries = (if sbj_is_array json then json else jget json ''outbounds'') in
         if sbj_is_array entries then Some (array_items entries) else None)
      else None)"

text \<open>The nodes and messages gathered before the final check.\<close>

definition report_collect :: "decode_block \<Rightarrow> libyaml \<Rightarrow> string \<Rightarrow> sb_proxy_import \<times> sb_err option" where
  "report_collect evp libyaml text =
     (case json_list text of
        Some entries \<Rightarrow> (json_entries 0 entries sb_proxy_import_init, None)
      | None \<Rightarrow>
          (case parse_clash_yaml libyaml text True of
             Some out \<Rightarrow> (out, None)
           | None \<Rightarrow> report_lines evp 0 (text_lines text) (sb_proxy_import_init, None)))"

definition invalid_message :: string where
  "invalid_message = ''Proxy entry: missing credentials, invalid text, or local-file TLS settings''"

fun drop_invalid :: "sb_parsed_node list \<Rightarrow> sb_proxy_import \<Rightarrow> sb_proxy_import" where
  "drop_invalid [] out = out"
| "drop_invalid (node # nodes) out =
     drop_invalid nodes
       (if subscription_node_valid node then out\<lparr>pi_nodes := pi_nodes out @ [node]\<rparr>
        else out\<lparr>pi_skipped := pi_skipped out @ [invalid_message]\<rparr>)"

definition report_text :: "decode_block \<Rightarrow> string option \<Rightarrow> string" where
  "report_text evp body =
     (let input = (case body of None \<Rightarrow> [] | Some s \<Rightarrow> s) in
      if likely_base64 input
      then (case decode_base64 evp (sv_trim input) of
              Some decoded \<Rightarrow> sv_trim decoded | None \<Rightarrow> sv_trim input)
      else sv_trim input)"

text \<open>What the call leaves in \<open>*out\<close>, and its result.\<close>

definition sb_parse_subscription_report ::
  "decode_block \<Rightarrow> libyaml \<Rightarrow> string option \<Rightarrow> sb_proxy_import \<times> unit res" where
  "sb_parse_subscription_report evp libyaml body =
     (let (out, first_error) = report_collect evp libyaml (report_text evp body);
          out = drop_invalid (pi_nodes out) (out\<lparr>pi_nodes := []\<rparr>) in
      (out,
       if pi_nodes out = [] then
         (case first_error of
            Some e \<Rightarrow> Inl e
          | None \<Rightarrow> sb_fail SB_ERR_VALIDATION ''Subscription contains no compatible proxy nodes'')
       else Inr ()))"

end
