(* ===== verification/Yaml_Facts.thy ===== *)
theory Yaml_Facts
  imports Yaml_Load
begin

text \<open>
  What the YAML loader of \<open>Yaml_Load\<close> computes. A document is described by its events (\<open>ydoc\<close>), its
  meaning is the tree with the aliases expanded (\<open>expand\<close>), and the node graph the loader builds
  denotes that tree (\<open>denotes\<close>, \<open>loads\<close>); the conversion to JSON gives the value of the tree and
  stays within its budgets on every graph.
\<close>

subsection \<open>The incremental cursor\<close>

lemma yl_cursor_byte: "snd (yl_cursor t k c b) = char_to_byte_loop t k b"
  by (induction t k c b rule: yl_cursor.induct) auto

lemma yl_cursor_char:
  "yl_cursor t k c b = (c', b') \<Longrightarrow> c \<le> c' \<and> c' \<le> c + k \<and> b' = char_to_byte_loop t (c' - c) b
     \<and> (c' < c + k \<longrightarrow> b' \<ge> length t)"
proof (induction t k c b arbitrary: c' b' rule: yl_cursor.induct)
  case (2 t k c b)
  show ?case
  proof (cases "b < length t")
    case True
    then have IH: "c + 1 \<le> c' \<and> c' \<le> c + 1 + k
        \<and> b' = char_to_byte_loop t (c' - (c + 1))
            (advance (\<lambda>j. byte (t ! j) div 64 = 2) (length t) (b + 1))
        \<and> (c' < c + 1 + k \<longrightarrow> b' \<ge> length t)"
      using 2 by auto
    then obtain m where "c' - c = Suc m" "c' - (c + 1) = m"
      by (metis Suc_diff_Suc Suc_eq_plus1 Suc_le_lessD)
    then show ?thesis using IH True by auto
  next
    case False
    then show ?thesis using 2(2) by simp
  qed
qed simp

lemma char_to_byte_loop_add:
  "char_to_byte_loop t (m + n) b = char_to_byte_loop t n (char_to_byte_loop t m b)"
proof (induction t m b rule: char_to_byte_loop.induct)
  case (2 t index b)
  have "length t \<le> b \<Longrightarrow> char_to_byte_loop t n b = b" by (cases n) simp_all
  then show ?case using 2 by simp
qed simp

lemma char_to_byte_loop_end: "length t \<le> b \<Longrightarrow> char_to_byte_loop t n b = b"
  by (cases n) simp_all

definition cursor_ok :: "yload \<Rightarrow> bool" where
  "cursor_ok L \<longleftrightarrow> yl_cur_byte L = char_to_byte (yl_text L) (yl_cur_char L)"

lemma yl_byte_at_ok:
  assumes "cursor_ok L"
  shows "fst (yl_byte_at L index) = char_to_byte (yl_text L) index"
    and "cursor_ok (snd (yl_byte_at L index))"
    and "yl_text (snd (yl_byte_at L index)) = yl_text L"
proof -
  define c0 b0 where "c0 = (if index < yl_cur_char L then 0 else yl_cur_char L)"
    and "b0 = (if index < yl_cur_char L then 0 else yl_cur_byte L)"
  have b0: "b0 = char_to_byte (yl_text L) c0"
    using assms by (simp add: c0_def b0_def cursor_ok_def char_to_byte_def)
  have c0: "c0 \<le> index" by (simp add: c0_def)
  obtain c b where cb: "yl_cursor (yl_text L) (index - c0) c0 b0 = (c, b)" by force
  have eq: "yl_byte_at L index = (b, L\<lparr>yl_cur_char := c, yl_cur_byte := b\<rparr>)"
    using cb by (simp add: yl_byte_at_def c0_def b0_def split: if_split_asm)
  note k = yl_cursor_char [OF cb]
  have "b = char_to_byte_loop (yl_text L) (index - c0) b0"
    using yl_cursor_byte [of "yl_text L" "index - c0" c0 b0] cb by simp
  then have "b = char_to_byte (yl_text L) (c0 + (index - c0))"
    by (simp only: b0 char_to_byte_def char_to_byte_loop_add)
  then show "fst (yl_byte_at L index) = char_to_byte (yl_text L) index"
    using c0 eq by simp
  have "b = char_to_byte (yl_text L) (c0 + (c - c0))"
    using k by (simp only: b0 char_to_byte_def char_to_byte_loop_add)
  then show "cursor_ok (snd (yl_byte_at L index))"
    using k eq by (simp add: cursor_ok_def)
  show "yl_text (snd (yl_byte_at L index)) = yl_text L" using eq by simp
qed

text \<open>A sequence of queries, the cursor passed from one to the next.\<close>

fun byte_queries :: "yload \<Rightarrow> nat list \<Rightarrow> nat list" where
  "byte_queries L [] = []"
| "byte_queries L (i # is) = (let (b, L) = yl_byte_at L i in b # byte_queries L is)"

lemma byte_queries_ok: "cursor_ok L \<Longrightarrow> byte_queries L is = map (char_to_byte (yl_text L)) is"
proof (induction "is" arbitrary: L)
  case (Cons i "is")
  obtain b L' where "yl_byte_at L i = (b, L')" by force
  then show ?case using Cons yl_byte_at_ok [OF Cons.prems, of i] by simp
qed simp

subsection \<open>What a node denotes\<close>

text \<open>The value of a node once its aliases are followed: \<open>TColl True\<close> is a sequence, \<open>TColl False\<close> a
  mapping with its keys and values in turn.\<close>

datatype ytree = TNull | TScalar string | TColl bool "ytree list"

definition coll_node :: "bool \<Rightarrow> nat list \<Rightarrow> ynode" where
  "coll_node is_seq items = (if is_seq then Y_SEQ items else Y_MAP items)"

lemma coll_node_inject [simp]:
  "coll_node s xs = coll_node r ys \<longleftrightarrow> s = r \<and> xs = ys"
  "coll_node s xs \<noteq> Y_NULL" "coll_node s xs \<noteq> Y_SCALAR v"
  "Y_NULL \<noteq> coll_node s xs" "Y_SCALAR v \<noteq> coll_node s xs"
  by (auto simp: coll_node_def)

text \<open>\<open>A\<close> bounds the nodes that are followed. A node on a cycle denotes nothing.\<close>

inductive denotes :: "ynode list \<Rightarrow> nat set \<Rightarrow> nat \<Rightarrow> ytree \<Rightarrow> bool" for all A where
  null: "denotes all A i TNull" if "i < length all" "i \<in> A" "all ! i = Y_NULL"
| scalar: "denotes all A i (TScalar s)" if "i < length all" "i \<in> A" "all ! i = Y_SCALAR s"
| coll: "denotes all A i (TColl is_seq ts)"
    if "i < length all" "i \<in> A" "all ! i = coll_node is_seq items"
      "list_all2 (denotes all A) items ts"

inductive_simps denotes_simps:
  "denotes all A i TNull"
  "denotes all A i (TScalar s)"
  "denotes all A i (TColl b ts)"

lemma denotes_unique: "denotes all A i t \<Longrightarrow> denotes all A i u \<Longrightarrow> t = u"
proof (induction arbitrary: u rule: denotes.induct)
  case (coll i is_seq items ts)
  from coll.prems coll.hyps obtain us where u: "u = TColl is_seq us" "list_all2 (denotes all A) items us"
    by (cases rule: denotes.cases) auto
  have "ts = us"
    using coll.IH u(2)
    by (auto simp: list_all2_conv_all_nth intro!: nth_equalityI)
  then show ?case by (simp add: u)
qed (auto elim: denotes.cases)

lemma denotes_cong:
  assumes "denotes all A i t"
    and "\<And>j. j \<in> A \<Longrightarrow> j < length all \<Longrightarrow> j < length all' \<and> all' ! j = all ! j" "A \<subseteq> B"
  shows "denotes all' B i t"
  using assms(1)
proof (induction rule: denotes.induct)
  case (coll i is_seq items ts)
  have "list_all2 (denotes all' B) items ts"
    by (rule list_all2_mono [OF coll.IH]) blast
  then show ?case using coll.hyps assms(2,3) by (auto intro!: denotes.coll [where items = items])
qed (use assms(2,3) in \<open>auto intro: denotes.intros\<close>)

subsection \<open>Conversion of an acyclic document\<close>

fun tree_json :: "ytree \<Rightarrow> sbj"
  and tree_items :: "ytree list \<Rightarrow> sbj \<Rightarrow> sbj"
  and tree_pairs :: "ytree list \<Rightarrow> sbj \<Rightarrow> sbj" where
  "tree_json TNull = sbj_null"
| "tree_json (TScalar s) = sbj_strn s"
| "tree_json (TColl is_seq ts) =
     (if is_seq then tree_items ts sbj_array else tree_pairs ts sbj_object)"
| "tree_items [] a = a"
| "tree_items (t # ts) a = tree_items ts (sbj_arr_push a (Some (tree_json t)))"
| "tree_pairs (TScalar s # v # ts) ob =
     tree_pairs ts
       (if CHR 0x00 \<in> set s then ob else sbj_setn ob (Some s) (Some (tree_json v)))"
| "tree_pairs (_ # v # ts) ob = tree_pairs ts ob"
| "tree_pairs _ ob = ob"

fun tree_nodes :: "ytree \<Rightarrow> nat" where
  "tree_nodes (TColl b ts) = Suc (sum_list (map tree_nodes ts))"
| "tree_nodes _ = 1"

fun tree_bytes :: "ytree \<Rightarrow> nat" where
  "tree_bytes TNull = 0"
| "tree_bytes (TScalar s) = length s"
| "tree_bytes (TColl b ts) = sum_list (map tree_bytes ts)"

fun tree_depth :: "ytree \<Rightarrow> nat" where
  "tree_depth (TColl b ts) = Suc (Max (insert 0 (set (map tree_depth ts))))"
| "tree_depth _ = 1"

text \<open>Enough of the budget is left, and nothing was cut.\<close>

definition within :: "yaml_convert_limits \<Rightarrow> nat \<Rightarrow> nat \<Rightarrow> yaml_convert_limits \<Rightarrow> bool" where
  "within b nodes bytes b' \<longleftrightarrow> lim_nodes b \<le> lim_nodes b' + nodes \<and> lim_bytes b \<le> lim_bytes b' + bytes
     \<and> lim_exhausted b' = lim_exhausted b"

lemma within_trans: "within a m k b \<Longrightarrow> within b n l c \<Longrightarrow> within a (m + n) (k + l) c"
  by (simp add: within_def)

lemma within_mono: "within a m k b \<Longrightarrow> m \<le> n \<Longrightarrow> k \<le> l \<Longrightarrow> within a n l b"
  by (simp add: within_def)

text \<open>What the conversion of one tree does, as an assumption on the loops.\<close>

definition converts :: "convert \<Rightarrow> nat \<Rightarrow> ytree \<Rightarrow> bool" where
  "converts conv i t \<longleftrightarrow>
     (\<forall>b. tree_nodes t \<le> lim_nodes b \<longrightarrow> tree_bytes t \<le> lim_bytes b \<longrightarrow>
        (\<exists>b'. conv i b = (tree_json t, b') \<and> within b (tree_nodes t) (tree_bytes t) b'))"

lemma convertsE:
  assumes "converts conv i t" "tree_nodes t + m \<le> lim_nodes b" "tree_bytes t + n \<le> lim_bytes b"
  obtains b' where "conv i b = (tree_json t, b')" "within b (tree_nodes t) (tree_bytes t) b'"
  using assms unfolding converts_def by (meson add_leD1)

lemma convert_items_tree:
  assumes "list_all2 (converts conv) items ts"
    and "sum_list (map tree_nodes ts) \<le> lim_nodes b" "sum_list (map tree_bytes ts) \<le> lim_bytes b"
  shows "\<exists>b'. convert_items conv items a b = (tree_items ts a, b')
    \<and> within b (sum_list (map tree_nodes ts)) (sum_list (map tree_bytes ts)) b'"
  using assms
proof (induction items ts arbitrary: a b rule: list_all2_induct)
  case Nil
  then show ?case by (simp add: within_def)
next
  case (Cons i items t ts)
  obtain b1 where b1: "conv i b = (tree_json t, b1)" "within b (tree_nodes t) (tree_bytes t) b1"
    using convertsE [OF Cons(1), of "sum_list (map tree_nodes ts)" b "sum_list (map tree_bytes ts)"]
      Cons(4,5) by auto
  moreover have "sum_list (map tree_nodes ts) \<le> lim_nodes b1" "sum_list (map tree_bytes ts) \<le> lim_bytes b1"
    using Cons(4,5) b1(2) by (simp_all add: within_def)
  ultimately show ?case
    using Cons(3) [of b1 "sbj_arr_push a (Some (tree_json t))"] within_trans by fastforce
qed

lemma convert_pairs_tree:
  assumes "list_all2 (converts conv) items ts" "list_all2 (denotes all A) items ts"
    and "sum_list (map tree_nodes ts) \<le> lim_nodes b" "sum_list (map tree_bytes ts) \<le> lim_bytes b"
  shows "\<exists>b'. convert_pairs conv all items ob b = (tree_pairs ts ob, b')
    \<and> within b (sum_list (map tree_nodes ts)) (sum_list (map tree_bytes ts)) b'"
  using assms
proof (induction ts arbitrary: items ob b rule: induct_list012)
  case 1
  then show ?case by (simp add: within_def)
next
  case (2 t)
  then show ?case by (cases t) (auto simp: within_def list_all2_Cons2)
next
  case (3 t u ts)
  then obtain k v rest where it: "items = k # v # rest" by (auto simp: list_all2_Cons2)
  have dt: "denotes all A k t" and cu: "converts conv v u"
    and r: "list_all2 (converts conv) rest ts" "list_all2 (denotes all A) rest ts"
    using 3(3,4) by (simp_all add: it)
  have skip: ?case if "convert_pairs conv all items ob b = convert_pairs conv all rest ob b"
    "tree_pairs (t # u # ts) ob = tree_pairs ts ob"
  proof -
    obtain b' where "convert_pairs conv all rest ob b = (tree_pairs ts ob, b')"
        "within b (sum_list (map tree_nodes ts)) (sum_list (map tree_bytes ts)) b'"
      using 3(1) [OF r, of b ob] 3(5,6) by auto
    then show ?thesis using that by (auto intro: within_mono)
  qed
  show ?case
  proof (cases "\<exists>s. t = TScalar s \<and> CHR 0x00 \<notin> set s")
    case False
    show ?thesis
      by (rule skip; use False dt in \<open>cases t; auto simp: denotes_simps it coll_node_def split: if_split_asm\<close>)
  next
    case True
    then obtain s where s: "t = TScalar s" "CHR 0x00 \<notin> set s" by blast
    then have k: "all ! k = Y_SCALAR s" using dt by (simp add: denotes_simps)
    define b0 where "b0 = b\<lparr>lim_bytes := lim_bytes b - length s\<rparr>"
    obtain b1 where b1: "conv v b0 = (tree_json u, b1)" "within b0 (tree_nodes u) (tree_bytes u) b1"
      using 3(5,6) s
      by (rule_tac convertsE [OF cu, of "sum_list (map tree_nodes ts)" b0 "sum_list (map tree_bytes ts)"])
        (simp_all add: b0_def)
    have "sum_list (map tree_nodes ts) \<le> lim_nodes b1" "sum_list (map tree_bytes ts) \<le> lim_bytes b1"
      using 3(5,6) b1(2) s by (auto simp: within_def b0_def)
    then obtain b2 where b2: "convert_pairs conv all rest (sbj_setn ob (Some s) (Some (tree_json u))) b1 =
        (tree_pairs ts (sbj_setn ob (Some s) (Some (tree_json u))), b2)"
        "within b1 (sum_list (map tree_nodes ts)) (sum_list (map tree_bytes ts)) b2"
      using 3(1) [OF r] by blast
    have "convert_pairs conv all items ob b = (tree_pairs (t # u # ts) ob, b2)"
      using b1(1) b2(1) 3(6) s k by (simp add: it b0_def)
    moreover have "within b (sum_list (map tree_nodes (t # u # ts)))
        (sum_list (map tree_bytes (t # u # ts))) b2"
      using b1(2) b2(2) 3(6) s by (auto simp: within_def b0_def)
    ultimately show ?thesis by blast
  qed
qed

lemma tree_depth_child: "t \<in> set ts \<Longrightarrow> tree_depth (TColl b ts) \<le> Suc d \<Longrightarrow> tree_depth t \<le> d"
  by simp

text \<open>A node that denotes a tree is converted to it; the nodes being visited denote bigger trees, so
  the cycle guard never fires.\<close>

lemma yaml_to_json_tree:
  assumes "denotes all A i t" "tree_depth t \<le> d"
    and "\<And>v. v \<in> visiting \<Longrightarrow> \<exists>u. denotes all A v u \<and> size t < size u"
  shows "converts (yaml_to_json d all visiting) i t"
  using assms
proof (induction t arbitrary: i d visiting rule: ytree.induct)
  case TNull
  then obtain d' where "d = Suc d'" by (cases d) auto
  moreover have "i \<notin> visiting" using TNull.prems by (metis denotes_unique nat_neq_iff)
  ultimately show ?case using TNull.prems(1)
    by (auto simp: converts_def denotes_simps within_def Let_def)
next
  case (TScalar s)
  then obtain d' where "d = Suc d'" by (cases d) auto
  moreover have "i \<notin> visiting" using TScalar.prems by (metis denotes_unique nat_neq_iff)
  ultimately show ?case using TScalar.prems(1)
    by (auto simp: converts_def denotes_simps within_def Let_def)
next
  case (TColl is_seq ts)
  then obtain d' where d: "d = Suc d'" by (cases d) auto
  have vis: "i \<notin> visiting" using TColl.prems by (metis denotes_unique nat_neq_iff)
  obtain items where it: "all ! i = coll_node is_seq items" "list_all2 (denotes all A) items ts"
    using TColl.prems(1) by (auto simp: denotes_simps)
  define conv where "conv = yaml_to_json d' all (insert i visiting)"
  have "converts conv j t" if "denotes all A j t" "t \<in> set ts" for j t
  proof -
    have sz: "size t < size (TColl is_seq ts)"
      using that(2) by (simp add: less_Suc_eq_le size_list_estimation')
    show ?thesis
      unfolding conv_def
    proof (rule TColl.IH [OF that(2) that(1)])
      show "tree_depth t \<le> d'" using tree_depth_child that(2) TColl.prems(2) d by blast
    next
      fix v assume "v \<in> insert i visiting"
      then show "\<exists>u. denotes all A v u \<and> size t < size u"
        using TColl.prems(1,3) sz by (metis insert_iff order_less_trans)
    qed
  qed
  then have "list_all2 (converts conv) items ts"
    using it(2) by (auto simp: list_all2_conv_all_nth)
  note items = convert_items_tree [OF this] and pairs = convert_pairs_tree [OF this it(2)]
  show ?case
    unfolding converts_def
  proof (intro allI impI)
    fix b :: yaml_convert_limits
    assume b: "tree_nodes (TColl is_seq ts) \<le> lim_nodes b" "tree_bytes (TColl is_seq ts) \<le> lim_bytes b"
    define b0 where "b0 = b\<lparr>lim_nodes := lim_nodes b - 1\<rparr>"
    have "sum_list (map tree_nodes ts) \<le> lim_nodes b0" "sum_list (map tree_bytes ts) \<le> lim_bytes b0"
      using b by (simp_all add: b0_def)
    note lim = this
    obtain b' where "yaml_to_json d all visiting i b = (tree_json (TColl is_seq ts), b')"
        "within b0 (sum_list (map tree_nodes ts)) (sum_list (map tree_bytes ts)) b'"
      using items [OF lim, of sbj_array] pairs [OF lim, of sbj_object] b vis it(1)
      by (auto simp: d Let_def coll_node_def conv_def b0_def split: if_split_asm)
    then show "\<exists>b'. yaml_to_json d all visiting i b = (tree_json (TColl is_seq ts), b')
        \<and> within b (tree_nodes (TColl is_seq ts)) (tree_bytes (TColl is_seq ts)) b'"
      using b by (auto simp: within_def b0_def)
  qed
qed


subsection \<open>The loop over events never runs out of fuel\<close>

abbreviation pending :: "yload \<Rightarrow> nat" where
  "pending L \<equiv> length (yl_events L)"

lemma loader_frame [simp]:
  "yl_events (snd (ynew L k)) = yl_events L" "yl_events (yanchor L a n) = yl_events L"
  "yl_events (ypush L p c) = yl_events L" "yl_events (yopen_push L ev s f) = yl_events L"
  "yl_events (snd (yparse_scalar L a v tg st)) = yl_events L"
  by (auto simp: ynew_def yanchor_def ypush_def yopen_push_def block_column_def yl_byte_at_def
      yparse_scalar_def Let_def split: option.split prod.split)

lemma yparse_items_pending:
  assumes "\<And>L ev. pending (snd (child L ev)) \<le> pending L"
  shows "pending (snd (yparse_items child stop node fuel L)) \<le> pending L"
proof (induction fuel arbitrary: L)
  case (Suc fuel)
  show ?case
  proof (cases "yl_events L")
    case (Cons ev evs)
    obtain r L' where c: "child (L\<lparr>yl_events := evs\<rparr>) ev = (r, L')" by force
    have "pending L' \<le> length evs" using assms [of "L\<lparr>yl_events := evs\<rparr>" ev] c by simp
    moreover have "pending (snd (yparse_items child stop node fuel (ypush L' node i))) \<le> pending L'" for i
      using Suc [of "ypush L' node i"] by simp
    ultimately show ?thesis
      using Cons c by (auto simp: yaml_parser_parse_def split: option.split intro: le_trans le_SucI)
  qed (simp add: yaml_parser_parse_def)
qed simp

lemma yparse_node_pending: "pending (snd (yparse_node d L ev)) \<le> pending L"
proof (induction d arbitrary: L ev)
  case (Suc d)
  have "pending (snd (yparse_collection (yparse_node d) M ev s a f)) \<le> pending M" for M s a f
  proof -
    define N where "N = yopen_push (yanchor (snd (ynew M (if s then Y_SEQ [] else Y_MAP []))) a
      (length (yl_all M))) ev s f"
    have "pending (snd (yparse_items (yparse_node d) stop n g N)) \<le> pending N" for stop n g
      by (rule yparse_items_pending) (rule Suc)
    then show ?thesis
      by (simp add: yparse_collection_def Let_def ynew_def N_def del: yparse_items.simps)
  qed
  from this [of "L\<lparr>yl_parsed_nodes := yl_parsed_nodes L + 1\<rparr>"] show ?case
    by (cases "ev_data ev") (auto simp: Let_def)
qed simp

lemma yparse_items_fuel:
  assumes "\<And>L ev. pending (snd (child L ev)) \<le> pending L" "pending L < f" "pending L < g"
  shows "yparse_items child stop node f L = yparse_items child stop node g L"
  using assms(2,3)
proof (induction f arbitrary: g L)
  case (Suc f)
  then obtain g' where g: "g = Suc g'" by (cases g) auto
  show ?case
  proof (cases "yl_events L")
    case (Cons ev evs)
    obtain r L' where c: "child (L\<lparr>yl_events := evs\<rparr>) ev = (r, L')" by force
    have "pending L' \<le> length evs" using assms(1) [of "L\<lparr>yl_events := evs\<rparr>" ev] c by simp
    then have "yparse_items child stop node f (ypush L' node i) =
        yparse_items child stop node g' (ypush L' node i)" for i
      using Suc.prems Cons by (intro Suc.IH) (simp_all add: g)
    then show ?thesis using Cons c by (simp add: g yaml_parser_parse_def split: option.split)
  qed (simp add: g yaml_parser_parse_def)
qed simp

subsection \<open>Documents\<close>

text \<open>A document as written: aliases, scalars with their style, and collections with their anchor,
  whether they are sequences, and whether they are in flow style.\<close>

datatype ydoc =
    DAlias string
  | DScalar "string option" string bool scalar_style
  | DColl bool "string option" bool "ydoc list"

definition coll_start :: "bool \<Rightarrow> string option \<Rightarrow> bool \<Rightarrow> yevent_data" where
  "coll_start is_seq a flow = (if is_seq then SEQUENCE_START a flow else MAPPING_START a flow)"

definition coll_end :: "bool \<Rightarrow> yevent_data" where
  "coll_end is_seq = (if is_seq then SEQUENCE_END else MAPPING_END)"

text \<open>The events of a document.\<close>

fun doc_events :: "ydoc \<Rightarrow> yevent_data list" where
  "doc_events (DAlias n) = [ALIAS n]"
| "doc_events (DScalar a v tagged style) = [SCALAR a v tagged style]"
| "doc_events (DColl is_seq a flow ds) =
     coll_start is_seq a flow # concat (map doc_events ds) @ [coll_end is_seq]"

fun doc_nodes :: "ydoc \<Rightarrow> nat" where
  "doc_nodes (DColl s a f ds) = Suc (sum_list (map doc_nodes ds))"
| "doc_nodes _ = 1"

fun doc_depth :: "ydoc \<Rightarrow> nat" where
  "doc_depth (DColl s a f ds) = Suc (Max (insert 0 (set (map doc_depth ds))))"
| "doc_depth _ = 1"

text \<open>The tree a document stands for. The environment lists the anchors in the order of their
  definition; an anchor on a collection has no tree until the collection ends.\<close>

type_synonym anchors = "(string \<times> ytree option) list"

definition bind_anchor :: "anchors \<Rightarrow> string option \<Rightarrow> ytree option \<Rightarrow> anchors" where
  "bind_anchor env a x = (case a of None \<Rightarrow> env | Some n \<Rightarrow> env @ [(n, x)])"

definition close_anchor :: "anchors \<Rightarrow> nat \<Rightarrow> string option \<Rightarrow> ytree \<Rightarrow> anchors" where
  "close_anchor env i a t = (case a of None \<Rightarrow> env | Some n \<Rightarrow> env[i := (n, Some t)])"

definition scalar_tree :: "bool \<Rightarrow> bool \<Rightarrow> string \<Rightarrow> bool \<Rightarrow> scalar_style \<Rightarrow> ytree option" where
  "scalar_tree sanitized flow v tagged style =
     (let s = (if sanitized then yaml_unsanitize v else v) in
      if style = PLAIN_STYLE \<and> \<not> tagged \<and> is_null_string v then Some TNull
      else if style \<in> {PLAIN_STYLE, LITERAL_STYLE, FOLDED_STYLE} \<and> CHR 0x00 \<in> set s then None
      else if style = PLAIN_STYLE \<and> flow \<and> CHR ''?'' \<in> set s then None
      else Some (TScalar s))"

fun expand :: "bool \<Rightarrow> bool \<Rightarrow> ydoc \<Rightarrow> anchors \<Rightarrow> (ytree \<times> anchors) option"
  and expand_list :: "bool \<Rightarrow> bool \<Rightarrow> ydoc list \<Rightarrow> anchors \<Rightarrow> (ytree list \<times> anchors) option" where
  "expand san fl (DAlias n) env =
     (case anchor_lookup env n of Some (Some t) \<Rightarrow> Some (t, env) | _ \<Rightarrow> None)"
| "expand san fl (DScalar a v tagged style) env =
     (case scalar_tree san fl v tagged style of
        None \<Rightarrow> None | Some t \<Rightarrow> Some (t, bind_anchor env a (Some t)))"
| "expand san fl (DColl is_seq a flow ds) env =
     (case expand_list san flow ds (bind_anchor env a None) of
        None \<Rightarrow> None
      | Some (ts, env') \<Rightarrow>
          Some (TColl is_seq ts, close_anchor env' (length env) a (TColl is_seq ts)))"
| "expand_list san fl [] env = Some ([], env)"
| "expand_list san fl (d # ds) env =
     (case expand san fl d env of
        None \<Rightarrow> None
      | Some (t, env) \<Rightarrow>
          (case expand_list san fl ds env of
             None \<Rightarrow> None | Some (ts, env) \<Rightarrow> Some (t # ts, env)))"

subsection \<open>Loading a document\<close>

definition env_ok :: "ynode list \<Rightarrow> nat set \<Rightarrow> anchors \<Rightarrow> (string \<times> nat) list \<Rightarrow> bool" where
  "env_ok all A env as \<longleftrightarrow>
     list_all2 (\<lambda>(n, x) (m, i). n = m \<and> (\<forall>t. x = Some t \<longrightarrow> denotes all A i t)) env as"

lemma env_ok_lookup:
  assumes "env_ok all A env as" "anchor_lookup env n = Some (Some t)"
  shows "\<exists>i. anchor_lookup as n = Some i \<and> denotes all A i t"
proof -
  have "list_all2 (\<lambda>(n, x) (m, i). n = m \<and> (\<forall>t. x = Some t \<longrightarrow> denotes all A i t)) env as \<Longrightarrow>
      (anchor_lookup env n = None \<longleftrightarrow> anchor_lookup as n = None)
      \<and> (\<forall>t. anchor_lookup env n = Some (Some t) \<longrightarrow>
          (\<exists>i. anchor_lookup as n = Some i \<and> denotes all A i t))"
    by (induction env as rule: list_all2_induct) (auto split: option.split if_split_asm)
  then show ?thesis using assms by (auto simp: env_ok_def)
qed

lemma env_ok_cong:
  assumes "env_ok all A env as"
    and "\<And>j. j \<in> A \<Longrightarrow> j < length all \<Longrightarrow> j < length all' \<and> all' ! j = all ! j" "A \<subseteq> B"
  shows "env_ok all' B env as"
  using assms(1) unfolding env_ok_def
  by (rule list_all2_mono) (auto intro: denotes_cong [OF _ assms(2,3)])

lemma env_ok_bind:
  "env_ok all A env as \<Longrightarrow> (\<And>t. x = Some t \<Longrightarrow> denotes all A i t) \<Longrightarrow>
     env_ok all A (bind_anchor env a x) (case a of None \<Rightarrow> as | Some n \<Rightarrow> as @ [(n, i)])"
  by (auto simp: env_ok_def bind_anchor_def list_all2_appendI split: option.split)

text \<open>What parsing a node changes: nodes are only added, and everything but the anchors, the cursor
  and the events is as before.\<close>

definition grows :: "yload \<Rightarrow> nat \<Rightarrow> yload \<Rightarrow> bool" where
  "grows L n L' \<longleftrightarrow> yl_sanitized L' = yl_sanitized L \<and> yl_open L' = yl_open L
     \<and> yl_parsed_nodes L' = yl_parsed_nodes L + n \<and> length (yl_all L) \<le> length (yl_all L')
     \<and> length (yl_anchors L) \<le> length (yl_anchors L')
     \<and> (\<forall>j < length (yl_anchors L). yl_anchors L' ! j = yl_anchors L ! j)"

abbreviation fresh :: "nat set \<Rightarrow> yload \<Rightarrow> yload \<Rightarrow> nat set" where
  "fresh A L L' \<equiv> A \<union> {length (yl_all L)..<length (yl_all L')}"

definition in_flow :: "yload \<Rightarrow> bool" where
  "in_flow L \<longleftrightarrow> yl_open L \<noteq> [] \<and> yo_flow (last (yl_open L))"

text \<open>The statement proved by induction on the document.\<close>

definition loads :: "ydoc \<Rightarrow> bool" where
  "loads d \<longleftrightarrow>
     (\<forall>D L ev evs rest env t env' A.
        doc_depth d \<le> D \<longrightarrow> map ev_data (ev # evs) = doc_events d \<longrightarrow> yl_events L = evs @ rest \<longrightarrow>
        expand (yl_sanitized L) (in_flow L) d env = Some (t, env') \<longrightarrow>
        env_ok (yl_all L) A env (yl_anchors L) \<longrightarrow> A \<subseteq> {..<length (yl_all L)} \<longrightarrow>
        yl_parsed_nodes L + doc_nodes d \<le> YAML_MAX_NODES \<longrightarrow>
        (\<exists>i L'. yparse_node D L ev = (Some i, L') \<and> yl_events L' = rest \<and> grows L (doc_nodes d) L'
           \<and> (\<forall>j < length (yl_all L). yl_all L' ! j = yl_all L ! j)
           \<and> denotes (yl_all L') (fresh A L L') i t
           \<and> env_ok (yl_all L') (fresh A L L') env' (yl_anchors L')))"

lemma doc_events_Cons:
  obtains e es where "doc_events d = e # es" "e \<noteq> coll_end s"
  by (cases d) (auto simp: coll_start_def coll_end_def)

lemma ypush_coll:
  "p < length (yl_all L) \<Longrightarrow> yl_all L ! p = coll_node s items \<Longrightarrow>
     yl_all (ypush L p c) = (yl_all L)[p := coll_node s (items @ [c])]"
  by (auto simp: ypush_def coll_node_def split: if_split_asm)

lemma ypush_frame [simp]:
  "yl_anchors (ypush L p c) = yl_anchors L" "yl_sanitized (ypush L p c) = yl_sanitized L"
  "yl_open (ypush L p c) = yl_open L" "yl_parsed_nodes (ypush L p c) = yl_parsed_nodes L"
  "length (yl_all (ypush L p c)) = length (yl_all L)"
  by (simp_all add: ypush_def)

lemma loadsE:
  assumes "loads d" "doc_depth d \<le> D" "map ev_data (ev # evs) = doc_events d" "yl_events L = evs @ rest"
    "expand (yl_sanitized L) (in_flow L) d env = Some (t, env')"
    "env_ok (yl_all L) A env (yl_anchors L)" "A \<subseteq> {..<length (yl_all L)}"
    "yl_parsed_nodes L + doc_nodes d \<le> YAML_MAX_NODES"
  obtains i L' where "yparse_node D L ev = (Some i, L')" "yl_events L' = rest" "grows L (doc_nodes d) L'"
    "\<forall>j < length (yl_all L). yl_all L' ! j = yl_all L ! j"
    "denotes (yl_all L') (fresh A L L') i t" "env_ok (yl_all L') (fresh A L L') env' (yl_anchors L')"
  using assms unfolding loads_def by metis

lemma items_load:
  assumes "\<forall>d\<in>set ds. loads d \<and> doc_depth d \<le> D"
    and "map ev_data evs = concat (map doc_events ds)" "yl_events L = evs @ stop # rest"
    and "ev_data stop = coll_end s" "expand_list (yl_sanitized L) (in_flow L) ds env = Some (ts, env')"
    and "env_ok (yl_all L) A env (yl_anchors L)" "A \<subseteq> {..<length (yl_all L)}"
    and "p < length (yl_all L)" "p \<notin> A" "yl_all L ! p = coll_node s items"
    and "yl_parsed_nodes L + sum_list (map doc_nodes ds) \<le> YAML_MAX_NODES" "pending L < fuel"
  shows "\<exists>is L'. yparse_items (yparse_node D) (coll_end s) p fuel L = (Some p, L')
    \<and> yl_events L' = rest \<and> grows (L\<lparr>yl_open := butlast (yl_open L)\<rparr>) (sum_list (map doc_nodes ds)) L'
    \<and> (\<forall>j < length (yl_all L). j \<noteq> p \<longrightarrow> yl_all L' ! j = yl_all L ! j)
    \<and> yl_all L' ! p = coll_node s (items @ is)
    \<and> list_all2 (denotes (yl_all L') (fresh A L L')) is ts
    \<and> env_ok (yl_all L') (fresh A L L') env' (yl_anchors L')"
  using assms
proof (induction ds arbitrary: evs L env ts A items fuel)
  case Nil
  then obtain f where "fuel = Suc f" by (cases fuel) auto
  then show ?case using Nil by (auto simp: yaml_parser_parse_def grows_def)
next
  case (Cons d ds)
  obtain f where f: "fuel = Suc f" using Cons.prems(12) by (cases fuel) auto
  from Cons.prems(2) obtain e1 e2 where evs: "evs = e1 @ e2" "map ev_data e1 = doc_events d"
      "map ev_data e2 = concat (map doc_events ds)"
    by (auto simp: map_eq_append_conv)
  obtain x xs where x: "doc_events d = x # xs" "x \<noteq> coll_end s" by (rule doc_events_Cons)
  then obtain ev e1' where e1: "e1 = ev # e1'" "ev_data ev = x" using evs(2) by auto
  obtain t env1 ts' where ex: "expand (yl_sanitized L) (in_flow L) d env = Some (t, env1)"
      "expand_list (yl_sanitized L) (in_flow L) ds env1 = Some (ts', env')" "ts = t # ts'"
    using Cons.prems(5) by (auto split: option.splits)
  define L0 where "L0 = L\<lparr>yl_events := e1' @ e2 @ stop # rest\<rparr>"
  have L0: "yl_all L0 = yl_all L" "yl_anchors L0 = yl_anchors L" "yl_sanitized L0 = yl_sanitized L"
    "in_flow L0 = in_flow L" "yl_parsed_nodes L0 = yl_parsed_nodes L" "yl_open L0 = yl_open L"
    "yl_events L0 = e1' @ e2 @ stop # rest"
    by (simp_all add: L0_def in_flow_def)
  obtain i L1 where L1: "yparse_node D L0 ev = (Some i, L1)" "yl_events L1 = e2 @ stop # rest"
      "grows L0 (doc_nodes d) L1" "\<forall>j < length (yl_all L0). yl_all L1 ! j = yl_all L0 ! j"
      "denotes (yl_all L1) (fresh A L0 L1) i t" "env_ok (yl_all L1) (fresh A L0 L1) env1 (yl_anchors L1)"
    by (rule loadsE [of d D ev e1' L0 "e2 @ stop # rest" env t env1 A])
      (use Cons.prems evs e1 x ex L0 in simp_all)
  define A1 where "A1 = fresh A L L1"
  define L2 where "L2 = ypush L1 p i"
  have len: "length (yl_all L) \<le> length (yl_all L1)" using L1(3) by (simp add: grows_def L0)
  have p1: "p < length (yl_all L1)" "p \<notin> A1" "yl_all L1 ! p = coll_node s items"
    using Cons.prems(8,9,10) L1(4) len by (auto simp: A1_def L0)
  have all2: "yl_all L2 = (yl_all L1)[p := coll_node s (items @ [i])]"
    unfolding L2_def by (rule ypush_coll) (use p1 in simp_all)
  have A1: "A1 \<subseteq> {..<length (yl_all L2)}"
    using Cons.prems(7) len by (auto simp: A1_def all2)
  have same: "\<And>j. j \<in> A1 \<Longrightarrow> j < length (yl_all L1) \<Longrightarrow>
      j < length (yl_all L2) \<and> yl_all L2 ! j = yl_all L1 ! j"
    using p1(2) by (auto simp: all2) (metis nth_list_update_neq)
  have env2: "env_ok (yl_all L2) A1 env1 (yl_anchors L2)"
    using env_ok_cong [OF L1(6)] same by (simp add: L2_def L0 A1_def)
  have flow2: "in_flow L2 = in_flow L" "yl_sanitized L2 = yl_sanitized L"
      "yl_open L2 = yl_open L" "yl_parsed_nodes L2 = yl_parsed_nodes L + doc_nodes d"
    using L1(3) by (simp_all add: in_flow_def L2_def grows_def L0)
  have "yl_all L2 ! p = coll_node s (items @ [i])" "p < length (yl_all L2)"
    using p1 by (simp_all add: all2)
  moreover have "yl_events L2 = e2 @ stop # rest" using L1(2) by (simp add: L2_def)
  moreover have "pending L2 < f"
    using Cons.prems(12) by (simp add: L2_def L1(2) f Cons.prems(3) evs(1) e1(1))
  moreover have "yl_parsed_nodes L2 + sum_list (map doc_nodes ds) \<le> YAML_MAX_NODES"
    using Cons.prems(11) flow2 by simp
  ultimately have step: "\<exists>is L'. yparse_items (yparse_node D) (coll_end s) p f L2 = (Some p, L')
    \<and> yl_events L' = rest \<and> grows (L2\<lparr>yl_open := butlast (yl_open L2)\<rparr>) (sum_list (map doc_nodes ds)) L'
    \<and> (\<forall>j < length (yl_all L2). j \<noteq> p \<longrightarrow> yl_all L' ! j = yl_all L2 ! j)
    \<and> yl_all L' ! p = coll_node s ((items @ [i]) @ is)
    \<and> list_all2 (denotes (yl_all L') (fresh A1 L2 L')) is ts'
    \<and> env_ok (yl_all L') (fresh A1 L2 L') env' (yl_anchors L')"
    using Cons.prems(1,4) evs(3) ex(2) env2 A1 p1(2)
    by (intro Cons.IH) (simp_all add: flow2)
  obtain "is" L' where IH: "yparse_items (yparse_node D) (coll_end s) p f L2 = (Some p, L')"
      "yl_events L' = rest"
      "grows (L2\<lparr>yl_open := butlast (yl_open L2)\<rparr>) (sum_list (map doc_nodes ds)) L'"
      "\<forall>j < length (yl_all L2). j \<noteq> p \<longrightarrow> yl_all L' ! j = yl_all L2 ! j"
      "yl_all L' ! p = coll_node s ((items @ [i]) @ is)"
      "list_all2 (denotes (yl_all L') (fresh A1 L2 L')) is ts'"
      "env_ok (yl_all L') (fresh A1 L2 L') env' (yl_anchors L')"
    using step by blast
  have len2: "length (yl_all L2) = length (yl_all L1)" "length (yl_all L1) \<le> length (yl_all L')"
    using IH(3) by (simp_all add: grows_def L2_def)
  have fresh: "fresh A1 L2 L' = fresh A L L'"
    using len len2 by (auto simp: A1_def)
  have "denotes (yl_all L') (fresh A L L') i t"
    unfolding fresh [symmetric]
  proof (rule denotes_cong)
    show "denotes (yl_all L1) A1 i t" using L1(5) by (simp add: A1_def L0)
    show "j < length (yl_all L') \<and> yl_all L' ! j = yl_all L1 ! j"
      if "j \<in> A1" "j < length (yl_all L1)" for j
      using that same [OF that] IH(4) p1(2) len2 by auto
  qed simp
  then have "list_all2 (denotes (yl_all L') (fresh A L L')) (i # is) ts"
    using IH(6) by (simp add: fresh ex(3))
  moreover have "yparse_items (yparse_node D) (coll_end s) p fuel L = (Some p, L')"
    using IH(1) L1(1) x(2) e1(2)
    by (simp add: f yaml_parser_parse_def Cons.prems(3) evs(1) e1(1) L0_def [symmetric] L2_def)
  moreover have "grows (L\<lparr>yl_open := butlast (yl_open L)\<rparr>) (sum_list (map doc_nodes (d # ds))) L'"
    using IH(3) L1(3) len len2 by (auto simp: grows_def L0 L2_def)
  moreover have "\<forall>j < length (yl_all L). j \<noteq> p \<longrightarrow> yl_all L' ! j = yl_all L ! j"
    using IH(4) L1(4) len len2 by (auto simp: all2 L0)
  moreover have "yl_all L' ! p = coll_node s (items @ i # is)" using IH(5) by simp
  ultimately show ?case using IH(2,7) fresh by metis
qed

lemma yparse_scalar_tree:
  assumes "scalar_tree (yl_sanitized L) (in_flow L) v tagged style = Some t"
  shows "\<exists>k. yparse_scalar L a v tagged style =
      (Some (length (yl_all L)), yanchor (L\<lparr>yl_all := yl_all L @ [k]\<rparr>) a (length (yl_all L)))
    \<and> (t = TNull \<and> k = Y_NULL \<or> (\<exists>s. t = TScalar s \<and> k = Y_SCALAR s))"
proof (cases "style = PLAIN_STYLE \<and> \<not> tagged \<and> is_null_string v")
  case True
  then show ?thesis using assms by (simp add: yparse_scalar_def scalar_tree_def ynew_def Let_def)
next
  case False
  define s where "s = (if yl_sanitized L then yaml_unsanitize v else v)"
  define bad where "bad = (style \<in> {PLAIN_STYLE, LITERAL_STYLE, FOLDED_STYLE} \<and> CHR 0x00 \<in> set s
    \<or> style = PLAIN_STYLE \<and> in_flow L \<and> CHR ''?'' \<in> set s)"
  have "scalar_tree (yl_sanitized L) (in_flow L) v tagged style = (if bad then None else Some (TScalar s))"
    unfolding scalar_tree_def Let_def if_not_P [OF False] s_def [symmetric] bad_def by auto
  moreover have "yparse_scalar L a v tagged style =
      (if bad then (None, L\<lparr>yl_all := yl_all L @ [Y_SCALAR s]\<rparr>)
       else (Some (length (yl_all L)),
             yanchor (L\<lparr>yl_all := yl_all L @ [Y_SCALAR s]\<rparr>) a (length (yl_all L))))"
    unfolding yparse_scalar_def Let_def if_not_P [OF False] s_def [symmetric] bad_def
    by (auto simp: ynew_def in_flow_def)
  ultimately show ?thesis using assms by (simp split: if_split_asm)
qed

lemma yanchor_frame [simp]:
  "yl_all (yanchor L a i) = yl_all L" "yl_sanitized (yanchor L a i) = yl_sanitized L"
  "yl_open (yanchor L a i) = yl_open L" "yl_parsed_nodes (yanchor L a i) = yl_parsed_nodes L"
  "yl_anchors (yanchor L a i) = (case a of None \<Rightarrow> yl_anchors L | Some n \<Rightarrow> yl_anchors L @ [(n, i)])"
  by (simp_all add: yanchor_def split: option.split)

lemma yopen_push_frame [simp]:
  "yl_all (yopen_push L ev s f) = yl_all L" "yl_sanitized (yopen_push L ev s f) = yl_sanitized L"
  "yl_parsed_nodes (yopen_push L ev s f) = yl_parsed_nodes L"
  "yl_anchors (yopen_push L ev s f) = yl_anchors L"
  "butlast (yl_open (yopen_push L ev s f)) = yl_open L" "in_flow (yopen_push L ev s f) = f"
  by (auto simp: yopen_push_def block_column_def yl_byte_at_def Let_def in_flow_def split: prod.split)

lemma loads_leaf:
  shows "loads (DAlias n)" and "loads (DScalar a v tagged style)"
proof -
  show "loads (DAlias n)"
    unfolding loads_def
  proof (intro allI impI)
    fix D L ev evs rest env t env' A
    assume h: "doc_depth (DAlias n) \<le> D" "map ev_data (ev # evs) = doc_events (DAlias n)"
      "yl_events L = evs @ rest" "expand (yl_sanitized L) (in_flow L) (DAlias n) env = Some (t, env')"
      "env_ok (yl_all L) A env (yl_anchors L)" "yl_parsed_nodes L + doc_nodes (DAlias n) \<le> YAML_MAX_NODES"
    then obtain d where D: "D = Suc d" by (cases D) auto
    have "anchor_lookup env n = Some (Some t)" "env' = env"
      using h(4) by (auto split: option.splits)
    then obtain i where "anchor_lookup (yl_anchors L) n = Some i" "denotes (yl_all L) A i t"
      using env_ok_lookup h(5) by blast
    then show "\<exists>i L'. yparse_node D L ev = (Some i, L') \<and> yl_events L' = rest
        \<and> grows L (doc_nodes (DAlias n)) L' \<and> (\<forall>j < length (yl_all L). yl_all L' ! j = yl_all L ! j)
        \<and> denotes (yl_all L') (fresh A L L') i t \<and> env_ok (yl_all L') (fresh A L L') env' (yl_anchors L')"
      using h D \<open>env' = env\<close>
      by (intro exI [of _ i] exI [of _ "L\<lparr>yl_parsed_nodes := yl_parsed_nodes L + 1\<rparr>"])
        (auto simp: Let_def grows_def)
  qed
  show "loads (DScalar a v tagged style)"
    unfolding loads_def
  proof (intro allI impI)
    fix D L ev evs rest env t env' A
    let ?d = "DScalar a v tagged style"
    assume h: "doc_depth ?d \<le> D" "map ev_data (ev # evs) = doc_events ?d"
      "yl_events L = evs @ rest" "expand (yl_sanitized L) (in_flow L) ?d env = Some (t, env')"
      "env_ok (yl_all L) A env (yl_anchors L)" "A \<subseteq> {..<length (yl_all L)}"
      "yl_parsed_nodes L + doc_nodes ?d \<le> YAML_MAX_NODES"
    then obtain d where D: "D = Suc d" by (cases D) auto
    define M where "M = L\<lparr>yl_parsed_nodes := yl_parsed_nodes L + 1\<rparr>"
    have t: "scalar_tree (yl_sanitized M) (in_flow M) v tagged style = Some t"
        "env' = bind_anchor env a (Some t)"
      using h(4) by (auto simp: M_def in_flow_def split: option.splits)
    define N where "N = (\<lambda>k. yanchor (M\<lparr>yl_all := yl_all M @ [k]\<rparr>) a (length (yl_all M)))"
    obtain k where k: "yparse_scalar M a v tagged style = (Some (length (yl_all M)), N k)"
        "t = TNull \<and> k = Y_NULL \<or> (\<exists>s. t = TScalar s \<and> k = Y_SCALAR s)"
      using yparse_scalar_tree [OF t(1)] unfolding N_def by blast
    have "denotes (yl_all (N k)) (fresh A L (N k)) (length (yl_all M)) t"
      using k(2) by (auto simp: N_def M_def nth_append denotes_simps)
    moreover have "env_ok (yl_all (N k)) (fresh A L (N k)) env (yl_anchors L)"
      using h(6) by (intro env_ok_cong [OF h(5)]) (auto simp: N_def M_def nth_append)
    ultimately have "env_ok (yl_all (N k)) (fresh A L (N k)) env' (yl_anchors (N k))"
      unfolding t(2) by (subst (3) N_def) (auto simp: M_def intro: env_ok_bind)
    then show "\<exists>i L'. yparse_node D L ev = (Some i, L') \<and> yl_events L' = rest
        \<and> grows L (doc_nodes ?d) L' \<and> (\<forall>j < length (yl_all L). yl_all L' ! j = yl_all L ! j)
        \<and> denotes (yl_all L') (fresh A L L') i t \<and> env_ok (yl_all L') (fresh A L L') env' (yl_anchors L')"
      using h(1,2,3,7) D k(1) \<open>denotes _ _ _ t\<close>
      by (intro exI [of _ "length (yl_all M)"] exI [of _ "N k"])
        (auto simp: Let_def grows_def M_def N_def nth_append split: option.split)
  qed
qed

lemma loads_coll:
  assumes "\<And>d. d \<in> set ds \<Longrightarrow> loads d"
  shows "loads (DColl s a f ds)"
  unfolding loads_def
proof (intro allI impI)
  fix D L ev evs rest env t env' A
  let ?d = "DColl s a f ds"
  assume h: "doc_depth ?d \<le> D" "map ev_data (ev # evs) = doc_events ?d"
    "yl_events L = evs @ rest" "expand (yl_sanitized L) (in_flow L) ?d env = Some (t, env')"
    "env_ok (yl_all L) A env (yl_anchors L)" "A \<subseteq> {..<length (yl_all L)}"
    "yl_parsed_nodes L + doc_nodes ?d \<le> YAML_MAX_NODES"
  obtain D' where D: "D = Suc D'" using h(1) by (cases D) auto
  define p where "p = length (yl_all L)"
  define M where "M = yopen_push (yanchor (L\<lparr>yl_parsed_nodes := yl_parsed_nodes L + 1,
    yl_all := yl_all L @ [coll_node s []]\<rparr>) a p) ev s f"
  have M: "yl_all M = yl_all L @ [coll_node s []]" "yl_sanitized M = yl_sanitized L"
      "butlast (yl_open M) = yl_open L" "in_flow M = f" "yl_parsed_nodes M = yl_parsed_nodes L + 1"
      "yl_events M = evs @ rest"
      "yl_anchors M = (case a of None \<Rightarrow> yl_anchors L | Some n \<Rightarrow> yl_anchors L @ [(n, p)])"
    using h(3) by (simp_all add: M_def split: option.split)
  obtain e stop where evs: "evs = e @ [stop]" "map ev_data e = concat (map doc_events ds)"
      "ev_data stop = coll_end s" "ev_data ev = coll_start s a f"
    using h(2) by (auto simp: map_eq_append_conv)
  obtain ts env1 where ex: "expand_list (yl_sanitized L) f ds (bind_anchor env a None) = Some (ts, env1)"
      "t = TColl s ts" "env' = close_anchor env1 (length env) a t"
    using h(4) by (auto split: option.splits)
  have env0: "env_ok (yl_all M) A (bind_anchor env a None) (yl_anchors M)"
    unfolding M(7) using h(6)
    by (intro env_ok_bind env_ok_cong [OF h(5)]) (auto simp: M(1) nth_append)
  have "\<exists>is L'. yparse_items (yparse_node D') (coll_end s) p (Suc (length (yl_events M))) M = (Some p, L')
    \<and> yl_events L' = rest \<and> grows (M\<lparr>yl_open := butlast (yl_open M)\<rparr>) (sum_list (map doc_nodes ds)) L'
    \<and> (\<forall>j < length (yl_all M). j \<noteq> p \<longrightarrow> yl_all L' ! j = yl_all M ! j)
    \<and> yl_all L' ! p = coll_node s ([] @ is)
    \<and> list_all2 (denotes (yl_all L') (fresh A M L')) is ts
    \<and> env_ok (yl_all L') (fresh A M L') env1 (yl_anchors L')"
    using h(1,6,7) assms evs ex env0
    by (intro items_load [where evs = e and stop = stop and env = "bind_anchor env a None"])
      (auto simp: M D p_def nth_append)
  then obtain "is" L' where L': "yparse_items (yparse_node D') (coll_end s) p (Suc (length (yl_events M))) M = (Some p, L')"
      "yl_events L' = rest" "grows (M\<lparr>yl_open := butlast (yl_open M)\<rparr>) (sum_list (map doc_nodes ds)) L'"
      "\<forall>j < length (yl_all M). j \<noteq> p \<longrightarrow> yl_all L' ! j = yl_all M ! j"
      "yl_all L' ! p = coll_node s is" "list_all2 (denotes (yl_all L') (fresh A M L')) is ts"
      "env_ok (yl_all L') (fresh A M L') env1 (yl_anchors L')"
    by auto
  have sub: "fresh A M L' \<subseteq> fresh A L L'" by (auto simp: M(1))
  have len: "p < length (yl_all L')" using L'(3) by (simp add: grows_def M(1) p_def)
  have "list_all2 (denotes (yl_all L') (fresh A L L')) is ts"
    by (rule list_all2_mono [OF L'(6)]) (rule denotes_cong [OF _ _ sub], auto)
  then have den: "denotes (yl_all L') (fresh A L L') p t"
    using len L'(5) unfolding ex(2) by (intro denotes.coll [where items = "is"]) (auto simp: p_def)
  have env1: "env_ok (yl_all L') (fresh A L L') env1 (yl_anchors L')"
    by (rule env_ok_cong [OF L'(7) _ sub]) auto
  have "yl_anchors L' ! length env = (n, p)" "length env < length (yl_anchors L')" if "a = Some n" for n
  proof -
    have "length env = length (yl_anchors L)" using h(5) by (simp add: env_ok_def list_all2_lengthD)
    then show "yl_anchors L' ! length env = (n, p)" "length env < length (yl_anchors L')"
      using L'(3) that by (auto simp: grows_def M(7) nth_append)
  qed
  then have env': "env_ok (yl_all L') (fresh A L L') env' (yl_anchors L')"
    using env1 den unfolding ex(3) close_anchor_def env_ok_def
    by (auto simp: list_all2_conv_all_nth nth_list_update split: option.split)
  have "yparse_node D L ev = (Some p, L')"
    using h(7) L'(1) evs(4)
    by (cases s) (auto simp: D Let_def yparse_collection_def ynew_def coll_start_def coll_end_def
        coll_node_def M_def p_def simp del: yparse_items.simps)
  moreover have "grows L (doc_nodes ?d) L'"
    using L'(3) by (auto simp: grows_def M nth_append split: option.splits)
  moreover have "\<forall>j < length (yl_all L). yl_all L' ! j = yl_all L ! j"
    using L'(4) by (auto simp: M(1) p_def nth_append)
  ultimately show "\<exists>i L'. yparse_node D L ev = (Some i, L') \<and> yl_events L' = rest
      \<and> grows L (doc_nodes ?d) L' \<and> (\<forall>j < length (yl_all L). yl_all L' ! j = yl_all L ! j)
      \<and> denotes (yl_all L') (fresh A L L') i t \<and> env_ok (yl_all L') (fresh A L L') env' (yl_anchors L')"
    using L'(2) den env' by blast
qed

lemma loads_all: "loads d"
  by (induction d) (auto intro: loads_leaf loads_coll)

subsection \<open>The byte budget\<close>

text \<open>The bytes of the strings and keys of a value.\<close>

fun json_bytes :: "sbj \<Rightarrow> nat" where
  "json_bytes (SBJ_STRING s) = length s"
| "json_bytes (SBJ_ARRAY xs) = sum_list (map json_bytes xs)"
| "json_bytes (SBJ_OBJECT kvs) = sum_list (map (\<lambda>(k, v). length k + json_bytes v) kvs)"
| "json_bytes _ = 0"

lemma json_bytes_setn:
  assumes "wf_json ob"
  shows "json_bytes (sbj_setn ob (Some k) (Some v)) \<le> json_bytes ob + length k + json_bytes v"
proof (cases ob)
  case (SBJ_OBJECT kvs)
  then have "sorted_keys kvs" using assms by simp
  then have "sum_list (map (\<lambda>(k, v). length k + json_bytes v) (obj_setn kvs k v)) \<le>
      sum_list (map (\<lambda>(k, v). length k + json_bytes v) kvs) + length k + json_bytes v"
    by (cases rule: obj_find_cases [of kvs k])
      (auto simp: obj_setn_def list_update_append nth_append)
  then show ?thesis using SBJ_OBJECT by (simp add: sbj_setn_def or_null_def)
qed (simp_all add: sbj_setn_def)

lemma json_bytes_push: "json_bytes (sbj_arr_push a (Some v)) \<le> json_bytes a + json_bytes v"
  by (cases a) (simp_all add: or_null_def)

text \<open>The bytes of the result are paid for by the budget, and no part of the budget grows.\<close>

definition paid :: "sbj \<Rightarrow> yaml_convert_limits \<Rightarrow> sbj \<times> yaml_convert_limits \<Rightarrow> bool" where
  "paid a b r \<longleftrightarrow> wf_json (fst r) \<and> json_bytes (fst r) + lim_bytes (snd r) \<le> json_bytes a + lim_bytes b
     \<and> lim_nodes (snd r) \<le> lim_nodes b"

lemma paid_trans: "paid a b (c, d) \<Longrightarrow> paid c d r \<Longrightarrow> paid a b r"
  by (auto simp: paid_def)

lemma paid_start:
  "paid a b0 r \<Longrightarrow> json_bytes a = 0 \<Longrightarrow> lim_bytes b0 = lim_bytes b \<Longrightarrow> lim_nodes b0 \<le> lim_nodes b \<Longrightarrow>
     paid sbj_null b r"
  by (auto simp: paid_def sbj_null_def)

lemma convert_items_paid:
  assumes "\<And>i b. paid sbj_null b (conv i b)" "wf_json a"
  shows "paid a b (convert_items conv items a b)"
  using assms(2)
proof (induction items arbitrary: a b)
  case (Cons i items)
  obtain v b' where v: "conv i b = (v, b')" by force
  have "paid sbj_null b (v, b')" using assms(1) [of b i] v by simp
  then have "paid a b (sbj_arr_push a (Some v), b')"
    using json_bytes_push [of a v] Cons.prems by (auto simp: paid_def sbj_null_def intro: wf_arr_ops(1))
  moreover have "paid (sbj_arr_push a (Some v)) b'
      (convert_items conv items (sbj_arr_push a (Some v)) b')"
    using calculation by (intro Cons.IH) (simp add: paid_def)
  ultimately show ?case using v by (auto intro: paid_trans)
qed (simp add: paid_def)

lemma convert_pairs_paid:
  assumes "\<And>i b. paid sbj_null b (conv i b)" "wf_json ob"
  shows "paid ob b (convert_pairs conv all items ob b)"
  using assms(2)
proof (induction items arbitrary: ob b rule: induct_list012)
  case (3 k v items)
  have skip: "paid ob b (convert_pairs conv all items ob b)" using 3 by blast
  show ?case
  proof (cases "\<exists>s. all ! k = Y_SCALAR s \<and> CHR 0x00 \<notin> set s \<and> length s \<le> lim_bytes b")
    case True
    then obtain s where s: "all ! k = Y_SCALAR s" "CHR 0x00 \<notin> set s" "length s \<le> lim_bytes b" by blast
    obtain w b' where w: "conv v (b\<lparr>lim_bytes := lim_bytes b - length s\<rparr>) = (w, b')" by force
    then have p: "paid sbj_null (b\<lparr>lim_bytes := lim_bytes b - length s\<rparr>) (w, b')"
      using assms(1) [of "b\<lparr>lim_bytes := lim_bytes b - length s\<rparr>" v] by simp
    then have "paid ob b (sbj_setn ob (Some s) (Some w), b')"
      using json_bytes_setn [OF 3(3), of s w] s(3) 3(3)
      by (auto simp: paid_def sbj_null_def intro: wf_sbj_setn)
    moreover have "paid (sbj_setn ob (Some s) (Some w)) b'
        (convert_pairs conv all items (sbj_setn ob (Some s) (Some w)) b')"
      using calculation by (intro 3(1)) (simp add: paid_def)
    ultimately show ?thesis using s w by (auto intro: paid_trans)
  next
    case False
    then show ?thesis using skip 3(3) by (auto simp: paid_def split: ynode.split)
  qed
qed (simp_all add: paid_def)

lemma yaml_to_json_paid: "paid sbj_null b (yaml_to_json d all visiting i b)"
proof (induction d arbitrary: visiting i b)
  case (Suc d)
  define b0 where "b0 = b\<lparr>lim_nodes := lim_nodes b - 1\<rparr>"
  have "paid sbj_null b (convert_items (yaml_to_json d all (insert i visiting)) items sbj_array b0)"
      "paid sbj_null b (convert_pairs (yaml_to_json d all (insert i visiting)) all items sbj_object b0)"
    for items
    by (rule paid_start, rule convert_items_paid convert_pairs_paid;
        use Suc in \<open>simp add: sbj_array_def sbj_object_def b0_def\<close>)+
  then show ?case
    by (auto simp: Let_def b0_def [symmetric] paid_def sbj_null_def sbj_strn_def split: ynode.split)
      (auto simp: b0_def)
qed (simp add: paid_def sbj_null_def)

subsection \<open>The whole loader\<close>

text \<open>What \<open>libyaml\<close> delivers for a text whose first document is \<open>d\<close>: the stream and document starts,
  the events of \<open>d\<close>, and the end of the document. No flow indicator follows the document, and
  after an explicit end marker there is another event.\<close>

definition first_document :: "ydoc \<Rightarrow> string \<Rightarrow> yevent list \<Rightarrow> bool" where
  "first_document d u evs \<longleftrightarrow>
     (\<exists>ss ds body de more. evs = ss # ds # body @ de # more
        \<and> ev_data ds = DOCUMENT_START \<and> map ev_data body = doc_events d
        \<and> (ev_data de = DOCUMENT_END True \<or> ev_data de = DOCUMENT_END False \<and> more \<noteq> [])
        \<and> (let i = char_to_byte u (ev_start_index de) in
           i < length u \<longrightarrow> u ! i \<noteq> CHR '']'' \<and> u ! i \<noteq> CHR ''}''))"

lemma yload_attempt_document:
  assumes "first_document d u evs" "libyaml u = (evs, pr)"
    and "expand san False d [] = Some (t, env)"
    and "doc_depth d < YAML_MAX_DEPTH" "doc_nodes d \<le> YAML_MAX_NODES"
  shows "\<exists>root L. yload_attempt libyaml (yload_init san) u = (Some root, L)
    \<and> denotes (yl_all L) {..<length (yl_all L)} root t"
proof -
  from assms(1) obtain ss ds body de more where evs: "evs = ss # ds # body @ de # more"
      "ev_data ds = DOCUMENT_START" "map ev_data body = doc_events d"
      "ev_data de = DOCUMENT_END True \<or> ev_data de = DOCUMENT_END False \<and> more \<noteq> []"
      "let i = char_to_byte u (ev_start_index de) in
         i < length u \<longrightarrow> u ! i \<noteq> CHR '']'' \<and> u ! i \<noteq> CHR ''}''"
    unfolding first_document_def by blast
  obtain x xs where x: "doc_events d = x # xs" by (rule doc_events_Cons)
  then obtain ev body' where body: "body = ev # body'" using evs(3) by auto
  define L0 where "L0 = (yload_init san)\<lparr>yl_problem := pr, yl_error := False, yl_text := u,
    yl_cur_char := 0, yl_cur_byte := 0, yl_events := body' @ de # more\<rparr>"
  have L0: "yl_all L0 = []" "yl_anchors L0 = []" "yl_sanitized L0 = san" "in_flow L0 = False"
    "yl_parsed_nodes L0 = 0" "yl_events L0 = body' @ de # more"
    by (simp_all add: L0_def yload_init_def in_flow_def)
  obtain i L1 where L1: "yparse_node (YAML_MAX_DEPTH - 1) L0 ev = (Some i, L1)" "yl_events L1 = de # more"
      "denotes (yl_all L1) (fresh {} L0 L1) i t"
    by (rule loadsE [OF loads_all, of d "YAML_MAX_DEPTH - 1" ev body' L0 "de # more" "[]" t env "{}"])
      (use assms evs body L0 in \<open>auto simp: env_ok_def\<close>)
  have "\<exists>L. yload_attempt libyaml (yload_init san) u = (Some i, L) \<and> yl_all L = yl_all L1"
    using L1(1,2) evs(2,4,5) assms(2)
    by (auto simp: yload_attempt_def yaml_parser_parse_def evs(1) body L0_def Let_def neq_Nil_conv)
  then show ?thesis using L1(3) by (auto simp: L0 atLeast0LessThan)
qed

definition sanitized :: "string \<Rightarrow> string \<times> bool" where
  "sanitized text = (case yaml_sanitize text of Some s \<Rightarrow> (s, True) | None \<Rightarrow> (text, False))"

definition convert_limits :: yaml_convert_limits where
  "convert_limits =
     \<lparr>lim_nodes = YAML_CONVERT_BUDGET, lim_bytes = YAML_CONVERT_STRING_BUDGET, lim_exhausted = False\<rparr>"

lemma yload_first_document:
  assumes "sanitized (yamlcpp_decode text) = (u, san)" "libyaml u = (evs, pr)" "first_document d u evs"
    and "expand san False d [] = Some (t, env)"
    and "doc_depth d < YAML_MAX_DEPTH" "doc_nodes d \<le> YAML_MAX_NODES"
  obtains root L where "yload_first libyaml text = Some (root, L)"
    "denotes (yl_all L) {..<length (yl_all L)} root t"
proof -
  obtain root L where r: "yload_attempt libyaml (yload_init san) u = (Some root, L)"
      "denotes (yl_all L) {..<length (yl_all L)} root t"
    using yload_attempt_document [where libyaml = libyaml, OF assms(3,2,4,5,6)] by blast
  obtain n where n: "YAML_MAX_FIX_ROUNDS = Suc n" by (simp add: YAML_MAX_FIX_ROUNDS_def)
  have "yload_first libyaml text = Some (root, L)"
    using assms(1) r(1)
    by (simp add: yload_first_def sanitized_def n Let_def split: option.splits)
  then show thesis using that r(2) by blast
qed

text \<open>(C18) A YAML subscription is read as the document it is: aliases stand for a copy of what their
  anchor names (the last one of that name), whatever the anchors are called and however the
  document shares nodes; plain \<open>null\<close> spellings become null, other scalars strings, mappings
  objects where the last duplicate key wins, and raw bytes are restored. \<open>libyaml\<close> is assumed to
  deliver the events of the first document.\<close>

theorem yaml_document_loaded:
  assumes "sanitized (yamlcpp_decode text) = (u, san)" "libyaml u = (evs, pr)" "first_document d u evs"
    and "expand san False d [] = Some (t, env)"
    and "doc_depth d < YAML_MAX_DEPTH" "doc_nodes d \<le> YAML_MAX_NODES"
    and "tree_depth t \<le> YAML_CONVERT_DEPTH" "tree_nodes t \<le> YAML_CONVERT_BUDGET"
      "tree_bytes t \<le> YAML_CONVERT_STRING_BUDGET"
  shows "\<exists>root L b. yload_first libyaml text = Some (root, L)
    \<and> yaml_to_json YAML_CONVERT_DEPTH (yl_all L) {} root convert_limits = (tree_json t, b)
    \<and> \<not> lim_exhausted b"
proof -
  obtain root L where r: "yload_first libyaml text = Some (root, L)"
      "denotes (yl_all L) {..<length (yl_all L)} root t"
    by (rule yload_first_document [where libyaml = libyaml, OF assms(1-6)])
  have "converts (yaml_to_json YAML_CONVERT_DEPTH (yl_all L) {}) root t"
    by (rule yaml_to_json_tree [OF r(2) assms(7)]) simp
  then obtain b where "yaml_to_json YAML_CONVERT_DEPTH (yl_all L) {} root convert_limits = (tree_json t, b)"
      "within convert_limits (tree_nodes t) (tree_bytes t) b"
    using convertsE [of _ root t 0 convert_limits 0] assms(8,9) by (auto simp: convert_limits_def)
  then show ?thesis using r(1) by (simp add: within_def convert_limits_def)
qed

text \<open>A document with an alias, for the examples: \<open>[&a x, *a]\<close>.\<close>

definition demo_text :: string where
  "demo_text = ''[&a x, *a]''"

definition demo_doc :: ydoc where
  "demo_doc = DColl True None True [DScalar (Some ''a'') ''x'' False PLAIN_STYLE, DAlias ''a'']"

definition demo_event :: "yevent_data \<Rightarrow> nat \<Rightarrow> yevent" where
  "demo_event e i = \<lparr>ev_data = e, ev_start_index = i, ev_start_column = i, ev_end_index = i, ev_end_column = i\<rparr>"

definition demo_events :: "yevent list" where
  "demo_events =
     demo_event STREAM_START 0 # demo_event DOCUMENT_START 0
     # map (\<lambda>e. demo_event e 0) (doc_events demo_doc)
     @ demo_event (DOCUMENT_END True) 10 # [demo_event STREAM_END 10]"

lemma demo_plain: "sanitized (yamlcpp_decode demo_text) = (demo_text, False)"
proof -
  have "yamlcpp_decode demo_text = demo_text"
    by (simp add: yamlcpp_decode_def demo_text_def intro_loop.simps intro_final_def intro_char_type_def
        numeral_2_eq_2)
  moreover have "yaml_sanitize demo_text = None"
    by (simp add: yaml_sanitize_def demo_text_def sanitize_needed.simps utf8_decode_def
        yaml_plain_ok_def yaml_needs_escape_def YS_RAW_BASE_def YS_ESCAPE_def)
  ultimately show ?thesis by (simp add: sanitized_def)
qed

lemma char_to_byte_ascii:
  assumes "list_all (\<lambda>c. byte c div 64 \<noteq> 2) t" "i \<le> length t"
  shows "char_to_byte t i = i"
proof -
  have "b + n \<le> length t \<Longrightarrow> char_to_byte_loop t n b = b + n" for n b
  proof (induction n arbitrary: b)
    case (Suc n)
    have "advance (\<lambda>j. byte (t ! j) div 64 = 2) (length t) (b + 1) = b + 1"
      using assms(1) by (subst advance.simps) (auto simp: list_all_length)
    then show ?case using Suc by simp
  qed simp
  from this [of 0 i] show ?thesis using assms(2) by (simp add: char_to_byte_def)
qed

lemma demo_document: "first_document demo_doc demo_text demo_events"
proof -
  have "demo_events = demo_event STREAM_START 0 # demo_event DOCUMENT_START 0
     # map (\<lambda>e. demo_event e 0) (doc_events demo_doc)
     @ demo_event (DOCUMENT_END True) 10 # [demo_event STREAM_END 10]" by (simp add: demo_events_def)
  moreover have "char_to_byte demo_text 10 = length demo_text"
    using char_to_byte_ascii [of demo_text 10] by (simp add: demo_text_def)
  ultimately show ?thesis
    unfolding first_document_def
    by (intro exI conjI) (assumption | simp add: demo_event_def comp_def)+
qed

lemma demo_expand: "expand False False demo_doc [] = Some (TColl True [TScalar ''x'', TScalar ''x''], [(''a'', Some (TScalar ''x''))])"
  by (simp add: demo_doc_def scalar_tree_def is_null_string_def bind_anchor_def close_anchor_def)

theorem yaml_document_loaded_witness:
  "\<exists>root L b. yload_first (\<lambda>u. (demo_events, no_problem)) demo_text = Some (root, L)
    \<and> yaml_to_json YAML_CONVERT_DEPTH (yl_all L) {} root convert_limits =
        (SBJ_ARRAY [SBJ_STRING ''x'', SBJ_STRING ''x''], b)
    \<and> \<not> lim_exhausted b"
proof -
  have "\<exists>root L b. yload_first (\<lambda>u. (demo_events, no_problem)) demo_text = Some (root, L)
    \<and> yaml_to_json YAML_CONVERT_DEPTH (yl_all L) {} root convert_limits =
        (tree_json (TColl True [TScalar ''x'', TScalar ''x'']), b)
    \<and> \<not> lim_exhausted b"
    by (rule yaml_document_loaded [where libyaml = "\<lambda>u. (demo_events, no_problem)", OF demo_plain refl demo_document demo_expand])
      (simp_all add: demo_doc_def YAML_MAX_DEPTH_def YAML_MAX_NODES_def YAML_CONVERT_DEPTH_def
        YAML_CONVERT_BUDGET_def YAML_CONVERT_STRING_BUDGET_def)
  then show ?thesis by (simp add: sbj_array_def sbj_strn_def or_null_def)
qed

text \<open>(C20) Conversion is safe on any node graph, cyclic ones included: it always ends with a well-formed
  value, the bytes of its strings and keys never exceed the byte budget that was spent, and the
  budgets only shrink.\<close>

theorem yaml_to_json_bounded:
  "let (v, b') = yaml_to_json d all visiting i b in
     wf_json v \<and> json_bytes v + lim_bytes b' \<le> lim_bytes b \<and> lim_nodes b' \<le> lim_nodes b"
  using yaml_to_json_paid [of b d all visiting i] by (auto simp: paid_def sbj_null_def)

text \<open>(C39) The incremental cursor is exact: whatever character positions are asked for, in whatever
  order, each answer is the byte offset counted from the start of the text.\<close>

theorem yl_byte_at_exact:
  "byte_queries (yload_init san\<lparr>yl_text := text\<rparr>) is = map (char_to_byte text) is"
  using byte_queries_ok [of "yload_init san\<lparr>yl_text := text\<rparr>" "is"]
  by (simp add: cursor_ok_def yload_init_def char_to_byte_def)

end
