(* ===== verification/Proxy_Import_Facts.thy ===== *)
theory Proxy_Import_Facts
  imports Proxy_Import Yaml_Facts
begin

text \<open>
  What the import of proxies guarantees: every node that reaches the store can be dialled, carries
  its credentials and refers to no local file; every entry of a subscription is a node or a
  message; messages do not quote the subscription; and when the import of outbounds fails.
\<close>

subsection \<open>Facts: nodes from Clash proxies\<close>

lemma magnitude_bound: "magnitude s m = Some r \<Longrightarrow> m < 2 ^ 64 \<Longrightarrow> r < 2 ^ 64"
proof (induction s m rule: magnitude.induct)
  case (2 c s mag)
  define d where "d = byte c - 48"
  have *: "\<not> mag > (2 ^ 64 - 1 - d) div 10" "magnitude s (mag * 10 + d) = Some r" "d \<le> 9"
      "\<not> (byte c < 48 \<or> byte c > 57)"
    using 2(2) by (auto simp: d_def Let_def split: if_split_asm)
  then have "mag * 10 \<le> 2 ^ 64 - 1 - d" by (simp add: not_less less_eq_div_iff_mult_less_eq)
  then have "mag * 10 + d < 2 ^ 64" using *(3) by simp
  then show ?case using 2(1) * by (simp add: d_def)
qed simp

lemma integer_value_range: "wf_opt v \<Longrightarrow> integer_value v k = Some i \<Longrightarrow> in_i64 i"
proof -
  assume v: "wf_opt v" and i: "integer_value v k = Some i"
  have "wf_json f" if "jget v k = Some f" for f
    using that v wf_sbj_get_Some by (cases v) (auto simp: sbj_get_def sbj_getn_def)
  then show ?thesis
    using i by (auto simp: integer_value_def in_i64_def wrap_i64_def Let_def
        split: option.splits sbj.splits if_split_asm)
qed

lemma alter_id_range: "wf_opt v \<Longrightarrow> in_i64 (alter_id v)"
  by (auto simp: alter_id_def in_i64_def split: option.split dest: integer_value_range)

lemma wf_set_helpers [simp]:
  "wf_obj c \<Longrightarrow> wf_obj (set_str c k s)"
  "wf_obj c \<Longrightarrow> wf_opt v \<Longrightarrow> wf_obj (set_opt c k v)"
  "wf_obj c \<Longrightarrow> wf_obj (set_string_value c k v f)"
  by (auto simp: set_str_def set_opt_def set_string_value_def split: option.split)

lemma wf_member: "wf_opt v \<Longrightarrow> jget v k = Some f \<Longrightarrow> wf_json f"
  by (cases v) (auto simp: sbj_get_def sbj_getn_def dest: wf_sbj_get_Some [unfolded sbj_get_def])

lemma wf_clone_member [simp]: "wf_opt v \<Longrightarrow> jget v k = Some f \<Longrightarrow> wf_json (sbj_clone f)"
  by (simp add: wf_member sbj_clone_id)

lemma wf_copy_member [simp]: "wf_obj c \<Longrightarrow> wf_opt v \<Longrightarrow> wf_obj (copy_member c v k)"
  by (auto simp: copy_member_def sbj_has_def)

lemma wf_jget [simp]: "wf_opt v \<Longrightarrow> wf_opt (jget v k)"
  by (rule wf_sbj_get)

lemma wf_clone_parts [simp]:
  "sbj_is_array v \<Longrightarrow> wf_opt v \<Longrightarrow> wf_json (sbj_clone (the v))"
  "0 < sbj_arr_len v \<Longrightarrow> wf_opt v \<Longrightarrow> wf_json (sbj_clone (the (sbj_arr_at v 0)))"
proof -
  show "sbj_is_array v \<Longrightarrow> wf_opt v \<Longrightarrow> wf_json (sbj_clone (the v))"
    by (cases v) (simp_all add: sbj_clone_id)
  assume v: "0 < sbj_arr_len v" "wf_opt v"
  then obtain x where "sbj_arr_at v 0 = Some x" by (cases v rule: sbj_arr_len.cases) auto
  then show "wf_json (sbj_clone (the (sbj_arr_at v 0)))"
    using wf_arr_ops(6) [OF v(2), of 0] by (simp add: sbj_clone_id)
qed

lemma wf_clash_transport [simp]: "wf_opt v \<Longrightarrow> wf_opt (clash_transport v)"
  by (simp add: clash_transport_def Let_def wf_string_member)

lemma wf_reality_tls [simp]: "wf_obj tls \<Longrightarrow> wf_obj (reality_tls tls r)"
  by (simp add: reality_tls_def Let_def)

lemma wf_clash_tls [simp]: "wf_opt v \<Longrightarrow> wf_opt (clash_tls v e)"
  by (simp add: clash_tls_def Let_def)

lemma wf_clash_basic: "wf_opt v \<Longrightarrow> clash_basic v type = Some c \<Longrightarrow> wf_obj c"
  by (auto simp: clash_basic_def Let_def split: if_split_asm)

lemma wf_clash_hysteria2 [simp]: "wf_opt v \<Longrightarrow> wf_obj (clash_hysteria2 v)"
  by (simp add: clash_hysteria2_def Let_def)

lemma wf_clash_config:
  assumes "wf_opt v" "clash_config v type = Some c"
  shows "wf_obj c"
  using assms(2) alter_id_range [OF assms(1)] wf_clash_basic [OF assms(1), of type c] assms(1)
  by (auto simp: clash_config_def Let_def split: if_split_asm)

lemma clash_type_known: "clash_type t = Some u \<Longrightarrow> u \<in> set node_types"
  by (auto simp: clash_type_def node_types_def split: if_split_asm)

lemma clash_proxy_sound_node: "wf_opt v \<Longrightarrow> clash_proxy v = Some n \<Longrightarrow> sound_node n"
  by (auto simp: clash_proxy_def Let_def finish_node_eq sound_node_def
      dest: clash_type_known wf_clash_config split: if_split_asm option.split_asm)

subsection \<open>Facts: nodes of a report\<close>

text \<open>What holds of a node before its credentials are checked.\<close>

definition dialable :: "sb_parsed_node \<Rightarrow> bool" where
  "dialable n \<longleftrightarrow> ps_node_type n \<in> set node_types \<and> ps_server n \<noteq> []
     \<and> 0 < ps_server_port n \<and> ps_server_port n \<le> 65535 \<and> wf_obj (ps_protocol_config n)"

lemma sound_dialable: "sound_node n \<Longrightarrow> dialable n"
  by (simp add: sound_node_def dialable_def)

lemma required_fields_secret:
  "t \<in> set node_types \<Longrightarrow>
     has_required_secret t pc \<longleftrightarrow> list_all (has_nonempty_string pc) (required_fields t)"
  by (elim set_ConsD [elim_format] | auto simp: node_types_def required_fields_def has_required_secret_def)

lemma node_type_cstr: "t \<in> set node_types \<Longrightarrow> cstr t = t"
  by (auto simp: node_types_def cstr_def)

lemma valid_sound:
  assumes "dialable n" "subscription_node_valid n"
  shows "sound_node n"
proof -
  have t: "ps_node_type n \<in> set node_types" using assms(1) by (simp add: dialable_def)
  have "list_all (has_nonempty_string (Some (ps_protocol_config n))) (required_fields (ps_node_type n))"
    using assms(2) node_type_cstr [OF t]
    by (auto simp: subscription_node_valid_def Let_def has_nonempty_string_def list_all_iff
        split: if_split_asm)
  then show ?thesis
    using assms(1) required_fields_secret [OF t] by (simp add: dialable_def sound_node_def)
qed

lemma wf_value_or_wrapped [simp]: "wf_opt v \<Longrightarrow> wf_json fb \<Longrightarrow> wf_json (value_or_wrapped v k fb)"
  by (auto simp: value_or_wrapped_def sbj_array_def or_null_def split: option.split)

lemma wf_copy_if [simp]: "wf_obj c \<Longrightarrow> wf_opt v \<Longrightarrow> wf_obj (copy_if c v k)"
  by (auto simp: copy_if_def split: option.split)

lemma wf_outbound_config: "wf_opt v \<Longrightarrow> outbound_config v t = Some c \<Longrightarrow> wf_obj c \<and> t \<in> set node_types"
  by (auto simp: outbound_config_def Let_def node_types_def in_i64_def sbj_int_def split: if_split_asm)

lemma outbound_port_range: "outbound_port v = Some p \<Longrightarrow> 0 < p \<and> p \<le> 65535"
  by (auto simp: outbound_port_def dest: parse_port_range split: if_split_asm option.splits sbj.splits)

lemma parse_outbound_dialable:
  assumes "wf_opt v" "parse_outbound v = Inr (Some n)"
  shows "dialable n"
proof -
  obtain port tag c where "outbound_port v = Some port" "str_of (jget v ''server'') \<noteq> []"
      "outbound_config v (str_of (jget v ''type'')) = Some c"
      "ps_node_type n = str_of (jget v ''type'')" "ps_server n = str_of (jget v ''server'')"
      "ps_server_port n = port"
      "ps_protocol_config n = c \<or> ps_protocol_config n = copy_if (copy_if c v ''tls'') v ''transport''"
    using assms(2)
    by (auto simp: parse_outbound_def Let_def finish_node_def split: if_split_asm option.split_asm)
  then show ?thesis
    using wf_outbound_config [OF assms(1)] outbound_port_range assms(1) by (auto simp: dialable_def)
qed

definition nodes_ok :: "sb_proxy_import \<Rightarrow> bool" where
  "nodes_ok out \<longleftrightarrow> (\<forall>n\<in>set (pi_nodes out). dialable n)"

lemma nodes_ok_simps [simp]:
  "nodes_ok sb_proxy_import_init"
  "nodes_ok (out\<lparr>pi_nodes := pi_nodes out @ [n]\<rparr>) \<longleftrightarrow> nodes_ok out \<and> dialable n"
  "nodes_ok (out\<lparr>pi_skipped := s\<rparr>) \<longleftrightarrow> nodes_ok out"
  by (auto simp: nodes_ok_def sb_proxy_import_init_def)

lemma nodes_okD: "nodes_ok out \<Longrightarrow> pi_nodes out = [n] \<Longrightarrow> dialable n"
  by (simp add: nodes_ok_def)

lemma import_outbounds_ok:
  "\<forall>v\<in>set os. wf_json v \<Longrightarrow> nodes_ok out \<Longrightarrow> import_outbounds out os = Inr out' \<Longrightarrow> nodes_ok out'"
proof (induction os arbitrary: out)
  case (Cons v os)
  from Cons.prems(3) obtain out1 where o: "import_outbound out v = Inr out1" "import_outbounds out1 os = Inr out'"
    by auto
  have "parse_outbound (Some v) = Inr (Some n) \<Longrightarrow> dialable n" for n
    using parse_outbound_dialable [of "Some v" n] Cons.prems(1) by simp
  then have "nodes_ok out1"
    using o(1) Cons.prems(2)
    by (auto simp: import_outbound_def split: if_split_asm option.split_asm)
  then show ?case using Cons o(2) by simp
qed simp

lemma runnable_defaults_ok: "dialable n \<Longrightarrow> dialable (runnable_defaults e n)"
proof -
  assume d: "dialable n"
  have "wf_obj (snd (sbj_del (ps_protocol_config n) (Some k)))" for k
    using d wf_sbj_del [of "ps_protocol_config n" "Some k"]
    by (auto simp: dialable_def wf_obj_def sbj_is_object_iff sbj_del_def sbj_take_def simp del: wf_objD
        split: prod.splits)
  then show ?thesis
    using d by (auto simp: dialable_def runnable_defaults_def Let_def in_i64_def)
qed

lemma json_entry_ok: "wf_json e \<Longrightarrow> nodes_ok out \<Longrightarrow> nodes_ok (json_entry i e out)"
proof -
  assume e: "wf_json e" and out: "nodes_ok out"
  have p: "nodes_ok p"
    if "sb_parse_outbound_config (Some (sbj_arr_push sbj_array (Some (sbj_clone e)))) = Inr p" for p
    using that e import_outbounds_ok [of "[sbj_clone e]" sb_proxy_import_init p]
    by (simp add: sb_parse_outbound_config_def sbj_array_def or_null_def sbj_clone_id)
  show ?thesis
    using out unfolding json_entry_def
    by (auto dest!: p dest: nodes_okD intro: runnable_defaults_ok split: sum.split list.split)
qed

lemma json_entries_ok: "\<forall>e\<in>set es. wf_json e \<Longrightarrow> nodes_ok out \<Longrightarrow> nodes_ok (json_entries i es out)"
proof (induction es arbitrary: i out)
  case (Cons e es)
  then show ?case using json_entry_ok [of e out i] by simp
qed simp

lemma clash_entry_ok: "wf_json v \<Longrightarrow> nodes_ok out \<Longrightarrow> nodes_ok (clash_entry r i v out)"
  using clash_proxy_sound_node [of "Some v"] sound_dialable
  by (cases "clash_proxy (Some v)") (auto simp: clash_entry_def Let_def)

lemma clash_entries_ok: "nodes_ok out \<Longrightarrow> nodes_ok (clash_entries all p r i items b out)"
proof (induction items arbitrary: i b out)
  case (Cons item items)
  obtain v b' where v: "yaml_to_json YAML_CONVERT_DEPTH all {p} item b = (v, b')" by force
  then have "wf_json v"
    using yaml_to_json_paid [of b YAML_CONVERT_DEPTH all "{p}" item] by (simp add: paid_def)
  then show ?case using Cons v clash_entry_ok by simp
qed simp

lemma wf_basic_auth [simp]: "wf_obj (basic_auth evp s a)"
  by (simp add: basic_auth_def Let_def)

lemma basic_uri_dialable:
  assumes "subscription_basic_uri evp line = Some n"
  shows "dialable n"
proof -
  obtain address d where d: "parse_host_port address d = Some (ps_server n, ps_server_port n)" "0 < d" "d \<le> 65535"
      and n: "ps_node_type n \<in> {''socks'', ''http''}" "wf_obj (ps_protocol_config n)"
    using assms
    by (simp add: subscription_basic_uri_def Let_def finish_node_eq split: option.split_asm prod.split_asm)
  show ?thesis
    using parse_host_port_sound [OF d] n by (auto simp: dialable_def node_types_def)
qed

lemma report_line_ok:
  assumes "nodes_ok (fst st)"
  shows "nodes_ok (fst (report_line evp n line st))"
proof -
  obtain out e where st: "st = (out, e)" by force
  show ?thesis
  proof (cases "sb_parse_proxy_uri_ex evp (Some line)")
    case (Inr r)
    then have "dialable n" if "r = Some n" for n
      using that proxy_uri_ex_sound sound_dialable by blast
    then show ?thesis
      using assms Inr basic_uri_dialable
      by (cases r; cases "subscription_basic_uri evp line") (simp_all add: report_line_def st Let_def)
  qed (use assms in \<open>simp add: report_line_def st Let_def\<close>)
qed

lemma report_lines_ok: "nodes_ok (fst st) \<Longrightarrow> nodes_ok (fst (report_lines evp n ls st))"
  by (induction ls arbitrary: n st) (simp_all add: report_line_ok)

lemma json_list_wf: "json_list text = Some es \<Longrightarrow> \<forall>e\<in>set es. wf_json e"
proof -
  assume es: "json_list text = Some es"
  define json where "json = (case sbj_parse (Some text) of Inl e \<Rightarrow> None | Inr v \<Rightarrow> Some v)"
  have "wf_opt json"
    using parse_document_sound [of "Some text" False] by (auto simp: json_def sbj_parse_def split: sum.split)
  then have "wf_opt (if sbj_is_array json then json else jget json ''outbounds'')" by simp
  moreover have "es = array_items (if sbj_is_array json then json else jget json ''outbounds'')"
    using es by (auto simp: json_list_def json_def Let_def split: if_split_asm)
  ultimately show ?thesis
    by (cases "if sbj_is_array json then json else jget json ''outbounds''" rule: array_items.cases) auto
qed

lemma report_collect_ok: "nodes_ok (fst (report_collect evp libyaml text))"
proof (cases "json_list text")
  case (Some es)
  then show ?thesis by (simp add: report_collect_def json_entries_ok json_list_wf)
next
  case None
  then show ?thesis
    by (cases "clash_list libyaml text")
      (simp_all add: report_collect_def parse_clash_yaml_def clash_entries_ok report_lines_ok
        split: prod.split)
qed

text \<open>Every key of a value, at any depth.\<close>

fun json_keys :: "sbj \<Rightarrow> string set" where
  "json_keys (SBJ_OBJECT kvs) = fst ` set kvs \<union> (\<Union>(k, v)\<in>set kvs. json_keys v)"
| "json_keys (SBJ_ARRAY xs) = (\<Union>v\<in>set xs. json_keys v)"
| "json_keys _ = {}"

lemma has_member: "wf_json (SBJ_OBJECT kvs) \<Longrightarrow> k \<in> fst ` set kvs \<Longrightarrow> sbj_has (Some (SBJ_OBJECT kvs)) (Some k)"
  by (auto simp: sbj_has_def sbj_get_def sbj_getn_def obj_getn_map_of dest: weak_map_of_SomeI)

lemma local_reference_keys:
  "wf_json v \<Longrightarrow> \<not> subscription_local_reference v d \<Longrightarrow> json_keys v \<inter> set forbidden = {}"
  "\<forall>(k, v)\<in>set kvs. wf_json v \<Longrightarrow> \<not> local_members kvs d \<Longrightarrow>
     (\<Union>(k, v)\<in>set kvs. json_keys v) \<inter> set forbidden = {}"
  "\<forall>v\<in>set xs. wf_json v \<Longrightarrow> \<not> local_items xs d \<Longrightarrow> (\<Union>v\<in>set xs. json_keys v) \<inter> set forbidden = {}"
proof (induction v d and kvs d and xs d rule: subscription_local_reference_local_members_local_items.induct)
  case (1 v depth)
  then show ?case
  proof (cases v)
    case (SBJ_OBJECT kvs)
    have "fst ` set kvs \<inter> set forbidden = {}"
      using 1(3,4) has_member [of kvs] unfolding SBJ_OBJECT
      by (auto simp: subscription_local_reference.simps list_ex_iff split: if_split_asm)
    then show ?thesis
      using 1(2) [OF _ SBJ_OBJECT] 1(3,4) SBJ_OBJECT
      by (auto simp: subscription_local_reference.simps split: if_split_asm)
  next
    case (SBJ_ARRAY xs)
    then show ?thesis
      using 1(1) [OF _ SBJ_ARRAY] 1(3,4) by (auto simp: subscription_local_reference.simps split: if_split_asm)
  qed simp_all
qed auto

text \<open>The final check: the nodes left are the valid ones, and each of the others leaves a message.\<close>

lemma drop_invalid_eq:
  "drop_invalid nodes out =
     \<lparr>pi_nodes = pi_nodes out @ filter subscription_node_valid nodes,
      pi_skipped = pi_skipped out
        @ replicate (length (filter (\<lambda>n. \<not> subscription_node_valid n) nodes)) invalid_message\<rparr>"
  by (induction nodes arbitrary: out) simp_all

lemma report_eq:
  "report_collect evp libyaml (report_text evp body) = (out, e) \<Longrightarrow>
     fst (sb_parse_subscription_report evp libyaml body) =
       \<lparr>pi_nodes = filter subscription_node_valid (pi_nodes out),
        pi_skipped = pi_skipped out
          @ replicate (length (filter (\<lambda>n. \<not> subscription_node_valid n) (pi_nodes out))) invalid_message\<rparr>"
  by (simp add: sb_parse_subscription_report_def Let_def drop_invalid_eq)

subsection \<open>Facts: every entry is accounted for\<close>

definition entries_seen :: "sb_proxy_import \<Rightarrow> nat" where
  "entries_seen out = length (pi_nodes out) + length (pi_skipped out)"

lemma entries_seen_simps [simp]:
  "entries_seen sb_proxy_import_init = 0"
  "entries_seen (out\<lparr>pi_nodes := pi_nodes out @ [n]\<rparr>) = Suc (entries_seen out)"
  "entries_seen (out\<lparr>pi_skipped := pi_skipped out @ [m]\<rparr>) = Suc (entries_seen out)"
  by (simp_all add: entries_seen_def sb_proxy_import_init_def)

definition ignored_entry :: "sbj \<Rightarrow> bool" where
  "ignored_entry e \<longleftrightarrow> list_ex (\<lambda>t. sbj_string_is (jget (Some e) ''type'') (Some t)) ignored_types"

lemma json_entries_seen:
  "entries_seen (json_entries i es out) = entries_seen out + length (filter (\<lambda>e. \<not> ignored_entry e) es)"
proof (induction es arbitrary: i out)
  case (Cons e es)
  have "entries_seen (json_entry i e out) = entries_seen out + (if ignored_entry e then 0 else 1)"
    by (auto simp: json_entry_def ignored_entry_def [symmetric] split: sum.split list.split)
  then show ?case using Cons by simp
qed simp

lemma clash_entries_seen:
  "entries_seen (clash_entries all p True i items b out) = entries_seen out + length items"
proof (induction items arbitrary: i b out)
  case (Cons item items)
  have "entries_seen (clash_entry True i v out) = Suc (entries_seen out)" for v
    by (simp add: clash_entry_def Let_def split: option.split)
  then show ?case using Cons by (simp split: prod.split)
qed simp

lemma report_lines_seen:
  "entries_seen (fst (report_lines evp n ls st)) =
     entries_seen (fst st) + length (filter (\<lambda>l. \<not> comment_line l) ls)"
proof (induction ls arbitrary: n st)
  case (Cons l ls)
  have "entries_seen (fst (report_line evp (n + 1) l st)) =
      entries_seen (fst st) + (if comment_line l then 0 else 1)"
    by (cases st) (simp add: report_line_def Let_def split: sum.split option.split)
  then show ?case using Cons by simp
qed simp

text \<open>How many entries a body has, in each of its forms.\<close>

definition body_entries :: "libyaml \<Rightarrow> string \<Rightarrow> nat" where
  "body_entries libyaml text =
     (case json_list text of
        Some es \<Rightarrow> length (filter (\<lambda>e. \<not> ignored_entry e) es)
      | None \<Rightarrow>
          (case clash_list libyaml text of
             Some (all, proxies, entries) \<Rightarrow> length entries
           | None \<Rightarrow> length (filter (\<lambda>l. \<not> comment_line l) (text_lines text))))"

lemma report_collect_seen: "entries_seen (fst (report_collect evp libyaml text)) = body_entries libyaml text"
  by (simp add: report_collect_def body_entries_def parse_clash_yaml_def json_entries_seen
      clash_entries_seen report_lines_seen split: option.split prod.split)

subsection \<open>Facts: the messages of a report\<close>

text \<open>The diagnostics name a position and a fixed reason.\<close>

definition report_message :: "string \<Rightarrow> bool" where
  "report_message m \<longleftrightarrow>
     (\<exists>i u. m = clash_message i u \<or> m = json_message i \<or> m = line_message i u) \<or> m = invalid_message"

definition messages_ok :: "sb_proxy_import \<Rightarrow> bool" where
  "messages_ok out \<longleftrightarrow> (\<forall>m\<in>set (pi_skipped out). report_message m)"

lemma messages_ok_simps [simp]:
  "messages_ok sb_proxy_import_init"
  "messages_ok (out\<lparr>pi_nodes := ns\<rparr>) \<longleftrightarrow> messages_ok out"
  "messages_ok (out\<lparr>pi_skipped := pi_skipped out @ [m]\<rparr>) \<longleftrightarrow> messages_ok out \<and> report_message m"
  by (auto simp: messages_ok_def sb_proxy_import_init_def)

lemma report_message_intros [simp]:
  "report_message (clash_message i u)" "report_message (json_message i)" "report_message (line_message i u)"
  "report_message invalid_message"
  by (auto simp: report_message_def)

lemma collect_messages: "messages_ok (fst (report_collect evp libyaml text))"
proof -
  have j: "messages_ok out \<Longrightarrow> messages_ok (json_entries i es out)" for i es out
  proof (induction es arbitrary: i out)
    case (Cons e es)
    have "messages_ok (json_entry i e out)"
      using Cons.prems by (simp add: json_entry_def split: sum.split list.split)
    then show ?case using Cons by simp
  qed simp
  have c: "messages_ok out \<Longrightarrow> messages_ok (clash_entries all p r i items b out)" for all p r i items b out
  proof (induction items arbitrary: i b out)
    case (Cons item items)
    have "messages_ok (clash_entry r i v out)" for v
      using Cons.prems by (simp add: clash_entry_def Let_def split: option.split)
    then show ?case using Cons by (simp split: prod.split)
  qed simp
  have l: "messages_ok (fst st) \<Longrightarrow> messages_ok (fst (report_lines evp n ls st))" for n ls st
  proof (induction ls arbitrary: n st)
    case (Cons ln ls)
    have "messages_ok (fst (report_line evp (n + 1) ln st))"
      using Cons.prems by (cases st) (simp add: report_line_def Let_def split: sum.split option.split)
    then show ?case using Cons by simp
  qed simp
  show ?thesis
    by (simp add: report_collect_def parse_clash_yaml_def j c l split: option.split prod.split)
qed

lemma subscription_node_validD:
  assumes "subscription_node_valid n"
  shows "CHR 0x00 \<notin> set (ps_server n)" "CHR 0x00 \<notin> set (ps_tag n)"
    "\<not> subscription_local_reference (ps_protocol_config n) 0"
  using assms by (simp_all add: subscription_node_valid_def Let_def split: if_split_asm)

lemma report_nodes:
  assumes "n \<in> set (pi_nodes (fst (sb_parse_subscription_report evp libyaml body)))"
  shows "sound_node n \<and> subscription_node_valid n"
proof -
  obtain out e where out: "report_collect evp libyaml (report_text evp body) = (out, e)" by force
  then have "n \<in> set (pi_nodes out)" "subscription_node_valid n"
    using assms by (simp_all add: report_eq [OF out])
  moreover have "nodes_ok out" using report_collect_ok [of evp libyaml "report_text evp body"] out by simp
  ultimately show ?thesis by (auto simp: nodes_ok_def intro: valid_sound)
qed

text \<open>(C17) What a subscription can put into the store. Whatever the server of a subscription sends,
  every node of the report has a known type, a server without NUL, a port between 1 and 65535 and
  the credentials of its type, and no object of its configuration, at any depth, names a local
  file or a certificate provider; the call succeeds exactly when there is such a node.\<close>

theorem subscription_report_safe:
  "case sb_parse_subscription_report evp libyaml body of (out, result) \<Rightarrow>
     (result = Inr () \<longleftrightarrow> pi_nodes out \<noteq> [])
     \<and> (\<forall>n\<in>set (pi_nodes out).
          ps_node_type n \<in> set node_types \<and> ps_server n \<noteq> []
          \<and> CHR 0x00 \<notin> set (ps_server n) \<and> CHR 0x00 \<notin> set (ps_tag n)
          \<and> 0 < ps_server_port n \<and> ps_server_port n \<le> 65535
          \<and> has_required_secret (ps_node_type n) (Some (ps_protocol_config n))
          \<and> wf_json (ps_protocol_config n)
          \<and> json_keys (ps_protocol_config n) \<inter> set forbidden = {})"
proof -
  obtain out r where out: "sb_parse_subscription_report evp libyaml body = (out, r)" by force
  have "r = Inr () \<longleftrightarrow> pi_nodes out \<noteq> []"
    using out
    by (auto simp: sb_parse_subscription_report_def Let_def sb_fail_def split: prod.split_asm
        option.split_asm if_split_asm)
  moreover have "sound_node n \<and> subscription_node_valid n
      \<and> json_keys (ps_protocol_config n) \<inter> set forbidden = {}" if "n \<in> set (pi_nodes out)" for n
    using that report_nodes [of n evp libyaml body] out subscription_node_validD(3) [of n]
      local_reference_keys(1) [of "ps_protocol_config n" 0]
    by (simp add: sound_node_def)
  ultimately show ?thesis
    unfolding out using subscription_node_validD by (simp add: sound_node_def)
qed

text \<open>A plain list with one line, when \<open>libyaml\<close> rejects it.\<close>

lemma demo_rejected: "yload_first (\<lambda>u. ([], no_problem)) text = None"
proof -
  let ?lib = "\<lambda>u :: string. ([] :: yevent list, no_problem)"
  have att: "\<exists>M. yload_attempt ?lib L u = (None, M) \<and> parser_problem M = no_problem" for L u
    by (simp add: yload_attempt_def yaml_parser_parse_def parser_problem_def)
  have nofix: "early_fixes M u = None" "anchor_fix no_problem u bulk = None"
    "trailing_key_fix no_problem opn u = None" if "parser_problem M = no_problem" for M u opn bulk
    using that
    by (simp_all add: early_fixes_def or_else_def quote_escape_fix_def flow_colon_fix_def
        unterminated_quote_fix_def empty_key_fix_def tab_fix_def anchor_fix_def anchor_at_def
        trailing_key_fix_def problem_is_def no_problem_def)
  have "fst (yload_rounds (Suc r) ?lib b w ren L u) = None" for r b w ren L u
  proof -
    obtain M where M: "yload_attempt ?lib L u = (None, M)" "parser_problem M = no_problem"
      using att by blast
    then show ?thesis using nofix [OF M(2)] by (simp add: Let_def)
  qed
  then have *: "fst (yload_rounds YAML_MAX_FIX_ROUNDS ?lib b w ren L u) = None" for b w ren L u
    by (metis YAML_MAX_FIX_ROUNDS_def numeral_nat(2) Suc_numeral Suc_pred zero_less_numeral)
  obtain u L where u: "(case yaml_sanitize (yamlcpp_decode text) of
      Some s \<Rightarrow> (s, yload_init True) | None \<Rightarrow> (yamlcpp_decode text, yload_init False)) = (u, L)" by force
  obtain root ren M where "yload_rounds YAML_MAX_FIX_ROUNDS ?lib True 0 False L u = (root, ren, M)"
    by (metis prod_cases3)
  then show ?thesis using u * [of True 0 False L u] by (simp add: yload_first_def)
qed

lemma demo_uri: "sb_parse_proxy_uri_ex (\<lambda>s. None) (Some ''http://h'') = Inr None"
  by code_simp

lemma demo_basic: "subscription_basic_uri (\<lambda>s. None) ''http://h'' = Some \<lparr>ps_node_type = ''http'',
    ps_tag = ''h:80'', ps_server = ''h'', ps_server_port = 80, ps_protocol_config = sbj_object\<rparr>"
  by code_simp

lemma demo_text_lines: "report_text (\<lambda>s. None) (Some ''http://h'') = ''http://h''"
   "text_lines ''http://h'' = [''http://h'']" "json_list ''http://h'' = None"
   "comment_line ''http://h'' = False" "plugin_link ''http://h'' = False"
  by code_simp+

lemma demo_node_valid: "subscription_node_valid \<lparr>ps_node_type = ''http'', ps_tag = ''h:80'',
    ps_server = ''h'', ps_server_port = 80, ps_protocol_config = sbj_object\<rparr>"
  by code_simp

lemma demo_report:
  "fst (sb_parse_subscription_report (\<lambda>s. None) (\<lambda>u. ([], no_problem)) (Some ''http://h'')) =
     \<lparr>pi_nodes = [\<lparr>ps_node_type = ''http'', ps_tag = ''h:80'', ps_server = ''h'', ps_server_port = 80,
        ps_protocol_config = sbj_object\<rparr>], pi_skipped = []\<rparr>"
proof -
  have "report_collect (\<lambda>s. None) (\<lambda>u. ([], no_problem)) ''http://h'' =
      (\<lparr>pi_nodes = [\<lparr>ps_node_type = ''http'', ps_tag = ''h:80'', ps_server = ''h'', ps_server_port = 80,
        ps_protocol_config = sbj_object\<rparr>], pi_skipped = []\<rparr>, None)"
    by (simp add: report_collect_def demo_text_lines parse_clash_yaml_def clash_list_def demo_rejected
        report_line_def demo_uri demo_basic sb_proxy_import_init_def)
  then show ?thesis
    by (simp add: sb_parse_subscription_report_def demo_text_lines demo_node_valid)
qed

theorem subscription_report_safe_witness:
  "\<exists>out. sb_parse_subscription_report (\<lambda>s. None) (\<lambda>u. ([], no_problem)) (Some ''http://h'') = (out, Inr ())
     \<and> map ps_server (pi_nodes out) = [''h'']"
proof -
  obtain out r where out: "sb_parse_subscription_report (\<lambda>s. None) (\<lambda>u. ([], no_problem))
      (Some ''http://h'') = (out, r)" by force
  then show ?thesis
    using subscription_report_safe [of "\<lambda>s. None" "\<lambda>u. ([], no_problem)" "Some ''http://h''"] demo_report
    by simp
qed

text \<open>(C19) Nothing of a subscription disappears without a trace: the nodes and the messages of a
  report together are as many as the entries of the body (the outbounds of a sing-box
  configuration that are not built-in, the proxies of a Clash file, or the lines that are neither
  empty nor comments).\<close>

theorem subscription_report_complete:
  "let out = fst (sb_parse_subscription_report evp libyaml body) in
     length (pi_nodes out) + length (pi_skipped out) = body_entries libyaml (report_text evp body)"
proof -
  obtain out e where out: "report_collect evp libyaml (report_text evp body) = (out, e)" by force
  have "length (pi_nodes out) = length (filter subscription_node_valid (pi_nodes out))
      + length (filter (\<lambda>n. \<not> subscription_node_valid n) (pi_nodes out))"
    by (simp add: sum_length_filter_compl)
  then show ?thesis
    using report_collect_seen [of evp libyaml "report_text evp body"] out
    by (simp add: report_eq [OF out] entries_seen_def)
qed

text \<open>(C37) The messages of a report never quote the subscription: each is one of the fixed texts with a
  position, so neither a link nor a credential can end up in it.\<close>

theorem subscription_report_messages:
  "list_all report_message (pi_skipped (fst (sb_parse_subscription_report evp libyaml body)))"
proof -
  obtain out e where out: "report_collect evp libyaml (report_text evp body) = (out, e)" by force
  then have "messages_ok out" using collect_messages [of evp libyaml "report_text evp body"] by simp
  then show ?thesis
    by (auto simp: report_eq [OF out] messages_ok_def list_all_iff)
qed

subsection \<open>Facts: errors of the outbound import\<close>

definition outbound_list :: "sbj option \<Rightarrow> sbj list" where
  "outbound_list config =
     (if sbj_is_object config \<and> sbj_is_array (jget config ''outbounds'')
      then array_items (jget config ''outbounds'') else array_items config)"

definition mistyped_member :: "sbj \<Rightarrow> string \<Rightarrow> bool" where
  "mistyped_member v k \<longleftrightarrow> jget (Some v) k \<noteq> None \<and> \<not> sbj_is_string (jget (Some v) k)"

definition mistyped_outbound :: "sbj \<Rightarrow> bool" where
  "mistyped_outbound v \<longleftrightarrow> sbj_is_object (Some v)
     \<and> (mistyped_member v ''type''
        \<or> str_of (jget (Some v) ''type'') \<in> set supported_types \<and> mistyped_member v ''tag'')"

lemma value_string_cases:
  "value_string (Some v) k fb =
     (if mistyped_member v k then type_error ''string'' (the (jget (Some v) k))
      else Inr (case jget (Some v) k of None \<Rightarrow> fb | Some f \<Rightarrow> str_of (Some f)))"
  by (auto simp: value_string_def mistyped_member_def split: option.split)

lemma type_error_Inl [simp]: "\<exists>e. type_error w v = Inl e" "type_error w v \<noteq> Inr x"
    "res_bind (type_error w v) f = type_error w v"
  by (simp_all add: type_error_def sb_fail_def res_bind_def)

lemma parse_outbound_error:
  "\<not> mistyped_member v ''tag'' \<Longrightarrow> \<exists>r. parse_outbound (Some v) = Inr r"
  by (auto simp: parse_outbound_def Let_def value_string_cases split: option.split)

lemma parse_outbound_mistyped:
  "mistyped_member v ''tag'' \<Longrightarrow> parse_outbound (Some v) = Inr None \<or> (\<exists>e. parse_outbound (Some v) = Inl e)"
  by (auto simp: parse_outbound_def Let_def value_string_cases split: option.split)

lemma no_type_unsupported: "[] \<notin> set supported_types"
  by (simp add: supported_types_def)

lemma import_outbound_error: "(\<exists>e. import_outbound out v = Inl e) \<longleftrightarrow> mistyped_outbound v"
proof (cases "sbj_is_object (Some v) \<and> \<not> mistyped_member v ''type''")
  case False
  then show ?thesis
    using no_type_unsupported
    by (auto simp: import_outbound_def mistyped_outbound_def value_string_cases)
next
  case True
  define t where "t = (case jget (Some v) ''type'' of None \<Rightarrow> [] | Some f \<Rightarrow> str_of (Some f))"
  have t: "str_of (jget (Some v) ''type'') = t" by (simp add: t_def split: option.split)
  show ?thesis
  proof (cases "mistyped_member v ''tag''")
    case tag: True
    then show ?thesis
      using True parse_outbound_mistyped [OF tag]
      by (auto simp: import_outbound_def mistyped_outbound_def value_string_cases t t_def [symmetric])
  next
    case tag: False
    obtain r where "parse_outbound (Some v) = Inr r" using parse_outbound_error [OF tag] by blast
    then show ?thesis
      using True tag
      by (auto simp: import_outbound_def mistyped_outbound_def value_string_cases t t_def [symmetric]
          split: option.split)
  qed
qed

text \<open>(C38) The import of sing-box outbounds fails exactly when some outbound has a \<open>type\<close> that is not a
  string, or is of a supported type and has a \<open>tag\<close> that is not a string; every other defect only
  skips the outbound.\<close>

theorem outbound_import_errors:
  "(\<exists>e. sb_parse_outbound_config config = Inl e) \<longleftrightarrow> list_ex mistyped_outbound (outbound_list config)"
proof -
  have "(\<exists>e. import_outbounds out os = Inl e) \<longleftrightarrow> list_ex mistyped_outbound os" for out os
  proof (induction os arbitrary: out)
    case (Cons v os)
    then show ?case
      using import_outbound_error [of out v] by (cases "import_outbound out v") auto
  qed simp
  then show ?thesis
    by (cases config rule: array_items.cases)
      (auto simp: sb_parse_outbound_config_def outbound_list_def Let_def split: option.split)
qed

end
