(* ===== verification/Database.thy ===== *)
theory Database
  imports Types
begin

text \<open>
  Statements and transactions on SQLite, \<open>c/src/sqlite_internal.h\<close>.

  A connection holds the tables, the copy SQLite goes back to while a transaction is open, and what
  the library decides: the result codes of the coming calls (\<open>0\<close> and an empty list mean that a call
  goes through) and the text of an error. Every \<open>sqlite3_prepare_v2\<close>, \<open>sqlite3_step\<close> and
  \<open>sqlite3_exec\<close> consumes one code, so every error path of the callers can be taken. A statement
  itself is a function on the tables; a violated constraint is the left summand with its code.

  An operation returns its result and the connection after it. The connection type is extensible,
  so that the callers add the state they keep beside the handle.
\<close>

subsection \<open>Computations on a connection\<close>

record 't conn =
  tables :: 't
  saved :: "'t option"
  codes :: "int list"
  errmsg :: "int \<Rightarrow> string"

type_synonym ('s, 'a) dbm = "'s \<Rightarrow> 'a res \<times> 's"

definition dret :: "'a \<Rightarrow> ('s, 'a) dbm" where
  "dret x s = (Inr x, s)"

definition dfail :: "sb_code \<Rightarrow> string \<Rightarrow> ('s, 'a) dbm" where
  "dfail c m s = (sb_fail c m, s)"

definition dbind :: "('s, 'a) dbm \<Rightarrow> ('a \<Rightarrow> ('s, 'b) dbm) \<Rightarrow> ('s, 'b) dbm" where
  "dbind m f s = (case m s of (Inl e, s) \<Rightarrow> (Inl e, s) | (Inr x, s) \<Rightarrow> f x s)"

text \<open>A function that fails without calling \<open>sb_fail\<close> leaves the caller's zeroed \<open>sb_err\<close> as it is.\<close>

definition dsilent :: "('s, 'a) dbm" where
  "dsilent s = (Inl \<lparr>err_code = SB_OK, err_msg = []\<rparr>, s)"

subsection \<open>Calls of the library\<close>

definition next_code :: "('t, 'z) conn_scheme \<Rightarrow> int \<times> ('t, 'z) conn_scheme" where
  "next_code s = (case codes s of [] \<Rightarrow> (0, s) | c # cs \<Rightarrow> (c, s\<lparr>codes := cs\<rparr>))"

definition sbq_fail :: "string \<Rightarrow> int \<Rightarrow> ('t, 'z) conn_scheme \<Rightarrow> 'a res" where
  "sbq_fail operation code s =
     sb_fail SB_ERR_GENERIC
       (operation @ '' failed ('' @ show_int code @ ''): '' @ errmsg s code)"

definition sbq_exec ::
  "(('t, 'z) conn_scheme \<Rightarrow> ('t, 'z) conn_scheme) \<Rightarrow> (('t, 'z) conn_scheme, unit) dbm" where
  "sbq_exec sql s =
     (let (code, s) = next_code s in
      if code \<noteq> 0 then (sbq_fail ''execute SQL'' code s, s) else (Inr (), sql s))"

definition sbq_prepare :: "(('t, 'z) conn_scheme, unit) dbm" where
  "sbq_prepare s =
     (let (code, s) = next_code s in
      if code \<noteq> 0 then (sbq_fail ''prepare SQL'' code s, s) else (Inr (), s))"

text \<open>\<open>row\<close> is the row the statement is about to deliver; \<open>None\<close> is \<open>SQLITE_DONE\<close>.\<close>

definition sbq_step_row :: "'a option \<Rightarrow> (('t, 'z) conn_scheme, 'a option) dbm" where
  "sbq_step_row row s =
     (let (code, s) = next_code s in
      if code \<noteq> 0 then (sbq_fail ''step SQL'' code s, s) else (Inr row, s))"

text \<open>The result is what \<open>sqlite3_changes\<close> then returns.\<close>

definition sbq_step_done ::
  "('t \<Rightarrow> int + 't \<times> nat) \<Rightarrow> (('t, 'z) conn_scheme, nat) dbm" where
  "sbq_step_done sql s =
     (let (code, s) = next_code s in
      if code \<noteq> 0 then (sbq_fail ''execute SQL'' code s, s)
      else
        (case sql (tables s) of
           Inl code \<Rightarrow> (sbq_fail ''execute SQL'' code s, s)
         | Inr (t, n) \<Rightarrow> (Inr n, s\<lparr>tables := t\<rparr>)))"

definition sbq_begin :: "(('t, 'z) conn_scheme, unit) dbm" where
  "sbq_begin = sbq_exec (\<lambda>s. s\<lparr>saved := Some (tables s)\<rparr>)"

definition sbq_commit :: "(('t, 'z) conn_scheme, unit) dbm" where
  "sbq_commit = sbq_exec (\<lambda>s. s\<lparr>saved := None\<rparr>)"

definition sbq_rollback :: "('t, 'z) conn_scheme \<Rightarrow> ('t, 'z) conn_scheme" where
  "sbq_rollback s = (case saved s of None \<Rightarrow> s | Some t \<Rightarrow> s\<lparr>tables := t, saved := None\<rparr>)"

subsection \<open>The ways the callers use a statement\<close>

text \<open>A query of which one row is read, a query whose rows are read in a loop, and a statement
  without rows.\<close>

definition sql_first :: "('t \<Rightarrow> 'r list) \<Rightarrow> (('t, 'z) conn_scheme, 'r option) dbm" where
  "sql_first query =
     dbind sbq_prepare (\<lambda>_ s.
       sbq_step_row (case query (tables s) of [] \<Rightarrow> None | r # _ \<Rightarrow> Some r) s)"

fun sql_loop ::
  "('r \<Rightarrow> 'a \<Rightarrow> (('t, 'z) conn_scheme, 'a) dbm) \<Rightarrow> 'r list \<Rightarrow> 'a \<Rightarrow> (('t, 'z) conn_scheme, 'a) dbm"
where
  "sql_loop f [] acc = dbind (sbq_step_row (None :: unit option)) (\<lambda>_. dret acc)"
| "sql_loop f (r # rs) acc =
     dbind (sbq_step_row (Some r)) (\<lambda>_. dbind (f r acc) (\<lambda>acc. sql_loop f rs acc))"

definition sql_each ::
  "('t \<Rightarrow> 'r list) \<Rightarrow> ('r \<Rightarrow> 'a \<Rightarrow> (('t, 'z) conn_scheme, 'a) dbm) \<Rightarrow> 'a
    \<Rightarrow> (('t, 'z) conn_scheme, 'a) dbm" where
  "sql_each query f acc = dbind sbq_prepare (\<lambda>_ s. sql_loop f (query (tables s)) acc s)"

definition sql_run :: "('t \<Rightarrow> int + 't \<times> nat) \<Rightarrow> (('t, 'z) conn_scheme, nat) dbm" where
  "sql_run sql = dbind sbq_prepare (\<lambda>_. sbq_step_done sql)"

text \<open>The frame of every writing function: \<open>begin\<close>, the body, \<open>commit\<close>, and \<open>goto rollback\<close> from
  anywhere between them.\<close>

definition transaction ::
  "(('t, 'z) conn_scheme, 'a) dbm \<Rightarrow> (('t, 'z) conn_scheme, 'a) dbm" where
  "transaction body s =
     (case sbq_begin s of
        (Inl e, s) \<Rightarrow> (Inl e, s)
      | (Inr _, s) \<Rightarrow>
          (case dbind body (\<lambda>x. dbind sbq_commit (\<lambda>_. dret x)) s of
             (Inl e, s) \<Rightarrow> (Inl e, sbq_rollback s)
           | (Inr x, s) \<Rightarrow> (Inr x, s)))"

text \<open>\<open>for\<close> over an array, each round of which may fail.\<close>

fun dfor :: "'a list \<Rightarrow> ('a \<Rightarrow> ('s, unit) dbm) \<Rightarrow> ('s, unit) dbm" where
  "dfor [] f = dret ()"
| "dfor (x # xs) f = dbind (f x) (\<lambda>_. dfor xs f)"

end
