(* ===== verification/Proxy_Tables.thy ===== *)
theory Proxy_Tables
  imports Database "HOL-Library.Product_Lexorder"
begin

text \<open>
  The tables of managed proxy users, \<open>migrations/018_proxy_users.sql\<close>, with the columns of \<open>hosts\<close>
  that the code about them reads. A table is the list of its rows in insertion order; a flag column
  is a \<open>bool\<close>, a column that may be \<open>NULL\<close> an \<open>option\<close>. \<open>t_schema\<close> lists the tables that exist.
  Writing statements check the constraints of the schema and report \<open>SQLITE_CONSTRAINT\<close>.
\<close>

record host_row =
  hs_id :: string
  hs_enabled :: bool

record report_row =
  rp_host :: string
  rp_supported :: bool
  rp_observed_at :: int

record ingress_row =
  in_host :: string
  in_enabled :: bool
  in_server :: string
  in_listen :: string
  in_listen_port :: int
  in_server_key :: string
  in_updated_at :: int

record user_row =
  us_id :: string
  us_name :: string
  us_enabled :: bool
  us_deleted :: bool
  us_quota_bytes :: int
  us_expires_at :: int
  us_max_devices :: int
  us_epoch :: int
  us_not_before :: int
  us_claim_hash :: "string option"
  us_created_at :: int
  us_updated_at :: int

record device_row =
  dv_id :: string
  dv_user :: string
  dv_name :: string
  dv_enabled :: bool
  dv_password :: string
  dv_token_hash :: string
  dv_expires_at :: int
  dv_created_at :: int
  dv_revoked_at :: "int option"

record lease_row =
  ls_id :: string
  ls_user :: string
  ls_host :: string
  ls_boot :: string
  ls_epoch :: int
  ls_grant_bytes :: int
  ls_used_bytes :: int
  ls_expires_at :: int
  ls_updated_at :: int

record session_row =
  se_host :: string
  se_boot :: string
  se_request_seq :: int
  se_request_hash :: string
  se_response :: string
  se_updated_at :: int

record proxy_db =
  t_schema :: "string list"
  t_hosts :: "host_row list"
  t_reports :: "report_row list"
  t_ingress :: "ingress_row list"
  t_users :: "user_row list"
  t_user_nodes :: "(string \<times> string) list"
  t_devices :: "device_row list"
  t_leases :: "lease_row list"
  t_sessions :: "session_row list"

definition SQLITE_CONSTRAINT :: int where
  "SQLITE_CONSTRAINT = 19"

text \<open>\<open>UPDATE ... SET f WHERE p\<close> on one table, and the number of rows it changes.\<close>

definition upd_rows :: "('r \<Rightarrow> bool) \<Rightarrow> ('r \<Rightarrow> 'r) \<Rightarrow> 'r list \<Rightarrow> 'r list \<times> nat" where
  "upd_rows p f rs = (map (\<lambda>r. if p r then f r else r) rs, length (filter p rs))"

text \<open>\<open>INSERT ... ON CONFLICT DO UPDATE\<close>: the row in conflict is updated, or the new one appended.\<close>

definition upsert :: "('r \<Rightarrow> bool) \<Rightarrow> ('r \<Rightarrow> 'r) \<Rightarrow> 'r \<Rightarrow> 'r list \<Rightarrow> 'r list" where
  "upsert conflict f new rs =
     (if list_ex conflict rs then map (\<lambda>r. if conflict r then f r else r) rs else rs @ [new])"

text \<open>A date column in which \<open>0\<close> means no limit.\<close>

definition unexpired :: "int \<Rightarrow> int \<Rightarrow> bool" where
  "unexpired expires_at now \<longleftrightarrow> expires_at = 0 \<or> expires_at > now"

definition host_enabled :: "proxy_db \<Rightarrow> string \<Rightarrow> bool" where
  "host_enabled t host = list_ex (\<lambda>h. hs_id h = host \<and> hs_enabled h) (t_hosts t)"

text \<open>\<open>SUM\<close> over the leases of a user in an epoch.\<close>

definition epoch_leases :: "proxy_db \<Rightarrow> string \<Rightarrow> int \<Rightarrow> lease_row list" where
  "epoch_leases t user epoch = filter (\<lambda>l. ls_user l = user \<and> ls_epoch l = epoch) (t_leases t)"

definition granted :: "proxy_db \<Rightarrow> string \<Rightarrow> int \<Rightarrow> int" where
  "granted t user epoch = sum_list (map ls_grant_bytes (epoch_leases t user epoch))"

definition reported :: "proxy_db \<Rightarrow> string \<Rightarrow> int \<Rightarrow> int" where
  "reported t user epoch = sum_list (map ls_used_bytes (epoch_leases t user epoch))"

end
