(* ===== verification/Proxy_Clock.thy ===== *)
theory Proxy_Clock
  imports Proxy_Tables
begin

text \<open>
  \<open>c/src/proxy_clock.c\<close>: the monotonic fence between the epochs of a proxy user.

  A clock remembers, for each user, the epoch it saw last and until when new leases are withheld.
  Its time source is a function from the number of the call to the value returned, so a source that
  stops, runs backwards or fails is one of its instances. The mutexes serialise the operations,
  which the model has as functions; the registry of clocks is a list, and a clock in it is named
  by its identity.
\<close>

definition FENCE_MS :: int where
  "FENCE_MS = 60000"

definition INT64_MAX :: int where
  "INT64_MAX = 2 ^ 63 - 1"

record proxy_epoch_clock =
  ec_user :: string
  ec_epoch :: int
  ec_until :: int

text \<open>The connection and the file a clock stands for.\<close>

record clock_identity =
  id_device :: nat
  id_inode :: nat
  id_memory :: "nat option"
  id_process :: nat

record sb_proxy_clock =
  pc_identity :: clock_identity
  pc_references :: nat
  pc_startup_until :: int
  pc_last_now :: int
  pc_used :: bool
  pc_now :: "nat \<Rightarrow> int"
  pc_calls :: nat
  pc_epochs :: "proxy_epoch_clock list"

text \<open>\<open>clock_gettime\<close> gives seconds and nanoseconds, or fails.\<close>

definition real_monotonic :: "(int \<times> int) option \<Rightarrow> int" where
  "real_monotonic gettime =
     (case gettime of
        None \<Rightarrow> - 1
      | Some (tv_sec, tv_nsec) \<Rightarrow>
          (if tv_sec < 0 \<or> tv_sec > (INT64_MAX - 999) div 1000 \<or> tv_nsec < 0 \<or> tv_nsec \<ge> 1000000000
           then - 1 else tv_sec * 1000 + tv_nsec div 1000000))"

definition epoch_find :: "sb_proxy_clock \<Rightarrow> string \<Rightarrow> proxy_epoch_clock option" where
  "epoch_find clock user = find (\<lambda>e. sb_streq (Some (ec_user e)) (Some user)) (pc_epochs clock)"

definition epoch_add :: "sb_proxy_clock \<Rightarrow> string \<Rightarrow> int \<Rightarrow> int \<Rightarrow> sb_proxy_clock" where
  "epoch_add clock user epoch until =
     clock\<lparr>pc_epochs := \<lparr>ec_user = user, ec_epoch = epoch, ec_until = until\<rparr> # pc_epochs clock\<rparr>"

text \<open>Writing through the pointer that \<open>epoch_find\<close> returned: the first entry of the user.\<close>

fun epoch_write ::
  "(proxy_epoch_clock \<Rightarrow> proxy_epoch_clock) \<Rightarrow> string \<Rightarrow> proxy_epoch_clock list \<Rightarrow> proxy_epoch_clock list"
where
  "epoch_write f user [] = []"
| "epoch_write f user (e # es) =
     (if sb_streq (Some (ec_user e)) (Some user) then f e # es else e # epoch_write f user es)"

definition same_identity :: "clock_identity \<Rightarrow> clock_identity \<Rightarrow> bool" where
  "same_identity left right =
     (if id_process left \<noteq> id_process right then False
      else if id_memory left \<noteq> None \<or> id_memory right \<noteq> None then id_memory left = id_memory right
      else id_device left = id_device right \<and> id_inode left = id_inode right)"

definition find_clock :: "sb_proxy_clock list \<Rightarrow> clock_identity \<Rightarrow> sb_proxy_clock option" where
  "find_clock registry ident = find (\<lambda>c. same_identity (pc_identity c) ident) registry"

subsection \<open>Opening a database\<close>

definition snapshot_users ::
  "sb_proxy_clock \<Rightarrow> ((proxy_db, 'z) conn_scheme, sb_proxy_clock) dbm" where
  "snapshot_users =
     sql_each (\<lambda>t. map (\<lambda>u. (us_id u, us_epoch u)) (filter (\<lambda>u. \<not> us_deleted u) (t_users t)))
       (\<lambda>(user, epoch) clock.
          if user = [] \<or> length user > 128 \<or> epoch < 1
          then dfail SB_ERR_GENERIC ''Invalid persisted proxy epoch''
          else dret (epoch_add clock user epoch
                 (if epoch > 1 then pc_last_now clock + FENCE_MS else 0)))"

text \<open>The statements of the snapshot: \<open>None\<close> before the migrations, otherwise whether a lease has
  bytes left, and the epochs.\<close>

definition snapshot_read ::
  "sb_proxy_clock \<Rightarrow> ((proxy_db, 'z) conn_scheme, (bool \<times> sb_proxy_clock) option) dbm" where
  "snapshot_read clock =
     dbind (sql_first (\<lambda>t. [length (filter (\<lambda>n. n = ''proxy_users'' \<or> n = ''proxy_leases'') (t_schema t))]))
       (\<lambda>tables.
        if tables = Some 0 then dret None
        else if tables \<noteq> Some 2 then dfail SB_ERR_GENERIC ''Incomplete proxy lease schema''
        else
          dbind (sql_first (\<lambda>t. [list_ex (\<lambda>l. ls_grant_bytes l > ls_used_bytes l) (t_leases t)]))
            (\<lambda>outstanding.
             dbind (snapshot_users clock) (\<lambda>clock. dret (Some (outstanding = Some True, clock)))))"

text \<open>\<open>observed\<close> is what the clock shows after the transaction.\<close>

definition initialize_snapshot ::
  "sb_proxy_clock \<Rightarrow> int \<Rightarrow> ((proxy_db, 'z) conn_scheme, sb_proxy_clock) dbm" where
  "initialize_snapshot clock observed s =
     (case sbq_begin s of
        (Inl e, s) \<Rightarrow> (Inl e, s)
      | (Inr _, s) \<Rightarrow>
          (case snapshot_read clock s of
             (Inl e, s) \<Rightarrow> (Inl e, sbq_rollback s)
           | (Inr None, s) \<Rightarrow> dbind sbq_commit (\<lambda>_. dret clock) s
           | (Inr (Some (outstanding, clock)), s) \<Rightarrow>
               (case sbq_commit s of
                  (Inl e, s) \<Rightarrow> (Inl e, sbq_rollback s)
                | (Inr _, s) \<Rightarrow>
                    if observed < pc_last_now clock \<or> observed > INT64_MAX - FENCE_MS
                    then dfail SB_ERR_GENERIC ''Monotonic clock is unavailable'' s
                    else
                      (let clock = clock\<lparr>pc_last_now := observed\<rparr>;
                           clock = (if outstanding
                                    then clock\<lparr>pc_startup_until := observed + FENCE_MS\<rparr> else clock) in
                       dret (clock\<lparr>pc_epochs :=
                         map (\<lambda>e. if ec_epoch e > 1 then e\<lparr>ec_until := observed + FENCE_MS\<rparr> else e)
                           (pc_epochs clock)\<rparr>) s))))"

definition clock_share :: "clock_identity \<Rightarrow> sb_proxy_clock list \<Rightarrow> sb_proxy_clock list" where
  "clock_share ident registry =
     map (\<lambda>c. if same_identity (pc_identity c) ident
              then c\<lparr>pc_references := pc_references c + 1\<rparr> else c) registry"

text \<open>The second half of \<open>sb_proxy_clock_attach\<close>, under the registry's mutex again: another
  connection may have published a clock for the same file meanwhile.\<close>

definition clock_publish :: "sb_proxy_clock \<Rightarrow> sb_proxy_clock list \<Rightarrow> sb_proxy_clock list" where
  "clock_publish clock registry =
     (case find_clock registry (pc_identity clock) of
        Some _ \<Rightarrow> clock_share (pc_identity clock) registry
      | None \<Rightarrow> clock # registry)"

text \<open>A private clock before its snapshot. \<open>started\<close> is the first value of the real clock, \<open>now\<close>
  its later values.\<close>

definition clock_new :: "clock_identity \<Rightarrow> int \<Rightarrow> (nat \<Rightarrow> int) \<Rightarrow> sb_proxy_clock" where
  "clock_new ident started now =
     \<lparr>pc_identity = ident, pc_references = 1, pc_startup_until = 0, pc_last_now = started,
      pc_used = False, pc_now = now, pc_calls = 0, pc_epochs = []\<rparr>"

definition sb_proxy_clock_attach ::
  "clock_identity \<Rightarrow> int \<Rightarrow> int \<Rightarrow> (nat \<Rightarrow> int) \<Rightarrow> sb_proxy_clock list
    \<Rightarrow> ((proxy_db, 'z) conn_scheme, sb_proxy_clock list) dbm" where
  "sb_proxy_clock_attach ident started observed now registry =
     (if find_clock registry ident \<noteq> None then dret (clock_share ident registry)
      else if started < 0 \<or> started > INT64_MAX - FENCE_MS
      then dfail SB_ERR_GENERIC ''Monotonic clock is unavailable''
      else
        dbind (initialize_snapshot (clock_new ident started now) observed)
          (\<lambda>clock. dret (clock_publish clock registry)))"

fun sb_proxy_clock_detach :: "clock_identity \<Rightarrow> sb_proxy_clock list \<Rightarrow> sb_proxy_clock list" where
  "sb_proxy_clock_detach ident [] = []"
| "sb_proxy_clock_detach ident (c # cs) =
     (if same_identity (pc_identity c) ident
      then (if pc_references c - 1 \<noteq> 0 then c\<lparr>pc_references := pc_references c - 1\<rparr> # cs else cs)
      else c # sb_proxy_clock_detach ident cs)"

subsection \<open>Reading the clock\<close>

definition read_now :: "sb_proxy_clock \<Rightarrow> int \<times> sb_proxy_clock" where
  "read_now clock =
     (let now = pc_now clock (pc_calls clock);
          clock = clock\<lparr>pc_calls := pc_calls clock + 1\<rparr> in
      if now < pc_last_now clock \<or> now < 0 \<or> now > INT64_MAX - FENCE_MS then (- 1, clock)
      else (now, clock\<lparr>pc_last_now := now\<rparr>))"

text \<open>The entry of the user and the clock that holds it.\<close>

definition observe_epoch ::
  "sb_proxy_clock \<Rightarrow> string \<Rightarrow> int \<Rightarrow> int \<Rightarrow> sb_proxy_clock" where
  "observe_epoch clock user epoch now =
     (case epoch_find clock user of
        None \<Rightarrow> epoch_add clock user epoch (if epoch = 1 then 0 else now + FENCE_MS)
      | Some entry \<Rightarrow>
          (if ec_epoch entry \<noteq> epoch
           then clock\<lparr>pc_epochs :=
             epoch_write (\<lambda>e. e\<lparr>ec_epoch := epoch, ec_until := now + FENCE_MS\<rparr>) user
               (pc_epochs clock)\<rparr>
           else clock))"

definition clock_wait :: "sb_proxy_clock \<Rightarrow> string \<Rightarrow> int \<Rightarrow> int \<times> sb_proxy_clock" where
  "clock_wait clock user epoch =
     (let clock = clock\<lparr>pc_used := True\<rparr>; (now, clock) = read_now clock in
      if now \<ge> 0
      then
        (let clock = observe_epoch clock user epoch now;
             entry_until = (case epoch_find clock user of None \<Rightarrow> 0 | Some e \<Rightarrow> ec_until e);
             until = (if entry_until > pc_startup_until clock then entry_until
                      else pc_startup_until clock) in
         (if until > now then until - now else 0, clock))
      else (FENCE_MS, clock))"

definition clock_reset :: "sb_proxy_clock \<Rightarrow> string \<Rightarrow> int \<Rightarrow> sb_proxy_clock" where
  "clock_reset clock user epoch =
     (let clock = clock\<lparr>pc_used := True\<rparr>; (now, clock) = read_now clock in
      if now \<ge> 0
      then
        (let clock = observe_epoch clock user epoch now in
         clock\<lparr>pc_epochs :=
           epoch_write (\<lambda>e. e\<lparr>ec_until := now + FENCE_MS\<rparr>) user (pc_epochs clock)\<rparr>)
      else clock)"

text \<open>\<open>source\<close> gives the value of the call made here and of every later one.\<close>

definition clock_set_source :: "sb_proxy_clock \<Rightarrow> (nat \<Rightarrow> int) \<Rightarrow> sb_proxy_clock res" where
  "clock_set_source clock source =
     (if pc_used clock then sb_fail SB_ERR_CONFLICT ''Proxy clock source is already in use''
      else
        (let now = source 0 in
         if now < 0 \<or> now > INT64_MAX - FENCE_MS
         then sb_fail SB_ERR_VALIDATION ''Invalid monotonic clock source''
         else
           (let clock = clock\<lparr>pc_now := source, pc_calls := 1, pc_last_now := now\<rparr>;
                clock = (if pc_startup_until clock \<noteq> 0
                         then clock\<lparr>pc_startup_until := now + FENCE_MS\<rparr> else clock) in
            Inr (clock\<lparr>pc_epochs :=
              map (\<lambda>e. if ec_until e \<noteq> 0 then e\<lparr>ec_until := now + FENCE_MS\<rparr> else e)
                (pc_epochs clock)\<rparr>))))"

subsection \<open>The clock of a database\<close>

text \<open>\<open>sb_database\<close> is a connection with its clock. The remaining fields are what OpenSSL provides:
  random bytes by the number of the call, and the digest. \<open>sb_uuid_v4\<close> aborts the process when it
  gets no bytes, so a run that goes on always has some; \<open>sb_random_bytes\<close> may fail.\<close>

record sb_database = "proxy_db conn" +
  proxy_clock :: "sb_proxy_clock option"
  uuid_bytes :: "nat \<Rightarrow> string"
  uuid_calls :: nat
  secret_bytes :: "nat \<Rightarrow> nat \<Rightarrow> string option"
  secret_calls :: nat
  sha256 :: "string \<Rightarrow> string"

definition sb_proxy_clock_wait_ms :: "string \<Rightarrow> int \<Rightarrow> (sb_database, int) dbm" where
  "sb_proxy_clock_wait_ms user epoch s =
     (case proxy_clock s of
        None \<Rightarrow> (Inr FENCE_MS, s)
      | Some clock \<Rightarrow>
          (let (remaining, clock) = clock_wait clock user epoch in
           (Inr remaining, s\<lparr>proxy_clock := Some clock\<rparr>)))"

definition sb_proxy_clock_reset_epoch :: "string \<Rightarrow> int \<Rightarrow> (sb_database, unit) dbm" where
  "sb_proxy_clock_reset_epoch user epoch s =
     (Inr (), s\<lparr>proxy_clock := map_option (\<lambda>clock. clock_reset clock user epoch) (proxy_clock s)\<rparr>)"

text \<open>The database is there and so is its clock; a null source is \<open>None\<close>.\<close>

definition sb_proxy_clock_set_source :: "(nat \<Rightarrow> int) option \<Rightarrow> (sb_database, unit) dbm" where
  "sb_proxy_clock_set_source source s =
     (case (source, proxy_clock s) of
        (Some src, Some clock) \<Rightarrow>
          (case clock_set_source clock src of
             Inl e \<Rightarrow> (Inl e, s)
           | Inr clock \<Rightarrow> (Inr (), s\<lparr>proxy_clock := Some clock\<rparr>))
      | _ \<Rightarrow> dfail SB_ERR_VALIDATION ''A monotonic clock source is required'' s)"

end
