(* ===== verification/Proxy_Users.thy ===== *)
theory Proxy_Users
  imports Proxy_Clock Net_Addr
begin

text \<open>
  \<open>c/src/proxy_users.c\<close>: proxy users, their devices and claim tokens, ingress nodes and device
  subscriptions. The lease exchange is in \<open>Proxy_Leases\<close>.

  An operation runs on the database; its statements are the functions on the tables next to it.
  Text that reaches a statement is a C string, and an identifier the caller holds is never
  \<open>NULL\<close> except where the source tests for it.
\<close>

definition SAFE_INTEGER :: int where
  "SAFE_INTEGER = 9007199254740991"

definition GRANT_CHUNK :: int where
  "GRANT_CHUNK = 67108864"

definition LEASE_SECONDS :: int where
  "LEASE_SECONDS = 60"

definition METHOD :: string where
  "METHOD = ''2022-blake3-aes-128-gcm''"

definition RUNTIME_FRESH_SECONDS :: int where
  "RUNTIME_FRESH_SECONDS = 180"

subsection \<open>Validation of request members\<close>

definition text_ok :: "sbj option \<Rightarrow> nat \<Rightarrow> bool \<Rightarrow> bool" where
  "text_ok v limit identifier =
     (case v of
        Some (SBJ_STRING s) \<Rightarrow>
          (if s = [] \<or> length s > limit \<or> sbj_validate_utf8 v \<noteq> Inr () then False
           else
             list_all (\<lambda>c. \<not> (byte c < 32 \<or> byte c = 127
               \<or> identifier \<and> \<not> (islower c \<or> isupper c \<or> isdigit c \<or> c = CHR ''-'' \<or> c = CHR ''_''))) s)
      | _ \<Rightarrow> False)"

definition number_ok :: "sbj option \<Rightarrow> string \<Rightarrow> int \<Rightarrow> int \<Rightarrow> bool" where
  "number_ok body key low high =
     (case jget body key of Some (SBJ_INT i) \<Rightarrow> low \<le> i \<and> i \<le> high | _ \<Rightarrow> False)"

text \<open>The text of a member that \<open>text_ok\<close> accepted, or the fallback \<open>""\<close>.\<close>

abbreviation member_text :: "sbj option \<Rightarrow> string \<Rightarrow> string" where
  "member_text v key \<equiv> (case sbj_get_str v (Some key) (Some []) of Some s \<Rightarrow> s | None \<Rightarrow> [])"

abbreviation item_text :: "sbj option \<Rightarrow> string" where
  "item_text v \<equiv> (case sbj_as_str v (Some []) of Some s \<Rightarrow> s | None \<Rightarrow> [])"

abbreviation body_int :: "sbj option \<Rightarrow> string \<Rightarrow> int \<Rightarrow> int" where
  "body_int v key fallback \<equiv> sbj_get_int v (Some key) fallback"

fun json_items :: "sbj option \<Rightarrow> sbj list" where
  "json_items (Some (SBJ_ARRAY xs)) = xs"
| "json_items _ = []"

subsection \<open>Random identifiers and digests\<close>

definition uuid_text :: "string \<Rightarrow> string" where
  "uuid_text b =
     (let b = b[6 := of_byte (byte (b ! 6) mod 16 + 64)];
          b = b[8 := of_byte (byte (b ! 8) mod 64 + 128)] in
      sb_hex_encode (take 4 b) @ ''-'' @ sb_hex_encode (take 2 (drop 4 b)) @ ''-''
        @ sb_hex_encode (take 2 (drop 6 b)) @ ''-'' @ sb_hex_encode (take 2 (drop 8 b)) @ ''-''
        @ sb_hex_encode (take 6 (drop 10 b)))"

definition sb_uuid_v4 :: "(sb_database, string) dbm" where
  "sb_uuid_v4 s = (Inr (uuid_text (uuid_bytes s (uuid_calls s))), s\<lparr>uuid_calls := uuid_calls s + 1\<rparr>)"

definition new_secret :: "bool \<Rightarrow> (sb_database, string) dbm" where
  "new_secret base64 s =
     (let size = (if base64 then 16 else 32);
          raw = secret_bytes s (secret_calls s) size;
          s = s\<lparr>secret_calls := secret_calls s + 1\<rparr> in
      case raw of
        None \<Rightarrow> dfail SB_ERR_GENERIC ''Secure random generation failed'' s
      | Some raw \<Rightarrow> dret (if base64 then sb_base64_encode raw else sb_base64url_encode raw) s)"

definition sb_sha256_hex :: "string \<Rightarrow> sb_database \<Rightarrow> string" where
  "sb_sha256_hex data s = sb_hex_encode (sha256 s data)"

subsection \<open>Runtime reports\<close>

fun capabilities_ok :: "sbj list \<Rightarrow> bool \<Rightarrow> bool res" where
  "capabilities_ok [] supported = Inr supported"
| "capabilities_ok (c # cs) supported =
     (if \<not> text_ok (Some c) 128 True then sb_fail SB_ERR_VALIDATION ''Invalid runtime capability''
      else capabilities_ok cs (supported \<or> sbj_string_is (Some c) (Some ''proxy_users_v1'')))"

definition report_upsert :: "string \<Rightarrow> bool \<Rightarrow> int \<Rightarrow> proxy_db \<Rightarrow> int + proxy_db \<times> nat" where
  "report_upsert host supported now t =
     (if host_enabled t host
      then Inr (t\<lparr>t_reports :=
        upsert (\<lambda>r. rp_host r = host) (\<lambda>r. r\<lparr>rp_supported := supported, rp_observed_at := now\<rparr>)
          \<lparr>rp_host = host, rp_supported = supported, rp_observed_at = now\<rparr> (t_reports t)\<rparr>, 1)
      else Inr (t, 0))"

definition sb_proxy_runtime_report ::
  "string \<Rightarrow> sbj option \<Rightarrow> int \<Rightarrow> (sb_database, unit) dbm" where
  "sb_proxy_runtime_report host capabilities now =
     (if \<not> sbj_is_null capabilities \<and> (\<not> sbj_is_array capabilities \<or> sbj_arr_len capabilities > 64)
      then dfail SB_ERR_VALIDATION ''Runtime capabilities must be an array of at most 64 identifiers''
      else
        (case capabilities_ok (json_items capabilities) False of
           Inl e \<Rightarrow> (\<lambda>s. (Inl e, s))
         | Inr supported \<Rightarrow>
             dbind (sql_run (report_upsert host supported now)) (\<lambda>changes.
               if changes \<noteq> 1 then dfail SB_ERR_AUTH ''Runtime host is unknown or disabled''
               else dret ())))"

text \<open>Whether the runtime of a host is supported and fresh, and when it was seen.\<close>

definition report_fresh :: "report_row \<Rightarrow> int \<Rightarrow> bool" where
  "report_fresh r now \<longleftrightarrow> rp_supported r \<and> rp_observed_at r \<ge> now - RUNTIME_FRESH_SECONDS
     \<and> rp_observed_at r \<le> now"

definition runtime_ready :: "string \<Rightarrow> int \<Rightarrow> (sb_database, bool \<times> int) dbm" where
  "runtime_ready host now =
     dbind (sql_first (\<lambda>t. filter (\<lambda>r. rp_host r = host) (t_reports t))) (\<lambda>row.
       dret (case row of
               None \<Rightarrow> (False, 0)
             | Some r \<Rightarrow> (report_fresh r now, rp_observed_at r)))"

subsection \<open>Users\<close>

definition device_active :: "int \<Rightarrow> device_row \<Rightarrow> bool" where
  "device_active now d \<longleftrightarrow> dv_enabled d \<and> unexpired (dv_expires_at d) now"

definition devices_query :: "string \<Rightarrow> bool \<Rightarrow> int \<Rightarrow> proxy_db \<Rightarrow> device_row list" where
  "devices_query id' policy now t =
     (if policy
      then sort_key dv_id (filter (\<lambda>d. dv_user d = id' \<and> device_active now d) (t_devices t))
      else sort_key (\<lambda>d. (dv_created_at d, dv_id d)) (filter (\<lambda>d. dv_user d = id') (t_devices t)))"

definition device_json :: "bool \<Rightarrow> device_row \<Rightarrow> sbj" where
  "device_json policy d =
     (let u = sbj_object;
          u = jset_str u ''id'' (dv_id d);
          u = jset_int u ''expires_at'' (dv_expires_at d) in
      if policy then jset_str u ''password'' (dv_password d)
      else
        (let u = jset_str u ''name'' (dv_name d);
             u = jset_bool u ''enabled'' (dv_enabled d) in
         jset_int u ''created_at'' (dv_created_at d)))"

definition devices_locked :: "string \<Rightarrow> bool \<Rightarrow> int \<Rightarrow> (sb_database, sbj) dbm" where
  "devices_locked id' policy now =
     sql_each (devices_query id' policy now)
       (\<lambda>d out. dret (sbj_arr_push out (Some (device_json policy d)))) sbj_array"

definition live_user :: "string \<Rightarrow> user_row \<Rightarrow> bool" where
  "live_user id' u \<longleftrightarrow> us_id u = id' \<and> \<not> us_deleted u"

definition user_query :: "string \<Rightarrow> proxy_db \<Rightarrow> (user_row \<times> int \<times> int) list" where
  "user_query id' t =
     map (\<lambda>u. (u, granted t (us_id u) (us_epoch u), reported t (us_id u) (us_epoch u)))
       (filter (live_user id') (t_users t))"

definition user_json :: "user_row \<Rightarrow> int \<Rightarrow> int \<Rightarrow> int \<Rightarrow> sbj" where
  "user_json u allocated used wait_ms =
     (let v = sbj_object;
          v = jset_str v ''id'' (us_id u);
          v = jset_str v ''name'' (us_name u);
          v = jset_bool v ''enabled'' (us_enabled u);
          v = jset_int v ''quota_bytes'' (us_quota_bytes u);
          v = jset_int v ''expires_at'' (us_expires_at u);
          v = jset_int v ''max_devices'' (us_max_devices u);
          v = jset_int v ''epoch'' (us_epoch u);
          v = jset_int v ''not_before'' (us_not_before u);
          v = jset_int v ''created_at'' (us_created_at u);
          v = jset_int v ''updated_at'' (us_updated_at u);
          v = jset_int v ''allocated_bytes'' allocated;
          v = jset_int v ''reported_bytes'' used in
      jset_int v ''lease_wait_seconds'' ((wait_ms + 999) div 1000))"

definition nodes_query :: "string \<Rightarrow> proxy_db \<Rightarrow> string list" where
  "nodes_query id' t = sort (map snd (filter (\<lambda>(u, h). u = id') (t_user_nodes t)))"

definition user_locked :: "string \<Rightarrow> (sb_database, sbj) dbm" where
  "user_locked id' =
     dbind (sql_first (user_query id')) (\<lambda>row.
       case row of
         None \<Rightarrow> dfail SB_ERR_NOT_FOUND ''Proxy user not found''
       | Some (u, allocated, used) \<Rightarrow>
           dbind (sb_proxy_clock_wait_ms id' (us_epoch u)) (\<lambda>wait_ms.
           dbind (sql_each (nodes_query id')
                   (\<lambda>host out. dret (sbj_arr_push out (Some (sbj_str (Some host))))) sbj_array) (\<lambda>hosts.
           dbind (devices_locked id' False 0) (\<lambda>devices.
             dret (jset (jset (user_json u allocated used wait_ms) ''host_ids'' hosts)
                     ''devices'' devices)))))"

definition sb_proxy_user_get :: "string \<Rightarrow> (sb_database, sbj) dbm" where
  "sb_proxy_user_get id' = user_locked id'"

definition sb_proxy_users_list :: "(sb_database, sbj) dbm" where
  "sb_proxy_users_list =
     sql_each (\<lambda>t. map us_id (sort_key (\<lambda>u. (us_created_at u, us_id u))
                (filter (\<lambda>u. \<not> us_deleted u) (t_users t))))
       (\<lambda>id' out. dbind (user_locked id') (\<lambda>u. dret (sbj_arr_push out (Some u)))) sbj_array"

subsection \<open>Saving, removing and resetting a user\<close>

text \<open>The checks on \<open>host_ids\<close>; \<open>seen\<close> are the items before the current one.\<close>

fun host_ids_ok :: "sbj list \<Rightarrow> sbj list \<Rightarrow> unit res" where
  "host_ids_ok seen [] = Inr ()"
| "host_ids_ok seen (h # hs) =
     (if \<not> text_ok (Some h) 128 True then sb_fail SB_ERR_VALIDATION ''Invalid proxy host ID''
      else if list_ex (\<lambda>g. sbj_equal (Some h) (Some g)) seen
      then sb_fail SB_ERR_VALIDATION ''Duplicate proxy host ID''
      else host_ids_ok (seen @ [h]) hs)"

definition user_body_ok :: "sbj option \<Rightarrow> bool" where
  "user_body_ok body \<longleftrightarrow>
     sbj_is_object body \<and> sbj_obj_len body = 6 \<and> text_ok (jget body ''name'') 128 False
     \<and> sbj_is_bool (jget body ''enabled'') \<and> number_ok body ''quota_bytes'' 0 SAFE_INTEGER
     \<and> number_ok body ''expires_at'' 0 4102444800 \<and> number_ok body ''max_devices'' 1 32
     \<and> sbj_is_array (jget body ''host_ids'') \<and> sbj_arr_len (jget body ''host_ids'') \<le> 32"

text \<open>The row of a body: \<open>INSERT\<close> leaves the other columns at their defaults, and a row with the same
  id keeps them.\<close>

definition user_fields :: "sbj option \<Rightarrow> int \<Rightarrow> user_row \<Rightarrow> user_row" where
  "user_fields body now u =
     u\<lparr>us_name := member_text body ''name'',
       us_enabled := sbj_get_bool body (Some ''enabled'') True,
       us_quota_bytes := body_int body ''quota_bytes'' 0,
       us_expires_at := body_int body ''expires_at'' 0,
       us_max_devices := body_int body ''max_devices'' 3,
       us_updated_at := now\<rparr>"

definition user_new :: "string \<Rightarrow> int \<Rightarrow> user_row" where
  "user_new id' now =
     \<lparr>us_id = id', us_name = [], us_enabled = True, us_deleted = False, us_quota_bytes = 0,
      us_expires_at = 0, us_max_devices = 3, us_epoch = 1, us_not_before = 0, us_claim_hash = None,
      us_created_at = now, us_updated_at = now\<rparr>"

definition user_upsert :: "string \<Rightarrow> sbj option \<Rightarrow> int \<Rightarrow> proxy_db \<Rightarrow> int + proxy_db \<times> nat" where
  "user_upsert id' body now t =
     (let new = user_fields body now (user_new id' now) in
      if us_quota_bytes new < 0 \<or> us_max_devices new < 1 \<or> us_max_devices new > 32
      then Inl SQLITE_CONSTRAINT
      else Inr (t\<lparr>t_users :=
        upsert (\<lambda>u. us_id u = id') (user_fields body now) new (t_users t)\<rparr>, 1))"

definition user_nodes_delete :: "string \<Rightarrow> proxy_db \<Rightarrow> int + proxy_db \<times> nat" where
  "user_nodes_delete id' t =
     Inr (t\<lparr>t_user_nodes := filter (\<lambda>(u, h). u \<noteq> id') (t_user_nodes t)\<rparr>,
          length (filter (\<lambda>(u, h). u = id') (t_user_nodes t)))"

definition user_node_insert :: "string \<Rightarrow> string \<Rightarrow> proxy_db \<Rightarrow> int + proxy_db \<times> nat" where
  "user_node_insert id' host t =
     (if (id', host) \<in> set (t_user_nodes t) \<or> \<not> list_ex (\<lambda>n. in_host n = host) (t_ingress t)
         \<or> \<not> list_ex (\<lambda>u. us_id u = id') (t_users t)
      then Inl SQLITE_CONSTRAINT
      else Inr (t\<lparr>t_user_nodes := t_user_nodes t @ [(id', host)]\<rparr>, 1))"

text \<open>The devices that count against the limit, read off the user's JSON.\<close>

definition active_devices :: "sbj \<Rightarrow> int \<Rightarrow> int" where
  "active_devices old now =
     int (length (filter
       (\<lambda>d. sbj_get_bool (Some d) (Some ''enabled'') False
          \<and> (body_int (Some d) ''expires_at'' 0 = 0 \<or> body_int (Some d) ''expires_at'' 0 > now))
       (json_items (jget (Some old) ''devices''))))"

definition user_change_ok :: "string \<Rightarrow> sbj option \<Rightarrow> int \<Rightarrow> (sb_database, unit) dbm" where
  "user_change_ok id' body now =
     dbind (user_locked id') (\<lambda>old.
       let quota = body_int body ''quota_bytes'' 0 in
       if quota \<noteq> 0 \<and> quota < body_int (Some old) ''allocated_bytes'' 0
          \<or> active_devices old now > body_int body ''max_devices'' 1
       then dfail SB_ERR_CONFLICT
         (''Quota cannot fall below allocated bytes; reset the period first. Revoke devices before ''
          @ ''reducing the device limit.'')
       else dret ())"

definition user_room :: "(sb_database, unit) dbm" where
  "user_room =
     dbind (sql_first (\<lambda>t. [length (filter (\<lambda>u. \<not> us_deleted u) (t_users t))])) (\<lambda>count.
       if (case count of None \<Rightarrow> False | Some n \<Rightarrow> n < 256) then dret ()
       else dfail SB_ERR_CONFLICT ''At most 256 active proxy users are supported'')"

definition ingress_check :: "sbj \<Rightarrow> (sb_database, unit) dbm" where
  "ingress_check host =
     dbind (sql_first (\<lambda>t. filter (\<lambda>n. in_host n = item_text (Some host)) (t_ingress t))) (\<lambda>row.
       if row = None
       then dfail SB_ERR_VALIDATION ''Configure the proxy ingress node before binding a user''
       else dret ())"

text \<open>The transaction; \<open>generated\<close> tells a new user from one that is changed.\<close>

definition user_save_body ::
  "bool \<Rightarrow> string \<Rightarrow> sbj option \<Rightarrow> int \<Rightarrow> (sb_database, sbj) dbm" where
  "user_save_body generated id' body now =
     (let hosts = json_items (jget body ''host_ids'') in
      dbind (if \<not> generated then user_change_ok id' body now else user_room) (\<lambda>_.
      dbind (dfor hosts ingress_check) (\<lambda>_.
      dbind (sql_run (user_upsert id' body now)) (\<lambda>_.
      dbind (sql_run (user_nodes_delete id')) (\<lambda>_.
      dbind (dfor hosts (\<lambda>h.
               dbind (sql_run (user_node_insert id' (item_text (Some h)))) (\<lambda>_. dret ()))) (\<lambda>_.
        user_locked id'))))))"

definition sb_proxy_user_save ::
  "string option \<Rightarrow> sbj option \<Rightarrow> int \<Rightarrow> (sb_database, sbj) dbm" where
  "sb_proxy_user_save id' body now =
     (if \<not> user_body_ok body
      then dfail SB_ERR_VALIDATION
        (''Proxy user requires name, enabled, quota_bytes, expires_at, max_devices and up to 32 ''
         @ ''host_ids'')
      else
        (case host_ids_ok [] (json_items (jget body ''host_ids'')) of
           Inl e \<Rightarrow> (\<lambda>s. (Inl e, s))
         | Inr _ \<Rightarrow>
             (case id' of
                Some i \<Rightarrow> transaction (user_save_body False i body now)
              | None \<Rightarrow> dbind sb_uuid_v4 (\<lambda>i. transaction (user_save_body True i body now)))))"

definition user_delete :: "string \<Rightarrow> int \<Rightarrow> proxy_db \<Rightarrow> int + proxy_db \<times> nat" where
  "user_delete id' now t =
     (let (us, n) = upd_rows (live_user id')
            (\<lambda>u. u\<lparr>us_enabled := False, us_deleted := True, us_claim_hash := None,
                   us_updated_at := now\<rparr>) (t_users t) in
      Inr (t\<lparr>t_users := us\<rparr>, n))"

definition devices_disable :: "string \<Rightarrow> proxy_db \<Rightarrow> int + proxy_db \<times> nat" where
  "devices_disable id' t =
     (let (ds, n) = upd_rows (\<lambda>d. dv_user d = id') (\<lambda>d. d\<lparr>dv_enabled := False\<rparr>) (t_devices t) in
      Inr (t\<lparr>t_devices := ds\<rparr>, n))"

definition sb_proxy_user_remove :: "string \<Rightarrow> int \<Rightarrow> (sb_database, unit) dbm" where
  "sb_proxy_user_remove id' now =
     transaction
       (dbind (sql_run (user_delete id' now)) (\<lambda>changes.
          if changes \<noteq> 1 then dfail SB_ERR_NOT_FOUND ''Proxy user not found''
          else dbind (sql_run (devices_disable id')) (\<lambda>_. dret ())))"

text \<open>The latest expiry of a lease of the user, of any epoch.\<close>

definition last_lease_expiry :: "proxy_db \<Rightarrow> string \<Rightarrow> int" where
  "last_lease_expiry t user =
     (case map ls_expires_at (filter (\<lambda>l. ls_user l = user) (t_leases t)) of
        [] \<Rightarrow> 0
      | e # es \<Rightarrow> foldl max e es)"

definition user_next_epoch :: "string \<Rightarrow> int \<Rightarrow> proxy_db \<Rightarrow> int + proxy_db \<times> nat" where
  "user_next_epoch id' now t =
     (let (us, n) = upd_rows (\<lambda>u. live_user id' u \<and> us_epoch u < SAFE_INTEGER)
            (\<lambda>u. u\<lparr>us_epoch := us_epoch u + 1,
                   us_not_before := max (now + LEASE_SECONDS) (last_lease_expiry t (us_id u)),
                   us_updated_at := now\<rparr>) (t_users t) in
      Inr (t\<lparr>t_users := us\<rparr>, n))"

definition sb_proxy_user_reset :: "string \<Rightarrow> int \<Rightarrow> (sb_database, sbj) dbm" where
  "sb_proxy_user_reset id' now =
     (if now < 1 \<or> now > 4102444740 then dfail SB_ERR_VALIDATION ''Invalid proxy reset time''
      else
        transaction
          (dbind (sql_run (user_next_epoch id' now)) (\<lambda>changes.
             if changes \<noteq> 1 then dfail SB_ERR_NOT_FOUND ''Proxy user not found''
             else
               dbind (user_locked id') (\<lambda>out.
               dbind (sb_proxy_clock_reset_epoch id' (body_int (Some out) ''epoch'' 0)) (\<lambda>_.
                 dret (jset_int out ''lease_wait_seconds'' LEASE_SECONDS))))))"

subsection \<open>Claim tokens\<close>

definition claim_update :: "string \<Rightarrow> string \<Rightarrow> int \<Rightarrow> proxy_db \<Rightarrow> int + proxy_db \<times> nat" where
  "claim_update id' hash now t =
     (if list_ex (live_user id') (t_users t)
         \<and> list_ex (\<lambda>u. \<not> live_user id' u \<and> us_claim_hash u = Some hash) (t_users t)
      then Inl SQLITE_CONSTRAINT
      else
        (let (us, n) = upd_rows (live_user id')
               (\<lambda>u. u\<lparr>us_claim_hash := Some hash, us_updated_at := now\<rparr>) (t_users t) in
         Inr (t\<lparr>t_users := us\<rparr>, n)))"

definition sb_proxy_claim_rotate :: "string \<Rightarrow> int \<Rightarrow> (sb_database, sbj) dbm" where
  "sb_proxy_claim_rotate id' now =
     dbind (new_secret False) (\<lambda>token s.
       dbind (sql_run (claim_update id' (sb_sha256_hex token s) now)) (\<lambda>changes.
         if changes = 1 then dret (jset_str sbj_object ''claim_token'' token)
         else dfail SB_ERR_NOT_FOUND ''Proxy user not found'') s)"

definition usable_user :: "int \<Rightarrow> user_row \<Rightarrow> bool" where
  "usable_user now u \<longleftrightarrow> us_enabled u \<and> \<not> us_deleted u \<and> unexpired (us_expires_at u) now"

definition sb_proxy_claim_resolve :: "string option \<Rightarrow> int \<Rightarrow> (sb_database, string) dbm" where
  "sb_proxy_claim_resolve token now s =
     (case token of
        Some tok \<Rightarrow>
          (if length tok \<noteq> 43 then dfail SB_ERR_AUTH ''Invalid proxy claim token'' s
           else
             (let hash = sb_sha256_hex tok s in
              dbind (sql_first (\<lambda>t. filter (\<lambda>u. us_claim_hash u = Some hash \<and> usable_user now u)
                      (t_users t))) (\<lambda>row.
                case row of
                  Some u \<Rightarrow> dret (us_id u)
                | None \<Rightarrow> dfail SB_ERR_AUTH ''Invalid or expired proxy claim token'') s))
      | None \<Rightarrow> dfail SB_ERR_AUTH ''Invalid proxy claim token'' s)"

subsection \<open>Devices\<close>

definition device_body_ok :: "sbj option \<Rightarrow> int \<Rightarrow> bool" where
  "device_body_ok body now \<longleftrightarrow>
     (let has_expiry = sbj_has body (Some ''expires_at'') in
      sbj_is_object body \<and> sbj_obj_len body = (if has_expiry then 2 else 1)
      \<and> text_ok (jget body ''name'') 128 False
      \<and> (has_expiry \<longrightarrow> number_ok body ''expires_at'' 0 4102444800)
      \<and> \<not> (body_int body ''expires_at'' 0 \<noteq> 0 \<and> body_int body ''expires_at'' 0 \<le> now))"

definition device_count :: "int \<Rightarrow> string \<Rightarrow> proxy_db \<Rightarrow> nat" where
  "device_count now user t =
     length (filter (\<lambda>d. dv_user d = user \<and> device_active now d) (t_devices t))"

text \<open>The limit of a usable user and the number of active devices.\<close>

definition device_room :: "string \<Rightarrow> int \<Rightarrow> proxy_db \<Rightarrow> (int \<times> int) list" where
  "device_room user now t =
     map (\<lambda>u. (us_max_devices u, int (device_count now (us_id u) t)))
       (filter (\<lambda>u. us_id u = user \<and> usable_user now u) (t_users t))"

definition device_insert :: "device_row \<Rightarrow> proxy_db \<Rightarrow> int + proxy_db \<times> nat" where
  "device_insert d t =
     (if list_ex (\<lambda>e. dv_id e = dv_id d \<or> dv_token_hash e = dv_token_hash d) (t_devices t)
         \<or> \<not> list_ex (\<lambda>u. us_id u = dv_user d) (t_users t) \<or> dv_expires_at d < 0
      then Inl SQLITE_CONSTRAINT
      else Inr (t\<lparr>t_devices := t_devices t @ [d]\<rparr>, 1))"

definition device_create_body :: "device_row \<Rightarrow> int \<Rightarrow> (sb_database, unit) dbm" where
  "device_create_body d now =
     dbind (sql_first (device_room (dv_user d) now)) (\<lambda>row.
       case row of
         None \<Rightarrow> dfail SB_ERR_FORBIDDEN ''Proxy user is disabled or expired''
       | Some (limit, active) \<Rightarrow>
           (if active < limit then dbind (sql_run (device_insert d)) (\<lambda>_. dret ())
            else dfail SB_ERR_CONFLICT ''Proxy device limit reached''))"

definition device_new :: "string \<Rightarrow> string \<Rightarrow> sbj option \<Rightarrow> string \<Rightarrow> string \<Rightarrow> int \<Rightarrow> device_row" where
  "device_new id' user body password hash now =
     \<lparr>dv_id = id', dv_user = user, dv_name = member_text body ''name'', dv_enabled = True,
      dv_password = password, dv_token_hash = hash,
      dv_expires_at = body_int body ''expires_at'' 0, dv_created_at = now, dv_revoked_at = None\<rparr>"

definition device_result :: "string \<Rightarrow> sbj option \<Rightarrow> string \<Rightarrow> sbj" where
  "device_result id' body token =
     (let u = sbj_object;
          u = jset_str u ''id'' id';
          u = jset_str u ''name'' (member_text body ''name'');
          u = jset_str u ''subscription_token'' token in
      jset_int u ''expires_at'' (body_int body ''expires_at'' 0))"

text \<open>The identifier and both secrets are drawn before any of them is tested.\<close>

definition sb_proxy_device_create ::
  "string \<Rightarrow> sbj option \<Rightarrow> int \<Rightarrow> (sb_database, sbj) dbm" where
  "sb_proxy_device_create user body now =
     (if \<not> device_body_ok body now
      then dfail SB_ERR_VALIDATION
        ''Device requires a name and an optional future expires_at (0 means no device expiry)''
      else
        dbind sb_uuid_v4 (\<lambda>id' s.
          let (password, s) = new_secret True s; (token, s) = new_secret False s in
          case (password, token) of
            (Inr password, Inr token) \<Rightarrow>
              dbind (transaction (device_create_body
                  (device_new id' user body password (sb_sha256_hex token s) now) now))
                (\<lambda>_. dret (device_result id' body token)) s
          | (_, Inl e) \<Rightarrow> (Inl e, s)
          | (Inl e, _) \<Rightarrow> (Inl e, s)))"

definition device_disable :: "string \<Rightarrow> string \<Rightarrow> int \<Rightarrow> proxy_db \<Rightarrow> int + proxy_db \<times> nat" where
  "device_disable user device now t =
     (let (ds, n) = upd_rows (\<lambda>d. dv_id d = device \<and> dv_user d = user)
            (\<lambda>d. d\<lparr>dv_enabled := False, dv_revoked_at := Some now\<rparr>) (t_devices t) in
      Inr (t\<lparr>t_devices := ds\<rparr>, n))"

definition sb_proxy_device_revoke :: "string \<Rightarrow> string \<Rightarrow> int \<Rightarrow> (sb_database, unit) dbm" where
  "sb_proxy_device_revoke user device now =
     dbind (sql_run (device_disable user device now)) (\<lambda>changes.
       if changes \<noteq> 1 then dfail SB_ERR_NOT_FOUND ''Proxy device not found'' else dret ())"

subsection \<open>Ingress nodes\<close>

fun server_labels :: "string \<Rightarrow> nat \<Rightarrow> bool \<Rightarrow> bool" where
  "server_labels [] label last_dash = (label \<noteq> 0 \<and> \<not> last_dash)"
| "server_labels (c # s) label last_dash =
     (if c = CHR ''.''
      then (if label = 0 \<or> last_dash then False else server_labels s 0 last_dash)
      else if \<not> (islower c \<or> isupper c \<or> isdigit c \<or> c = CHR ''-'') \<or> label = 0 \<and> c = CHR ''-''
              \<or> label + 1 > 63
      then False
      else server_labels s (label + 1) (c = CHR ''-''))"

definition server_name :: "sbj option \<Rightarrow> bool" where
  "server_name v =
     (if \<not> text_ok v 253 False then False
      else if inet_pton4 (str_of v) \<noteq> None \<or> inet_pton6 (str_of v) \<noteq> None then True
      else server_labels (str_of v) 0 False)"

definition node_json :: "bool \<Rightarrow> ingress_row \<Rightarrow> sbj" where
  "node_json policy n =
     (let u = sbj_object;
          u = jset_str u ''listen'' (in_listen n);
          u = jset_int u ''listen_port'' (in_listen_port n) in
      if policy then jset_str (jset_str u ''method'' METHOD) ''password'' (in_server_key n)
      else
        (let u = jset_str u ''host_id'' (in_host n);
             u = jset_bool u ''enabled'' (in_enabled n);
             u = jset_str u ''server'' (in_server n) in
         jset_int u ''updated_at'' (in_updated_at n)))"

definition node_locked :: "string \<Rightarrow> bool \<Rightarrow> int \<Rightarrow> (sb_database, sbj) dbm" where
  "node_locked host policy now =
     dbind (sql_first (\<lambda>t. filter (\<lambda>n. in_host n = host) (t_ingress t))) (\<lambda>row.
       case row of
         None \<Rightarrow> dfail SB_ERR_NOT_FOUND ''Proxy ingress node not found''
       | Some n \<Rightarrow>
           (if policy then dret (node_json policy n)
            else
              dbind (runtime_ready host now) (\<lambda>(ready, seen).
                dret (jset_int (jset_bool (node_json policy n) ''runtime_supported'' ready)
                        ''runtime_seen_at'' seen))))"

definition sb_proxy_ingress_list :: "int \<Rightarrow> (sb_database, sbj) dbm" where
  "sb_proxy_ingress_list unix_now =
     sql_each (\<lambda>t. sort (map in_host (t_ingress t)))
       (\<lambda>host out. dbind (node_locked host False unix_now)
          (\<lambda>node. dret (sbj_arr_push out (Some node)))) sbj_array"

definition ingress_body_ok :: "sbj option \<Rightarrow> bool" where
  "ingress_body_ok body \<longleftrightarrow>
     sbj_is_object body \<and> sbj_obj_len body = 4 \<and> sbj_is_bool (jget body ''enabled'')
     \<and> server_name (jget body ''server'') \<and> text_ok (jget body ''listen'') 64 False
     \<and> (inet_pton4 (str_of (jget body ''listen'')) \<noteq> None
        \<or> inet_pton6 (str_of (jget body ''listen'')) \<noteq> None)
     \<and> number_ok body ''listen_port'' 1 65535"

definition ingress_fields :: "sbj option \<Rightarrow> int \<Rightarrow> ingress_row \<Rightarrow> ingress_row" where
  "ingress_fields body now n =
     n\<lparr>in_enabled := sbj_get_bool body (Some ''enabled'') False,
       in_server := member_text body ''server'',
       in_listen := cstr (str_of (jget body ''listen'')),
       in_listen_port := body_int body ''listen_port'' 0,
       in_updated_at := now\<rparr>"

definition ingress_upsert ::
  "string \<Rightarrow> sbj option \<Rightarrow> string \<Rightarrow> int \<Rightarrow> proxy_db \<Rightarrow> int + proxy_db \<times> nat" where
  "ingress_upsert host body key now t =
     (let new = ingress_fields body now
            \<lparr>in_host = host, in_enabled = False, in_server = [], in_listen = [], in_listen_port = 0,
             in_server_key = key, in_updated_at = now\<rparr> in
      if in_listen_port new < 1 \<or> in_listen_port new > 65535
         \<or> \<not> list_ex (\<lambda>h. hs_id h = host) (t_hosts t)
      then Inl SQLITE_CONSTRAINT
      else Inr (t\<lparr>t_ingress :=
        upsert (\<lambda>n. in_host n = host) (ingress_fields body now) new (t_ingress t)\<rparr>, 1))"

definition host_check :: "string \<Rightarrow> sb_code \<Rightarrow> string \<Rightarrow> (sb_database, unit) dbm" where
  "host_check host code message =
     dbind (sql_first (\<lambda>t. filter (\<lambda>h. hs_id h = host \<and> hs_enabled h) (t_hosts t))) (\<lambda>row.
       if row = None then dfail code message else dret ())"

definition ingress_save_body ::
  "string \<Rightarrow> sbj option \<Rightarrow> string \<Rightarrow> int \<Rightarrow> (sb_database, sbj) dbm" where
  "ingress_save_body host body key now =
     dbind (host_check host SB_ERR_VALIDATION ''Ingress requires an enabled host'') (\<lambda>_.
     dbind (if sbj_get_bool body (Some ''enabled'') False
            then
              dbind (runtime_ready host now) (\<lambda>(ready, seen).
                if ready then dret ()
                else dfail SB_ERR_CONFLICT
                  (''Host must report proxy_users_v1 support within the last 180 seconds before ''
                   @ ''enabling ingress''))
            else dret ()) (\<lambda>_.
     dbind (sql_run (ingress_upsert host body key now)) (\<lambda>_.
       node_locked host False now)))"

definition sb_proxy_ingress_save ::
  "string \<Rightarrow> sbj option \<Rightarrow> int \<Rightarrow> (sb_database, sbj) dbm" where
  "sb_proxy_ingress_save host body now =
     (if \<not> ingress_body_ok body
      then dfail SB_ERR_VALIDATION
        (''Ingress requires enabled, a public server hostname/IP, a listen IP and listen_port ''
         @ ''1..65535'')
      else
        dbind (new_secret True) (\<lambda>key. transaction (ingress_save_body host body key now)))"

subsection \<open>Device subscriptions\<close>

text \<open>\<open>FROM proxy_devices d JOIN proxy_users u\<close>: the owner and the key of the device with a token.\<close>

definition device_of_token :: "string \<Rightarrow> int \<Rightarrow> proxy_db \<Rightarrow> (string \<times> string) list" where
  "device_of_token hash now t =
     map (\<lambda>d. (dv_user d, dv_password d))
       (filter (\<lambda>d. dv_token_hash d = hash \<and> device_active now d
          \<and> list_ex (\<lambda>u. us_id u = dv_user d \<and> usable_user now u) (t_users t)) (t_devices t))"

text \<open>A node that may serve: enabled, on an enabled host whose runtime reported support lately.\<close>

definition node_serves :: "proxy_db \<Rightarrow> int \<Rightarrow> ingress_row \<Rightarrow> bool" where
  "node_serves t now n \<longleftrightarrow> in_enabled n \<and> host_enabled t (in_host n)
     \<and> list_ex (\<lambda>r. rp_host r = in_host n \<and> report_fresh r now) (t_reports t)"

definition user_ingress :: "string \<Rightarrow> int \<Rightarrow> proxy_db \<Rightarrow> ingress_row list" where
  "user_ingress user now t =
     filter (\<lambda>n. (user, in_host n) \<in> set (t_user_nodes t) \<and> node_serves t now n) (t_ingress t)"

definition outbound_json :: "string \<Rightarrow> ingress_row \<Rightarrow> sbj" where
  "outbound_json device_key n =
     (let u = sbj_object;
          u = jset_str u ''type'' ''shadowsocks'';
          u = jset_str u ''tag'' (in_host n);
          u = jset_str u ''server'' (in_server n);
          u = jset_int u ''server_port'' (in_listen_port n);
          u = jset_str u ''method'' METHOD in
      jset_str u ''password'' (in_server_key n @ '':'' @ device_key))"

definition sb_proxy_subscription :: "string option \<Rightarrow> int \<Rightarrow> (sb_database, sbj) dbm" where
  "sb_proxy_subscription token now s =
     (case token of
        Some tok \<Rightarrow>
          (if length tok \<noteq> 43 then dfail SB_ERR_AUTH ''Invalid device subscription token'' s
           else
             (let hash = sb_sha256_hex tok s in
              dbind (sql_first (device_of_token hash now)) (\<lambda>row.
                case row of
                  None \<Rightarrow> dfail SB_ERR_AUTH ''Invalid, revoked or expired device subscription''
                | Some (user, device_key) \<Rightarrow>
                    dbind (sql_each (\<lambda>t. sort_key in_host (user_ingress user now t))
                      (\<lambda>n nodes. dret (sbj_arr_push nodes (Some (outbound_json device_key n))))
                      sbj_array)
                      (\<lambda>nodes. dret (jset sbj_object ''outbounds'' nodes))) s))
      | None \<Rightarrow> dfail SB_ERR_AUTH ''Invalid device subscription token'' s)"

end
