(* ===== verification/Proxy_Leases.thy ===== *)
theory Proxy_Leases
  imports Proxy_Users
begin

text \<open>
  \<open>c/src/proxy_users.c\<close>, the lease exchange of a node: usage reports come in, byte grants go out,
  and the last response of every boot is stored so that a retry returns it again.
\<close>

subsection \<open>Usage reports\<close>

definition lease_usage :: "string \<Rightarrow> int \<Rightarrow> int \<Rightarrow> proxy_db \<Rightarrow> int + proxy_db \<times> nat" where
  "lease_usage id' used now t =
     (if list_ex (\<lambda>l. ls_id l = id' \<and> \<not> (0 \<le> used \<and> used \<le> ls_grant_bytes l)) (t_leases t)
      then Inl SQLITE_CONSTRAINT
      else
        (let (ls, n) = upd_rows (\<lambda>l. ls_id l = id')
               (\<lambda>l. l\<lparr>ls_used_bytes := used, ls_updated_at := now\<rparr>) (t_leases t) in
         Inr (t\<lparr>t_leases := ls\<rparr>, n)))"

definition report_locked :: "string \<Rightarrow> string \<Rightarrow> sbj \<Rightarrow> int \<Rightarrow> (sb_database, unit) dbm" where
  "report_locked host boot report now =
     (let id' = member_text (Some report) ''lease_id'';
          used = body_int (Some report) ''used_bytes'' 0 in
      dbind (sql_first (\<lambda>t. filter (\<lambda>l. ls_id l = id' \<and> ls_host l = host \<and> ls_boot l = boot)
              (t_leases t))) (\<lambda>row.
        if (case row of
              None \<Rightarrow> False
            | Some l \<Rightarrow> used \<ge> ls_used_bytes l \<and> used \<le> ls_grant_bytes l)
        then dbind (sql_run (lease_usage id' used now)) (\<lambda>_. dret ())
        else dfail SB_ERR_CONFLICT ''Unknown lease, counter rollback or usage exceeding the grant''))"

subsection \<open>Granting\<close>

text \<open>The cumulative grant after a renewal: unchanged while more than the threshold is left,
  otherwise a share of what the quota leaves, at most one chunk.\<close>

definition grant_after :: "int \<Rightarrow> int \<Rightarrow> int \<Rightarrow> int \<Rightarrow> int \<Rightarrow> int" where
  "grant_after quota allocated hosts grant used =
     (let available = (if quota \<noteq> 0 then quota else SAFE_INTEGER) - allocated;
          threshold = grant div 2;
          threshold = (if threshold > GRANT_CHUNK div 2 then GRANT_CHUNK div 2 else threshold) in
      if (grant = 0 \<or> grant - used \<le> threshold) \<and> available > 0
      then
        (let add = available div hosts + (if available mod hosts \<noteq> 0 then 1 else 0);
             add = (if add > GRANT_CHUNK then GRANT_CHUNK else add) in
         grant + add)
      else grant)"

text \<open>\<open>ON CONFLICT(user_id,host_id,boot_id,epoch)\<close>: the row in conflict keeps its id and its usage.\<close>

definition same_slot :: "lease_row \<Rightarrow> lease_row \<Rightarrow> bool" where
  "same_slot l k \<longleftrightarrow> ls_user l = ls_user k \<and> ls_host l = ls_host k \<and> ls_boot l = ls_boot k
     \<and> ls_epoch l = ls_epoch k"

definition lease_upsert :: "lease_row \<Rightarrow> proxy_db \<Rightarrow> int + proxy_db \<times> nat" where
  "lease_upsert new t =
     (if ls_grant_bytes new < 0 \<or> ls_used_bytes new < 0 \<or> ls_used_bytes new > ls_grant_bytes new
         \<or> list_ex (\<lambda>l. same_slot new l \<and> ls_used_bytes l > ls_grant_bytes new) (t_leases t)
         \<or> \<not> list_ex (same_slot new) (t_leases t)
           \<and> (list_ex (\<lambda>l. ls_id l = ls_id new) (t_leases t)
              \<or> \<not> list_ex (\<lambda>u. us_id u = ls_user new) (t_users t))
      then Inl SQLITE_CONSTRAINT
      else Inr (t\<lparr>t_leases :=
        upsert (same_slot new)
          (\<lambda>l. l\<lparr>ls_grant_bytes := ls_grant_bytes new, ls_expires_at := ls_expires_at new,
                 ls_updated_at := ls_updated_at new\<rparr>) new (t_leases t)\<rparr>, 1))"

definition lease_json :: "lease_row \<Rightarrow> sbj \<Rightarrow> sbj" where
  "lease_json l devices =
     (let u = sbj_object;
          u = jset_str u ''id'' (ls_user l);
          u = jset_int u ''epoch'' (ls_epoch l);
          v = sbj_object;
          v = jset_str v ''id'' (ls_id l);
          v = jset_int v ''grant_bytes'' (ls_grant_bytes l);
          v = jset_int v ''used_bytes'' (ls_used_bytes l);
          v = jset_int v ''expires_at'' (ls_expires_at l);
          u = jset u ''lease'' v in
      jset u ''devices'' devices)"

text \<open>The end of \<open>lease_locked\<close>: the lease is written and described. \<open>id'\<close> is the id of the row that
  was found.\<close>

definition lease_write ::
  "string option \<Rightarrow> lease_row \<Rightarrow> sbj \<Rightarrow> (sb_database, sbj) dbm" where
  "lease_write id' l devices =
     dbind (case id' of None \<Rightarrow> sb_uuid_v4 | Some i \<Rightarrow> dret i) (\<lambda>i.
     let l = l\<lparr>ls_id := i\<rparr> in
     dbind (sql_run (lease_upsert l)) (\<lambda>_. dret (lease_json l devices)))"

definition lease_slot ::
  "string \<Rightarrow> string \<Rightarrow> string \<Rightarrow> int \<Rightarrow> proxy_db \<Rightarrow> lease_row list" where
  "lease_slot user host boot epoch t =
     filter (\<lambda>l. ls_user l = user \<and> ls_host l = host \<and> ls_boot l = boot \<and> ls_epoch l = epoch)
       (t_leases t)"

definition lease_until :: "int \<Rightarrow> int \<Rightarrow> int" where
  "lease_until expiry now =
     (let until = now + LEASE_SECONDS in if expiry \<noteq> 0 \<and> expiry < until then expiry else until)"

text \<open>The result is JSON \<open>null\<close> for a user who gets no lease.\<close>

definition lease_locked ::
  "string \<Rightarrow> string \<Rightarrow> string \<Rightarrow> int \<Rightarrow> int \<Rightarrow> int \<Rightarrow> int \<Rightarrow> (sb_database, sbj) dbm" where
  "lease_locked host boot user epoch quota expiry now =
     dbind (devices_locked user True now) (\<lambda>devices.
     if sbj_arr_len (Some devices) = 0 then dret sbj_null
     else
       dbind (sql_first (lease_slot user host boot epoch)) (\<lambda>row.
       dbind (sql_first (\<lambda>t. [granted t user epoch])) (\<lambda>allocated.
       dbind (sql_first (\<lambda>t. [int (length (user_ingress user now t))])) (\<lambda>hosts.
       case (allocated, hosts) of
         (Some allocated, Some hosts) \<Rightarrow>
           (if hosts < 1 then dsilent
            else
              (let used = (case row of None \<Rightarrow> 0 | Some l \<Rightarrow> ls_used_bytes l);
                   grant = grant_after quota allocated hosts
                     (case row of None \<Rightarrow> 0 | Some l \<Rightarrow> ls_grant_bytes l) used in
               if grant \<le> used then dret sbj_null
               else
                 lease_write (map_option ls_id row)
                   \<lparr>ls_id = [], ls_user = user, ls_host = host, ls_boot = boot, ls_epoch = epoch,
                    ls_grant_bytes = grant, ls_used_bytes = used,
                    ls_expires_at = lease_until expiry now, ls_updated_at = now\<rparr> devices))
       | _ \<Rightarrow> dsilent))))"

subsection \<open>The exchange\<close>

definition exchange_ok :: "sbj option \<Rightarrow> int \<Rightarrow> bool" where
  "exchange_ok request now \<longleftrightarrow>
     sbj_is_object request \<and> sbj_obj_len request = 4 \<and> number_ok request ''version'' 1 1
     \<and> text_ok (jget request ''boot_id'') 128 True
     \<and> number_ok request ''request_seq'' 1 SAFE_INTEGER \<and> sbj_is_array (jget request ''reports'')
     \<and> sbj_arr_len (jget request ''reports'') \<le> 4096 \<and> 1 \<le> now \<and> now \<le> 4102444740"

definition report_ok :: "sbj \<Rightarrow> bool" where
  "report_ok r \<longleftrightarrow> sbj_is_object (Some r) \<and> sbj_obj_len (Some r) = 2
     \<and> text_ok (jget (Some r) ''lease_id'') 128 True
     \<and> number_ok (Some r) ''used_bytes'' 0 SAFE_INTEGER"

text \<open>The identifiers are sorted with \<open>qsort\<close>, and neighbours compared.\<close>

fun has_neighbours :: "string list \<Rightarrow> bool" where
  "has_neighbours (a # b # xs) = (a = b \<or> has_neighbours (b # xs))"
| "has_neighbours _ = False"

definition duplicate_reports :: "sbj list \<Rightarrow> bool" where
  "duplicate_reports reports \<longleftrightarrow>
     length reports > 1
     \<and> has_neighbours (sort (map (\<lambda>r. member_text (Some r) ''lease_id'') reports))"

definition lease_users :: "string \<Rightarrow> int \<Rightarrow> proxy_db \<Rightarrow> user_row list" where
  "lease_users host now t =
     sort_key us_id (filter (\<lambda>u. (us_id u, host) \<in> set (t_user_nodes t) \<and> usable_user now u) (t_users t))"

text \<open>One round of the loop over the users of a node.\<close>

definition lease_user ::
  "string \<Rightarrow> string \<Rightarrow> int \<Rightarrow> user_row \<Rightarrow> sbj \<Rightarrow> (sb_database, sbj) dbm" where
  "lease_user host boot now u out =
     dbind (sb_proxy_clock_wait_ms (us_id u) (us_epoch u)) (\<lambda>wait_ms.
       if wait_ms > 0 \<or> us_not_before u > now then dret out
       else
         dbind (lease_locked host boot (us_id u) (us_epoch u) (us_quota_bytes u) (us_expires_at u) now)
           (\<lambda>v. dret (if sbj_is_null (Some v) then out else sbj_arr_push out (Some v))))"

text \<open>The node description and the users of a response.\<close>

definition exchange_grants :: "string \<Rightarrow> string \<Rightarrow> int \<Rightarrow> (sb_database, sbj \<times> sbj) dbm" where
  "exchange_grants host boot now =
     dbind (sql_first (\<lambda>t. filter (\<lambda>n. in_host n = host \<and> in_enabled n) (t_ingress t))) (\<lambda>row.
     dbind (runtime_ready host now) (\<lambda>(ready, seen).
       if row \<noteq> None \<and> ready
       then
         dbind (node_locked host True now) (\<lambda>node.
         dbind (sql_each (lease_users host now) (lease_user host boot now) sbj_array) (\<lambda>users.
           dret (node, users)))
       else dret (sbj_null, sbj_array)))"

definition response_json :: "string \<Rightarrow> string \<Rightarrow> int \<Rightarrow> int \<Rightarrow> sbj \<Rightarrow> sbj \<Rightarrow> sbj" where
  "response_json host boot seq now node users =
     (let u = sbj_object;
          u = jset_int u ''version'' 1;
          u = jset_str u ''host_id'' host;
          u = jset_str u ''boot_id'' boot;
          u = jset_int u ''request_seq'' seq;
          u = jset_int u ''generated_at'' now;
          u = jset_int u ''expires_at'' (now + LEASE_SECONDS);
          u = jset u ''node'' node in
      jset u ''users'' users)"

definition session_upsert :: "session_row \<Rightarrow> proxy_db \<Rightarrow> int + proxy_db \<times> nat" where
  "session_upsert new t =
     Inr (t\<lparr>t_sessions :=
       upsert (\<lambda>e. se_host e = se_host new \<and> se_boot e = se_boot new)
         (\<lambda>e. e\<lparr>se_request_seq := se_request_seq new, se_request_hash := se_request_hash new,
                se_response := se_response new, se_updated_at := se_updated_at new\<rparr>)
         new (t_sessions t)\<rparr>, 1)"

text \<open>A request that is neither a retry nor out of sequence.\<close>

definition exchange_fresh ::
  "string \<Rightarrow> string \<Rightarrow> int \<Rightarrow> string \<Rightarrow> sbj list \<Rightarrow> int \<Rightarrow> (sb_database, sbj) dbm" where
  "exchange_fresh host boot seq hash reports now =
     dbind (dfor reports (\<lambda>r. report_locked host boot r now)) (\<lambda>_.
     dbind (exchange_grants host boot now) (\<lambda>(node, users).
     let out = response_json host boot seq now node users in
     dbind (sql_run (session_upsert
              \<lparr>se_host = host, se_boot = boot, se_request_seq = seq, se_request_hash = hash,
               se_response = sbj_dump (Some out) (- 1), se_updated_at = now\<rparr>)) (\<lambda>_. dret out)))"

definition exchange_body ::
  "string \<Rightarrow> string \<Rightarrow> int \<Rightarrow> string \<Rightarrow> sbj list \<Rightarrow> int \<Rightarrow> (sb_database, sbj) dbm" where
  "exchange_body host boot seq hash reports now =
     dbind (host_check host SB_ERR_AUTH ''Proxy lease host is unknown or disabled'') (\<lambda>_.
     dbind (sql_first (\<lambda>t. filter (\<lambda>e. se_host e = host \<and> se_boot e = boot) (t_sessions t))) (\<lambda>row.
     let replay = (case row of
                     None \<Rightarrow> False
                   | Some e \<Rightarrow> seq = se_request_seq e \<and> hash = se_request_hash e);
         conflict = (case row of
                       None \<Rightarrow> seq \<noteq> 1
                     | Some e \<Rightarrow> seq \<noteq> se_request_seq e + 1 \<and> \<not> replay) in
     if conflict
     then dfail SB_ERR_CONFLICT
       ''Proxy lease sequence changed; retry the same request or use the next sequence''
     else if replay
     then
       (case row of
          None \<Rightarrow> dsilent
        | Some e \<Rightarrow>
            (case sbj_parse (Some (se_response e)) of
               Inl _ \<Rightarrow> dfail SB_ERR_GENERIC ''Stored proxy lease snapshot is invalid''
             | Inr out \<Rightarrow> dret out))
     else exchange_fresh host boot seq hash reports now))"

definition sb_proxy_lease_exchange ::
  "string \<Rightarrow> sbj option \<Rightarrow> int \<Rightarrow> (sb_database, sbj) dbm" where
  "sb_proxy_lease_exchange host request now s =
     (let reports = json_items (jget request ''reports'') in
      if \<not> exchange_ok request now then dfail SB_ERR_VALIDATION ''Invalid proxy lease exchange'' s
      else if \<not> list_all report_ok reports
      then dfail SB_ERR_VALIDATION ''Invalid proxy lease report'' s
      else if duplicate_reports reports
      then dfail SB_ERR_VALIDATION ''Duplicate proxy lease report'' s
      else
        transaction
          (exchange_body host (member_text request ''boot_id'') (body_int request ''request_seq'' 0)
             (sb_sha256_hex (sbj_dump request (- 1)) s) reports now) s)"

end
