(* ===== verification/Database_Facts.thy ===== *)
theory Database_Facts
  imports Database
begin

text \<open>
  Rules for computations on a connection. \<open>triple P m Q E\<close>: from a state with \<open>P\<close>, \<open>m\<close> ends in \<open>Q\<close>
  of its result when it succeeds and in \<open>E\<close> when it fails, whatever the library does. The rule for
  a transaction is where the atomicity of every writing operation comes from.
\<close>

definition triple ::
  "('s \<Rightarrow> bool) \<Rightarrow> ('s, 'a) dbm \<Rightarrow> ('a \<Rightarrow> 's \<Rightarrow> bool) \<Rightarrow> ('s \<Rightarrow> bool) \<Rightarrow> bool" where
  "triple P m Q E \<longleftrightarrow> (\<forall>s. P s \<longrightarrow> (case m s of (Inl e, s') \<Rightarrow> E s' | (Inr x, s') \<Rightarrow> Q x s'))"

text \<open>An assertion that does not depend on the result codes to come.\<close>

definition quiet :: "(('t, 'z) conn_scheme \<Rightarrow> bool) \<Rightarrow> bool" where
  "quiet P \<longleftrightarrow> (\<forall>s cs. P s \<longrightarrow> P (s\<lparr>codes := cs\<rparr>))"

lemma quietD: "quiet P \<Longrightarrow> P s \<Longrightarrow> P (s\<lparr>codes := cs\<rparr>)"
  by (simp add: quiet_def)

lemma tripleI:
  assumes "\<And>s e s'. P s \<Longrightarrow> m s = (Inl e, s') \<Longrightarrow> E s'"
    and "\<And>s x s'. P s \<Longrightarrow> m s = (Inr x, s') \<Longrightarrow> Q x s'"
  shows "triple P m Q E"
  using assms unfolding triple_def by (auto split: prod.split sum.split)

lemma triple_Inr: "triple P m Q E \<Longrightarrow> P s \<Longrightarrow> m s = (Inr x, s') \<Longrightarrow> Q x s'"
  by (force simp: triple_def)

lemma triple_Inl: "triple P m Q E \<Longrightarrow> P s \<Longrightarrow> m s = (Inl e, s') \<Longrightarrow> E s'"
  by (force simp: triple_def)

lemma triple_weaken:
  assumes "triple P' m Q' E'" "\<And>s. P s \<Longrightarrow> P' s" "\<And>x s. Q' x s \<Longrightarrow> Q x s" "\<And>s. E' s \<Longrightarrow> E s"
  shows "triple P m Q E"
  using assms by (force simp: triple_def split: prod.split sum.split)

lemma triple_pre: "triple P' m Q E \<Longrightarrow> (\<And>s. P s \<Longrightarrow> P' s) \<Longrightarrow> triple P m Q E"
  by (erule triple_weaken) auto

lemma triple_each: "(\<And>s0. P s0 \<Longrightarrow> triple (\<lambda>s. s = s0) m Q E) \<Longrightarrow> triple P m Q E"
  by (simp add: triple_def)

named_theorems triple_intros

lemma triple_dret [triple_intros]: "(\<And>s. P s \<Longrightarrow> Q x s) \<Longrightarrow> triple P (dret x) Q E"
  by (simp add: triple_def dret_def)

lemma triple_dfail [triple_intros]: "(\<And>s. P s \<Longrightarrow> E s) \<Longrightarrow> triple P (dfail c m) Q E"
  by (simp add: triple_def dfail_def sb_fail_def)

lemma triple_dsilent [triple_intros]: "(\<And>s. P s \<Longrightarrow> E s) \<Longrightarrow> triple P dsilent Q E"
  by (simp add: triple_def dsilent_def)

lemma triple_dbind:
  assumes "triple P m R E" "\<And>x. triple (R x) (f x) Q E"
  shows "triple P (dbind m f) Q E"
  by (rule tripleI; clarsimp simp: dbind_def split: prod.splits sum.splits)
    (metis triple_Inl [OF assms(1)] triple_Inr [OF assms(1)] triple_Inl [OF assms(2)]
      triple_Inr [OF assms(2)])+

lemma triple_if [triple_intros]:
  "(b \<Longrightarrow> triple P m Q E) \<Longrightarrow> (\<not> b \<Longrightarrow> triple P n Q E) \<Longrightarrow> triple P (if b then m else n) Q E"
  by simp

lemma next_code_codes: "next_code s = (c, s') \<Longrightarrow> \<exists>cs. s' = s\<lparr>codes := cs\<rparr>"
  by (cases s) (auto simp: next_code_def split: list.splits)

lemma sbq_prepare_cases:
  assumes "sbq_prepare s = (r, s')"
  obtains cs where "s' = s\<lparr>codes := cs\<rparr>"
  using assms by (auto simp: sbq_prepare_def Let_def split: prod.splits if_splits dest!: next_code_codes)

lemma sbq_step_row_cases:
  assumes "sbq_step_row row s = (r, s')"
  obtains cs where "s' = s\<lparr>codes := cs\<rparr>" "\<And>x. r = Inr x \<Longrightarrow> x = row"
  using assms by (auto simp: sbq_step_row_def sbq_fail_def sb_fail_def Let_def
      split: prod.splits if_splits dest!: next_code_codes)

lemma sbq_step_done_cases:
  assumes "sbq_step_done sql s = (r, s')"
  obtains (fail) e cs where "r = Inl e" "s' = s\<lparr>codes := cs\<rparr>"
  | (ok) n t cs where "r = Inr n" "sql (tables s) = Inr (t, n)" "s' = s\<lparr>codes := cs, tables := t\<rparr>"
  using assms
  by (auto simp: sbq_step_done_def sbq_fail_def sb_fail_def Let_def
      split: prod.splits if_splits sum.splits dest!: next_code_codes)

lemma triple_prepare: "quiet P \<Longrightarrow> (\<And>s. P s \<Longrightarrow> E s) \<Longrightarrow> triple P sbq_prepare (\<lambda>_. P) E"
  by (rule tripleI) (metis sbq_prepare_cases quietD)+

lemma triple_step_row:
  "quiet P \<Longrightarrow> (\<And>s. P s \<Longrightarrow> E s) \<Longrightarrow> triple P (sbq_step_row row) (\<lambda>x s. x = row \<and> P s) E"
  by (rule tripleI) (metis sbq_step_row_cases quietD)+

lemma triple_first:
  assumes "quiet P" "\<And>s. P s \<Longrightarrow> E s"
  shows "triple P (sql_first q)
    (\<lambda>x s. P s \<and> x = (case q (tables s) of [] \<Rightarrow> None | r # _ \<Rightarrow> Some r)) E"
proof (rule tripleI)
  fix s e s' assume P: "P s" and m: "sql_first q s = (Inl e, s')"
  then show "E s'"
    using assms quietD [OF assms(1)]
    by (auto simp: sql_first_def dbind_def split: prod.splits sum.splits
        elim!: sbq_prepare_cases sbq_step_row_cases)
next
  fix s x s' assume P: "P s" and m: "sql_first q s = (Inr x, s')"
  then show "P s' \<and> x = (case q (tables s') of [] \<Rightarrow> None | r # _ \<Rightarrow> Some r)"
    using quietD [OF assms(1)]
    by (auto simp: sql_first_def dbind_def split: prod.splits sum.splits
        elim!: sbq_prepare_cases sbq_step_row_cases)
qed

lemma triple_run:
  assumes "quiet P" "\<And>s. P s \<Longrightarrow> E s"
    and "\<And>s t n. P s \<Longrightarrow> sql (tables s) = Inr (t, n) \<Longrightarrow> Q n (s\<lparr>tables := t\<rparr>)"
  shows "triple P (sql_run sql) Q E"
  unfolding sql_run_def
proof (rule triple_dbind [OF triple_prepare [OF assms(1,2)]])
  fix x
  show "triple P (sbq_step_done sql) Q E"
  proof (rule tripleI)
    fix s e s' assume "P s" "sbq_step_done sql s = (Inl e, s')"
    then show "E s'" by (auto elim!: sbq_step_done_cases intro: assms quietD [OF assms(1)])
  next
    fix s n s' assume P: "P s" and "sbq_step_done sql s = (Inr n, s')"
    then obtain t cs where t: "sql (tables s) = Inr (t, n)" "s' = s\<lparr>codes := cs, tables := t\<rparr>"
      by (auto elim: sbq_step_done_cases)
    then show "Q n s'" using assms(3) [OF quietD [OF assms(1) P], of cs t n] by simp
  qed
qed simp_all

lemma triple_loop:
  assumes "\<And>acc. quiet (I acc)" "\<And>acc s. I acc s \<Longrightarrow> E s"
    and "\<And>r acc. r \<in> set rs \<Longrightarrow> triple (I acc) (f r acc) I E"
  shows "triple (I acc) (sql_loop f rs acc) I E"
  using assms(3)
proof (induction rs arbitrary: acc)
  case Nil
  show ?case
    by (auto intro!: triple_dbind triple_dret triple_weaken [OF triple_step_row] assms(1,2)
        intro: assms(2))
next
  case (Cons r rs)
  show ?case unfolding sql_loop.simps
    by (rule triple_dbind [OF triple_step_row [OF assms(1,2)]], assumption)
      (rule triple_pre [OF triple_dbind [OF Cons.prems Cons.IH]], use Cons.prems in auto)
qed

lemma triple_sql_each:
  assumes "quiet P" "\<And>acc. quiet (I acc)" "\<And>s. P s \<Longrightarrow> E s" "\<And>acc s. I acc s \<Longrightarrow> E s"
    and "\<And>s. P s \<Longrightarrow> I acc s"
    and "\<And>s r acc. P s \<Longrightarrow> r \<in> set (query (tables s)) \<Longrightarrow> triple (I acc) (f r acc) I E"
  shows "triple P (sql_each query f acc) I E"
  unfolding sql_each_def
proof (rule triple_dbind [OF triple_prepare [OF assms(1,3)]])
  fix x :: unit
  show "triple P (\<lambda>s. sql_loop f (query (tables s)) acc s) I E"
  proof (rule triple_each)
    fix s0 assume P: "P s0"
    have "triple (I acc) (sql_loop f (query (tables s0)) acc) I E"
      by (rule triple_loop [OF assms(2,4) assms(6) [OF P]])
    then show "triple (\<lambda>s. s = s0) (\<lambda>s. sql_loop f (query (tables s)) acc s) I E"
      using assms(5) [OF P] by (simp add: triple_def)
  qed
qed simp_all

lemma triple_dfor:
  assumes "\<And>x. x \<in> set xs \<Longrightarrow> triple I (f x) (\<lambda>_. I) E"
  shows "triple I (dfor xs f) (\<lambda>_. I) E"
  using assms by (induction xs) (auto intro!: triple_dret triple_dbind)

subsection \<open>Transactions\<close>

lemma exec_cases:
  assumes "sbq_exec f s = (r, s')"
  obtains (fail) e cs where "r = Inl e" "s' = s\<lparr>codes := cs\<rparr>"
  | (ok) cs where "r = Inr ()" "s' = f (s\<lparr>codes := cs\<rparr>)"
  using assms
  by (auto simp: sbq_exec_def sbq_fail_def sb_fail_def Let_def
      split: prod.splits if_splits dest!: next_code_codes)

text \<open>The body starts with the tables saved, must not end the transaction itself, and its effect is
  kept exactly when the transaction succeeds.\<close>

lemma triple_transaction:
  assumes body: "triple (\<lambda>s. P s \<and> tables s = t0 \<and> saved s = Some t0) body
      (\<lambda>x s. Q x s \<and> saved s = Some t0) (\<lambda>s. E s \<and> saved s = Some t0)"
    and quiet: "quiet P" "\<And>x. quiet (Q x)" "quiet E"
    and saved: "\<And>s u. P s \<Longrightarrow> P (s\<lparr>saved := u\<rparr>)" "\<And>x s u. Q x s \<Longrightarrow> Q x (s\<lparr>saved := u\<rparr>)"
      "\<And>s u. E s \<Longrightarrow> E (s\<lparr>saved := u\<rparr>)" "\<And>s t. E s \<Longrightarrow> E (s\<lparr>tables := t\<rparr>)"
    and weaken: "\<And>s. P s \<Longrightarrow> E s" "\<And>x s. Q x s \<Longrightarrow> E s"
  shows "triple (\<lambda>s. P s \<and> tables s = t0 \<and> saved s = None) (transaction body)
    (\<lambda>x s. Q x s \<and> saved s = None) (\<lambda>s. E s \<and> tables s = t0 \<and> saved s = None)"
proof (rule tripleI)
  fix s e s' assume pre: "P s \<and> tables s = t0 \<and> saved s = None" and m: "transaction body s = (Inl e, s')"
  show "E s' \<and> tables s' = t0 \<and> saved s' = None"
  proof (cases "sbq_begin s")
    case (Pair r s1)
    show ?thesis
    proof (cases r)
      case (Inl e1)
      then have "s' = s1" using m Pair by (simp add: transaction_def)
      moreover obtain cs where "s1 = s\<lparr>codes := cs\<rparr>"
        using Pair Inl unfolding sbq_begin_def by (auto elim: exec_cases)
      ultimately show ?thesis using pre quietD [OF quiet(3) weaken(1)] by simp
    next
      case (Inr u)
      obtain cs where s1: "s1 = s\<lparr>codes := cs, saved := Some t0\<rparr>"
        using Pair Inr pre unfolding sbq_begin_def by (auto elim: exec_cases)
      have P1: "P s1 \<and> tables s1 = t0 \<and> saved s1 = Some t0"
        using pre s1 quietD [OF quiet(1)] saved(1) by simp
      obtain b s2 where b: "body s1 = (b, s2)" by force
      show ?thesis
      proof (cases b)
        case (Inl e2)
        then have "E s2 \<and> saved s2 = Some t0" using triple_Inl [OF body P1] b by simp
        moreover have "s' = sbq_rollback s2"
          using m Pair Inr b Inl by (simp add: transaction_def dbind_def)
        ultimately show ?thesis using saved(3,4) by (simp add: sbq_rollback_def)
      next
        case (Inr x)
        then have Q2: "Q x s2 \<and> saved s2 = Some t0" using triple_Inr [OF body P1] b by simp
        obtain c s3 where c: "sbq_commit s2 = (c, s3)" by force
        then obtain e3 where "c = Inl e3" "s' = sbq_rollback s3"
          using m Pair \<open>r = Inr u\<close> b Inr
          by (cases c) (auto simp: transaction_def dbind_def dret_def)
        moreover from this obtain cs where "s3 = s2\<lparr>codes := cs\<rparr>"
          using c unfolding sbq_commit_def by (auto elim: exec_cases)
        ultimately show ?thesis
          using Q2 quietD [OF quiet(3) weaken(2) [of x s2]] saved(3,4)
          by (simp add: sbq_rollback_def)
      qed
    qed
  qed
next
  fix s x s' assume pre: "P s \<and> tables s = t0 \<and> saved s = None" and m: "transaction body s = (Inr x, s')"
  obtain u s1 where s1: "sbq_begin s = (Inr u, s1)"
    using m by (auto simp: transaction_def split: prod.splits sum.splits)
  obtain cs where cs: "s1 = s\<lparr>codes := cs, saved := Some t0\<rparr>"
    using s1 pre unfolding sbq_begin_def by (auto elim: exec_cases)
  have P1: "P s1 \<and> tables s1 = t0 \<and> saved s1 = Some t0"
    using pre cs quietD [OF quiet(1)] saved(1) by simp
  obtain s2 v where s2: "body s1 = (Inr x, s2)" "sbq_commit s2 = (Inr v, s')"
    using m s1 by (auto simp: transaction_def dbind_def dret_def split: prod.splits sum.splits)
  then obtain cs' where "s' = s2\<lparr>codes := cs', saved := None\<rparr>"
    unfolding sbq_commit_def by (auto elim: exec_cases)
  then show "Q x s' \<and> saved s' = None"
    using triple_Inr [OF body P1 s2(1)] quietD [OF quiet(2)] saved(2) by simp
qed

subsection \<open>Effects on the tables\<close>

text \<open>A relation between the connection before and after: when it is a preorder that does not see the
  result codes, a computation stays within it as soon as its statements do.\<close>

locale db_relation =
  fixes R :: "('t, 'z) conn_scheme \<Rightarrow> ('t, 'z) conn_scheme \<Rightarrow> bool"
  assumes refl: "R s s"
    and trans: "R s1 s2 \<Longrightarrow> R s2 s3 \<Longrightarrow> R s1 s3"
    and codes: "R s (s\<lparr>codes := cs\<rparr>)"
begin

definition within :: "(('t, 'z) conn_scheme, 'a) dbm \<Rightarrow> bool" where
  "within m \<longleftrightarrow> (\<forall>s. R s (snd (m s)))"

lemma withinI: "(\<And>s. R s (snd (m s))) \<Longrightarrow> within m"
  by (simp add: within_def)

lemma withinD: "within m \<Longrightarrow> m s = (r, s') \<Longrightarrow> R s s'"
  by (metis within_def snd_conv)

lemma basic: "within (dret x)" "within (dfail c msg)" "within dsilent" "within (\<lambda>s. (Inl e, s))"
  by (simp_all add: within_def dret_def dfail_def dsilent_def refl)

lemma dbind:
  assumes "within m" "\<And>x. within (f x)"
  shows "within (dbind m f)"
proof (rule withinI)
  fix s
  obtain r s1 where m: "m s = (r, s1)" by force
  show "R s (snd (dbind m f s))"
    using withinD [OF assms(1) m] withinD [OF assms(2)] m
    by (cases r) (auto simp: dbind_def intro: trans dest: trans [OF _ withinD [OF assms(2) prod.collapse [symmetric]]])
qed

lemma state: "(\<And>t. within (f t)) \<Longrightarrow> within (\<lambda>s. f s s)"
  by (simp add: within_def)

lemma branch: "(b \<Longrightarrow> within m) \<Longrightarrow> (\<not> b \<Longrightarrow> within n) \<Longrightarrow> within (if b then m else n)"
  by simp

lemma choice:
  "within m \<Longrightarrow> (\<And>x. within (f x)) \<Longrightarrow> within (case y of None \<Rightarrow> m | Some x \<Rightarrow> f x)"
  "(\<And>x. within (g x)) \<Longrightarrow> (\<And>x. within (h x)) \<Longrightarrow> within (case z of Inl x \<Rightarrow> g x | Inr x \<Rightarrow> h x)"
  "(\<And>x y. within (k x y)) \<Longrightarrow> within (case w of (x, y) \<Rightarrow> k x y)"
  "within (j v) \<Longrightarrow> within (Let v j)"
  by (simp_all split: option.split sum.split prod.split)

lemma library: "within sbq_prepare" "within (sbq_step_row row)"
  by (rule withinI; simp add: sbq_prepare_def sbq_step_row_def next_code_def Let_def refl codes split: list.split)+

lemma run:
  assumes "\<And>s t n. sql (tables s) = Inr (t, n) \<Longrightarrow> R s (s\<lparr>tables := t\<rparr>)"
  shows "within (sql_run sql)"
proof -
  have "R s (s\<lparr>codes := cs, tables := t\<rparr>)" if "sql (tables s) = Inr (t, n)" for s t n cs
    using trans [OF codes [of s cs] assms [of "s\<lparr>codes := cs\<rparr>"]] that by simp
  then have "within (sbq_step_done sql)"
    by (auto intro!: withinI simp: sbq_step_done_def next_code_def Let_def refl codes assms split: list.split sum.split)
  then show ?thesis unfolding sql_run_def by (rule dbind [OF library(1)])
qed

lemma first: "within (sql_first q)"
  unfolding sql_first_def by (rule dbind [OF library(1)], rule state, rule library(2))

lemma loop: "(\<And>r acc. within (f r acc)) \<Longrightarrow> within (sql_loop f rs acc)"
  by (induction rs arbitrary: acc) (simp_all add: dbind library basic)

lemma each: "(\<And>r acc. within (f r acc)) \<Longrightarrow> within (sql_each q f acc)"
  unfolding sql_each_def by (rule dbind [OF library(1)], rule state, rule loop)

lemma for_each: "(\<And>x. within (f x)) \<Longrightarrow> within (dfor xs f)"
  by (induction xs) (simp_all add: dbind basic)

lemmas rules = basic dbind branch choice library first loop each for_each

end

text \<open>When the relation sees neither the tables nor the saved copy, it holds across statements and
  transactions as well.\<close>

locale db_beside = db_relation +
  assumes beside: "R s (s\<lparr>tables := t, saved := b\<rparr>)"
begin

lemma statement: "within (sql_run sql)"
proof (rule run)
  fix s :: "('a, 'b) conn_scheme" and t n
  show "R s (s\<lparr>tables := t\<rparr>)" using beside [of s "saved s" t] by simp
qed

lemma begin_commit: "within sbq_begin" "within sbq_commit"
proof -
  have "R s (s\<lparr>codes := cs, saved := b\<rparr>)" "R s (s\<lparr>saved := b\<rparr>)" for s :: "('a, 'b) conn_scheme" and cs b
    using trans [OF codes [of s cs] beside [of _ b "tables s"]] beside [of s b "tables s"] by simp_all
  then show "within sbq_begin" "within sbq_commit"
    by (auto simp: within_def sbq_begin_def sbq_commit_def sbq_exec_def next_code_def Let_def refl codes split: list.split)
qed

lemma transaction:
  assumes "within body"
  shows "within (transaction body)"
proof (rule withinI)
  fix s
  have rollback: "R s1 (sbq_rollback s1)" for s1 :: "('a, 'b) conn_scheme"
    using beside by (simp add: sbq_rollback_def refl split: option.split)
  obtain r s1 where one: "sbq_begin s = (r, s1 :: ('a, 'b) conn_scheme)" by force
  let ?m = "dbind body (\<lambda>x. dbind sbq_commit (\<lambda>_. dret x))"
  obtain q s2 where two: "?m s1 = (q, s2)" by force
  have "R s s1" by (rule withinD [OF begin_commit(1) one])
  moreover have "R s1 s2" by (rule withinD [where m = ?m, OF _ two]) (intro dbind assms begin_commit basic)
  ultimately show "R s (snd (transaction body s))"
    using rollback by (auto simp: transaction_def one two intro: trans split: sum.split)
qed

end

text \<open>A computation that only reads.\<close>

definition same_tables :: "('t, 'z) conn_scheme \<Rightarrow> ('t, 'z) conn_scheme \<Rightarrow> bool" where
  "same_tables s s' \<longleftrightarrow> tables s' = tables s \<and> saved s' = saved s"

interpretation reading: db_relation same_tables
  by unfold_locales (simp_all add: same_tables_def)

abbreviation readonly :: "(('t, 'z) conn_scheme, 'a) dbm \<Rightarrow> bool" where
  "readonly \<equiv> db_relation.within same_tables"

named_theorems readonly_intros

lemmas readonly_rules [readonly_intros] = reading.rules

lemma readonly_def: "readonly m \<longleftrightarrow> (\<forall>s r s'. m s = (r, s') \<longrightarrow> tables s' = tables s \<and> saved s' = saved s)"
  by (simp add: reading.within_def same_tables_def) (metis prod.collapse snd_conv)

text \<open>\<open>works P m Q\<close>: inside a transaction, \<open>m\<close> leaves the saved copy alone, and takes tables with \<open>P\<close>
  to tables with \<open>Q\<close> of its result when it succeeds. The rules compute strongest postconditions, so
  that a sequence of statements is walked from front to back.\<close>

definition works ::
  "('t \<Rightarrow> bool) \<Rightarrow> (('t, 'z) conn_scheme, 'a) dbm \<Rightarrow> ('a \<Rightarrow> 't \<Rightarrow> bool) \<Rightarrow> bool" where
  "works P m Q \<longleftrightarrow>
     (\<forall>c. triple (\<lambda>s. P (tables s) \<and> saved s = c) m (\<lambda>x s. Q x (tables s) \<and> saved s = c)
            (\<lambda>s. saved s = c))"

lemma works_weaken:
  "works P' m Q' \<Longrightarrow> (\<And>t. P t \<Longrightarrow> P' t) \<Longrightarrow> (\<And>x t. Q' x t \<Longrightarrow> Q x t) \<Longrightarrow> works P m Q"
  unfolding works_def by (intro allI) (rule triple_weaken, erule spec, auto)

lemma works_post: "works P m Q' \<Longrightarrow> (\<And>x t. Q' x t \<Longrightarrow> Q x t) \<Longrightarrow> works P m Q"
  by (rule works_weaken)

lemma works_dbind: "works P m R \<Longrightarrow> (\<And>x. works (R x) (f x) Q) \<Longrightarrow> works P (dbind m f) Q"
  unfolding works_def by (blast intro: triple_dbind)

lemma works_each: "(\<And>t0. P t0 \<Longrightarrow> works (\<lambda>t. t = t0) m Q) \<Longrightarrow> works P m Q"
  unfolding works_def triple_def by (auto split: prod.split sum.split)

lemma works_dret: "(\<And>t. P t \<Longrightarrow> Q x t) \<Longrightarrow> works P (dret x) Q"
  unfolding works_def by (auto intro: triple_dret)

lemma works_dfail: "works P (dfail c m) Q"
  unfolding works_def by (auto intro: triple_dfail)

lemma works_dsilent: "works P dsilent Q"
  unfolding works_def by (auto intro: triple_dsilent)

lemma works_fail: "works P (\<lambda>s. (Inl e, s)) Q"
  by (simp add: works_def triple_def)

lemma works_if:
  "(b \<Longrightarrow> works P m Q) \<Longrightarrow> (\<not> b \<Longrightarrow> works P n Q) \<Longrightarrow> works P (if b then m else n) Q"
  by simp

lemma works_first:
  "works P (sql_first q) (\<lambda>x t. P t \<and> x = (case q t of [] \<Rightarrow> None | r # _ \<Rightarrow> Some r))"
  unfolding works_def
  by (intro allI triple_weaken [OF triple_first]) (auto simp: quiet_def)

lemma works_run: "works P (sql_run sql) (\<lambda>n t. \<exists>t0. P t0 \<and> sql t0 = Inr (t, n))"
  unfolding works_def by (intro allI triple_run) (auto simp: quiet_def)

lemma works_sql_each:
  assumes "\<And>t. P t \<Longrightarrow> I acc t"
    and "\<And>t r acc. P t \<Longrightarrow> r \<in> set (query t) \<Longrightarrow> works (I acc) (f r acc) I"
  shows "works P (sql_each query f acc) I"
  unfolding works_def using assms(2)
  by (intro allI triple_sql_each) (auto simp: quiet_def works_def assms(1))

lemma works_dfor:
  assumes "\<And>x. x \<in> set xs \<Longrightarrow> works I (f x) (\<lambda>_. I)"
  shows "works I (dfor xs f) (\<lambda>_. I)"
  using assms by (induction xs) (auto intro!: works_dret works_dbind)

lemma works_Inr:
  "works P m Q \<Longrightarrow> P (tables s) \<Longrightarrow> m s = (Inr x, s') \<Longrightarrow> Q x (tables s') \<and> saved s' = saved s"
  unfolding works_def by (blast dest: triple_Inr)

lemma works_Inl: "works P m Q \<Longrightarrow> P (tables s) \<Longrightarrow> m s = (Inl e, s') \<Longrightarrow> saved s' = saved s"
  unfolding works_def by (blast dest: triple_Inl)

lemma works_readonly: "readonly m \<Longrightarrow> works P m (\<lambda>_. P)"
  unfolding works_def by (auto intro!: tripleI simp: readonly_def)

text \<open>What an operation outside a transaction does: it keeps the tables when it fails.\<close>

definition atomic ::
  "('t \<Rightarrow> bool) \<Rightarrow> (('t, 'z) conn_scheme, 'a) dbm \<Rightarrow> ('a \<Rightarrow> 't \<Rightarrow> 't \<Rightarrow> bool) \<Rightarrow> bool" where
  "atomic P m Q \<longleftrightarrow>
     (\<forall>s r s'. P (tables s) \<longrightarrow> saved s = None \<longrightarrow> m s = (r, s') \<longrightarrow> saved s' = None
        \<and> (case r of Inl e \<Rightarrow> tables s' = tables s | Inr x \<Rightarrow> Q x (tables s) (tables s')))"

lemma atomic_transaction:
  assumes "\<And>t0. P t0 \<Longrightarrow> works (\<lambda>t. t = t0) body (\<lambda>x t. Q x t0 t)"
  shows "atomic P (transaction body) Q"
  unfolding atomic_def
proof (intro allI impI)
  fix s r s' assume s: "P (tables s)" "saved s = None" "transaction body s = (r, s')"
  have "triple (\<lambda>s'. True \<and> tables s' = tables s \<and> saved s' = Some (tables s)) body
      (\<lambda>x s'. Q x (tables s) (tables s') \<and> saved s' = Some (tables s))
      (\<lambda>s'. True \<and> saved s' = Some (tables s))"
    using assms [OF s(1)] unfolding works_def by simp
  note triple_transaction [where P = "\<lambda>_. True" and E = "\<lambda>_. True"
      and Q = "\<lambda>x s'. Q x (tables s) (tables s')", OF this]
  then have tr: "triple (\<lambda>s'. True \<and> tables s' = tables s \<and> saved s' = None) (transaction body)
      (\<lambda>x s'. Q x (tables s) (tables s') \<and> saved s' = None)
      (\<lambda>s'. True \<and> tables s' = tables s \<and> saved s' = None)"
    by (simp add: quiet_def)
  show "saved s' = None
      \<and> (case r of Inl e \<Rightarrow> tables s' = tables s | Inr x \<Rightarrow> Q x (tables s) (tables s'))"
  proof (cases r)
    case (Inl e)
    then show ?thesis using triple_Inl [OF tr, of s e s'] s(2,3) by simp
  next
    case (Inr x)
    then show ?thesis using triple_Inr [OF tr, of s x s'] s(2,3) by simp
  qed
qed

lemma atomic_run:
  assumes "\<And>t t' n. P t \<Longrightarrow> sql t = Inr (t', n) \<Longrightarrow> Q n t t'"
  shows "atomic P (sql_run sql) Q"
  unfolding atomic_def
proof (intro allI impI)
  fix s r s' assume s: "P (tables s)" "saved s = None" "sql_run sql s = (r, s')"
  show "saved s' = None
      \<and> (case r of Inl e \<Rightarrow> tables s' = tables s | Inr x \<Rightarrow> Q x (tables s) (tables s'))"
  proof (cases "sbq_prepare s")
    case (Pair p s1)
    then obtain cs where "s1 = s\<lparr>codes := cs\<rparr>" by (auto elim: sbq_prepare_cases)
    with Pair s assms [OF s(1)] show ?thesis
      by (cases p) (auto simp: sql_run_def dbind_def elim!: sbq_step_done_cases)
  qed
qed

lemma atomic_readonly: "readonly m \<Longrightarrow> (\<And>x t. P t \<Longrightarrow> Q x t t) \<Longrightarrow> atomic P m Q"
  by (auto simp: atomic_def readonly_def split: sum.split)

text \<open>Work before and after the part that writes.\<close>

lemma atomic_before:
  assumes "readonly m" "\<And>x. atomic P (f x) Q"
  shows "atomic P (dbind m f) Q"
  unfolding atomic_def
proof (intro allI impI)
  fix s r s' assume s: "P (tables s)" "saved s = None" "dbind m f s = (r, s')"
  obtain p s1 where m: "m s = (p, s1)" by force
  then have s1: "tables s1 = tables s" "saved s1 = None"
    using assms(1) s(2) by (auto simp: readonly_def)
  show "saved s' = None
      \<and> (case r of Inl e \<Rightarrow> tables s' = tables s | Inr x \<Rightarrow> Q x (tables s) (tables s'))"
  proof (cases p)
    case (Inr x)
    then have "f x s1 = (r, s')" using s m by (simp add: dbind_def)
    then show ?thesis
      using assms(2) [of x, unfolded atomic_def, rule_format, of s1 r s'] s(1) s1 by (cases r) simp_all
  qed (use s m s1 in \<open>auto simp: dbind_def\<close>)
qed

lemma atomic_state: "(\<And>s0. atomic P (m s0) Q) \<Longrightarrow> atomic P (\<lambda>s. m s s) Q"
  by (auto simp: atomic_def)

lemma atomic_weaken:
  "atomic P' m Q' \<Longrightarrow> (\<And>t. P t \<Longrightarrow> P' t) \<Longrightarrow> (\<And>x t t'. P t \<Longrightarrow> Q' x t t' \<Longrightarrow> Q x t t')
    \<Longrightarrow> atomic P m Q"
  by (fastforce simp: atomic_def split: sum.splits)

lemma atomicD:
  assumes "atomic P m Q" "P (tables s)" "saved s = None" "m s = (r, s')"
  shows "saved s' = None" "r = Inl e \<Longrightarrow> tables s' = tables s"
    "r = Inr x \<Longrightarrow> Q x (tables s) (tables s')"
  using assms unfolding atomic_def by force+

text \<open>A loop that only collects its rows.\<close>

lemma works_collect:
  "works P (sql_each query (\<lambda>r acc. dret (g r acc)) acc)
    (\<lambda>x t. P t \<and> x = foldl (\<lambda>a r. g r a) acc (query t))"
proof -
  have loop: "works (\<lambda>t. t = t0) (sql_loop (\<lambda>r acc. dret (g r acc)) rs acc)
      (\<lambda>x t. t = t0 \<and> x = foldl (\<lambda>a r. g r a) acc rs)" for t0 rs acc
  proof (induction rs arbitrary: acc)
    case Nil
    show ?case unfolding sql_loop.simps
      by (rule works_dbind [OF works_readonly [OF reading.library(2)]]) (simp add: works_dret)
  next
    case (Cons r rs)
    show ?case unfolding sql_loop.simps
      by (rule works_dbind [OF works_readonly [OF reading.library(2)]],
          rule works_dbind [where R = "\<lambda>x t. t = t0 \<and> x = g r acc"])
        (use Cons.IH [of "g r acc"] in \<open>auto intro!: works_dret intro: works_each\<close>)
  qed
  show ?thesis
    unfolding sql_each_def
  proof (rule works_each, rule works_dbind [OF works_readonly [OF reading.library(1)]])
    fix t0 and u :: unit assume P: "P t0"
    show "works (\<lambda>t. t = t0) (\<lambda>s. sql_loop (\<lambda>r acc. dret (g r acc)) (query (tables s)) acc s)
        (\<lambda>x t. P t \<and> x = foldl (\<lambda>a r. g r a) acc (query t))"
      using works_weaken [OF loop [of t0 "query t0" acc], of "\<lambda>t. t = t0"
          "\<lambda>x t. P t \<and> x = foldl (\<lambda>a r. g r a) acc (query t)"] P
      unfolding works_def triple_def by simp
  qed
qed

subsection \<open>Runs without failures\<close>

text \<open>When SQLite goes through, the statements are the functions they stand for.\<close>

lemma smooth_next [simp]: "codes s = [] \<Longrightarrow> next_code s = (0, s)"
  by (simp add: next_code_def)

lemma smooth_step_row [simp]: "codes s = [] \<Longrightarrow> sbq_step_row row s = (Inr row, s)"
  by (simp add: sbq_step_row_def)

lemma smooth_first [simp]:
  "codes s = [] \<Longrightarrow> sql_first q s = (Inr (case q (tables s) of [] \<Rightarrow> None | r # _ \<Rightarrow> Some r), s)"
  by (simp add: sql_first_def dbind_def sbq_prepare_def)

lemma smooth_run [simp]:
  "codes s = [] \<Longrightarrow> sql_run sql s =
     (case sql (tables s) of
        Inl c \<Rightarrow> (sbq_fail ''execute SQL'' c s, s)
      | Inr (t, n) \<Rightarrow> (Inr n, s\<lparr>tables := t\<rparr>))"
  by (simp add: sql_run_def dbind_def sbq_prepare_def sbq_step_done_def)

lemma smooth_each: "codes s = [] \<Longrightarrow> sql_each q f acc s = sql_loop f (q (tables s)) acc s"
  by (simp add: sql_each_def dbind_def sbq_prepare_def)

lemma smooth_collect [simp]:
  assumes "codes s = []"
  shows "sql_each q (\<lambda>r acc. dret (g r acc)) acc s = (Inr (foldl (\<lambda>a r. g r a) acc (q (tables s))), s)"
proof -
  have "sql_loop (\<lambda>r acc. dret (g r acc)) rs acc s = (Inr (foldl (\<lambda>a r. g r a) acc rs), s)" for rs
    using assms by (induction rs arbitrary: acc) (simp_all add: dbind_def dret_def)
  then show ?thesis using assms by (simp add: smooth_each)
qed

lemma smooth_transaction:
  assumes "codes s = []" "body (s\<lparr>saved := Some (tables s)\<rparr>) = (Inr x, s')" "codes s' = []"
  shows "transaction body s = (Inr x, s'\<lparr>saved := None\<rparr>)"
  using assms
  by (simp add: transaction_def sbq_begin_def sbq_commit_def sbq_exec_def dbind_def dret_def)

text \<open>\<open>succeeds P m Q\<close>: from \<open>P\<close>, \<open>m\<close> succeeds and ends in \<open>Q\<close>.\<close>

definition succeeds :: "('s \<Rightarrow> bool) \<Rightarrow> ('s, 'a) dbm \<Rightarrow> ('a \<Rightarrow> 's \<Rightarrow> bool) \<Rightarrow> bool" where
  "succeeds P m Q \<longleftrightarrow> (\<forall>s. P s \<longrightarrow> (\<exists>x s'. m s = (Inr x, s') \<and> Q x s'))"

lemma succeedsI: "(\<And>s. P s \<Longrightarrow> \<exists>x s'. m s = (Inr x, s') \<and> Q x s') \<Longrightarrow> succeeds P m Q"
  by (simp add: succeeds_def)

lemma succeedsE:
  assumes "succeeds P m Q" "P s"
  obtains x s' where "m s = (Inr x, s')" "Q x s'"
  using assms by (auto simp: succeeds_def)

lemma succeeds_weaken:
  "succeeds P' m Q' \<Longrightarrow> (\<And>s. P s \<Longrightarrow> P' s) \<Longrightarrow> (\<And>x s. Q' x s \<Longrightarrow> Q x s) \<Longrightarrow> succeeds P m Q"
  unfolding succeeds_def by blast

lemma succeeds_dbind:
  assumes "succeeds P m R" "\<And>x. succeeds (R x) (f x) Q"
  shows "succeeds P (dbind m f) Q"
proof (rule succeedsI)
  fix s assume "P s"
  with assms(1) obtain x s1 where m: "m s = (Inr x, s1)" "R x s1" by (rule succeedsE)
  from assms(2) m(2) obtain y s2 where "f x s1 = (Inr y, s2)" "Q y s2" by (rule succeedsE)
  with m show "\<exists>x s'. dbind m f s = (Inr x, s') \<and> Q x s'" by (simp add: dbind_def)
qed

lemma succeeds_dret: "(\<And>s. P s \<Longrightarrow> Q x s) \<Longrightarrow> succeeds P (dret x) Q"
  by (simp add: succeeds_def dret_def)

lemma succeeds_first:
  assumes "\<And>s. P s \<Longrightarrow> codes s = []"
  shows "succeeds P (sql_first q) (\<lambda>x s. P s \<and> x = (case q (tables s) of [] \<Rightarrow> None | r # _ \<Rightarrow> Some r))"
  using assms by (intro succeedsI) simp

lemma succeeds_each:
  assumes "\<And>s. P s \<Longrightarrow> codes s = []" "\<And>s. P s \<Longrightarrow> I [] acc s"
    and "\<And>rs acc s. I rs acc s \<Longrightarrow> codes s = []"
    and step: "\<And>s0 dn r rest acc. P s0 \<Longrightarrow> query (tables s0) = dn @ r # rest \<Longrightarrow>
      succeeds (I dn acc) (f r acc) (I (dn @ [r]))"
  shows "succeeds P (sql_each query f acc) (\<lambda>x s. \<exists>s0. P s0 \<and> I (query (tables s0)) x s)"
proof (rule succeedsI)
  fix s0 assume P: "P s0"
  have "succeeds (I dn acc) (sql_loop f rest acc) (I (query (tables s0)))"
    if "query (tables s0) = dn @ rest" for dn rest acc
    using that
  proof (induction rest arbitrary: dn acc)
    case Nil
    then show ?case using assms(3) by (intro succeedsI) (simp add: dbind_def dret_def)
  next
    case (Cons r rest)
    have row: "succeeds (I dn acc) (sbq_step_row (Some r)) (\<lambda>_. I dn acc)"
      using assms(3) by (intro succeedsI) simp
    have rest: "succeeds (I dn acc) (dbind (f r acc) (\<lambda>acc. sql_loop f rest acc)) (I (query (tables s0)))"
      using Cons.prems by (intro succeeds_dbind [OF step [OF P Cons.prems]] Cons.IH) simp
    show ?case unfolding sql_loop.simps by (rule succeeds_dbind [OF row rest])
  qed
  from this [of "[]" "query (tables s0)" acc]
  show "\<exists>x s'. sql_each query f acc s0 = (Inr x, s') \<and> (\<exists>s0. P s0 \<and> I (query (tables s0)) x s')"
    using P assms(1,2) by (force simp: smooth_each succeeds_def)
qed

lemma succeeds_transaction:
  assumes "\<And>s. P s \<Longrightarrow> codes s = []" "\<And>x s. Q x s \<Longrightarrow> codes s = []"
    and "succeeds (\<lambda>s. \<exists>s0. P s0 \<and> s = s0\<lparr>saved := Some (tables s0)\<rparr>) body Q"
  shows "succeeds P (transaction body) (\<lambda>x s. \<exists>s1. Q x s1 \<and> s = s1\<lparr>saved := None\<rparr>)"
proof (rule succeedsI)
  fix s assume P: "P s"
  then obtain x s1 where "body (s\<lparr>saved := Some (tables s)\<rparr>) = (Inr x, s1)" "Q x s1"
    using assms(3) by (auto elim!: succeedsE)
  then show "\<exists>x s'. transaction body s = (Inr x, s') \<and> (\<exists>s1. Q x s1 \<and> s' = s1\<lparr>saved := None\<rparr>)"
    using smooth_transaction [of s body x s1] assms(1) [OF P] assms(2) by auto
qed

end
