(* ===== verification/Proxy_Lease_Facts.thy ===== *)
theory Proxy_Lease_Facts
  imports Proxy_Leases Database_Facts
begin

text \<open>
  What the operations on proxy users and leases do to the tables: an invariant, the specification of
  an exchange, and the statements every entry point runs. A failed operation leaves the tables as they
  were.
\<close>

subsection \<open>Operations that only read\<close>

lemma readonly_library [readonly_intros]:
  "readonly (sb_proxy_clock_wait_ms user epoch)" "readonly (sb_proxy_clock_reset_epoch user epoch)"
  "readonly (sb_proxy_clock_set_source source)" "readonly sb_uuid_v4" "readonly (new_secret b)"
  by (auto simp: readonly_def sb_proxy_clock_wait_ms_def sb_proxy_clock_reset_epoch_def
      sb_proxy_clock_set_source_def sb_uuid_v4_def new_secret_def dret_def dfail_def Let_def
      split: option.splits prod.splits sum.splits)

lemma readonly_runtime_ready [readonly_intros]: "readonly (runtime_ready host now)"
  unfolding runtime_ready_def by (intro readonly_intros)

lemma readonly_devices_locked [readonly_intros]: "readonly (devices_locked user policy now)"
  unfolding devices_locked_def by (intro readonly_intros)

lemma readonly_user_locked [readonly_intros]: "readonly (user_locked user)"
  unfolding user_locked_def by (auto intro!: readonly_intros split: option.split)

lemma readonly_node_locked [readonly_intros]: "readonly (node_locked host policy now)"
  unfolding node_locked_def by (auto intro!: readonly_intros split: option.split)

lemma readonly_checks [readonly_intros]:
  "readonly (user_change_ok user body now)" "readonly user_room" "readonly (ingress_check item)"
  "readonly (host_check host code message)"
  unfolding user_change_ok_def user_room_def ingress_check_def host_check_def Let_def
  by (auto intro!: readonly_intros split: option.split)

lemma readonly_queries [readonly_intros]:
  "readonly (sb_proxy_user_get user)" "readonly sb_proxy_users_list"
  "readonly (sb_proxy_ingress_list now)"
  unfolding sb_proxy_user_get_def sb_proxy_users_list_def sb_proxy_ingress_list_def
  by (intro readonly_intros)+

lemma readonly_tokens [readonly_intros]:
  "readonly (sb_proxy_claim_resolve token now)" "readonly (sb_proxy_subscription token now)"
proof -
  have q: "readonly (dbind (sql_first (\<lambda>t. filter (\<lambda>u. us_claim_hash u = Some hash \<and> usable_user now u)
      (t_users t))) (\<lambda>row. case row of Some u \<Rightarrow> dret (us_id u)
        | None \<Rightarrow> dfail SB_ERR_AUTH ''Invalid or expired proxy claim token''))" for hash
    by (auto intro!: readonly_intros split: option.split)
  have p: "readonly (dbind (sql_first (device_of_token hash now)) (\<lambda>row. case row of
        None \<Rightarrow> dfail SB_ERR_AUTH ''Invalid, revoked or expired device subscription''
      | Some (user, device_key) \<Rightarrow>
          dbind (sql_each (\<lambda>t. sort_key in_host (user_ingress user now t))
            (\<lambda>n nodes. dret (sbj_arr_push nodes (Some (outbound_json device_key n)))) sbj_array)
            (\<lambda>nodes. dret (jset sbj_object ''outbounds'' nodes))))" for hash
    by (auto intro!: readonly_intros split: option.split)
  show "readonly (sb_proxy_claim_resolve token now)"
    using q unfolding readonly_def sb_proxy_claim_resolve_def dfail_def Let_def
    by (auto split: option.splits if_splits)
  show "readonly (sb_proxy_subscription token now)"
    using p unfolding readonly_def sb_proxy_subscription_def dfail_def Let_def
    by (auto split: option.splits if_splits)
qed

subsection \<open>The invariant of the tables\<close>

text \<open>What a user may be granted in an epoch: the quota, and a large number when there is none.\<close>

definition user_cap :: "user_row \<Rightarrow> int" where
  "user_cap u = (if us_quota_bytes u \<noteq> 0 then us_quota_bytes u else SAFE_INTEGER)"

definition lease_slot_of :: "lease_row \<Rightarrow> string \<times> string \<times> string \<times> int" where
  "lease_slot_of l = (ls_user l, ls_host l, ls_boot l, ls_epoch l)"

definition users_ok :: "proxy_db \<Rightarrow> bool" where
  "users_ok t \<longleftrightarrow> distinct (map us_id (t_users t))
     \<and> (\<forall>u\<in>set (t_users t). 0 \<le> us_quota_bytes u \<and> us_quota_bytes u \<le> SAFE_INTEGER
          \<and> 1 \<le> us_epoch u \<and> us_epoch u \<le> SAFE_INTEGER)"

definition leases_ok :: "proxy_db \<Rightarrow> bool" where
  "leases_ok t \<longleftrightarrow> distinct (map ls_id (t_leases t)) \<and> distinct (map lease_slot_of (t_leases t))
     \<and> (\<forall>l\<in>set (t_leases t). 0 \<le> ls_used_bytes l \<and> ls_used_bytes l \<le> ls_grant_bytes l
          \<and> ls_user l \<in> us_id ` set (t_users t))"

text \<open>No lease is of a later epoch than its user, and the leases of earlier epochs end before the
  user's \<open>not_before\<close>.\<close>

definition epochs_ok :: "proxy_db \<Rightarrow> bool" where
  "epochs_ok t \<longleftrightarrow> (\<forall>u\<in>set (t_users t). \<forall>l\<in>set (t_leases t). ls_user l = us_id u \<longrightarrow>
     ls_epoch l \<le> us_epoch u \<and> (ls_epoch l < us_epoch u \<longrightarrow> ls_expires_at l \<le> us_not_before u))"

definition budget_ok :: "proxy_db \<Rightarrow> bool" where
  "budget_ok t \<longleftrightarrow>
     (\<forall>u\<in>set (t_users t). granted t (us_id u) (us_epoch u) \<le> user_cap u)"

definition devices_ok :: "proxy_db \<Rightarrow> bool" where
  "devices_ok t \<longleftrightarrow> distinct (map dv_id (t_devices t)) \<and> distinct (map dv_token_hash (t_devices t))"

definition db_ok :: "proxy_db \<Rightarrow> bool" where
  "db_ok t \<longleftrightarrow> users_ok t \<and> leases_ok t \<and> epochs_ok t \<and> budget_ok t \<and> devices_ok t"

lemmas db_ok_defs = db_ok_def users_ok_def leases_ok_def epochs_ok_def budget_ok_def devices_ok_def

lemma db_ok_frame [simp]:
  "db_ok (t\<lparr>t_hosts := x1\<rparr>) = db_ok t" "db_ok (t\<lparr>t_reports := x2\<rparr>) = db_ok t"
  "db_ok (t\<lparr>t_ingress := x3\<rparr>) = db_ok t" "db_ok (t\<lparr>t_user_nodes := x4\<rparr>) = db_ok t"
  "db_ok (t\<lparr>t_sessions := x6\<rparr>) = db_ok t"
  by (simp_all add: db_ok_defs granted_def epoch_leases_def)

text \<open>Two users of the same id are the same row.\<close>

lemma users_ok_unique:
  "users_ok t \<Longrightarrow> u \<in> set (t_users t) \<Longrightarrow> v \<in> set (t_users t) \<Longrightarrow> us_id u = us_id v \<Longrightarrow> u = v"
  by (auto simp: users_ok_def distinct_map inj_on_def)

lemma granted_none: "(\<And>l. l \<in> set (t_leases t) \<Longrightarrow> ls_user l = user \<Longrightarrow> ls_epoch l \<noteq> e) \<Longrightarrow> granted t user e = 0"
  unfolding granted_def epoch_leases_def by (subst filter_False) auto

lemma upd_rows_fst: "fst (upd_rows p f rs) = map (\<lambda>r. if p r then f r else r) rs"
  by (simp add: upd_rows_def)

text \<open>Updating the users: ids stay, and each row keeps its place in the invariant.\<close>

lemma db_ok_users_update:
  assumes ok: "db_ok t"
    and f: "\<And>u. u \<in> set (t_users t) \<Longrightarrow> us_id (f u) = us_id u \<and> 0 \<le> us_quota_bytes (f u)
      \<and> us_quota_bytes (f u) \<le> SAFE_INTEGER \<and> us_epoch u \<le> us_epoch (f u)
      \<and> us_epoch (f u) \<le> SAFE_INTEGER"
    and same: "\<And>u. u \<in> set (t_users t) \<Longrightarrow> us_epoch (f u) = us_epoch u \<Longrightarrow>
      us_not_before (f u) = us_not_before u \<and> granted t (us_id u) (us_epoch u) \<le> user_cap (f u)"
    and later: "\<And>u l. u \<in> set (t_users t) \<Longrightarrow> us_epoch u < us_epoch (f u) \<Longrightarrow> l \<in> set (t_leases t)
      \<Longrightarrow> ls_user l = us_id u \<Longrightarrow> ls_expires_at l \<le> us_not_before (f u)"
  shows "db_ok (t\<lparr>t_users := map f (t_users t)\<rparr>)"
proof -
  let ?t = "t\<lparr>t_users := map f (t_users t)\<rparr>"
  have ids: "map (us_id \<circ> f) (t_users t) = map us_id (t_users t)" using f by auto
  have img: "us_id ` f ` set (t_users t) = us_id ` set (t_users t)"
    using arg_cong [OF ids, of set] by (simp add: image_image)
  have granted: "granted ?t user e = granted t user e" for user e
    by (simp add: granted_def epoch_leases_def)
  have le: "ls_epoch l \<le> us_epoch u" if "u \<in> set (t_users t)" "l \<in> set (t_leases t)" "ls_user l = us_id u"
    for u l using ok that by (auto simp: db_ok_def epochs_ok_def)
  have "users_ok ?t"
    using ok f unfolding db_ok_def users_ok_def by (auto simp: ids intro: order_trans)
  moreover have "leases_ok ?t"
    using ok img by (simp add: db_ok_def leases_ok_def)
  moreover have "epochs_ok ?t"
    unfolding epochs_ok_def
  proof (clarsimp)
    fix u l assume u: "u \<in> set (t_users t)" and l: "l \<in> set (t_leases t)" "ls_user l = us_id (f u)"
    have user: "ls_user l = us_id u" using f u l by simp
    show "ls_epoch l \<le> us_epoch (f u)
        \<and> (ls_epoch l < us_epoch (f u) \<longrightarrow> ls_expires_at l \<le> us_not_before (f u))"
    proof (cases "us_epoch (f u) = us_epoch u")
      case True
      then show ?thesis using ok u l(1) user same [OF u True] by (simp add: db_ok_def epochs_ok_def)
    next
      case False
      then have "us_epoch u < us_epoch (f u)" using f [OF u] by simp
      then show ?thesis using le [OF u l(1) user] later [OF u _ l(1) user] by simp
    qed
  qed
  moreover have "budget_ok ?t"
    unfolding budget_ok_def granted
  proof (clarsimp)
    fix u assume u: "u \<in> set (t_users t)"
    show "granted t (us_id (f u)) (us_epoch (f u)) \<le> user_cap (f u)"
    proof (cases "us_epoch (f u) = us_epoch u")
      case True
      then show ?thesis using same [OF u True] f [OF u] by simp
    next
      case False
      then have "us_epoch u < us_epoch (f u)" using f [OF u] by simp
      then have "granted t (us_id u) (us_epoch (f u)) = 0"
        using le [OF u] by (intro granted_none) fastforce
      then show ?thesis using f [OF u] by (simp add: user_cap_def SAFE_INTEGER_def)
    qed
  qed
  ultimately show ?thesis using ok by (simp add: db_ok_def devices_ok_def)
qed

lemma db_ok_devices:
  "db_ok t \<Longrightarrow> devices_ok (t\<lparr>t_devices := ds\<rparr>) \<Longrightarrow> db_ok (t\<lparr>t_devices := ds\<rparr>)"
  by (simp add: db_ok_defs granted_def epoch_leases_def)

lemma db_ok_user_append:
  assumes ok: "db_ok t" and new: "us_id u \<notin> us_id ` set (t_users t)" "0 \<le> us_quota_bytes u"
      "us_quota_bytes u \<le> SAFE_INTEGER" "1 \<le> us_epoch u" "us_epoch u \<le> SAFE_INTEGER"
  shows "db_ok (t\<lparr>t_users := t_users t @ [u]\<rparr>)"
proof -
  let ?t = "t\<lparr>t_users := t_users t @ [u]\<rparr>"
  have none: "ls_user l \<noteq> us_id u" if "l \<in> set (t_leases t)" for l
    using ok new(1) that unfolding db_ok_def leases_ok_def by metis
  have granted: "granted ?t user e = granted t user e" for user e
    by (simp add: granted_def epoch_leases_def)
  have "granted t (us_id u) (us_epoch u) = 0" using none by (intro granted_none) auto
  then have "granted t (us_id u) (us_epoch u) \<le> user_cap u"
    using new by (simp add: user_cap_def SAFE_INTEGER_def)
  then show ?thesis
    using ok new none unfolding db_ok_defs granted by auto
qed

lemma user_upsert_ok:
  assumes ok: "db_ok t" and run: "user_upsert id' body now t = Inr (t', n)"
    and quota: "body_int body ''quota_bytes'' 0 \<le> SAFE_INTEGER"
    and change: "\<And>u. u \<in> set (t_users t) \<Longrightarrow> us_id u = id' \<Longrightarrow> body_int body ''quota_bytes'' 0 \<noteq> 0 \<Longrightarrow>
      granted t id' (us_epoch u) \<le> body_int body ''quota_bytes'' 0"
  shows "db_ok t'"
proof -
  let ?f = "user_fields body now"
  have pos: "0 \<le> body_int body ''quota_bytes'' 0"
    using run by (auto simp: user_upsert_def user_fields_def user_new_def Let_def split: if_splits)
  have t': "t' = t\<lparr>t_users := upsert (\<lambda>u. us_id u = id') ?f (?f (user_new id' now)) (t_users t)\<rparr>"
    using run by (auto simp: user_upsert_def Let_def split: if_splits)
  show ?thesis
  proof (cases "list_ex (\<lambda>u. us_id u = id') (t_users t)")
    case True
    have "db_ok (t\<lparr>t_users := map (\<lambda>u. if us_id u = id' then ?f u else u) (t_users t)\<rparr>)"
    proof (rule db_ok_users_update [OF ok])
      fix u assume u: "u \<in> set (t_users t)"
      have le: "granted t (us_id u) (us_epoch u) \<le> user_cap u" "0 \<le> us_quota_bytes u"
        "us_quota_bytes u \<le> SAFE_INTEGER"
        using ok u by (auto simp: db_ok_defs)
      then have "granted t (us_id u) (us_epoch u) \<le> SAFE_INTEGER"
        by (auto simp: user_cap_def split: if_splits)
      then show "us_not_before (if us_id u = id' then ?f u else u) = us_not_before u
          \<and> granted t (us_id u) (us_epoch u) \<le> user_cap (if us_id u = id' then ?f u else u)"
        using change [OF u] le by (auto simp: user_cap_def user_fields_def)
    qed (use ok pos quota in \<open>auto simp: user_fields_def db_ok_defs split: if_splits\<close>)
    then show ?thesis using True by (simp add: t' upsert_def)
  next
    case False
    have "db_ok (t\<lparr>t_users := t_users t @ [?f (user_new id' now)]\<rparr>)"
      using False pos quota
      by (intro db_ok_user_append [OF ok])
        (auto simp: user_fields_def user_new_def list_ex_iff SAFE_INTEGER_def)
    then show ?thesis using False by (simp add: t' upsert_def)
  qed
qed

lemma last_lease_expiry_ge:
  assumes "l \<in> set (t_leases t)" "ls_user l = user"
  shows "ls_expires_at l \<le> last_lease_expiry t user"
proof -
  have foldl: "e \<le> foldl max a es \<and> (\<forall>x\<in>set es. x \<le> foldl max a es)" if "e \<le> a"
    for a e :: int and es
    using that
  proof (induction es arbitrary: a e)
    case (Cons x es)
    have "x \<le> max a x" "e \<le> max a x" using Cons.prems by auto
    then show ?case using Cons.IH [of x "max a x"] Cons.IH [of e "max a x"] by auto
  qed simp
  have max: "x \<le> (case xs of [] \<Rightarrow> 0 | e # es \<Rightarrow> foldl max e es)" if "x \<in> set xs" for x :: int and xs
    using that foldl by (cases xs) auto
  show ?thesis unfolding last_lease_expiry_def by (rule max) (use assms in auto)
qed

lemma user_next_epoch_ok:
  assumes "db_ok t" "user_next_epoch id' now t = Inr (t', n)"
  shows "db_ok t'"
proof -
  let ?p = "\<lambda>u. live_user id' u \<and> us_epoch u < SAFE_INTEGER"
  let ?f = "\<lambda>u. u\<lparr>us_epoch := us_epoch u + 1,
     us_not_before := max (now + LEASE_SECONDS) (last_lease_expiry t (us_id u)), us_updated_at := now\<rparr>"
  have "db_ok (t\<lparr>t_users := map (\<lambda>u. if ?p u then ?f u else u) (t_users t)\<rparr>)"
  proof (rule db_ok_users_update [OF assms(1)])
    fix u l
    assume "us_epoch u < us_epoch (if ?p u then ?f u else u)" and l: "l \<in> set (t_leases t)" "ls_user l = us_id u"
    then have "?p u" by (auto split: if_splits)
    then show "ls_expires_at l \<le> us_not_before (if ?p u then ?f u else u)"
      using last_lease_expiry_ge [OF l] by simp
  qed (use assms(1) in \<open>auto simp: db_ok_defs split: if_splits\<close>)
  then show ?thesis
    using assms(2) by (auto simp: user_next_epoch_def upd_rows_def Let_def)
qed

lemma user_delete_ok:
  assumes "db_ok t" "user_delete id' now t = Inr (t', n)"
  shows "db_ok t'"
proof -
  let ?f = "\<lambda>u. if live_user id' u then u\<lparr>us_enabled := False, us_deleted := True, us_claim_hash := None,
      us_updated_at := now\<rparr> else u"
  have "db_ok (t\<lparr>t_users := map ?f (t_users t)\<rparr>)"
    by (rule db_ok_users_update [OF assms(1)])
      (use assms(1) in \<open>auto simp: db_ok_defs user_cap_def split: if_splits\<close>)
  then show ?thesis using assms(2) by (auto simp: user_delete_def upd_rows_def Let_def)
qed

lemma claim_update_ok:
  assumes "db_ok t" "claim_update id' hash now t = Inr (t', n)"
  shows "db_ok t'"
proof -
  let ?f = "\<lambda>u. if live_user id' u then u\<lparr>us_claim_hash := Some hash, us_updated_at := now\<rparr> else u"
  have "db_ok (t\<lparr>t_users := map ?f (t_users t)\<rparr>)"
    by (rule db_ok_users_update [OF assms(1)])
      (use assms(1) in \<open>auto simp: db_ok_defs user_cap_def split: if_splits\<close>)
  then show ?thesis
    using assms(2) by (auto simp: claim_update_def upd_rows_def Let_def split: if_splits)
qed

subsection \<open>Leases\<close>

lemma granted_sum:
  "granted t user e =
     sum_list (map (\<lambda>l. if ls_user l = user \<and> ls_epoch l = e then ls_grant_bytes l else 0) (t_leases t))"
  unfolding granted_def epoch_leases_def by (rule sum_list_map_filter')

lemma same_slot_iff: "same_slot l k \<longleftrightarrow> lease_slot_of l = lease_slot_of k"
  by (auto simp: same_slot_def lease_slot_of_def)

lemma sum_list_update:
  fixes h :: "'a \<Rightarrow> int"
  assumes "distinct (map g xs)" "x \<in> set xs"
  shows "sum_list (map h (map (\<lambda>y. if g x = g y then f y else y) xs))
    = sum_list (map h xs) + (h (f x) - h x)"
  using assms
proof (induction xs)
  case (Cons y xs)
  show ?case
  proof (cases "x = y")
    case True
    then have "map (\<lambda>y. if g x = g y then f y else y) xs = xs"
      using Cons.prems(1) by (intro map_idI) (auto simp: image_iff)
    then show ?thesis using True by simp
  next
    case False
    then have "x \<in> set xs" "g x \<noteq> g y" using Cons.prems by (auto simp: image_iff)
    then show ?thesis using Cons by simp
  qed
qed simp

lemma db_ok_leases_update:
  assumes ok: "db_ok t"
    and f: "\<And>l. l \<in> set (t_leases t) \<Longrightarrow> ls_id (f l) = ls_id l \<and> lease_slot_of (f l) = lease_slot_of l
      \<and> 0 \<le> ls_used_bytes (f l) \<and> ls_used_bytes (f l) \<le> ls_grant_bytes (f l)"
    and old: "\<And>u l. u \<in> set (t_users t) \<Longrightarrow> l \<in> set (t_leases t) \<Longrightarrow> ls_user l = us_id u \<Longrightarrow>
      ls_epoch l < us_epoch u \<Longrightarrow> ls_expires_at (f l) = ls_expires_at l"
    and budget: "budget_ok (t\<lparr>t_leases := map f (t_leases t)\<rparr>)"
  shows "db_ok (t\<lparr>t_leases := map f (t_leases t)\<rparr>)"
proof -
  have slot: "ls_user (f l) = ls_user l" "ls_epoch (f l) = ls_epoch l" if "l \<in> set (t_leases t)" for l
    using f [OF that] by (auto simp: lease_slot_of_def)
  have ids: "map (ls_id \<circ> f) (t_leases t) = map ls_id (t_leases t)"
    "map (lease_slot_of \<circ> f) (t_leases t) = map lease_slot_of (t_leases t)"
    using f by auto
  have "leases_ok (t\<lparr>t_leases := map f (t_leases t)\<rparr>)"
    using ok f slot by (auto simp: db_ok_def leases_ok_def ids)
  moreover have "epochs_ok (t\<lparr>t_leases := map f (t_leases t)\<rparr>)"
    using ok slot old by (auto simp: db_ok_def epochs_ok_def)
  ultimately show ?thesis using ok budget by (auto simp: db_ok_def users_ok_def devices_ok_def)
qed

lemma lease_usage_ok:
  assumes "db_ok t" "lease_usage id' used now t = Inr (t', n)"
  shows "db_ok t'"
proof -
  let ?f = "\<lambda>l. if ls_id l = id' then l\<lparr>ls_used_bytes := used, ls_updated_at := now\<rparr> else l"
  have t': "t' = t\<lparr>t_leases := map ?f (t_leases t)\<rparr>"
    and used: "\<And>l. l \<in> set (t_leases t) \<Longrightarrow> ls_id l = id' \<Longrightarrow> 0 \<le> used \<and> used \<le> ls_grant_bytes l"
    using assms(2)
    by (auto simp: lease_usage_def upd_rows_def Let_def list_ex_iff split: if_splits)
  have "granted (t\<lparr>t_leases := map ?f (t_leases t)\<rparr>) user e = granted t user e" for user e
    unfolding granted_sum by (auto simp: comp_def intro!: arg_cong [of _ _ sum_list])
  then have "budget_ok (t\<lparr>t_leases := map ?f (t_leases t)\<rparr>)"
    using assms(1) by (simp add: db_ok_def budget_ok_def)
  then show ?thesis
    unfolding t' using assms(1) used
    by (intro db_ok_leases_update) (auto simp: db_ok_defs lease_slot_of_def)
qed

text \<open>The grant a slot has so far.\<close>

definition slot_grant :: "proxy_db \<Rightarrow> lease_row \<Rightarrow> int" where
  "slot_grant t new = (case find (same_slot new) (t_leases t) of None \<Rightarrow> 0 | Some l \<Rightarrow> ls_grant_bytes l)"

lemma lease_upsert_cases:
  assumes "lease_upsert new t = Inr (t', n)"
  obtains (renew) l where "l \<in> set (t_leases t)" "same_slot new l" "find (same_slot new) (t_leases t) = Some l"
      "ls_used_bytes l \<le> ls_grant_bytes new" "0 \<le> ls_grant_bytes new"
      "t' = t\<lparr>t_leases := map (\<lambda>l. if same_slot new l then l\<lparr>ls_grant_bytes := ls_grant_bytes new,
         ls_expires_at := ls_expires_at new, ls_updated_at := ls_updated_at new\<rparr> else l) (t_leases t)\<rparr>"
  | (fresh) "\<not> list_ex (same_slot new) (t_leases t)" "find (same_slot new) (t_leases t) = None"
      "\<not> list_ex (\<lambda>l. ls_id l = ls_id new) (t_leases t)" "list_ex (\<lambda>u. us_id u = ls_user new) (t_users t)"
      "0 \<le> ls_used_bytes new" "ls_used_bytes new \<le> ls_grant_bytes new"
      "t' = t\<lparr>t_leases := t_leases t @ [new]\<rparr>"
proof (cases "list_ex (same_slot new) (t_leases t)")
  case True
  then obtain l where "find (same_slot new) (t_leases t) = Some l"
    by (cases "find (same_slot new) (t_leases t)") (auto simp: list_ex_iff find_None_iff)
  moreover from this have "l \<in> set (t_leases t)" "same_slot new l"
    by (auto simp: find_Some_iff)
  ultimately show ?thesis
    using assms True renew
    by (auto simp: lease_upsert_def upsert_def list_ex_iff not_less split: if_splits)
next
  case False
  moreover from this have "find (same_slot new) (t_leases t) = None"
    by (simp add: find_None_iff list_ex_iff)
  ultimately show ?thesis
    using assms fresh by (auto simp: lease_upsert_def upsert_def split: if_splits)
qed

text \<open>The row of the slot afterwards.\<close>

lemma lease_upsert_row:
  assumes "lease_upsert new t = Inr (t', n)"
  shows "\<exists>k\<in>set (t_leases t'). same_slot new k \<and> ls_grant_bytes k = ls_grant_bytes new
    \<and> ls_expires_at k = ls_expires_at new
    \<and> (case find (same_slot new) (t_leases t) of None \<Rightarrow> k = new | Some r \<Rightarrow> ls_id k = ls_id r \<and> ls_used_bytes k = ls_used_bytes r)"
  using assms
proof (cases rule: lease_upsert_cases)
  case (renew l)
  let ?k = "l\<lparr>ls_grant_bytes := ls_grant_bytes new, ls_expires_at := ls_expires_at new, ls_updated_at := ls_updated_at new\<rparr>"
  have "?k \<in> set (t_leases t')" using renew(1,2,6) by (auto simp: image_iff)
  moreover have "same_slot new ?k" using renew(2) by (simp add: same_slot_def)
  ultimately show ?thesis using renew(3) by (intro bexI [of _ ?k]) simp_all
next
  case fresh
  then show ?thesis by (intro bexI [of _ new]) (simp_all add: same_slot_def)
qed

lemma granted_upsert:
  assumes "leases_ok t" "lease_upsert new t = Inr (t', n)"
  shows "granted t' user e =
    granted t user e + (if user = ls_user new \<and> e = ls_epoch new then ls_grant_bytes new - slot_grant t new else 0)"
  using assms(2)
proof (cases rule: lease_upsert_cases)
  case (renew l)
  have eq: "same_slot new = (\<lambda>k. lease_slot_of l = lease_slot_of k)"
    "ls_user l = ls_user new" "ls_epoch l = ls_epoch new"
    using renew(2) by (auto simp: same_slot_iff lease_slot_of_def)
  show ?thesis
    using sum_list_update [of lease_slot_of "t_leases t" l
        "\<lambda>l. if ls_user l = user \<and> ls_epoch l = e then ls_grant_bytes l else 0"
        "\<lambda>l. l\<lparr>ls_grant_bytes := ls_grant_bytes new, ls_expires_at := ls_expires_at new,
          ls_updated_at := ls_updated_at new\<rparr>"] assms(1) renew(1,3)
    unfolding renew(6) by (simp add: granted_sum slot_grant_def leases_ok_def eq)
next
  case fresh
  then show ?thesis by (auto simp: granted_sum slot_grant_def)
qed

lemma lease_upsert_ok:
  assumes ok: "db_ok t" and run: "lease_upsert new t = Inr (t', n)"
    and u: "u \<in> set (t_users t)" "us_id u = ls_user new" "us_epoch u = ls_epoch new"
    and grant: "granted t (us_id u) (us_epoch u) + (ls_grant_bytes new - slot_grant t new) \<le> user_cap u"
  shows "db_ok t'"
proof -
  have lok: "leases_ok t" using ok by (simp add: db_ok_def)
  have same: "t_users t' = t_users t" using run by (cases rule: lease_upsert_cases) simp_all
  have unique: "v = u" if "v \<in> set (t_users t)" "us_id v = us_id u" for v
    using users_ok_unique [of t v u] ok u that by (simp add: db_ok_def)
  have budget: "budget_ok t'"
    unfolding budget_ok_def same
  proof
    fix v assume v: "v \<in> set (t_users t)"
    show "granted t' (us_id v) (us_epoch v) \<le> user_cap v"
    proof (cases "us_id v = us_id u")
      case True
      then show ?thesis using unique [OF v True] grant u by (simp add: granted_upsert [OF lok run])
    next
      case False
      then have "granted t' (us_id v) (us_epoch v) = granted t (us_id v) (us_epoch v)"
        using u by (simp add: granted_upsert [OF lok run])
      then show ?thesis using ok v by (simp add: db_ok_def budget_ok_def)
    qed
  qed
  show ?thesis using run
  proof (cases rule: lease_upsert_cases)
    case (renew l)
    let ?f = "\<lambda>l. if same_slot new l then l\<lparr>ls_grant_bytes := ls_grant_bytes new,
         ls_expires_at := ls_expires_at new, ls_updated_at := ls_updated_at new\<rparr> else l"
    have one: "k = l" if "k \<in> set (t_leases t)" "same_slot new k" for k
    proof (rule inj_onD)
      show "inj_on lease_slot_of (set (t_leases t))" using lok by (simp add: leases_ok_def distinct_map)
      show "lease_slot_of k = lease_slot_of l" using renew(2) that(2) by (simp add: same_slot_iff)
    qed (use renew(1) that(1) in auto)
    have old: "\<not> same_slot new k" if "v \<in> set (t_users t)" "ls_user k = us_id v" "ls_epoch k < us_epoch v"
      for v :: user_row and k :: lease_row
    proof
      assume same: "same_slot new k"
      then have "us_id v = us_id u" using that(2) u(2) by (simp add: same_slot_def)
      then have "v = u" by (rule unique [OF that(1)])
      then show False using same that(3) u(3) by (simp add: same_slot_def)
    qed
    show ?thesis unfolding renew(6)
    proof (rule db_ok_leases_update [OF ok])
      fix v :: user_row and k :: lease_row assume "v \<in> set (t_users t)" "ls_user k = us_id v" "ls_epoch k < us_epoch v"
      then show "ls_expires_at (?f k) = ls_expires_at k" using old by simp
    next
      fix k assume k: "k \<in> set (t_leases t)"
      then have "0 \<le> ls_used_bytes k" "ls_used_bytes k \<le> ls_grant_bytes k"
        using lok by (auto simp: leases_ok_def)
      then show "ls_id (?f k) = ls_id k \<and> lease_slot_of (?f k) = lease_slot_of k
          \<and> 0 \<le> ls_used_bytes (?f k) \<and> ls_used_bytes (?f k) \<le> ls_grant_bytes (?f k)"
        using one [OF k] renew(4) by (auto simp: lease_slot_of_def)
    next
      show "budget_ok (t\<lparr>t_leases := map ?f (t_leases t)\<rparr>)" using budget renew(6) by simp
    qed
  next
    case fresh
    have "ls_id new \<notin> ls_id ` set (t_leases t)" "lease_slot_of new \<notin> lease_slot_of ` set (t_leases t)"
      using fresh(1,3) by (auto simp: same_slot_iff list_ex_iff)
    moreover have "ls_user new \<in> us_id ` set (t_users t)"
      using fresh(4) by (force simp: list_ex_iff)
    ultimately have "leases_ok t'"
      using lok fresh(5,6) unfolding fresh(7) by (simp add: leases_ok_def)
    moreover have "epochs_ok t'"
    proof -
      have "ls_epoch new = us_epoch v" if "v \<in> set (t_users t)" "ls_user new = us_id v" for v
        using unique [OF that(1)] that u by simp
      then show ?thesis using ok unfolding fresh(7) by (simp add: db_ok_def epochs_ok_def)
    qed
    ultimately show ?thesis using ok budget same fresh(7) by (simp add: db_ok_def users_ok_def devices_ok_def)
  qed
qed

lemma grant_after_bounds:
  assumes "1 \<le> hosts" "allocated \<le> (if quota \<noteq> 0 then quota else SAFE_INTEGER)"
  shows "grant \<le> grant_after quota allocated hosts grant used
    \<and> allocated + (grant_after quota allocated hosts grant used - grant)
        \<le> (if quota \<noteq> 0 then quota else SAFE_INTEGER)"
proof -
  define available where "available = (if quota \<noteq> 0 then quota else SAFE_INTEGER) - allocated"
  define share where "share = available div hosts + (if available mod hosts \<noteq> 0 then 1 else 0)"
  have share: "0 \<le> share" "share \<le> available" if "0 < available"
  proof -
    define q r where "q = available div hosts" and "r = available mod hosts"
    have eq: "available = hosts * q + r" by (simp add: q_def r_def)
    have mod: "0 \<le> r" and div: "0 \<le> q"
      using assms(1) that by (simp_all add: q_def r_def pos_imp_zdiv_nonneg_iff)
    have le: "q \<le> hosts * q"
      using assms(1) div by (simp add: mult_le_cancel_right1)
    have s: "share = q + (if r \<noteq> 0 then 1 else 0)" by (simp add: share_def q_def r_def)
    show "0 \<le> share" using div by (simp add: s)
    show "share \<le> available" using eq mod le by (auto simp: s)
  qed
  show ?thesis
    using assms(2) share
    unfolding grant_after_def Let_def available_def [symmetric] share_def [symmetric]
    by (auto simp: GRANT_CHUNK_def available_def split: if_splits)
qed

subsection \<open>Members of a built object\<close>

text \<open>An object with sorted members, whatever its values are.\<close>

definition sorted_obj :: "sbj \<Rightarrow> bool" where
  "sorted_obj u \<longleftrightarrow> (case u of SBJ_OBJECT kvs \<Rightarrow> sorted_keys kvs | _ \<Rightarrow> False)"

lemma sorted_obj_simps [simp]:
  "sorted_obj sbj_object"
  "sorted_obj u \<Longrightarrow> sorted_obj (jset u k v)"
  by (auto simp: sorted_obj_def sbj_object_def sbj_set_def sbj_setn_def obj_setn_sorted
      split: sbj.splits)

lemma jget_sorted_obj [simp]:
  "sorted_obj u \<Longrightarrow> jget (Some (jset u k v)) l = (if l = k then Some v else jget (Some u) l)"
  by (auto simp: sorted_obj_def sbj_set_def sbj_setn_def sbj_get_def sbj_getn_def or_null_def
      obj_getn_map_of obj_setn_sorted map_of_obj_setn split: sbj.splits)

lemmas jset_values = sbj_set_int_def sbj_set_bool_def sbj_set_str_def sbj_int_def sbj_bool_def
  sbj_str_def sbj_strn_def

subsection \<open>What the parts of an operation read\<close>

lemma foldl_arr_push:
  "foldl (\<lambda>a r. sbj_arr_push a (Some (h r))) (SBJ_ARRAY xs) rs = SBJ_ARRAY (xs @ map h rs)"
  by (induction rs arbitrary: xs) (simp_all add: or_null_def)

lemma works_devices_locked:
  "works P (devices_locked user policy now)
    (\<lambda>v t. P t \<and> v = SBJ_ARRAY (map (device_json policy) (devices_query user policy now t)))"
  unfolding devices_locked_def
  by (rule works_post [OF works_collect]) (simp add: sbj_array_def foldl_arr_push)

lemma first_Some: "(case xs of [] \<Rightarrow> None | r # _ \<Rightarrow> Some r) = Some x \<Longrightarrow> x \<in> set xs"
  by (cases xs) auto

text \<open>What the callers use of the description of a user.\<close>

definition describes :: "sbj \<Rightarrow> proxy_db \<Rightarrow> user_row \<Rightarrow> bool" where
  "describes v t u \<longleftrightarrow>
     body_int (Some v) ''allocated_bytes'' 0 = granted t (us_id u) (us_epoch u)
     \<and> body_int (Some v) ''epoch'' 0 = us_epoch u
     \<and> jget (Some v) ''devices'' =
         Some (SBJ_ARRAY (map (device_json False) (devices_query (us_id u) False 0 t)))"

lemma describes_user_json:
  "describes (jset (jset (user_json u (granted t (us_id u) (us_epoch u)) used wait_ms) ''host_ids'' hosts)
      ''devices'' (SBJ_ARRAY (map (device_json False) (devices_query (us_id u) False 0 t)))) t u"
  by (simp add: describes_def user_json_def Let_def sbj_get_int_def jset_values del: jget_jset)

lemma works_user_locked:
  "works P (user_locked id')
    (\<lambda>v t. P t \<and> (\<exists>u. u \<in> set (t_users t) \<and> live_user id' u \<and> describes v t u))"
  unfolding user_locked_def
proof (rule works_dbind [OF works_first])
  fix row
  show "works (\<lambda>t. P t \<and> row = (case user_query id' t of [] \<Rightarrow> None | r # _ \<Rightarrow> Some r))
      (case row of None \<Rightarrow> dfail SB_ERR_NOT_FOUND ''Proxy user not found''
       | Some (u, allocated, used) \<Rightarrow>
           dbind (sb_proxy_clock_wait_ms id' (us_epoch u)) (\<lambda>wait_ms.
           dbind (sql_each (nodes_query id')
                   (\<lambda>host out. dret (sbj_arr_push out (Some (sbj_str (Some host))))) sbj_array) (\<lambda>hosts.
           dbind (devices_locked id' False 0) (\<lambda>devices.
             dret (jset (jset (user_json u allocated used wait_ms) ''host_ids'' hosts)
                     ''devices'' devices)))))
      (\<lambda>v t. P t \<and> (\<exists>u. u \<in> set (t_users t) \<and> live_user id' u \<and> describes v t u))"
  proof (cases row)
    case (Some r)
    obtain u allocated used where r: "r = (u, allocated, used)" by (cases r) auto
    have found: "u \<in> set (t_users t) \<and> live_user id' u \<and> allocated = granted t (us_id u) (us_epoch u)"
      if "row = (case user_query id' t of [] \<Rightarrow> None | r # _ \<Rightarrow> Some r)" for t
      using first_Some [OF that [symmetric, unfolded Some]] r by (auto simp: user_query_def)
    show ?thesis
      unfolding Some r option.case prod.case
      by (rule works_dbind [OF works_readonly [OF readonly_library(1)]],
          rule works_dbind [OF works_collect], rule works_dbind [OF works_devices_locked],
          rule works_dret)
        (use found describes_user_json in \<open>force simp: Some r live_user_def\<close>)
  qed (simp add: works_dfail)
qed

lemma device_json_flags:
  "sbj_get_bool (Some (device_json False d)) (Some ''enabled'') False = dv_enabled d"
  "body_int (Some (device_json False d)) ''expires_at'' 0 = dv_expires_at d"
  by (simp_all add: device_json_def Let_def sbj_get_int_def sbj_get_bool_def jset_values del: jget_jset)

lemma length_filter_sort: "length (filter p (sort_key f xs)) = length (filter p xs)"
  by (simp add: filter_sort)

lemma active_devices_count:
  assumes "describes v t u"
  shows "active_devices v now = int (device_count now (us_id u) t)"
proof -
  have "filter (\<lambda>d. device_active now d) (filter (\<lambda>d. dv_user d = us_id u) (t_devices t))
      = filter (\<lambda>d. dv_user d = us_id u \<and> device_active now d) (t_devices t)"
    by (auto intro: filter_cong)
  then show ?thesis
    using assms length_filter_sort
      [of "\<lambda>d. device_active now d" "\<lambda>d. (dv_created_at d, dv_id d)"
        "filter (\<lambda>d. dv_user d = us_id u) (t_devices t)"]
    by (simp add: active_devices_def describes_def devices_query_def device_count_def filter_map
        comp_def device_json_flags device_active_def unexpired_def)
qed

text \<open>A change that \<open>sb_proxy_user_save\<close> lets through keeps the quota above what was granted, and
  the device limit above the active devices.\<close>

definition change_allowed :: "string \<Rightarrow> sbj option \<Rightarrow> int \<Rightarrow> proxy_db \<Rightarrow> bool" where
  "change_allowed id' body now t \<longleftrightarrow>
     (\<exists>u\<in>set (t_users t). live_user id' u
       \<and> (body_int body ''quota_bytes'' 0 \<noteq> 0 \<longrightarrow>
            granted t id' (us_epoch u) \<le> body_int body ''quota_bytes'' 0)
       \<and> int (device_count now id' t) \<le> body_int body ''max_devices'' 1)"

lemma works_user_change_ok:
  "works P (user_change_ok id' body now) (\<lambda>_ t. P t \<and> change_allowed id' body now t)"
  unfolding user_change_ok_def Let_def
  by (rule works_dbind [OF works_user_locked], rule works_if, rule works_dfail, rule works_dret)
    (auto simp: change_allowed_def describes_def active_devices_count live_user_def not_less
      dest!: active_devices_count [where now = now])

subsection \<open>What the operations do to the tables\<close>

lemma works_user_save_body:
  "works (\<lambda>t. t = t0) (user_save_body generated id' body now)
    (\<lambda>_ t. \<exists>t1 n ns. (generated \<or> change_allowed id' body now t0)
       \<and> user_upsert id' body now t0 = Inr (t1, n) \<and> t = t1\<lparr>t_user_nodes := ns\<rparr>)"
proof -
  define J where "J t \<longleftrightarrow> (\<exists>t1 n ns. (generated \<or> change_allowed id' body now t0)
       \<and> user_upsert id' body now t0 = Inr (t1, n) \<and> t = t1\<lparr>t_user_nodes := ns\<rparr>)" for t
  have check: "works (\<lambda>t. t = t0) (if \<not> generated then user_change_ok id' body now else user_room)
      (\<lambda>_ t. t = t0 \<and> (generated \<or> change_allowed id' body now t0))"
    by (rule works_if, rule works_post [OF works_user_change_ok], blast,
        rule works_post [OF works_readonly [OF readonly_checks(2)]], blast)
  have upsert: "works (\<lambda>t. t = t0 \<and> (generated \<or> change_allowed id' body now t0))
      (sql_run (user_upsert id' body now)) (\<lambda>_. J)"
    by (rule works_post [OF works_run]) (metis J_def proxy_db.surjective proxy_db.update_convs(6))
  have nodes: "works J (sql_run (user_nodes_delete id')) (\<lambda>_. J)"
    by (rule works_post [OF works_run]) (fastforce simp: user_nodes_delete_def J_def)
  have node: "works J (dbind (sql_run (user_node_insert id' h)) (\<lambda>_. dret ())) (\<lambda>_. J)" for h
    by (rule works_dbind [OF works_run], rule works_dret)
      (fastforce simp: user_node_insert_def J_def split: if_splits)
  have "works (\<lambda>t. t = t0) (user_save_body generated id' body now) (\<lambda>_. J)"
    unfolding user_save_body_def Let_def
    by (rule works_dbind [OF check],
        rule works_dbind [OF works_readonly [OF reading.for_each [OF readonly_checks(3)]]],
        rule works_dbind [OF upsert], rule works_dbind [OF nodes],
        rule works_dbind [OF works_dfor [OF node]], rule works_readonly [OF readonly_user_locked])
  then show ?thesis unfolding J_def .
qed

lemma works_user_remove_body:
  "works (\<lambda>t. t = t0)
    (dbind (sql_run (user_delete id' now)) (\<lambda>changes.
       if changes \<noteq> 1 then dfail SB_ERR_NOT_FOUND ''Proxy user not found''
       else dbind (sql_run (devices_disable id')) (\<lambda>_. dret ())))
    (\<lambda>_ t. \<exists>t1 n. user_delete id' now t0 = Inr (t1, 1) \<and> devices_disable id' t1 = Inr (t, n))"
  by (rule works_dbind [OF works_run], rule works_if, rule works_dfail, rule works_dbind [OF works_run],
      rule works_dret) auto

lemma works_user_reset_body:
  "works (\<lambda>t. t = t0)
    (dbind (sql_run (user_next_epoch id' now)) (\<lambda>changes.
       if changes \<noteq> 1 then dfail SB_ERR_NOT_FOUND ''Proxy user not found''
       else
         dbind (user_locked id') (\<lambda>out.
         dbind (sb_proxy_clock_reset_epoch id' (body_int (Some out) ''epoch'' 0)) (\<lambda>_.
           dret (jset_int out ''lease_wait_seconds'' LEASE_SECONDS)))))
    (\<lambda>_ t. user_next_epoch id' now t0 = Inr (t, 1))"
  by (rule works_dbind [OF works_run], rule works_if, rule works_dfail,
      rule works_dbind [OF works_readonly [OF readonly_user_locked]],
      rule works_dbind [OF works_readonly [OF readonly_library(2)]], rule works_dret) auto

text \<open>There is room for one more device of a usable user.\<close>

definition device_allowed :: "string \<Rightarrow> int \<Rightarrow> proxy_db \<Rightarrow> bool" where
  "device_allowed user now t \<longleftrightarrow> (\<exists>u\<in>set (t_users t). us_id u = user \<and> usable_user now u
     \<and> int (device_count now user t) < us_max_devices u)"

lemma works_device_create_body:
  "works (\<lambda>t. t = t0) (device_create_body d now)
    (\<lambda>_ t. device_allowed (dv_user d) now t0 \<and> (\<exists>n. device_insert d t0 = Inr (t, n)))"
  unfolding device_create_body_def
proof (rule works_dbind [OF works_first])
  fix row
  show "works (\<lambda>t. t = t0 \<and> row = (case device_room (dv_user d) now t of [] \<Rightarrow> None | r # _ \<Rightarrow> Some r))
      (case row of None \<Rightarrow> dfail SB_ERR_FORBIDDEN ''Proxy user is disabled or expired''
       | Some (limit, active) \<Rightarrow>
           if active < limit then dbind (sql_run (device_insert d)) (\<lambda>_. dret ())
           else dfail SB_ERR_CONFLICT ''Proxy device limit reached'')
      (\<lambda>_ t. device_allowed (dv_user d) now t0 \<and> (\<exists>n. device_insert d t0 = Inr (t, n)))"
  proof (cases row)
    case (Some r)
    obtain limit active where r: "r = (limit, active)" by (cases r)
    have room: "device_allowed (dv_user d) now t0"
      if "active < limit" "row = (case device_room (dv_user d) now t0 of [] \<Rightarrow> None | r # _ \<Rightarrow> Some r)"
      using first_Some [OF that(2) [symmetric, unfolded Some]] that(1) r
      by (auto simp: device_room_def device_allowed_def)
    show ?thesis
      unfolding Some r option.case prod.case
      by (rule works_if, rule works_dbind [OF works_run], rule works_dret)
        (use room in \<open>auto simp: Some r intro: works_dfail\<close>)
  qed (simp add: works_dfail)
qed

lemma first_None: "((case xs of [] \<Rightarrow> None | r # _ \<Rightarrow> Some r) = None) = (xs = [])"
  by (cases xs) auto

lemma works_host_check: "works P (host_check host c m) (\<lambda>_ t. P t \<and> host_enabled t host)"
  unfolding host_check_def
  by (rule works_dbind [OF works_first], rule works_if, rule works_dfail, rule works_dret)
    (auto simp: first_None host_enabled_def list_ex_iff filter_empty_conv)

definition runtime_fresh :: "string \<Rightarrow> int \<Rightarrow> proxy_db \<Rightarrow> bool" where
  "runtime_fresh host now t \<longleftrightarrow> (\<exists>r\<in>set (t_reports t). rp_host r = host \<and> report_fresh r now)"

lemma works_runtime_ready:
  "works P (runtime_ready host now) (\<lambda>x t. P t \<and> (fst x \<longrightarrow> runtime_fresh host now t))"
  unfolding runtime_ready_def
  by (rule works_dbind [OF works_first], rule works_dret)
    (auto simp: runtime_fresh_def split: option.splits dest!: first_Some)

lemma works_ingress_save_body:
  "works (\<lambda>t. t = t0) (ingress_save_body host body key now)
    (\<lambda>_ t. host_enabled t0 host \<and> (sbj_get_bool body (Some ''enabled'') False \<longrightarrow> runtime_fresh host now t0)
       \<and> (\<exists>n. ingress_upsert host body key now t0 = Inr (t, n)))"
proof -
  have ready: "works (\<lambda>t. t = t0 \<and> host_enabled t host)
      (if sbj_get_bool body (Some ''enabled'') False
       then dbind (runtime_ready host now) (\<lambda>(ready, seen).
         if ready then dret ()
         else dfail SB_ERR_CONFLICT
           (''Host must report proxy_users_v1 support within the last 180 seconds before ''
            @ ''enabling ingress''))
       else dret ())
      (\<lambda>_ t. t = t0 \<and> host_enabled t host
         \<and> (sbj_get_bool body (Some ''enabled'') False \<longrightarrow> runtime_fresh host now t))"
    by (rule works_if, rule works_dbind [OF works_runtime_ready])
      (auto intro!: works_if works_dret works_dfail split: prod.split)
  show ?thesis
    unfolding ingress_save_body_def
    by (rule works_dbind [OF works_host_check], rule works_dbind [OF ready],
        rule works_dbind [OF works_run], rule works_weaken [OF works_readonly [OF readonly_node_locked]])
      auto
qed

subsection \<open>What an exchange may do\<close>

text \<open>The specification of the exchange on the tables: it records usage of the node's own leases
  within their grants, and it renews leases of usable users bound to the node, in their current
  epoch, after their \<open>not_before\<close> and within their quota.\<close>

inductive exchange_step :: "string \<Rightarrow> string \<Rightarrow> int \<Rightarrow> proxy_db \<Rightarrow> proxy_db \<Rightarrow> bool"
  for host boot now
where
  usage: "exchange_step host boot now t t'"
  if "l \<in> set (t_leases t)" "ls_host l = host" "ls_boot l = boot"
    "ls_used_bytes l \<le> used" "used \<le> ls_grant_bytes l" "lease_usage (ls_id l) used now t = Inr (t', n)"
| grant: "exchange_step host boot now t t'"
  if "u \<in> set (t_users t)" "(us_id u, host) \<in> set (t_user_nodes t)" "usable_user now u"
    "us_not_before u \<le> now" "0 < device_count now (us_id u) t"
    "ls_user new = us_id u" "ls_host new = host" "ls_boot new = boot" "ls_epoch new = us_epoch u"
    "ls_expires_at new = lease_until (us_expires_at u) now"
    "slot_grant t new \<le> ls_grant_bytes new"
    "granted t (us_id u) (us_epoch u) + (ls_grant_bytes new - slot_grant t new) \<le> user_cap u"
    "lease_upsert new t = Inr (t', n)"

abbreviation exchange_steps :: "string \<Rightarrow> string \<Rightarrow> int \<Rightarrow> proxy_db \<Rightarrow> proxy_db \<Rightarrow> bool" where
  "exchange_steps host boot now \<equiv> (exchange_step host boot now)\<^sup>*\<^sup>*"

lemma exchange_step_ok: "exchange_step host boot now t t' \<Longrightarrow> db_ok t \<Longrightarrow> db_ok t'"
  by (cases rule: exchange_step.cases) (auto intro: lease_usage_ok lease_upsert_ok)

lemma exchange_steps_ok: "exchange_steps host boot now t t' \<Longrightarrow> db_ok t \<Longrightarrow> db_ok t'"
  by (induction rule: rtranclp_induct) (auto intro: exchange_step_ok)

lemma exchange_step_frame: "exchange_step host boot now t t' \<Longrightarrow> \<exists>ls. t' = t\<lparr>t_leases := ls\<rparr>"
  by (cases rule: exchange_step.cases)
    (auto simp: lease_usage_def upd_rows_def Let_def split: if_splits elim!: lease_upsert_cases)

lemma exchange_steps_frame: "exchange_steps host boot now t t' \<Longrightarrow> \<exists>ls. t' = t\<lparr>t_leases := ls\<rparr>"
proof (induction rule: rtranclp_induct)
  case base
  show ?case by (metis proxy_db.surjective proxy_db.update_convs(8))
next
  case (step t1 t2)
  then show ?case using exchange_step_frame [OF step.hyps(2)] by auto
qed

lemma works_report_locked:
  "works (exchange_steps host boot now t0) (report_locked host boot report now)
    (\<lambda>_. exchange_steps host boot now t0)"
  unfolding report_locked_def Let_def
proof (rule works_dbind [OF works_first])
  fix row :: "lease_row option"
  let ?id = "member_text (Some report) ''lease_id''"
  let ?used = "body_int (Some report) ''used_bytes'' 0"
  let ?ok = "case row of None \<Rightarrow> False | Some l \<Rightarrow> ls_used_bytes l \<le> ?used \<and> ?used \<le> ls_grant_bytes l"
  show "works (\<lambda>t. exchange_steps host boot now t0 t \<and>
        row = (case filter (\<lambda>l. ls_id l = ?id \<and> ls_host l = host \<and> ls_boot l = boot) (t_leases t) of
                 [] \<Rightarrow> None | r # _ \<Rightarrow> Some r))
      (if ?ok then dbind (sql_run (lease_usage ?id ?used now)) (\<lambda>_. dret ())
       else dfail SB_ERR_CONFLICT ''Unknown lease, counter rollback or usage exceeding the grant'')
      (\<lambda>_. exchange_steps host boot now t0)"
  proof (rule works_if)
    assume ok: ?ok
    show "works (\<lambda>t. exchange_steps host boot now t0 t \<and>
        row = (case filter (\<lambda>l. ls_id l = ?id \<and> ls_host l = host \<and> ls_boot l = boot) (t_leases t) of
                 [] \<Rightarrow> None | r # _ \<Rightarrow> Some r))
      (dbind (sql_run (lease_usage ?id ?used now)) (\<lambda>_. dret ())) (\<lambda>_. exchange_steps host boot now t0)"
    proof (rule works_dbind [OF works_run], rule works_dret, clarify)
      fix t1 t2 n assume steps: "exchange_steps host boot now t0 t2"
        and row: "row = (case filter (\<lambda>l. ls_id l = ?id \<and> ls_host l = host \<and> ls_boot l = boot) (t_leases t2) of
                 [] \<Rightarrow> None | r # _ \<Rightarrow> Some r)"
        and run: "lease_usage ?id ?used now t2 = Inr (t1, n)"
      from ok obtain l where l: "row = Some l" "ls_used_bytes l \<le> ?used" "?used \<le> ls_grant_bytes l"
        by (auto split: option.splits)
      from first_Some [OF row [symmetric, unfolded l(1)]]
      have "exchange_step host boot now t2 t1"
        using l run by (auto intro: exchange_step.usage)
      with steps show "exchange_steps host boot now t0 t1" by simp
    qed
  qed (rule works_dfail)
qed

lemma works_lease_write:
  "works (\<lambda>t. t = t1) (lease_write id' l devices)
    (\<lambda>_ t. \<exists>i n. lease_upsert (l\<lparr>ls_id := i\<rparr>) t1 = Inr (t, n))"
  unfolding lease_write_def Let_def
  by (rule works_dbind [OF works_readonly], (cases id'; simp add: readonly_intros),
      rule works_dbind [OF works_run], rule works_dret) auto

lemma find_filter: "find p xs = (case filter p xs of [] \<Rightarrow> None | r # _ \<Rightarrow> Some r)"
  by (induction xs) auto

lemma lease_slot_find:
  assumes "ls_user l = user" "ls_host l = host" "ls_boot l = boot" "ls_epoch l = epoch"
  shows "(case lease_slot user host boot epoch t of [] \<Rightarrow> None | r # _ \<Rightarrow> Some r) = find (same_slot l) (t_leases t)"
proof -
  have "same_slot l = (\<lambda>k. ls_user k = user \<and> ls_host k = host \<and> ls_boot k = boot \<and> ls_epoch k = epoch)"
    using assms by (auto simp: same_slot_def)
  then show ?thesis by (simp add: find_filter lease_slot_def)
qed

lemma devices_query_count: "length (devices_query user True now t) = device_count now user t"
  by (simp add: devices_query_def device_count_def)

lemma works_lease_rule:
  assumes null: "Q sbj_null t1"
    and renew: "\<And>row devices hosts used grant.
      row = (case lease_slot user host boot epoch t1 of [] \<Rightarrow> None | r # _ \<Rightarrow> Some r) \<Longrightarrow>
      devices = SBJ_ARRAY (map (device_json True) (devices_query user True now t1)) \<Longrightarrow>
      0 < device_count now user t1 \<Longrightarrow> 1 \<le> hosts \<Longrightarrow>
      used = (case row of None \<Rightarrow> 0 | Some l \<Rightarrow> ls_used_bytes l) \<Longrightarrow>
      grant = grant_after quota (granted t1 user epoch) hosts
        (case row of None \<Rightarrow> 0 | Some l \<Rightarrow> ls_grant_bytes l) used \<Longrightarrow> used < grant \<Longrightarrow>
      works (\<lambda>t. t = t1) (lease_write (map_option ls_id row)
        \<lparr>ls_id = [], ls_user = user, ls_host = host, ls_boot = boot, ls_epoch = epoch,
         ls_grant_bytes = grant, ls_used_bytes = used,
         ls_expires_at = lease_until expiry now, ls_updated_at = now\<rparr> devices) Q"
  shows "works (\<lambda>t. t = t1) (lease_locked host boot user epoch quota expiry now) Q"
proof -
  have same: "works (\<lambda>t. t = t1 \<and> R) m Q" if "R \<Longrightarrow> works (\<lambda>t. t = t1) m Q" for R m
    using that unfolding works_def triple_def by (cases R) auto
  have null': "works (\<lambda>t. t = t1) (dret sbj_null) Q" using null by (auto intro: works_dret)
  show ?thesis
    unfolding lease_locked_def
    apply (rule works_dbind [OF works_devices_locked], rule works_if)
     apply (rule works_weaken [OF null'], simp, assumption)
    apply (rule works_dbind [OF works_first], rule works_dbind [OF works_first], rule works_dbind [OF works_first],
        rule works_each)
    apply (clarsimp simp: Let_def devices_query_count null')
    apply (intro conjI impI works_dsilent renew)
         apply (simp_all add: Suc_le_eq)
    done
qed

lemma works_lease_locked:
  assumes ok: "db_ok t1" and u: "u \<in> set (t_users t1)" "(us_id u, host) \<in> set (t_user_nodes t1)"
    "usable_user now u" "us_not_before u \<le> now"
  shows "works (\<lambda>t. t = t1)
    (lease_locked host boot (us_id u) (us_epoch u) (us_quota_bytes u) (us_expires_at u) now)
    (\<lambda>_. exchange_steps host boot now t1)"
proof (rule works_lease_rule)
  fix row :: "lease_row option" and devices hosts used grant
  let ?old = "case row of None \<Rightarrow> 0 | Some l \<Rightarrow> ls_grant_bytes l"
  let ?l = "\<lparr>ls_id = [], ls_user = us_id u, ls_host = host, ls_boot = boot, ls_epoch = us_epoch u,
    ls_grant_bytes = grant, ls_used_bytes = used,
    ls_expires_at = lease_until (us_expires_at u) now, ls_updated_at = now\<rparr>"
  assume row: "row = (case lease_slot (us_id u) host boot (us_epoch u) t1 of [] \<Rightarrow> None | r # _ \<Rightarrow> Some r)"
    and count: "0 < device_count now (us_id u) t1" and hosts: "1 \<le> hosts"
    and grant: "grant = grant_after (us_quota_bytes u) (granted t1 (us_id u) (us_epoch u)) hosts ?old used"
  have cap: "granted t1 (us_id u) (us_epoch u) \<le> (if us_quota_bytes u \<noteq> 0 then us_quota_bytes u else SAFE_INTEGER)"
    using ok u(1) by (auto simp: db_ok_def budget_ok_def user_cap_def)
  show "works (\<lambda>t. t = t1) (lease_write (map_option ls_id row) ?l devices) (\<lambda>_. exchange_steps host boot now t1)"
  proof (rule works_post [OF works_lease_write], clarify)
    fix t' i n assume run: "lease_upsert (?l\<lparr>ls_id := i\<rparr>) t1 = Inr (t', n)"
    have slot: "slot_grant t1 (?l\<lparr>ls_id := i\<rparr>) = ?old"
      unfolding slot_grant_def row by (subst lease_slot_find [of "?l\<lparr>ls_id := i\<rparr>"]) simp_all
    have "exchange_step host boot now t1 t'"
      using grant_after_bounds [OF hosts cap, of ?old used] u count slot
      by (intro exchange_step.grant [OF _ _ _ _ _ _ _ _ _ _ _ _ run]) (auto simp: user_cap_def grant)
    then show "exchange_steps host boot now t1 t'" by simp
  qed
qed simp

lemma works_lease_user:
  assumes ok: "db_ok t0" and u: "u \<in> set (lease_users host now t0)"
  shows "works (exchange_steps host boot now t0) (lease_user host boot now u out)
    (\<lambda>_. exchange_steps host boot now t0)"
  unfolding lease_user_def
proof (rule works_dbind [OF works_readonly [OF readonly_library(1)]], rule works_if)
  fix wait_ms assume wait: "\<not> (0 < wait_ms \<or> now < us_not_before u)"
  show "works (exchange_steps host boot now t0)
      (dbind (lease_locked host boot (us_id u) (us_epoch u) (us_quota_bytes u) (us_expires_at u) now)
        (\<lambda>v. dret (if sbj_is_null (Some v) then out else sbj_arr_push out (Some v))))
      (\<lambda>_. exchange_steps host boot now t0)"
  proof (rule works_each)
    fix t1 assume steps: "exchange_steps host boot now t0 t1"
    from exchange_steps_frame [OF this] obtain ls where t1: "t1 = t0\<lparr>t_leases := ls\<rparr>" ..
    have "works (\<lambda>t. t = t1)
        (lease_locked host boot (us_id u) (us_epoch u) (us_quota_bytes u) (us_expires_at u) now)
        (\<lambda>_. exchange_steps host boot now t1)"
      using u wait exchange_steps_ok [OF steps ok]
      by (intro works_lease_locked) (auto simp: t1 lease_users_def)
    then show "works (\<lambda>t. t = t1)
        (dbind (lease_locked host boot (us_id u) (us_epoch u) (us_quota_bytes u) (us_expires_at u) now)
          (\<lambda>v. dret (if sbj_is_null (Some v) then out else sbj_arr_push out (Some v))))
        (\<lambda>_. exchange_steps host boot now t0)"
      by (rule works_dbind) (rule works_dret, use steps in auto)
  qed
qed (rule works_dret)

lemma works_exchange_grants:
  assumes "db_ok t0"
  shows "works (exchange_steps host boot now t0) (exchange_grants host boot now)
    (\<lambda>_. exchange_steps host boot now t0)"
proof -
  have users: "works (exchange_steps host boot now t0)
      (sql_each (lease_users host now) (lease_user host boot now) sbj_array)
      (\<lambda>_. exchange_steps host boot now t0)"
  proof (rule works_sql_each)
    fix t r acc assume "exchange_steps host boot now t0 t" and r: "r \<in> set (lease_users host now t)"
    from exchange_steps_frame [OF this(1)] have "lease_users host now t = lease_users host now t0"
      by (auto simp: lease_users_def)
    then show "works (exchange_steps host boot now t0) (lease_user host boot now r acc)
        (\<lambda>_. exchange_steps host boot now t0)"
      using r by (intro works_lease_user [OF assms]) simp
  qed
  have node: "works (exchange_steps host boot now t0)
      (dbind (node_locked host True now) (\<lambda>node.
       dbind (sql_each (lease_users host now) (lease_user host boot now) sbj_array) (\<lambda>users.
         dret (node, users)))) (\<lambda>_. exchange_steps host boot now t0)"
    by (rule works_dbind [OF works_readonly [OF readonly_node_locked]], rule works_dbind [OF users],
        rule works_dret)
  show ?thesis
    unfolding exchange_grants_def
    by (rule works_dbind [OF works_readonly [OF reading.first]],
        rule works_dbind [OF works_readonly [OF readonly_runtime_ready]])
      (auto intro!: works_if works_dret node split: prod.split)
qed

text \<open>The outcome of an exchange: the stored answer to a request that was seen before, with no change
  at all; or a new answer in sequence, stored after steps of the specification.\<close>

definition exchange_effect ::
  "string \<Rightarrow> string \<Rightarrow> int \<Rightarrow> string \<Rightarrow> int \<Rightarrow> sbj \<Rightarrow> proxy_db \<Rightarrow> proxy_db \<Rightarrow> bool" where
  "exchange_effect host boot seq hash now out t0 t \<longleftrightarrow>
     (let row = find (\<lambda>e. se_host e = host \<and> se_boot e = boot) (t_sessions t0) in
      host_enabled t0 host \<and>
      ((\<exists>e. row = Some e \<and> se_request_seq e = seq \<and> se_request_hash e = hash
          \<and> sbj_parse (Some (se_response e)) = Inr out \<and> t = t0)
       \<or> (case row of None \<Rightarrow> seq = 1 | Some e \<Rightarrow> seq = se_request_seq e + 1)
          \<and> (\<exists>t1 n. exchange_steps host boot now t0 t1
               \<and> session_upsert \<lparr>se_host = host, se_boot = boot, se_request_seq = seq,
                   se_request_hash = hash, se_response = sbj_dump (Some out) (- 1),
                   se_updated_at = now\<rparr> t1 = Inr (t, n))))"

lemma works_exchange_fresh:
  assumes "db_ok t0"
  shows "works (\<lambda>t. t = t0) (exchange_fresh host boot seq hash reports now)
    (\<lambda>out t. \<exists>t1 n. exchange_steps host boot now t0 t1
       \<and> session_upsert \<lparr>se_host = host, se_boot = boot, se_request_seq = seq, se_request_hash = hash,
           se_response = sbj_dump (Some out) (- 1), se_updated_at = now\<rparr> t1 = Inr (t, n))"
proof -
  let ?post = "\<lambda>out t. \<exists>t1 n. exchange_steps host boot now t0 t1
       \<and> session_upsert \<lparr>se_host = host, se_boot = boot, se_request_seq = seq, se_request_hash = hash,
           se_response = sbj_dump (Some out) (- 1), se_updated_at = now\<rparr> t1 = Inr (t, n)"
  have store: "works (exchange_steps host boot now t0)
      (dbind (sql_run (session_upsert \<lparr>se_host = host, se_boot = boot, se_request_seq = seq,
         se_request_hash = hash, se_response = sbj_dump (Some out) (- 1), se_updated_at = now\<rparr>))
        (\<lambda>_. dret out)) ?post" for out
    by (rule works_dbind [OF works_run], rule works_dret) auto
  have reports: "works (\<lambda>t. t = t0) (dfor reports (\<lambda>r. report_locked host boot r now))
      (\<lambda>_. exchange_steps host boot now t0)"
    by (rule works_weaken [OF works_dfor [OF works_report_locked]]) simp_all
  show ?thesis
    unfolding exchange_fresh_def Let_def
    by (rule works_dbind [OF reports], rule works_dbind [OF works_exchange_grants [OF assms]],
        simp only: split_beta, rule store)
qed

lemma works_exchange_body:
  assumes "db_ok t0"
  shows "works (\<lambda>t. t = t0) (exchange_body host boot seq hash reports now)
    (\<lambda>out t. exchange_effect host boot seq hash now out t0 t)"
  unfolding exchange_body_def
proof (rule works_dbind [OF works_host_check], rule works_dbind [OF works_first], rule works_each)
  fix row t
  assume "(t = t0 \<and> host_enabled t host) \<and> row =
    (case filter (\<lambda>e. se_host e = host \<and> se_boot e = boot) (t_sessions t) of [] \<Rightarrow> None | r # _ \<Rightarrow> Some r)"
  then have t: "t = t0" "host_enabled t0 host"
    and row: "find (\<lambda>e. se_host e = host \<and> se_boot e = boot) (t_sessions t0) = row"
    by (auto simp: find_filter)
  let ?replay = "case row of None \<Rightarrow> False | Some e \<Rightarrow> seq = se_request_seq e \<and> hash = se_request_hash e"
  let ?conflict = "case row of None \<Rightarrow> seq \<noteq> 1 | Some e \<Rightarrow> seq \<noteq> se_request_seq e + 1 \<and> \<not> ?replay"
  have old: "works (\<lambda>x. x = t0)
      (case row of None \<Rightarrow> dsilent
       | Some e \<Rightarrow> (case sbj_parse (Some (se_response e)) of
            Inl _ \<Rightarrow> dfail SB_ERR_GENERIC ''Stored proxy lease snapshot is invalid''
          | Inr out \<Rightarrow> dret out))
      (\<lambda>out t. exchange_effect host boot seq hash now out t0 t)" if ?replay
    using that t(2) row
    by (auto simp: exchange_effect_def split: option.splits sum.splits
        intro!: works_dret works_dfail)
  have new: "works (\<lambda>x. x = t0) (exchange_fresh host boot seq hash reports now)
      (\<lambda>out t. exchange_effect host boot seq hash now out t0 t)" if "\<not> ?conflict" "\<not> ?replay"
    by (rule works_post [OF works_exchange_fresh [OF assms]])
      (use that t(2) row in \<open>auto simp: exchange_effect_def Let_def split: option.splits\<close>)
  show "works (\<lambda>x. x = t)
      (let replay = ?replay; conflict = (case row of None \<Rightarrow> seq \<noteq> 1
             | Some e \<Rightarrow> seq \<noteq> se_request_seq e + 1 \<and> \<not> replay) in
       if conflict
       then dfail SB_ERR_CONFLICT
         ''Proxy lease sequence changed; retry the same request or use the next sequence''
       else if replay
       then (case row of None \<Rightarrow> dsilent
             | Some e \<Rightarrow> (case sbj_parse (Some (se_response e)) of
                  Inl _ \<Rightarrow> dfail SB_ERR_GENERIC ''Stored proxy lease snapshot is invalid''
                | Inr out \<Rightarrow> dret out))
       else exchange_fresh host boot seq hash reports now)
      (\<lambda>out t. exchange_effect host boot seq hash now out t0 t)"
    unfolding Let_def t(1) using old new by (intro works_if works_dfail) blast+
qed

lemma exchange_atomic:
  "atomic db_ok (transaction (exchange_body host boot seq hash reports now))
    (\<lambda>out t0 t. exchange_effect host boot seq hash now out t0 t)"
  by (rule atomic_transaction) (rule works_exchange_body)

text \<open>A successful exchange passed the checks on its request, and has its effect.\<close>

lemma exchange_cases:
  assumes "sb_proxy_lease_exchange host request now s = (r, s')" "db_ok (tables s)" "saved s = None"
  obtains (failed) e where "r = Inl e" "tables s' = tables s" "saved s' = None"
  | (answered) out where "r = Inr out" "saved s' = None" "exchange_ok request now"
      "exchange_effect host (member_text request ''boot_id'') (body_int request ''request_seq'' 0)
        (sb_sha256_hex (sbj_dump request (- 1)) s) now out (tables s) (tables s')"
proof -
  let ?m = "transaction (exchange_body host (member_text request ''boot_id'')
    (body_int request ''request_seq'' 0) (sb_sha256_hex (sbj_dump request (- 1)) s)
    (json_items (jget request ''reports'')) now)"
  consider "\<exists>e. r = Inl e \<and> s' = s" | "exchange_ok request now" "?m s = (r, s')"
    using assms(1) by (auto simp: sb_proxy_lease_exchange_def Let_def dfail_def sb_fail_def split: if_splits)
  then show ?thesis
  proof cases
    case 1
    then show ?thesis using failed assms(3) by auto
  next
    case 2
    show ?thesis
    proof (cases r)
      case (Inl e)
      then show ?thesis using failed atomicD [OF exchange_atomic assms(2,3) 2(2)] by simp
    next
      case (Inr out)
      then show ?thesis using answered 2(1) atomicD [OF exchange_atomic assms(2,3) 2(2)] by simp
    qed
  qed
qed

lemma exchange_effect_ok: "exchange_effect host boot seq hash now out t0 t \<Longrightarrow> db_ok t0 \<Longrightarrow> db_ok t"
  by (auto simp: exchange_effect_def Let_def session_upsert_def dest: exchange_steps_ok)

subsection \<open>The operations together\<close>

text \<open>The entry points of \<open>proxy_users.h\<close>, as requests.\<close>

datatype proxy_op =
    Runtime_Report string "sbj option"
  | User_Get string
  | Users_List
  | User_Save "string option" "sbj option"
  | User_Remove string
  | User_Reset string
  | Claim_Rotate string
  | Claim_Resolve "string option"
  | Device_Create string "sbj option"
  | Device_Revoke string string
  | Ingress_List
  | Ingress_Save string "sbj option"
  | Subscription "string option"
  | Lease_Exchange string "sbj option"

definition then_null :: "('s, 'a) dbm \<Rightarrow> ('s, sbj) dbm" where
  "then_null m = dbind m (\<lambda>_. dret sbj_null)"

fun run_op :: "proxy_op \<Rightarrow> int \<Rightarrow> (sb_database, sbj) dbm" where
  "run_op (Runtime_Report host capabilities) now =
     then_null (sb_proxy_runtime_report host capabilities now)"
| "run_op (User_Get user) now = sb_proxy_user_get user"
| "run_op Users_List now = sb_proxy_users_list"
| "run_op (User_Save id' body) now = sb_proxy_user_save id' body now"
| "run_op (User_Remove user) now = then_null (sb_proxy_user_remove user now)"
| "run_op (User_Reset user) now = sb_proxy_user_reset user now"
| "run_op (Claim_Rotate user) now = sb_proxy_claim_rotate user now"
| "run_op (Claim_Resolve token) now =
     dbind (sb_proxy_claim_resolve token now) (\<lambda>user. dret (sbj_str (Some user)))"
| "run_op (Device_Create user body) now = sb_proxy_device_create user body now"
| "run_op (Device_Revoke user device) now = then_null (sb_proxy_device_revoke user device now)"
| "run_op Ingress_List now = sb_proxy_ingress_list now"
| "run_op (Ingress_Save host body) now = sb_proxy_ingress_save host body now"
| "run_op (Subscription token) now = sb_proxy_subscription token now"
| "run_op (Lease_Exchange host request) now = sb_proxy_lease_exchange host request now"

abbreviation next_uuid :: "sb_database \<Rightarrow> string" where
  "next_uuid s \<equiv> uuid_text (uuid_bytes s (uuid_calls s))"

text \<open>The statements that a successful operation has run, as far as the invariant depends on them;
  \<open>op_effect\<close> of \<open>Proxy_Effects\<close> is the full specification.\<close>

fun op_writes :: "proxy_op \<Rightarrow> int \<Rightarrow> sb_database \<Rightarrow> sbj \<Rightarrow> proxy_db \<Rightarrow> bool" where
  "op_writes (Runtime_Report host capabilities) now s out t =
     (\<exists>supported. report_upsert host supported now (tables s) = Inr (t, 1))"
| "op_writes (User_Save id' body) now s out t =
     (\<exists>user t1 n ns. user_body_ok body
        \<and> (case id' of None \<Rightarrow> user = next_uuid s
             | Some i \<Rightarrow> user = i \<and> change_allowed i body now (tables s))
        \<and> user_upsert user body now (tables s) = Inr (t1, n) \<and> t = t1\<lparr>t_user_nodes := ns\<rparr>)"
| "op_writes (User_Remove user) now s out t =
     (\<exists>t1 n. user_delete user now (tables s) = Inr (t1, 1) \<and> devices_disable user t1 = Inr (t, n))"
| "op_writes (User_Reset user) now s out t =
     (1 \<le> now \<and> user_next_epoch user now (tables s) = Inr (t, 1))"
| "op_writes (Claim_Rotate user) now s out t =
     (\<exists>hash. claim_update user hash now (tables s) = Inr (t, 1))"
| "op_writes (Device_Create user body) now s out t =
     (\<exists>password hash n. device_body_ok body now \<and> device_allowed user now (tables s)
        \<and> device_insert (device_new (next_uuid s) user body password hash now) (tables s) = Inr (t, n))"
| "op_writes (Device_Revoke user device) now s out t =
     (device_disable user device now (tables s) = Inr (t, 1))"
| "op_writes (Ingress_Save host body) now s out t =
     (\<exists>key n. ingress_body_ok body \<and> host_enabled (tables s) host
        \<and> (sbj_get_bool body (Some ''enabled'') False \<longrightarrow> runtime_fresh host now (tables s))
        \<and> ingress_upsert host body key now (tables s) = Inr (t, n))"
| "op_writes (Lease_Exchange host request) now s out t =
     (exchange_ok request now
      \<and> exchange_effect host (member_text request ''boot_id'') (body_int request ''request_seq'' 0)
          (sb_sha256_hex (sbj_dump request (- 1)) s) now out (tables s) t)"
| "op_writes _ now s out t = (t = tables s)"

text \<open>An operation keeps the promise when a failure leaves the tables as they were and a success has
  the effect.\<close>

definition keeps_promise ::
  "sb_database \<Rightarrow> sbj res \<times> sb_database \<Rightarrow> (sbj \<Rightarrow> proxy_db \<Rightarrow> bool) \<Rightarrow> bool" where
  "keeps_promise s res Q \<longleftrightarrow> saved (snd res) = None
     \<and> (case fst res of Inl e \<Rightarrow> tables (snd res) = tables s | Inr out \<Rightarrow> Q out (tables (snd res)))"

lemma promise_atomic:
  assumes "atomic P m Q" "P (tables s)" "saved s = None"
    "\<And>x t. Q x (tables s) t \<Longrightarrow> Q' x t"
  shows "keeps_promise s (m s) Q'"
proof -
  obtain r s' where m: "m s = (r, s')" by force
  show ?thesis
    using atomicD [OF assms(1-3) m] assms(4) m by (cases r) (auto simp: keeps_promise_def)
qed

lemma promise_then_null:
  assumes "atomic P m Q" "P (tables s)" "saved s = None" "\<And>x t. Q x (tables s) t \<Longrightarrow> Q' sbj_null t"
  shows "keeps_promise s (then_null m s) Q'"
proof -
  obtain r s' where m: "m s = (r, s')" by force
  show ?thesis
    using atomicD [OF assms(1-3) m] assms(4) m
    by (cases r) (auto simp: keeps_promise_def then_null_def dbind_def dret_def)
qed

lemma promise_readonly:
  "readonly m \<Longrightarrow> saved s = None \<Longrightarrow> (\<And>x. Q x (tables s)) \<Longrightarrow> keeps_promise s (m s) Q"
  by (cases "m s") (auto simp: readonly_def keeps_promise_def split: sum.split)

lemma promise_fail: "saved s = None \<Longrightarrow> keeps_promise s (Inl e, s) Q" "saved s = None \<Longrightarrow> keeps_promise s (dfail c m s) Q"
  by (simp_all add: keeps_promise_def dfail_def sb_fail_def)

lemma promise_state: "keeps_promise s1 res Q \<Longrightarrow> tables s1 = tables s \<Longrightarrow> keeps_promise s res Q"
  by (auto simp: keeps_promise_def split: sum.split)

lemma promise_changes:
  assumes "saved s = None" "\<And>t. sql (tables s) = Inr (t, 1) \<Longrightarrow> Q out t"
    and none: "\<And>t n. sql (tables s) = Inr (t, n) \<Longrightarrow> n \<noteq> 1 \<Longrightarrow> t = tables s"
    and f: "f 1 = dret out" "\<And>n. n \<noteq> 1 \<Longrightarrow> f n = dfail c m"
  shows "keeps_promise s (dbind (sql_run sql) f s) Q"
proof -
  obtain r s' where run: "sql_run sql s = (r, s')" by force
  have "atomic (\<lambda>t. t = tables s) (sql_run sql) (\<lambda>n t t'. sql t = Inr (t', n))"
    by (rule atomic_run)
  note eff = atomicD [OF this _ assms(1) run]
  show ?thesis
  proof (cases r)
    case (Inr n)
    then show ?thesis
      using run assms(2,3) eff f
      by (cases "n = 1") (auto simp: keeps_promise_def dbind_def dret_def dfail_def sb_fail_def)
  qed (use run eff in \<open>auto simp: keeps_promise_def dbind_def\<close>)
qed

lemma dbind_assoc: "dbind (dbind m f) g = dbind m (\<lambda>x. dbind (f x) g)"
  by (rule ext) (simp add: dbind_def split: prod.split sum.split)

lemma dbind_dfail [simp]: "dbind (dfail c m) f = dfail c m"
  by (rule ext) (simp add: dbind_def dfail_def sb_fail_def)

lemma dbind_dret [simp]: "dbind (dret x) f = f x"
  by (rule ext) (simp add: dbind_def dret_def)

lemma dbind_if: "dbind (if b then m else n) f = (if b then dbind m f else dbind n f)"
  by simp

lemma upd_rows_one:
  assumes "distinct (map g rs)" "\<And>r. p r \<Longrightarrow> g r = k" "upd_rows p f rs = (rs', n)"
  shows "n = 1 \<or> rs' = rs"
proof (cases "filter p rs")
  case Nil
  then show ?thesis
    using assms(3) by (auto simp: upd_rows_def filter_empty_conv intro: map_idI)
next
  case (Cons a as)
  have "distinct (map g (filter p rs))" using assms(1) by (simp add: distinct_map_filter)
  moreover have "b \<in> set as \<Longrightarrow> g b = g a" for b
  proof -
    assume "b \<in> set as"
    then have "b \<in> set (filter p rs)" "a \<in> set (filter p rs)" unfolding Cons by auto
    then show "g b = g a" using assms(2) by simp
  qed
  ultimately have "as = []" unfolding Cons by (cases as) auto
  then show ?thesis using assms(3) Cons by (auto simp: upd_rows_def)
qed

lemma promise_report:
  assumes "saved s = None"
  shows "keeps_promise s (run_op (Runtime_Report host capabilities) now s)
    (op_writes (Runtime_Report host capabilities) now s)"
proof -
  have "keeps_promise s (dbind (sql_run (report_upsert host b now))
      (\<lambda>n. if n \<noteq> 1 then dfail SB_ERR_AUTH ''Runtime host is unknown or disabled'' else dret sbj_null) s)
      (op_writes (Runtime_Report host capabilities) now s)" for b
    by (rule promise_changes [OF assms]) (auto simp: report_upsert_def split: if_splits)
  then show ?thesis
    using promise_fail [OF assms]
    by (auto simp: then_null_def sb_proxy_runtime_report_def dbind_assoc if_distrib [of "\<lambda>m. dbind m f" for f]
        dbind_def [of "\<lambda>s. (Inl e, s)" for e] cong: if_cong split: sum.split)
qed

lemma promise_user_save:
  assumes "saved s = None"
  shows "keeps_promise s (run_op (User_Save id' body) now s) (op_writes (User_Save id' body) now s)"
proof -
  have save: "atomic (\<lambda>_. True) (transaction (user_save_body generated i body now))
      (\<lambda>_ t0 t. \<exists>t1 n ns. (generated \<or> change_allowed i body now t0)
         \<and> user_upsert i body now t0 = Inr (t1, n) \<and> t = t1\<lparr>t_user_nodes := ns\<rparr>)" for generated i
    by (rule atomic_transaction) (rule works_user_save_body)
  show ?thesis
  proof (cases "user_body_ok body \<and> host_ids_ok [] (json_items (jget body ''host_ids'')) = Inr ()")
    case True
    show ?thesis
    proof (cases id')
      case (Some i)
      have "keeps_promise s (transaction (user_save_body False i body now) s)
          (op_writes (User_Save id' body) now s)"
        by (rule promise_atomic [OF save]) (use True Some assms in auto)
      then show ?thesis using True Some by (simp add: sb_proxy_user_save_def)
    next
      case None
      let ?s = "s\<lparr>uuid_calls := uuid_calls s + 1\<rparr>"
      have "keeps_promise ?s (transaction (user_save_body True (next_uuid s) body now) ?s)
          (op_writes (User_Save id' body) now s)"
        by (rule promise_atomic [OF save]) (use True None assms in auto)
      from promise_state [OF this, of s] show ?thesis
        using True None by (simp add: sb_proxy_user_save_def dbind_def sb_uuid_v4_def)
    qed
  next
    case False
    then show ?thesis
      using promise_fail [OF assms]
      by (cases "host_ids_ok [] (json_items (jget body ''host_ids''))")
        (auto simp: sb_proxy_user_save_def)
  qed
qed

lemma promise_device_create:
  assumes "saved s = None"
  shows "keeps_promise s (run_op (Device_Create user body) now s) (op_writes (Device_Create user body) now s)"
proof (cases "device_body_ok body now")
  case True
  define s1 where "s1 = s\<lparr>uuid_calls := uuid_calls s + 1\<rparr>"
  obtain p s2 where p: "new_secret True s1 = (p, s2)" by force
  obtain k s3 where k: "new_secret False s2 = (k, s3)" by force
  have s3: "tables s3 = tables s" "saved s3 = None"
    using readonly_library(5) p k assms by (auto simp: readonly_def s1_def)
  have run: "run_op (Device_Create user body) now s =
      (case (p, k) of
         (Inr password, Inr token) \<Rightarrow>
           dbind (transaction (device_create_body
               (device_new (next_uuid s) user body password (sb_sha256_hex token s3) now) now))
             (\<lambda>_. dret (device_result (next_uuid s) body token)) s3
       | (_, Inl e) \<Rightarrow> (Inl e, s3) | (Inl e, _) \<Rightarrow> (Inl e, s3))"
    using True p k by (simp add: sb_proxy_device_create_def dbind_def [of sb_uuid_v4] sb_uuid_v4_def s1_def)
  have create: "atomic (\<lambda>_. True) (transaction (device_create_body d now))
      (\<lambda>_ t0 t. device_allowed (dv_user d) now t0 \<and> (\<exists>n. device_insert d t0 = Inr (t, n)))" for d
    by (rule atomic_transaction) (rule works_device_create_body)
  have ok: "keeps_promise s (dbind (transaction (device_create_body
             (device_new (next_uuid s) user body password hash now) now)) (\<lambda>_. dret out) s3)
         (op_writes (Device_Create user body) now s)" for password hash out
  proof -
    let ?d = "device_new (next_uuid s) user body password hash now"
    obtain r s4 where tr: "transaction (device_create_body ?d now) s3 = (r, s4)" by force
    have user: "dv_user ?d = user" by (simp add: device_new_def)
    show ?thesis
      using atomicD [OF create _ s3(2) tr] s3(1) tr True unfolding user
      by (cases r) (auto simp: keeps_promise_def dbind_def dret_def)
  qed
  show ?thesis
    unfolding run using ok promise_state [OF promise_fail(1) [OF s3(2)] s3(1)]
    by (auto split: sum.split)
qed (use promise_fail [OF assms] in \<open>simp add: sb_proxy_device_create_def\<close>)

lemma promise_ingress_save:
  assumes "saved s = None"
  shows "keeps_promise s (run_op (Ingress_Save host body) now s) (op_writes (Ingress_Save host body) now s)"
proof (cases "ingress_body_ok body")
  case True
  have "atomic (\<lambda>t. t = tables s) (dbind (new_secret True) (\<lambda>key. transaction (ingress_save_body host body key now)))
      (\<lambda>_ t0 t. \<exists>key n. host_enabled t0 host
         \<and> (sbj_get_bool body (Some ''enabled'') False \<longrightarrow> runtime_fresh host now t0)
         \<and> ingress_upsert host body key now t0 = Inr (t, n))"
    by (rule atomic_before [OF readonly_library(5)], rule atomic_transaction,
        rule works_post [OF works_ingress_save_body]) auto
  from promise_atomic [OF this _ assms] True show ?thesis
    by (simp add: sb_proxy_ingress_save_def)
qed (use promise_fail [OF assms] in \<open>simp add: sb_proxy_ingress_save_def\<close>)

lemma users_untouched:
  assumes "users_ok t" "upd_rows (live_user user) f (t_users t) = (us, n)" "n \<noteq> 1"
  shows "t\<lparr>t_users := us\<rparr> = t"
proof -
  have "us = t_users t"
    using upd_rows_one [of us_id "t_users t" "live_user user" user, OF _ _ assms(2)] assms(1,3)
    by (auto simp: users_ok_def live_user_def)
  then show ?thesis by simp
qed

lemma devices_untouched:
  assumes "devices_ok t" "upd_rows (\<lambda>d. dv_id d = device \<and> dv_user d = user) f (t_devices t) = (ds, n)" "n \<noteq> 1"
  shows "t\<lparr>t_devices := ds\<rparr> = t"
proof -
  have "ds = t_devices t"
    using upd_rows_one [of dv_id "t_devices t" "\<lambda>d. dv_id d = device \<and> dv_user d = user" device,
        OF _ _ assms(2)] assms(1,3)
    by (auto simp: devices_ok_def)
  then show ?thesis by simp
qed

lemma promise_claim_rotate:
  assumes ok: "db_ok (tables s)" and "saved s = None"
  shows "keeps_promise s (run_op (Claim_Rotate user) now s) (op_writes (Claim_Rotate user) now s)"
proof -
  obtain k s1 where k: "new_secret False s = (k, s1)" by force
  have s1: "tables s1 = tables s" "saved s1 = None"
    using readonly_library(5) k assms(2) by (auto simp: readonly_def)
  have "keeps_promise s1 (dbind (sql_run (claim_update user hash now))
      (\<lambda>n. if n = 1 then dret (jset_str sbj_object ''claim_token'' token)
        else dfail SB_ERR_NOT_FOUND ''Proxy user not found'') s1)
      (op_writes (Claim_Rotate user) now s)" for hash token
  proof (rule promise_changes [OF s1(2)])
    fix t n assume "claim_update user hash now (tables s1) = Inr (t, n)" "n \<noteq> 1"
    then show "t = tables s1"
      using ok s1(1) users_untouched
      by (auto simp: claim_update_def db_ok_def split: if_splits prod.splits)
  qed (auto simp: s1)
  from promise_state [OF this s1(1)] promise_state [OF promise_fail(1) [OF s1(2)] s1(1)]
  show ?thesis
    using k by (cases k) (simp_all add: sb_proxy_claim_rotate_def dbind_def [of "new_secret False"])
qed

lemma promise_device_revoke:
  assumes ok: "db_ok (tables s)" and "saved s = None"
  shows "keeps_promise s (run_op (Device_Revoke user device) now s)
    (op_writes (Device_Revoke user device) now s)"
proof -
  have "keeps_promise s (dbind (sql_run (device_disable user device now))
      (\<lambda>n. if n \<noteq> 1 then dfail SB_ERR_NOT_FOUND ''Proxy device not found'' else dret sbj_null) s)
      (op_writes (Device_Revoke user device) now s)"
  proof (rule promise_changes [OF assms(2)])
    fix t n assume "device_disable user device now (tables s) = Inr (t, n)" "n \<noteq> 1"
    then show "t = tables s"
      using ok devices_untouched by (auto simp: device_disable_def db_ok_def split: prod.splits)
  qed auto
  then show ?thesis
    by (simp add: then_null_def sb_proxy_device_revoke_def dbind_assoc dbind_if cong: if_cong)
qed

text \<open>Refinement: whatever SQLite reports in between, every entry point of \<open>proxy_users.h\<close> either
  fails and leaves the tables as they were, or succeeds after its statements. No transaction stays
  open.\<close>

lemma op_refines:
  assumes ok: "db_ok (tables s)" and saved: "saved s = None"
  shows "keeps_promise s (run_op op now s) (op_writes op now s)"
proof (cases op)
  case (User_Remove user)
  have "atomic (\<lambda>_. True) (sb_proxy_user_remove user now) (\<lambda>_ t0 t. \<exists>t1 n.
      user_delete user now t0 = Inr (t1, 1) \<and> devices_disable user t1 = Inr (t, n))"
    unfolding sb_proxy_user_remove_def by (rule atomic_transaction) (rule works_user_remove_body)
  from promise_then_null [OF this _ saved] show ?thesis by (simp add: User_Remove)
next
  case (User_Reset user)
  have "atomic (\<lambda>_. True) (sb_proxy_user_reset user now) (\<lambda>_ t0 t.
      1 \<le> now \<and> user_next_epoch user now t0 = Inr (t, 1))"
  proof (cases "now < 1 \<or> now > 4102444740")
    case True
    then show ?thesis by (simp add: sb_proxy_user_reset_def atomic_def dfail_def sb_fail_def)
  next
    case False
    then show ?thesis unfolding sb_proxy_user_reset_def
      by (simp only: if_False) (rule atomic_transaction, rule works_post [OF works_user_reset_body], simp)
  qed
  from promise_atomic [OF this _ saved] show ?thesis by (simp add: User_Reset)
next
  case (Lease_Exchange host request)
  obtain r s' where run: "sb_proxy_lease_exchange host request now s = (r, s')" by force
  then show ?thesis
    using ok saved by (cases rule: exchange_cases) (simp_all add: Lease_Exchange keeps_promise_def run)
next
  case (Claim_Resolve token)
  have "readonly (run_op op now)" unfolding Claim_Resolve run_op.simps by (intro readonly_intros)
  from promise_readonly [OF this saved] show ?thesis by (simp add: Claim_Resolve)
qed (use assms promise_readonly [OF readonly_queries(1) saved] promise_readonly [OF readonly_queries(2) saved]
      promise_readonly [OF readonly_queries(3) saved] promise_readonly [OF readonly_tokens(2) saved]
      promise_report promise_user_save promise_device_create promise_ingress_save
      promise_claim_rotate promise_device_revoke in \<open>simp_all del: op_writes.simps(1-9)\<close>)

subsection \<open>Reachable tables\<close>

text \<open>A new user gets an id that no user has; \<open>sb_uuid_v4\<close> draws 122 random bits for it.\<close>

fun fresh_op :: "proxy_op \<Rightarrow> sb_database \<Rightarrow> bool" where
  "fresh_op (User_Save None body) s \<longleftrightarrow> next_uuid s \<notin> us_id ` set (t_users (tables s))"
| "fresh_op op s \<longleftrightarrow> True"

text \<open>Hosts come, go and are enabled or disabled elsewhere; the rows of a host that is gone go with it
  (\<open>ON DELETE CASCADE\<close>).\<close>

definition change_hosts :: "host_row list \<Rightarrow> proxy_db \<Rightarrow> proxy_db" where
  "change_hosts hs t =
     (let gone = (\<lambda>h. h \<notin> hs_id ` set hs) in
      t\<lparr>t_hosts := hs,
        t_reports := filter (\<lambda>r. \<not> gone (rp_host r)) (t_reports t),
        t_ingress := filter (\<lambda>n. \<not> gone (in_host n)) (t_ingress t),
        t_user_nodes := filter (\<lambda>(u, h). \<not> gone h) (t_user_nodes t)\<rparr>)"

text \<open>The tables that any number of processes can produce: each step runs on some connection to
  the tables, with its own clock, its own random bytes and its own failures of SQLite, and at any
  time of the wall clock.\<close>

inductive reachable :: "proxy_db \<Rightarrow> bool" where
  start: "reachable t"
  if "t_users t = []" "t_devices t = []" "t_leases t = []" "t_sessions t = []"
| step: "reachable (tables s')"
  if "reachable (tables s)" "saved s = None" "fresh_op op s" "run_op op now s = (r, s')"
| hosts: "reachable (change_hosts hs t)" if "reachable t"

lemma device_insert_ok:
  assumes "db_ok t" "device_insert d t = Inr (t', n)"
  shows "db_ok t'"
proof -
  have new: "\<And>e. e \<in> set (t_devices t) \<Longrightarrow> dv_id e \<noteq> dv_id d \<and> dv_token_hash e \<noteq> dv_token_hash d"
    and t': "t' = t\<lparr>t_devices := t_devices t @ [d]\<rparr>"
    using assms(2) by (auto simp: device_insert_def list_ex_iff split: if_splits)
  have "dv_id d \<notin> dv_id ` set (t_devices t)" "dv_token_hash d \<notin> dv_token_hash ` set (t_devices t)"
    using new by fastforce+
  then show ?thesis
    unfolding t' using assms(1) by (intro db_ok_devices) (simp_all add: db_ok_def devices_ok_def)
qed

lemma devices_ok_update:
  assumes "db_ok t" "\<And>d. dv_id (f d) = dv_id d \<and> dv_token_hash (f d) = dv_token_hash d"
  shows "db_ok (t\<lparr>t_devices := map f (t_devices t)\<rparr>)"
proof (rule db_ok_devices [OF assms(1)])
  have "dv_id \<circ> f = dv_id" "dv_token_hash \<circ> f = dv_token_hash" using assms(2) by auto
  then show "devices_ok (t\<lparr>t_devices := map f (t_devices t)\<rparr>)"
    using assms(1) by (simp add: db_ok_def devices_ok_def)
qed

lemma devices_disable_ok: "db_ok t \<Longrightarrow> devices_disable user t = Inr (t', n) \<Longrightarrow> db_ok t'"
  by (auto simp: devices_disable_def upd_rows_def intro!: devices_ok_update)

lemma device_disable_ok: "db_ok t \<Longrightarrow> device_disable user device now t = Inr (t', n) \<Longrightarrow> db_ok t'"
  by (auto simp: device_disable_def upd_rows_def intro!: devices_ok_update)

lemma body_quota: "user_body_ok body \<Longrightarrow> body_int body ''quota_bytes'' 0 \<le> SAFE_INTEGER"
  by (auto simp: user_body_ok_def number_ok_def sbj_get_int_def split: option.splits sbj.splits)

lemma user_save_ok:
  assumes ok: "db_ok (tables s)" and eff: "op_writes (User_Save id' body) now s out t"
    and fresh: "fresh_op (User_Save id' body) s"
  shows "db_ok t"
proof -
  from eff obtain user t1 n ns where body: "user_body_ok body"
    and user: "case id' of None \<Rightarrow> user = next_uuid s
      | Some i \<Rightarrow> user = i \<and> change_allowed i body now (tables s)"
    and run: "user_upsert user body now (tables s) = Inr (t1, n)" "t = t1\<lparr>t_user_nodes := ns\<rparr>"
    by auto
  have "db_ok t1"
  proof (rule user_upsert_ok [OF ok run(1) body_quota [OF body]])
    fix u assume u: "u \<in> set (t_users (tables s))" "us_id u = user"
      and quota: "body_int body ''quota_bytes'' 0 \<noteq> 0"
    show "granted (tables s) user (us_epoch u) \<le> body_int body ''quota_bytes'' 0"
    proof (cases id')
      case None
      then have "us_id u \<notin> us_id ` set (t_users (tables s))" using user u(2) fresh by simp
      then show ?thesis using u(1) by blast
    next
      case (Some i)
      then obtain v where v: "v \<in> set (t_users (tables s))" "us_id v = user"
        and le: "granted (tables s) user (us_epoch v) \<le> body_int body ''quota_bytes'' 0"
        using user quota by (auto simp: change_allowed_def live_user_def)
      have "u = v" using users_ok_unique [OF _ u(1) v(1)] u(2) v(2) ok by (simp add: db_ok_def)
      then show ?thesis using le by simp
    qed
  qed
  then show ?thesis using run(2) by simp
qed

lemma op_writes_ok:
  assumes ok: "db_ok (tables s)" and eff: "op_writes op now s out t" and "fresh_op op s"
  shows "db_ok t"
proof (cases op)
  case (User_Save id' body)
  then show ?thesis using assms user_save_ok by blast
next
  case (User_Remove user)
  then show ?thesis using ok eff by (auto dest: user_delete_ok devices_disable_ok)
qed (use ok eff in \<open>auto simp: report_upsert_def ingress_upsert_def Let_def split: if_splits
      dest: user_next_epoch_ok claim_update_ok device_insert_ok device_disable_ok exchange_effect_ok\<close>)

lemma reachable_ok: "reachable t \<Longrightarrow> db_ok t"
proof (induction rule: reachable.induct)
  case (start t)
  then show ?case by (simp add: db_ok_defs)
next
  case (step s op now r s')
  then show ?case
    using op_refines [OF step.IH step.hyps(2), of op now] op_writes_ok [OF step.IH]
    by (cases r) (auto simp: keeps_promise_def)
next
  case (hosts t hs)
  then show ?case by (simp add: change_hosts_def Let_def)
qed

end
