(* ===== verification/Proxy_Fence.thy ===== *)
theory Proxy_Fence
  imports Proxy_Lease_Facts
begin

text \<open>
  The fence after a reset, \<open>c/src/proxy_clock.c\<close> as \<open>c/src/proxy_users.c\<close> uses it. The clock keeps its
  promise through the locale \<open>fence\<close>; that every operation only moves the clock along its steps, and
  that an exchange leaves the grants of a fenced user alone, are two relations between the connection
  before and after, in the sense of \<open>db_relation\<close>.
\<close>


subsection \<open>The fence after a reset\<close>

text \<open>What a clock that is in use goes through: waiting times are asked for and epochs are reset.\<close>

inductive clock_step :: "sb_proxy_clock \<Rightarrow> sb_proxy_clock \<Rightarrow> bool" where
  wait: "clock_step c (snd (clock_wait c user epoch))"
| reset: "clock_step c (clock_reset c user epoch)"

text \<open>From the monotonic reading \<open>at\<close> on, the user is behind a fence of \<open>FENCE_MS\<close>.\<close>

definition fenced :: "string \<Rightarrow> int \<Rightarrow> sb_proxy_clock \<Rightarrow> bool" where
  "fenced user at c \<longleftrightarrow> pc_used c \<and> 0 \<le> at \<and> at \<le> pc_last_now c
     \<and> (\<exists>e. epoch_find c user = Some e \<and> at + FENCE_MS \<le> ec_until e)"

lemma read_now_cases:
  assumes "read_now c = (now, c')"
  obtains "now = - 1" "c' = c\<lparr>pc_calls := pc_calls c + 1\<rparr>"
  | "now = pc_now c (pc_calls c)" "pc_last_now c \<le> now" "0 \<le> now" "now \<le> INT64_MAX - FENCE_MS"
    "c' = c\<lparr>pc_calls := pc_calls c + 1, pc_last_now := now\<rparr>"
  using assms by (auto simp: read_now_def Let_def split: if_splits)

lemma epoch_find_add [simp]:
  "epoch_find (epoch_add c user e until) v =
    (if user = v then Some \<lparr>ec_user = user, ec_epoch = e, ec_until = until\<rparr> else epoch_find c v)"
  by (simp add: epoch_find_def epoch_add_def sb_streq_iff)

lemma epoch_find_write [simp]:
  assumes "\<And>e. ec_user (f e) = ec_user e"
  shows "epoch_find (c\<lparr>pc_epochs := epoch_write f user (pc_epochs c)\<rparr>) v
    = (if user = v then map_option f (epoch_find c v) else epoch_find c v)"
proof -
  have "find (\<lambda>e. ec_user e = v) (epoch_write f user es)
    = (if user = v then map_option f (find (\<lambda>e. ec_user e = v) es) else find (\<lambda>e. ec_user e = v) es)" for es
    using assms by (induction es) (auto simp: sb_streq_iff)
  then show ?thesis by (simp add: epoch_find_def sb_streq_iff)
qed

lemma epoch_find_frame [simp]:
  "epoch_find (c\<lparr>pc_calls := k\<rparr>) = epoch_find c" "epoch_find (c\<lparr>pc_last_now := m\<rparr>) = epoch_find c"
  "epoch_find (c\<lparr>pc_used := b\<rparr>) = epoch_find c"
  by (simp_all add: epoch_find_def fun_eq_iff)

lemma observe_epoch_frame [simp]:
  "pc_last_now (observe_epoch c user epoch now) = pc_last_now c"
  "pc_used (observe_epoch c user epoch now) = pc_used c"
  "pc_now (observe_epoch c user epoch now) = pc_now c"
  "pc_calls (observe_epoch c user epoch now) = pc_calls c"
  "pc_startup_until (observe_epoch c user epoch now) = pc_startup_until c"
  by (simp_all add: observe_epoch_def epoch_add_def split: option.split)

lemma epoch_find_observe:
  "epoch_find (observe_epoch c user epoch now) v =
     (if user \<noteq> v then epoch_find c v
      else case epoch_find c v of
        None \<Rightarrow> Some \<lparr>ec_user = v, ec_epoch = epoch, ec_until = if epoch = 1 then 0 else now + FENCE_MS\<rparr>
      | Some e \<Rightarrow> Some (if ec_epoch e \<noteq> epoch then e\<lparr>ec_epoch := epoch, ec_until := now + FENCE_MS\<rparr> else e))"
  by (auto simp: observe_epoch_def split: option.split)

lemma fenced_observe: "fenced user at c \<Longrightarrow> at \<le> now \<Longrightarrow> fenced user at (observe_epoch c v epoch now)"
  by (auto simp: fenced_def epoch_find_observe)

lemma fenced_read: "fenced user at c \<Longrightarrow> read_now c = (now, c') \<Longrightarrow> fenced user at c' \<and> (0 \<le> now \<longrightarrow> at \<le> now)"
  by (erule read_now_cases) (auto simp: fenced_def)

lemma fenced_used: "fenced user at c \<Longrightarrow> fenced user at (c\<lparr>pc_used := True\<rparr>)"
  by (simp add: fenced_def)

lemma fenced_step: "clock_step c c' \<Longrightarrow> fenced user at c \<Longrightarrow> fenced user at c'"
proof (induction rule: clock_step.induct)
  case (wait c v epoch)
  obtain now c1 where read: "read_now (c\<lparr>pc_used := True\<rparr>) = (now, c1)" by force
  with fenced_read [OF fenced_used [OF wait] read] show ?case
    by (simp add: clock_wait_def Let_def fenced_observe)
next
  case (reset c v epoch)
  obtain now c1 where read: "read_now (c\<lparr>pc_used := True\<rparr>) = (now, c1)" by force
  have "fenced user at (c1\<lparr>pc_epochs := epoch_write (\<lambda>e. e\<lparr>ec_until := now + FENCE_MS\<rparr>) v (pc_epochs c1)\<rparr>)"
    if "fenced user at c1" "at \<le> now" for c1
    using that by (auto simp: fenced_def)
  with fenced_read [OF fenced_used [OF reset] read] show ?case
    by (simp add: clock_reset_def Let_def read fenced_observe)
qed

lemma last_now_step: "clock_step c c' \<Longrightarrow> pc_last_now c \<le> pc_last_now c'"
  by (induction rule: clock_step.induct)
    (auto simp: clock_wait_def clock_reset_def Let_def split_beta read_now_def)

text \<open>No waiting time of zero before the fence ends.\<close>

lemma fenced_wait:
  assumes "fenced user at c" "clock_wait c user epoch = (wait, c')" "wait \<le> 0"
  shows "at + FENCE_MS \<le> pc_last_now c'"
proof -
  obtain now c1 where read: "read_now (c\<lparr>pc_used := True\<rparr>) = (now, c1)" by force
  from assms(2,3) have now: "0 \<le> now" "c' = observe_epoch c1 user epoch now"
    by (auto simp: clock_wait_def Let_def read FENCE_MS_def split: if_splits)
  from fenced_read [OF fenced_used [OF assms(1)] read] now
  have "fenced user at c'" by (simp add: fenced_observe)
  moreover have "pc_last_now c1 = now" using read now(1) by (auto elim: read_now_cases)
  ultimately show ?thesis
    using assms(2,3) now by (auto simp: clock_wait_def Let_def read fenced_def split: if_splits)
qed

text \<open>What the grants rely on: a fence, once raised for a key, is kept by every step of the clock, whose
  readings never go back, and no waiting time is zero before it ends.\<close>

locale fence =
  fixes step :: "'c \<Rightarrow> 'c \<Rightarrow> bool" and reading :: "'c \<Rightarrow> int" and raised :: "'k \<Rightarrow> int \<Rightarrow> 'c \<Rightarrow> bool"
    and wait :: "'c \<Rightarrow> 'k \<Rightarrow> 'e \<Rightarrow> int \<times> 'c" and span :: int
  assumes raised_step: "step c c' \<Longrightarrow> raised k at c \<Longrightarrow> raised k at c'"
    and reading_step: "step c c' \<Longrightarrow> reading c \<le> reading c'"
    and wait_over: "raised k at c \<Longrightarrow> wait c k e = (ms, c') \<Longrightarrow> ms \<le> 0 \<Longrightarrow> at + span \<le> reading c'"
begin

lemma raised_steps: "step\<^sup>*\<^sup>* c c' \<Longrightarrow> raised k at c \<Longrightarrow> raised k at c'"
  by (induction rule: rtranclp_induct) (auto intro: raised_step)

lemma reading_steps: "step\<^sup>*\<^sup>* c c' \<Longrightarrow> reading c \<le> reading c'"
  by (induction rule: rtranclp_induct) (auto dest: reading_step)

end

interpretation clock: fence clock_step pc_last_now fenced clock_wait FENCE_MS
  by unfold_locales (auto intro: fenced_step last_now_step fenced_wait)

text \<open>A reset at a valid reading raises the fence.\<close>

lemma fenced_reset:
  assumes "pc_now (clock_reset c user epoch) (pc_calls (clock_reset c user epoch) - 1)
      = pc_last_now (clock_reset c user epoch)"
    "0 \<le> pc_last_now (clock_reset c user epoch)" "pc_last_now (clock_reset c user epoch) \<le> INT64_MAX - FENCE_MS"
  shows "fenced user (pc_last_now (clock_reset c user epoch)) (clock_reset c user epoch)"
proof -
  obtain now c1 where read: "read_now (c\<lparr>pc_used := True\<rparr>) = (now, c1)" by force
  show ?thesis
  proof (cases "0 \<le> now")
    case True
    from read have c1: "pc_last_now c1 = now" "pc_used c1" using True by (auto elim: read_now_cases)
    then show ?thesis
      using assms(2) True
      by (auto simp: clock_reset_def Let_def read fenced_def epoch_find_observe split: option.split)
  next
    case False
    then have eq: "clock_reset c user epoch = c1" by (simp add: clock_reset_def Let_def read)
    from assms [unfolded eq] read False show ?thesis by (auto simp: read_now_def Let_def split: if_splits)
  qed
qed


text \<open>\<open>ticks m\<close>: whatever \<open>m\<close> does, the clock of the database only goes through such steps.\<close>

definition clock_steps :: "sb_proxy_clock option \<Rightarrow> sb_proxy_clock option \<Rightarrow> bool" where
  "clock_steps c c' \<longleftrightarrow>
     (case (c, c') of (Some x, Some y) \<Rightarrow> clock_step\<^sup>*\<^sup>* x y | (None, None) \<Rightarrow> True | _ \<Rightarrow> False)"

definition clock_goes :: "sb_database \<Rightarrow> sb_database \<Rightarrow> bool" where
  "clock_goes s s' \<longleftrightarrow> clock_steps (proxy_clock s) (proxy_clock s')"

lemma clock_steps_refl [simp]: "clock_steps c c"
  by (simp add: clock_steps_def split: option.split)

lemma clock_steps_trans: "clock_steps a b \<Longrightarrow> clock_steps b c \<Longrightarrow> clock_steps a c"
  by (auto simp: clock_steps_def split: option.splits)

interpretation ticking: db_beside clock_goes
  by unfold_locales (auto simp: clock_goes_def intro: clock_steps_trans)

abbreviation ticks :: "(sb_database, 'a) dbm \<Rightarrow> bool" where
  "ticks \<equiv> db_relation.within clock_goes"

named_theorems ticks_intros

lemmas ticks_rules [ticks_intros] = ticking.rules ticking.statement ticking.transaction

lemmas ticks_defs = ticking.within_def clock_goes_def

lemma ticksD: "ticks m \<Longrightarrow> clock_steps (proxy_clock s) (proxy_clock (snd (m s)))"
  by (simp add: ticks_defs)

lemma ticksI: "(\<And>s. clock_steps (proxy_clock s) (proxy_clock (snd (m s)))) \<Longrightarrow> ticks m"
  by (simp add: ticks_defs)

lemma ticks_library [ticks_intros]: "ticks sb_uuid_v4" "ticks (new_secret b)"
  by (rule ticksI; simp add: sb_uuid_v4_def new_secret_def Let_def dfail_def dret_def split: option.split)+

lemma ticks_clock [ticks_intros]:
  "ticks (sb_proxy_clock_wait_ms user epoch)" "ticks (sb_proxy_clock_reset_epoch user epoch)"
  by (auto simp: ticks_defs sb_proxy_clock_wait_ms_def sb_proxy_clock_reset_epoch_def clock_steps_def split_beta
      split: option.split intro: clock_step.intros)

lemma ticks_user_locked [ticks_intros]: "ticks (user_locked user)"
  unfolding user_locked_def devices_locked_def by (intro ticks_intros)

lemma ticks_nodes [ticks_intros]: "ticks (runtime_ready host now)" "ticks (node_locked host policy now)"
  "ticks (host_check host c m)" "ticks (devices_locked user policy now)"
  unfolding runtime_ready_def node_locked_def host_check_def devices_locked_def by (intro ticks_intros)+

lemma ticks_exchange [ticks_intros]: "ticks (exchange_body host boot seq hash reports now)"
  unfolding exchange_body_def exchange_fresh_def exchange_grants_def lease_user_def lease_locked_def
    lease_write_def report_locked_def
  by (intro ticks_intros)

lemma ticks_reads [ticks_intros]:
  "ticks (sb_proxy_claim_resolve token now)" "ticks (sb_proxy_subscription token now)"
  "ticks (sb_proxy_lease_exchange host request now)"
proof -
  show "ticks (sb_proxy_claim_resolve token now)"
    by (rule ticksI) (simp add: sb_proxy_claim_resolve_def Let_def dfail_def split: option.split,
        intro allI impI, rule ticksD, rule ticking.state, intro ticks_intros)
  show "ticks (sb_proxy_subscription token now)"
    by (rule ticksI) (simp add: sb_proxy_subscription_def Let_def dfail_def split: option.split,
        intro allI impI, rule ticksD, rule ticking.state, intro ticks_intros)
  show "ticks (sb_proxy_lease_exchange host request now)"
    by (rule ticksI) (simp add: sb_proxy_lease_exchange_def Let_def dfail_def,
        intro impI, rule ticksD, rule ticking.state, intro ticks_intros)
qed

lemma ticks_claim_rotate [ticks_intros]: "ticks (sb_proxy_claim_rotate user now)"
  unfolding sb_proxy_claim_rotate_def
  by (rule ticking.dbind [OF ticks_library(2)], rule ticking.state) (intro ticks_intros)

lemma ticks_device_create [ticks_intros]: "ticks (sb_proxy_device_create user body now)"
proof -
  have later: "ticks (\<lambda>s. let (password, s) = new_secret True s; (token, s) = new_secret False s in
      case (password, token) of
        (Inr password, Inr token) \<Rightarrow>
          dbind (transaction (device_create_body
              (device_new i user body password (sb_sha256_hex token s) now) now))
            (\<lambda>_. dret (device_result i body token)) s
      | (_, Inl e) \<Rightarrow> (Inl e, s)
      | (Inl e, _) \<Rightarrow> (Inl e, s))" (is "ticks ?m") for i
  proof (rule ticksI)
    fix s
    obtain p s1 where p: "new_secret True s = (p, s1)" by force
    obtain q s2 where q: "new_secret False s1 = (q, s2)" by force
    have clock: "proxy_clock s2 = proxy_clock s"
      using p q by (auto simp: new_secret_def Let_def dfail_def dret_def split: option.splits)
    have body: "ticks (device_create_body d now)" for d
      unfolding device_create_body_def by (intro ticks_intros)
    show "clock_steps (proxy_clock s) (proxy_clock (snd (?m s)))"
      using clock by (simp add: p q split: sum.split)
        (intro allI impI, rule ticksD [where s = s2, unfolded clock], rule ticking.state,
          intro ticks_intros body)
  qed
  show ?thesis unfolding sb_proxy_device_create_def by (intro ticks_intros later)
qed

lemma ticks_entries [ticks_intros]:
  "ticks (sb_proxy_runtime_report host capabilities now)" "ticks (sb_proxy_user_get user)"
  "ticks sb_proxy_users_list" "ticks (sb_proxy_user_save i body now)" "ticks (sb_proxy_user_remove user now)"
  "ticks (sb_proxy_user_reset user now)" "ticks (sb_proxy_device_revoke user device now)"
  "ticks (sb_proxy_ingress_list now)" "ticks (sb_proxy_ingress_save host body now)"
  unfolding sb_proxy_runtime_report_def sb_proxy_user_get_def sb_proxy_users_list_def
    sb_proxy_user_save_def user_save_body_def user_change_ok_def user_room_def ingress_check_def
    sb_proxy_user_remove_def sb_proxy_user_reset_def sb_proxy_device_revoke_def
    sb_proxy_ingress_list_def sb_proxy_ingress_save_def ingress_save_body_def
  by (intro ticks_intros)+

lemma ticks_op: "ticks (run_op op now)"
  by (cases op; simp add: then_null_def; intro ticks_intros)


text \<open>The grants of a user, apart from the usage reported on them.\<close>

definition grants :: "string \<Rightarrow> proxy_db \<Rightarrow> (string \<times> string \<times> string \<times> int \<times> int \<times> int) list" where
  "grants user t =
     map (\<lambda>l. (ls_id l, ls_host l, ls_boot l, ls_epoch l, ls_grant_bytes l, ls_expires_at l))
       (filter (\<lambda>l. ls_user l = user) (t_leases t))"

definition same_grants :: "string \<Rightarrow> sb_database \<Rightarrow> sb_database \<Rightarrow> bool" where
  "same_grants user s s' \<longleftrightarrow> grants user (tables s') = grants user (tables s)"

interpretation granting: db_relation "same_grants user" for user
  by unfold_locales (simp_all add: same_grants_def)

abbreviation keeps_grants :: "string \<Rightarrow> (sb_database, 'a) dbm \<Rightarrow> bool" where
  "keeps_grants user \<equiv> db_relation.within (same_grants user)"

lemma keeps_readonly: "readonly m \<Longrightarrow> keeps_grants user m"
  by (simp add: granting.within_def reading.within_def same_grants_def same_tables_def)

lemma keeps_run:
  "(\<And>t t' n. sql t = Inr (t', n) \<Longrightarrow> grants user t' = grants user t) \<Longrightarrow> keeps_grants user (sql_run sql)"
  by (rule granting.run) (simp add: same_grants_def)

lemma grants_map:
  assumes "\<And>l. ls_user (f l) = ls_user l"
    "\<And>l. ls_user l = user \<Longrightarrow> ls_id (f l) = ls_id l \<and> ls_host (f l) = ls_host l \<and> ls_boot (f l) = ls_boot l
      \<and> ls_epoch (f l) = ls_epoch l \<and> ls_grant_bytes (f l) = ls_grant_bytes l
      \<and> ls_expires_at (f l) = ls_expires_at l"
  shows "grants user (t\<lparr>t_leases := map f ls\<rparr>) = grants user (t\<lparr>t_leases := ls\<rparr>)"
  using assms by (induction ls) (auto simp: grants_def)

lemma grants_self: "grants user (t\<lparr>t_leases := t_leases t\<rparr>) = grants user t"
  by (simp add: grants_def)

lemma grants_usage: "lease_usage i used now t = Inr (t', n) \<Longrightarrow> grants user t' = grants user t"
  by (auto simp: lease_usage_def upd_rows_def Let_def grants_map grants_self split: if_splits)

lemma grants_upsert:
  "lease_upsert new t = Inr (t', n) \<Longrightarrow> ls_user new \<noteq> user \<Longrightarrow> grants user t' = grants user t"
  by (erule lease_upsert_cases) (auto simp: grants_map grants_self same_slot_def, simp add: grants_def)

lemma keeps_report: "keeps_grants user (report_locked host boot report now)"
  unfolding report_locked_def by (intro granting.rules keeps_run) (rule grants_usage)

lemma keeps_lease_locked:
  assumes "other \<noteq> user"
  shows "keeps_grants user (lease_locked host boot other epoch quota expiry now)"
proof -
  have "keeps_grants user (lease_write i l devices)" if "ls_user l \<noteq> user" for i l devices
  proof -
    have uuid: "keeps_grants user (case i of None \<Rightarrow> sb_uuid_v4 | Some i \<Rightarrow> dret i)"
      by (rule keeps_readonly) (simp add: readonly_intros split: option.split)
    have run: "keeps_grants user (sql_run (lease_upsert (l\<lparr>ls_id := k\<rparr>)))" for k
      by (rule keeps_run, erule grants_upsert) (use that in simp)
    show ?thesis
      unfolding lease_write_def Let_def
      by (rule granting.dbind [OF uuid], rule granting.dbind [OF run], rule keeps_readonly, rule reading.basic)
  qed
  then show ?thesis
    using assms unfolding lease_locked_def Let_def
    by (auto intro!: granting.dbind [OF keeps_readonly] granting.branch readonly_devices_locked reading.first
        split: option.split) (auto intro!: keeps_readonly reading.basic)
qed

text \<open>\<open>guarded user at m\<close>: behind the fence, \<open>m\<close> leaves the grants of the user alone, or the fence is
  over when it ends.\<close>

definition behind :: "string \<Rightarrow> int \<Rightarrow> sb_database \<Rightarrow> bool" where
  "behind user at s \<longleftrightarrow> (\<exists>c. proxy_clock s = Some c \<and> fenced user at c)"

definition over :: "int \<Rightarrow> sb_database \<Rightarrow> bool" where
  "over at s \<longleftrightarrow> (\<exists>c. proxy_clock s = Some c \<and> at + FENCE_MS \<le> pc_last_now c)"

definition guarded :: "string \<Rightarrow> int \<Rightarrow> (sb_database, 'a) dbm \<Rightarrow> bool" where
  "guarded user at m \<longleftrightarrow> ticks m \<and> (\<forall>s. behind user at s \<longrightarrow>
     grants user (tables (snd (m s))) = grants user (tables s) \<or> over at (snd (m s)))"

lemma steps_behind: "clock_goes s s' \<Longrightarrow> behind user at s \<Longrightarrow> behind user at s'"
  by (auto simp: behind_def clock_goes_def clock_steps_def clock.raised_steps split: option.splits)

lemma steps_over: "clock_goes s s' \<Longrightarrow> over at s \<Longrightarrow> over at s'"
  by (fastforce simp: over_def clock_goes_def clock_steps_def dest: clock.reading_steps split: option.splits)

lemma ticks_behind: "ticks m \<Longrightarrow> m s = (r, s') \<Longrightarrow> behind user at s \<Longrightarrow> behind user at s'"
  by (rule steps_behind [OF ticking.withinD])

lemma ticks_over: "ticks m \<Longrightarrow> m s = (r, s') \<Longrightarrow> over at s \<Longrightarrow> over at s'"
  by (rule steps_over [OF ticking.withinD])

lemma guarded_keeps: "ticks m \<Longrightarrow> keeps_grants user m \<Longrightarrow> guarded user at m"
  by (simp add: guarded_def granting.within_def same_grants_def)

lemma guarded_ticks: "guarded user at m \<Longrightarrow> ticks m"
  by (simp add: guarded_def)

lemma guardedD:
  "guarded user at m \<Longrightarrow> m s = (r, s') \<Longrightarrow> behind user at s \<Longrightarrow>
     grants user (tables s') = grants user (tables s) \<or> over at s'"
  by (metis guarded_def snd_conv)

lemma guarded_dbind:
  assumes m: "guarded user at m" and f: "\<And>x. guarded user at (f x)"
  shows "guarded user at (dbind m f)"
proof -
  have "grants user (tables (snd (dbind m f s))) = grants user (tables s) \<or> over at (snd (dbind m f s))"
    if behind: "behind user at s" for s
  proof -
    obtain r s1 where run: "m s = (r, s1)" by force
    note one = guardedD [OF m run behind] ticks_behind [OF guarded_ticks [OF m] run behind]
    show ?thesis
    proof (cases r)
      case (Inl e)
      then show ?thesis using one run by (simp add: dbind_def)
    next
      case (Inr x)
      obtain q s2 where two: "f x s1 = (q, s2)" by force
      show ?thesis
        using one guardedD [OF f two] ticks_over [OF guarded_ticks [OF f] two] Inr run two
        by (auto simp: dbind_def)
    qed
  qed
  then show ?thesis
    using guarded_ticks [OF m] guarded_ticks [OF f] by (simp add: guarded_def ticking.dbind)
qed

lemma guarded_readonly: "ticks m \<Longrightarrow> readonly m \<Longrightarrow> guarded user at m"
  by (simp add: guarded_keeps keeps_readonly)

lemma guarded_basic [simp]: "guarded user at (dret x)" "guarded user at (dfail c m)" "guarded user at dsilent"
  "guarded user at (sbq_step_row row)" "guarded user at sbq_prepare" "guarded user at (sql_first q)"
  by (intro guarded_readonly ticks_intros readonly_intros)+

lemma guarded_each:
  assumes "\<And>r acc. guarded user at (f r acc)"
  shows "guarded user at (sql_each q f acc)"
proof -
  have loop: "guarded user at (sql_loop f rs acc)" for rs
    using assms by (induction rs arbitrary: acc) (simp_all add: guarded_dbind)
  have "guarded user at (\<lambda>s. sql_loop f (q (tables s)) acc s)"
    using loop unfolding guarded_def ticking.within_def by blast
  then show ?thesis unfolding sql_each_def by (simp add: guarded_dbind)
qed

lemma guarded_lease_user: "guarded user at (lease_user host boot now u out)"
proof (cases "us_id u = user")
  case False
  have locked: "guarded user at (lease_locked host boot (us_id u) epoch quota expiry now)" for epoch quota expiry
    using False
    by (intro guarded_keeps keeps_lease_locked) (simp_all add: lease_locked_def lease_write_def ticks_intros)
  show ?thesis
    unfolding lease_user_def
    by (rule guarded_dbind, rule guarded_readonly, rule ticks_clock, rule readonly_library)
      (simp add: guarded_dbind locked)
next
  case True
  have ticks: "ticks (lease_user host boot now u out)"
    unfolding lease_user_def lease_locked_def lease_write_def by (intro ticks_intros)
  have "grants user (tables s') = grants user (tables s) \<or> over at s'"
    if behind: "behind user at s" and run: "lease_user host boot now u out s = (r, s')" for s r s'
  proof -
    from behind obtain c where c: "proxy_clock s = Some c" "fenced user at c" by (auto simp: behind_def)
    obtain wait c1 where wait: "clock_wait c user (us_epoch u) = (wait, c1)" by force
    let ?s1 = "s\<lparr>proxy_clock := Some c1\<rparr>"
    let ?m = "dbind (lease_locked host boot (us_id u) (us_epoch u) (us_quota_bytes u) (us_expires_at u) now)
      (\<lambda>v. dret (if sbj_is_null (Some v) then out else sbj_arr_push out (Some v)))"
    have ask: "sb_proxy_clock_wait_ms (us_id u) (us_epoch u) s = (Inr wait, ?s1)"
      using c(1) wait True by (simp add: sb_proxy_clock_wait_ms_def)
    show ?thesis
    proof (cases "wait > 0 \<or> us_not_before u > now")
      case True
      then have "s' = ?s1" using run ask by (simp add: lease_user_def dbind_def dret_def)
      then show ?thesis by simp
    next
      case False
      then have run': "?m ?s1 = (r, s')" using run ask by (simp add: lease_user_def dbind_def)
      have "over at ?s1" using clock.wait_over [OF c(2) wait] False by (simp add: over_def)
      moreover have "ticks ?m" unfolding lease_locked_def lease_write_def by (intro ticks_intros)
      ultimately show ?thesis using ticks_over [where m = ?m and s = ?s1, OF _ run'] by blast
    qed
  qed
  then show ?thesis using ticks unfolding guarded_def by (metis prod.collapse)
qed

lemma guarded_exchange: "guarded user at (exchange_body host boot seq hash reports now)"
proof -
  have reports: "guarded user at (dfor reports (\<lambda>r. report_locked host boot r now))"
    by (intro guarded_keeps granting.for_each keeps_report ticks_intros) (simp add: report_locked_def ticks_intros)
  have session: "guarded user at (sql_run (session_upsert e))" for e
    by (intro guarded_keeps keeps_run ticks_intros) (auto simp: session_upsert_def grants_def)
  have nodes: "guarded user at (host_check host c m)" "guarded user at (runtime_ready host now)"
    "guarded user at (node_locked host policy now)" for c m policy
    by (intro guarded_readonly ticks_intros readonly_intros)+
  have grants: "guarded user at (exchange_grants host boot now)"
    unfolding exchange_grants_def
    by (intro guarded_dbind nodes guarded_basic guarded_each guarded_lease_user)
      (auto intro!: guarded_dbind nodes guarded_each guarded_lease_user)
  have fresh: "guarded user at (exchange_fresh host boot seq hash reports now)"
    unfolding exchange_fresh_def Let_def
    by (intro guarded_dbind [OF reports] guarded_dbind [OF grants]) (auto intro!: guarded_dbind [OF session])
  show ?thesis
    unfolding exchange_body_def Let_def
    by (intro guarded_dbind nodes guarded_basic) (auto simp: fresh split: option.split sum.split)
qed


text \<open>What may happen to a database of the process: its own operations, attempts to replace the clock
  source, and whatever other connections do to the tables and, within this process, to the clock
  they share.\<close>

inductive goes_on :: "sb_database \<Rightarrow> sb_database \<Rightarrow> bool" for s where
  now: "goes_on s s"
| op: "goes_on s (snd (run_op op now s1))" if "goes_on s s1"
| source: "goes_on s (snd (sb_proxy_clock_set_source src s1))" if "goes_on s s1"
| elsewhere: "goes_on s (s1\<lparr>tables := t, codes := cs, proxy_clock := c\<rparr>)"
  if "goes_on s s1" "clock_steps (proxy_clock s1) c"

lemma goes_on_behind: "goes_on s s' \<Longrightarrow> behind user at s \<Longrightarrow> behind user at s'"
proof (induction rule: goes_on.induct)
  case now
  then show ?case .
next
  case (op s1 op now)
  then show ?case by (metis steps_behind ticking.withinD [OF ticks_op] prod.collapse)
next
  case (source s1 src)
  then show ?case
    by (auto simp: behind_def fenced_def sb_proxy_clock_set_source_def clock_set_source_def sb_fail_def dfail_def
        split: option.split)
next
  case (elsewhere s1 c cs t)
  then show ?case using steps_behind [of s1 "s1\<lparr>tables := t, codes := cs, proxy_clock := c\<rparr>"] by (simp add: clock_goes_def)
qed

lemma transaction_Inr:
  assumes "transaction body s = (Inr x, s')"
  obtains s0 s1 cs cs' where "s0 = s\<lparr>codes := cs, saved := Some (tables s)\<rparr>" "body s0 = (Inr x, s1)"
    "s' = s1\<lparr>codes := cs', saved := None\<rparr>"
  using assms
  by (auto simp: transaction_def sbq_begin_def sbq_commit_def sbq_exec_def dbind_def dret_def Let_def sbq_fail_def
      sb_fail_def split: prod.splits sum.splits if_splits dest!: next_code_codes)

lemma exchange_behind:
  assumes "sb_proxy_lease_exchange host request now s = (Inr out, s')" "behind user at s"
  shows "grants user (tables s') = grants user (tables s) \<or> over at s'"
proof -
  let ?body = "exchange_body host (member_text request ''boot_id'') (body_int request ''request_seq'' 0)
    (sb_sha256_hex (sbj_dump request (- 1)) s) (json_items (jget request ''reports'')) now"
  have "transaction ?body s = (Inr out, s')"
    using assms(1) by (auto simp: sb_proxy_lease_exchange_def Let_def dfail_def sb_fail_def split: if_splits)
  then show ?thesis
  proof (cases rule: transaction_Inr)
    case (1 s0 s1 cs cs')
    have "behind user at s0" using assms(2) 1(1) by (simp add: behind_def)
    from guardedD [OF guarded_exchange 1(2) this] show ?thesis using 1(1,3) by (simp add: over_def)
  qed
qed

lemma reset_clock:
  assumes "sb_proxy_user_reset user now s = (Inr out, s')" "proxy_clock s' = Some c"
  shows "\<exists>c0 epoch. c = clock_reset c0 user epoch"
proof -
  from assms(1) obtain s0 s1 where "(dbind (sql_run (user_next_epoch user now)) (\<lambda>changes.
       if changes \<noteq> 1 then dfail SB_ERR_NOT_FOUND ''Proxy user not found''
       else dbind (user_locked user) (\<lambda>out.
         dbind (sb_proxy_clock_reset_epoch user (body_int (Some out) ''epoch'' 0)) (\<lambda>_.
           dret (jset_int out ''lease_wait_seconds'' LEASE_SECONDS))))) s0 = (Inr out, s1)"
      "proxy_clock s' = proxy_clock s1"
    by (auto simp: sb_proxy_user_reset_def dfail_def sb_fail_def split: if_splits elim!: transaction_Inr)
  then show ?thesis
    using assms(2)
    by (auto simp: map_option_case dbind_def dret_def dfail_def sb_fail_def sb_proxy_clock_reset_epoch_def
        split: prod.splits sum.splits if_splits option.splits) blast
qed

text \<open>(C3) After a reset of a user at a valid reading of the monotonic clock, whatever the process and
  others do in between, and whatever the wall clock shows, an exchange that runs before 60 seconds
  have passed on that clock leaves the grants of the user as they are: nothing of the new epoch is
  granted while leases of the old one may be in use.\<close>

theorem reset_fence:
  assumes "sb_proxy_user_reset user now s = (Inr out, s1)" "proxy_clock s1 = Some c"
    and "pc_now c (pc_calls c - 1) = pc_last_now c" "0 \<le> pc_last_now c" "pc_last_now c \<le> INT64_MAX - FENCE_MS"
    and "goes_on s1 s2" "sb_proxy_lease_exchange host request later s2 = (Inr answer, s3)"
    and "proxy_clock s3 = Some c3" "pc_last_now c3 < pc_last_now c + 60000"
  shows "grants user (tables s3) = grants user (tables s2)"
proof -
  obtain c0 epoch where "c = clock_reset c0 user epoch" using reset_clock [OF assms(1,2)] by blast
  then have "behind user (pc_last_now c) s1"
    using fenced_reset [of c0 user epoch] assms(2-5) by (simp add: behind_def)
  from exchange_behind [OF assms(7) goes_on_behind [OF assms(6) this]] show ?thesis
    using assms(8,9) by (auto simp: over_def FENCE_MS_def)
qed

end
