(* ===== verification/Proxy_Grants.thy ===== *)
theory Proxy_Grants
  imports Proxy_Fence
begin

text \<open>
  Leases are granted: when SQLite goes through, the random identifiers are new and the fences have
  ended, an exchange of a ready node succeeds and serves every user with a device and budget left. A
  concrete database is built with the entry points themselves and taken through such an exchange.
\<close>


subsection \<open>A scenario\<close>

text \<open>When SQLite goes through, the steps of an operation are evaluated one by one.\<close>

lemma smooth_dbind: "m s = (Inr x, s') \<Longrightarrow> dbind m f s = f x s'"
  by (simp add: dbind_def)

lemma smooth_dret: "dret x s = (Inr x, s)"
  by (simp add: dret_def)

lemma smooth_wait:
  "proxy_clock s = Some c \<Longrightarrow> sb_proxy_clock_wait_ms u e s =
     (Inr (fst (clock_wait c u e)), s\<lparr>proxy_clock := Some (snd (clock_wait c u e))\<rparr>)"
  by (simp add: sb_proxy_clock_wait_ms_def split_beta)

lemma smooth_uuid: "sb_uuid_v4 s = (Inr (next_uuid s), s\<lparr>uuid_calls := uuid_calls s + 1\<rparr>)"
  by (simp add: sb_uuid_v4_def)

lemma smooth_secret:
  "secret_bytes s (secret_calls s) (if b then 16 else 32) = Some raw \<Longrightarrow> new_secret b s =
     (Inr (if b then sb_base64_encode raw else sb_base64url_encode raw), s\<lparr>secret_calls := secret_calls s + 1\<rparr>)"
  by (simp add: new_secret_def Let_def dret_def)

lemmas smooth_steps = smooth_dbind smooth_dret smooth_wait smooth_uuid smooth_secret

text \<open>A database with one enabled host, a clock that shows one fixed time, and simple random
  bytes. The host reports its runtime and becomes an ingress node; a user with a quota of 100 bytes
  is created and gets a device.\<close>

definition scene_tables :: proxy_db where
  "scene_tables =
     \<lparr>t_schema = [], t_hosts = [\<lparr>hs_id = ''self'', hs_enabled = True\<rparr>],
      t_reports = [\<lparr>rp_host = ''self'', rp_supported = True, rp_observed_at = 1000\<rparr>],
      t_ingress = [\<lparr>in_host = ''self'', in_enabled = True, in_server = ''a.b'', in_listen = ''1.2.3.4'',
        in_listen_port = 8388, in_server_key = ''AQEBAQEBAQEBAQEBAQEBAQ=='', in_updated_at = 1000\<rparr>],
      t_users = [], t_user_nodes = [], t_devices = [], t_leases = [], t_sessions = []\<rparr>"

text \<open>Sixteen bytes that differ in the first.\<close>

definition scene_uuid :: "nat \<Rightarrow> string" where
  "scene_uuid n = uuid_text (of_byte n # replicate 15 (CHR 0x00))"

definition scene :: sb_database where
  "scene =
     \<lparr>tables = scene_tables, saved = None, codes = [], errmsg = (\<lambda>_. []),
      proxy_clock = Some (clock_new \<lparr>id_device = 0, id_inode = 0, id_memory = Some 0, id_process = 1\<rparr>
        0 (\<lambda>_. 1000)),
      uuid_bytes = (\<lambda>n. of_byte n # replicate 15 (CHR 0x00)), uuid_calls = 0,
      secret_bytes = (\<lambda>n size. Some (of_byte n # replicate (size - 1) (CHR 0x00))), secret_calls = 0,
      sha256 = (\<lambda>d. d)\<rparr>"

lemma scene_simps [simp]:
  "tables scene = scene_tables" "saved scene = None" "codes scene = []" "uuid_calls scene = 0"
  "uuid_text (uuid_bytes scene n) = scene_uuid n" "sha256 scene = (\<lambda>d. d)"
  by (simp_all add: scene_def scene_uuid_def)

lemma scene_tables_simps [simp]:
  "t_users scene_tables = []" "t_leases scene_tables = []" "t_devices scene_tables = []" "t_sessions scene_tables = []"
  "t_user_nodes scene_tables = []" "t_ingress scene_tables = [\<lparr>in_host = ''self'', in_enabled = True,
    in_server = ''a.b'', in_listen = ''1.2.3.4'', in_listen_port = 8388, in_server_key = ''AQEBAQEBAQEBAQEBAQEBAQ=='',
    in_updated_at = 1000\<rparr>]"
  "t_hosts scene_tables = [\<lparr>hs_id = ''self'', hs_enabled = True\<rparr>]"
  "t_reports scene_tables = [\<lparr>rp_host = ''self'', rp_supported = True, rp_observed_at = 1000\<rparr>]"
  by (simp_all add: scene_tables_def)

definition scene_user :: sbj where
  "scene_user = SBJ_OBJECT [(''enabled'', SBJ_BOOL True), (''expires_at'', SBJ_INT 0),
     (''host_ids'', SBJ_ARRAY [SBJ_STRING ''self'']), (''max_devices'', SBJ_INT 1),
     (''name'', SBJ_STRING ''a''), (''quota_bytes'', SBJ_INT 100)]"

lemma scene_user_members [simp]:
  "jget (Some scene_user) ''enabled'' = Some (SBJ_BOOL True)"
  "jget (Some scene_user) ''expires_at'' = Some (SBJ_INT 0)"
  "jget (Some scene_user) ''host_ids'' = Some (SBJ_ARRAY [SBJ_STRING ''self''])"
  "jget (Some scene_user) ''max_devices'' = Some (SBJ_INT 1)"
  "jget (Some scene_user) ''name'' = Some (SBJ_STRING ''a'')"
  "jget (Some scene_user) ''quota_bytes'' = Some (SBJ_INT 100)"
  by (simp_all add: scene_user_def sbj_accessors obj_getn_map_of less_char_def)

lemma scene_text_ok [simp]: "text_ok (Some (SBJ_STRING ''self'')) 128 True" "text_ok (Some (SBJ_STRING ''a'')) 128 b"
  by (simp_all add: text_ok_def sbj_validate_utf8_def utf8_check_iff valid_utf8.simps ctype_defs)

lemma scene_user_ok: "user_body_ok (Some scene_user)" "host_ids_ok [] [SBJ_STRING ''self''] = Inr ()"
  by (simp_all add: user_body_ok_def number_ok_def SAFE_INTEGER_def) (simp add: scene_user_def)


text \<open>The tables after the user and a device of theirs were created.\<close>

definition stage_user :: user_row where
  "stage_user = \<lparr>us_id = scene_uuid 0, us_name = ''a'', us_enabled = True, us_deleted = False,
     us_quota_bytes = 100, us_expires_at = 0, us_max_devices = 1, us_epoch = 1, us_not_before = 0,
     us_claim_hash = None, us_created_at = 1000, us_updated_at = 1000\<rparr>"

definition stage1 :: proxy_db where
  "stage1 = scene_tables\<lparr>t_users := [stage_user], t_user_nodes := [(scene_uuid 0, ''self'')]\<rparr>"

lemma stage1_saved: "\<exists>out s. sb_proxy_user_save None (Some scene_user) 1000 scene = (Inr out, s) \<and> tables s = stage1"
proof -
  obtain c where c: "proxy_clock scene = Some c" by (simp add: scene_def)
  have "\<exists>out s. user_save_body True (scene_uuid 0) (Some scene_user) 1000
      (scene\<lparr>uuid_calls := 1, saved := Some scene_tables\<rparr>) = (Inr out, s) \<and> tables s = stage1 \<and> codes s = []"
    by (simp add: smooth_steps c user_save_body_def user_room_def ingress_check_def user_upsert_def
        user_nodes_delete_def user_node_insert_def user_locked_def devices_locked_def upsert_def upd_rows_def
        user_query_def Let_def split_beta user_new_def user_fields_def live_user_def sbj_get_bool_def
        sbj_get_int_def sbj_get_str_def sbj_accessors stage1_def stage_user_def)
  then show ?thesis
    by (auto simp: sb_proxy_user_save_def scene_user_ok smooth_steps smooth_transaction)
qed

definition scene_device :: sbj where
  "scene_device = SBJ_OBJECT [(''name'', SBJ_STRING ''a'')]"

definition stage_device :: device_row where
  "stage_device = \<lparr>dv_id = scene_uuid 1, dv_user = scene_uuid 0, dv_name = ''a'', dv_enabled = True,
     dv_password = sb_base64_encode (of_byte 0 # replicate 15 (CHR 0x00)),
     dv_token_hash = sb_hex_encode (sb_base64url_encode (of_byte 1 # replicate 31 (CHR 0x00))),
     dv_expires_at = 0, dv_created_at = 1000, dv_revoked_at = None\<rparr>"

definition stage :: sb_database where
  "stage = scene\<lparr>tables := stage1\<lparr>t_devices := [stage_device]\<rparr>, uuid_calls := 2\<rparr>"

lemma scene_secret [simp]:
  "secret_bytes scene n k = Some (of_byte n # replicate (k - 1) (CHR 0x00))" "secret_calls scene = 0"
  by (simp_all add: scene_def)

lemma scene_device_ok: "device_body_ok (Some scene_device) 1000" "member_text (Some scene_device) ''name'' = ''a''"
  "body_int (Some scene_device) ''expires_at'' 0 = 0"
  by (simp_all add: scene_device_def device_body_ok_def sbj_has_def sbj_get_int_def sbj_get_str_def sbj_accessors
      obj_getn_map_of less_char_def Let_def)

lemma stage_saved:
  "\<exists>out s. sb_proxy_device_create (scene_uuid 0) (Some scene_device) 1000
     (scene\<lparr>tables := stage1, uuid_calls := 1\<rparr>) = (Inr out, s) \<and> tables s = tables stage"
proof -
  let ?s = "scene\<lparr>tables := stage1, uuid_calls := Suc (Suc 0), secret_calls := Suc (Suc 0)\<rparr>"
  let ?body = "device_create_body (device_new (scene_uuid 1) (scene_uuid 0) (Some scene_device)
        (dv_password stage_device) (dv_token_hash stage_device) 1000) 1000"
  have "?body (?s\<lparr>saved := Some (tables ?s)\<rparr>) = (Inr (), ?s\<lparr>saved := Some stage1, tables := tables stage\<rparr>)"
    by (simp add: smooth_steps device_create_body_def device_room_def device_new_def device_insert_def
        usable_user_def unexpired_def device_count_def stage1_def stage_user_def stage_def stage_device_def
        scene_device_ok)
  from smooth_transaction [where body = ?body, OF _ this]
  have "transaction ?body ?s = (Inr (), ?s\<lparr>saved := None, tables := tables stage\<rparr>)" by simp
  then show ?thesis
    using scene_device_ok(1)
    by (simp add: sb_proxy_device_create_def smooth_steps sb_sha256_hex_def stage_device_def)
qed

lemma stage_reachable: "reachable (tables stage)"
proof -
  have start: "reachable (tables scene)" by (rule reachable.start) simp_all
  obtain out s1 where "run_op (User_Save None (Some scene_user)) 1000 scene = (Inr out, s1)" "tables s1 = stage1"
    using stage1_saved by auto
  with reachable.step [OF start _ _ this(1)] have one: "reachable stage1" by simp
  obtain out s2 where "run_op (Device_Create (scene_uuid 0) (Some scene_device)) 1000
      (scene\<lparr>tables := stage1, uuid_calls := 1\<rparr>) = (Inr out, s2)" "tables s2 = tables stage"
    using stage_saved by auto
  with reachable.step [OF _ _ _ this(1)] one show ?thesis by simp
qed

text \<open>The node asks for leases.\<close>

definition stage_request :: sbj where
  "stage_request = SBJ_OBJECT [(''boot_id'', SBJ_STRING ''a''), (''reports'', SBJ_ARRAY []),
     (''request_seq'', SBJ_INT 1), (''version'', SBJ_INT 1)]"

lemma stage_request_members [simp]:
  "jget (Some stage_request) ''boot_id'' = Some (SBJ_STRING ''a'')"
  "jget (Some stage_request) ''reports'' = Some (SBJ_ARRAY [])"
  "jget (Some stage_request) ''request_seq'' = Some (SBJ_INT 1)"
  "jget (Some stage_request) ''version'' = Some (SBJ_INT 1)"
  by (simp_all add: stage_request_def sbj_accessors obj_getn_map_of less_char_def)

lemma stage_request_ok: "exchange_ok (Some stage_request) 1000"
  by (simp add: exchange_ok_def number_ok_def SAFE_INTEGER_def) (simp add: stage_request_def)

lemma stage_simps [simp]:
  "codes stage = []" "saved stage = None" "t_users (tables stage) = [stage_user]"
  "t_devices (tables stage) = [stage_device]" "t_user_nodes (tables stage) = [(scene_uuid 0, ''self'')]"
  "t_leases (tables stage) = []" "t_sessions (tables stage) = []" "t_ingress (tables stage) = t_ingress scene_tables"
  "t_hosts (tables stage) = t_hosts scene_tables" "t_reports (tables stage) = t_reports scene_tables"
  "uuid_text (uuid_bytes stage n) = scene_uuid n" "uuid_calls stage = 2" "sha256 stage = (\<lambda>d. d)"
  "proxy_clock stage = proxy_clock scene"
  by (simp_all add: stage_def stage1_def)


subsection \<open>Leases are granted\<close>

text \<open>The next \<open>n\<close> identifiers are different from each other and from the leases that exist.\<close>

definition fresh_ids :: "nat \<Rightarrow> sb_database \<Rightarrow> bool" where
  "fresh_ids n s \<longleftrightarrow> inj_on (\<lambda>i. uuid_text (uuid_bytes s i)) {uuid_calls s ..< uuid_calls s + n}
     \<and> (\<forall>i\<in>{uuid_calls s ..< uuid_calls s + n}.
          uuid_text (uuid_bytes s i) \<notin> ls_id ` set (t_leases (tables s)))"

lemma fresh_ids_mono: "fresh_ids n s \<Longrightarrow> m \<le> n \<Longrightarrow> fresh_ids m s"
  by (auto simp: fresh_ids_def intro: inj_on_subset)

lemma fresh_ids_next:
  assumes "fresh_ids (Suc n) s" "ls_id ` set ls \<subseteq> insert (next_uuid s) (ls_id ` set (t_leases (tables s)))"
  shows "fresh_ids n (s\<lparr>uuid_calls := Suc (uuid_calls s), tables := (tables s)\<lparr>t_leases := ls\<rparr>\<rparr>)"
proof -
  let ?D = "{uuid_calls s ..< uuid_calls s + Suc n}"
  have inj: "inj_on (\<lambda>i. uuid_text (uuid_bytes s i)) ?D"
    and old: "\<And>i. i \<in> ?D \<Longrightarrow> uuid_text (uuid_bytes s i) \<notin> ls_id ` set (t_leases (tables s))"
    using assms(1) by (simp_all add: fresh_ids_def)
  have "uuid_text (uuid_bytes s i) \<notin> ls_id ` set ls" if i: "i \<in> ?D" "i \<noteq> uuid_calls s" for i
  proof -
    have "uuid_text (uuid_bytes s i) \<noteq> next_uuid s" using inj_onD [OF inj, of i "uuid_calls s"] i by auto
    then show ?thesis using old [of i] i assms(2) by auto
  qed
  moreover have "inj_on (\<lambda>i. uuid_text (uuid_bytes s i)) {Suc (uuid_calls s) ..< uuid_calls s + Suc n}"
    by (rule inj_on_subset [OF inj]) auto
  ultimately show ?thesis by (auto simp: fresh_ids_def)
qed

lemma fresh_ids_same:
  "fresh_ids n s \<Longrightarrow> ls_id ` set ls \<subseteq> ls_id ` set (t_leases (tables s)) \<Longrightarrow>
     fresh_ids n (s\<lparr>tables := (tables s)\<lparr>t_leases := ls\<rparr>\<rparr>)"
  unfolding fresh_ids_def by auto

lemma grant_after_more:
  assumes "1 \<le> hosts" "allocated < (if quota \<noteq> 0 then quota else SAFE_INTEGER)" "0 \<le> used" "used \<le> grant"
  shows "used < grant_after quota allocated hosts grant used"
proof -
  define available where "available = (if quota \<noteq> 0 then quota else SAFE_INTEGER) - allocated"
  define share where "share = available div hosts + (if available mod hosts \<noteq> 0 then 1 else 0)"
  have "0 < available" using assms(2) by (simp add: available_def)
  have "0 < share"
  proof (cases "available mod hosts = 0")
    case True
    then have "available = hosts * (available div hosts)" using mult_div_mod_eq [of hosts available] by simp
    then show ?thesis using \<open>0 < available\<close> assms(1) True by (auto simp: share_def zero_less_mult_iff)
  next
    case False
    then show ?thesis using \<open>0 < available\<close> assms(1) by (simp add: share_def pos_imp_zdiv_nonneg_iff)
  qed
  then show ?thesis
    using assms(3,4) \<open>0 < available\<close>
    unfolding grant_after_def Let_def available_def [symmetric] share_def [symmetric]
    by (auto simp: GRANT_CHUNK_def)
qed

lemma smooth_devices_locked:
  "codes s = [] \<Longrightarrow> devices_locked user policy now s =
     (Inr (SBJ_ARRAY (map (device_json policy) (devices_query user policy now (tables s)))), s)"
  by (simp add: devices_locked_def sbj_array_def foldl_arr_push)

lemma slot_iff:
  assumes "db_ok t"
  shows "find (same_slot l) (t_leases t) = Some k \<longleftrightarrow> k \<in> set (t_leases t) \<and> same_slot l k"
proof
  assume "find (same_slot l) (t_leases t) = Some k"
  then show "k \<in> set (t_leases t) \<and> same_slot l k" by (auto simp: find_Some_iff)
next
  assume k: "k \<in> set (t_leases t) \<and> same_slot l k"
  then obtain r where r: "find (same_slot l) (t_leases t) = Some r" by (cases "find (same_slot l) (t_leases t)") (auto simp: find_None_iff)
  then have "r \<in> set (t_leases t)" "lease_slot_of r = lease_slot_of k"
    using k by (auto simp: find_Some_iff same_slot_def lease_slot_of_def)
  then show "find (same_slot l) (t_leases t) = Some k"
    using r k assms by (auto simp: db_ok_def leases_ok_def distinct_map dest: inj_onD)
qed

text \<open>The row of a user's slot is written with something left to use, under the identifier it had or
  a new one.\<close>

lemma lease_upsert_runs:
  assumes ok: "db_ok t" and row: "row = find (same_slot new) (t_leases t)"
    and id: "ls_id new = (case row of None \<Rightarrow> i | Some k \<Rightarrow> ls_id k)"
    and used: "ls_used_bytes new = (case row of None \<Rightarrow> 0 | Some k \<Rightarrow> ls_used_bytes k)"
    and less: "ls_used_bytes new < ls_grant_bytes new"
    and fresh: "i \<notin> ls_id ` set (t_leases t)" and user: "list_ex (\<lambda>u. us_id u = ls_user new) (t_users t)"
  obtains t' n where "lease_upsert new t = Inr (t', n)" "t' = t\<lparr>t_leases := t_leases t'\<rparr>"
    "ls_id ` set (t_leases t') \<subseteq> (if row = None then {i} else {}) \<union> ls_id ` set (t_leases t)"
    "\<exists>l\<in>set (t_leases t'). same_slot new l \<and> ls_id l = ls_id new \<and> ls_grant_bytes l = ls_grant_bytes new
       \<and> ls_used_bytes l < ls_grant_bytes l \<and> ls_expires_at l = ls_expires_at new"
proof -
  have only: "row = Some k \<longleftrightarrow> k \<in> set (t_leases t) \<and> same_slot new k" for k
    unfolding row by (rule slot_iff [OF ok])
  have some: "list_ex (same_slot new) (t_leases t) \<longleftrightarrow> row \<noteq> None" using only by (auto simp: list_ex_iff)
  have bad: "\<not> list_ex (\<lambda>k. same_slot new k \<and> ls_used_bytes k > ls_grant_bytes new) (t_leases t)"
    using only less used by (force simp: list_ex_iff)
  have "\<not> list_ex (\<lambda>k. ls_id k = ls_id new) (t_leases t)" if "row = None"
    using fresh id that by (simp add: list_ex_iff image_iff) metis
  moreover have "0 \<le> ls_used_bytes new"
    using only ok used by (auto simp: db_ok_def leases_ok_def split: option.split)
  ultimately obtain t' n where up: "lease_upsert new t = Inr (t', n)"
    using some bad less user unfolding lease_upsert_def by (cases "row = None") simp_all
  obtain k where k: "k \<in> set (t_leases t')" "same_slot new k" "ls_grant_bytes k = ls_grant_bytes new" "ls_expires_at k = ls_expires_at new"
    "case row of None \<Rightarrow> k = new | Some r \<Rightarrow> ls_id k = ls_id r \<and> ls_used_bytes k = ls_used_bytes r"
    using lease_upsert_row [OF up] unfolding row by blast
  then have exists: "\<exists>l\<in>set (t_leases t'). same_slot new l \<and> ls_id l = ls_id new
      \<and> ls_grant_bytes l = ls_grant_bytes new \<and> ls_used_bytes l < ls_grant_bytes l
      \<and> ls_expires_at l = ls_expires_at new"
    using less used id by (intro bexI [of _ k]) (auto split: option.splits)
  have frame: "t' = t\<lparr>t_leases := t_leases t'\<rparr>"
    "ls_id ` set (t_leases t') \<subseteq> (if row = None then {i} else {}) \<union> ls_id ` set (t_leases t)"
    using up some id by (auto elim!: lease_upsert_cases simp: list_ex_iff split: option.splits)
  show ?thesis by (rule that [OF up frame exists])
qed

text \<open>When nothing goes wrong, a user with a serving node is given nothing only for want of a device
  or of budget; otherwise the lease is written with something left to use.\<close>

lemma lease_locked_runs:
  assumes s: "codes s = []" "db_ok (tables s)" "fresh_ids (Suc m) s" and u: "u \<in> set (t_users (tables s))"
    and serving: "user_ingress (us_id u) now (tables s) \<noteq> []"
  obtains (none) "lease_locked host boot (us_id u) (us_epoch u) (us_quota_bytes u) (us_expires_at u) now s
      = (Inr sbj_null, s)"
      "device_count now (us_id u) (tables s) = 0 \<or> user_cap u \<le> granted (tables s) (us_id u) (us_epoch u)"
  | (lease) new devices t n k where
      "lease_locked host boot (us_id u) (us_epoch u) (us_quota_bytes u) (us_expires_at u) now s
        = (Inr (lease_json new devices), s\<lparr>uuid_calls := k, tables := t\<rparr>)"
      "lease_upsert new (tables s) = Inr (t, n)" "fresh_ids m (s\<lparr>uuid_calls := k, tables := t\<rparr>)"
      "ls_user new = us_id u" "ls_host new = host" "ls_boot new = boot" "ls_epoch new = us_epoch u"
      "ls_expires_at new = lease_until (us_expires_at u) now"
      "\<exists>l\<in>set (t_leases t). same_slot new l \<and> ls_id l = ls_id new \<and> ls_grant_bytes l = ls_grant_bytes new
         \<and> ls_used_bytes l < ls_grant_bytes l \<and> ls_expires_at l = ls_expires_at new"
proof -
  let ?t = "tables s"
  let ?hosts = "int (length (user_ingress (us_id u) now ?t))"
  let ?allocated = "granted ?t (us_id u) (us_epoch u)"
  let ?devices = "SBJ_ARRAY (map (device_json True) (devices_query (us_id u) True now ?t))"
  define row where "row = (case lease_slot (us_id u) host boot (us_epoch u) ?t of [] \<Rightarrow> None | r # _ \<Rightarrow> Some r)"
  define used where "used = (case row of None \<Rightarrow> 0 | Some l \<Rightarrow> ls_used_bytes l)"
  define old where "old = (case row of None \<Rightarrow> 0 | Some l \<Rightarrow> ls_grant_bytes l)"
  define grant where "grant = grant_after (us_quota_bytes u) ?allocated ?hosts old used"
  define i where "i = (case row of None \<Rightarrow> next_uuid s | Some k \<Rightarrow> ls_id k)"
  define k where "k = (if row = None then Suc (uuid_calls s) else uuid_calls s)"
  define l where "l = \<lparr>ls_id = [], ls_user = us_id u, ls_host = host, ls_boot = boot, ls_epoch = us_epoch u,
      ls_grant_bytes = grant, ls_used_bytes = used,
      ls_expires_at = lease_until (us_expires_at u) now, ls_updated_at = now\<rparr>"
  define new where "new = l\<lparr>ls_id := i\<rparr>"
  have new: "ls_grant_bytes new = grant" "ls_used_bytes new = used" "ls_user new = us_id u" "ls_id new = i"
    "ls_host new = host" "ls_boot new = boot" "ls_epoch new = us_epoch u"
    "ls_expires_at new = lease_until (us_expires_at u) now"
    by (simp_all add: new_def l_def)
  have hosts: "1 \<le> ?hosts" using serving by (cases "user_ingress (us_id u) now ?t") auto
  have run: "lease_locked host boot (us_id u) (us_epoch u) (us_quota_bytes u) (us_expires_at u) now s =
      (if device_count now (us_id u) ?t = 0 \<or> grant \<le> used then (Inr sbj_null, s)
       else lease_write (map_option ls_id row) l ?devices s)"
    using serving s(1)
    by (simp add: lease_locked_def smooth_devices_locked smooth_steps row_def [symmetric] used_def [symmetric]
        old_def [symmetric] grant_def [symmetric] l_def [symmetric] Let_def flip: devices_query_count)
  have row: "row = find (same_slot new) (t_leases ?t)"
    unfolding row_def by (rule lease_slot_find) (simp_all add: new)
  have bounds: "0 \<le> used" "used \<le> old"
    using slot_iff [OF s(2), of new "the row"] s(2)
    by (cases row; simp add: used_def old_def row [symmetric] db_ok_def leases_ok_def)+
  show ?thesis
  proof (cases "device_count now (us_id u) ?t = 0 \<or> grant \<le> used")
    case True
    moreover have "used < grant" if "?allocated < user_cap u"
      unfolding grant_def using that bounds hosts by (intro grant_after_more) (simp_all add: user_cap_def)
    ultimately show ?thesis using none run by force
  next
    case False
    have "next_uuid s \<notin> ls_id ` set (t_leases ?t)" using s(3) by (force simp: fresh_ids_def)
    moreover have "list_ex (\<lambda>v. us_id v = ls_user new) (t_users ?t)" using u by (auto simp: list_ex_iff new)
    moreover have "ls_used_bytes new < ls_grant_bytes new" using False by (simp add: new)
    moreover have "ls_id new = (case row of None \<Rightarrow> next_uuid s | Some k \<Rightarrow> ls_id k)"
      "ls_used_bytes new = (case row of None \<Rightarrow> 0 | Some k \<Rightarrow> ls_used_bytes k)"
      by (simp_all add: new i_def used_def)
    ultimately obtain t n where up: "lease_upsert new ?t = Inr (t, n)" "t = ?t\<lparr>t_leases := t_leases t\<rparr>"
        "ls_id ` set (t_leases t) \<subseteq> (if row = None then {next_uuid s} else {}) \<union> ls_id ` set (t_leases ?t)"
        "\<exists>l\<in>set (t_leases t). same_slot new l \<and> ls_id l = ls_id new \<and> ls_grant_bytes l = ls_grant_bytes new
           \<and> ls_used_bytes l < ls_grant_bytes l \<and> ls_expires_at l = ls_expires_at new"
      using lease_upsert_runs [OF s(2) row, of "next_uuid s"] by blast
    have ids: "fresh_ids m (s\<lparr>uuid_calls := k, tables := t\<rparr>)"
      using fresh_ids_next [OF s(3), of "t_leases t"] fresh_ids_same [OF fresh_ids_mono [OF s(3)], of m "t_leases t"] up(2,3)
      by (auto simp: k_def split: if_splits)
    have "lease_write (map_option ls_id row) l ?devices s
        = (Inr (lease_json new ?devices), s\<lparr>uuid_calls := k, tables := t\<rparr>)"
      using s(1) up(1) by (cases row) (simp_all add: lease_write_def smooth_steps Let_def i_def k_def new_def)
    with run False show ?thesis
      using lease [where new = new and devices = ?devices and k = k and t = t and n = n] up ids new by simp
  qed
qed


text \<open>From now on the clock is read without error, and the fence of the user's epoch is over.\<close>

definition readable :: "sb_proxy_clock \<Rightarrow> bool" where
  "readable c \<longleftrightarrow> (\<forall>k\<ge>pc_calls c. 0 \<le> pc_now c k \<and> pc_now c k \<le> INT64_MAX - FENCE_MS
     \<and> pc_last_now c \<le> pc_now c k \<and> pc_now c k \<le> pc_now c (Suc k))"

definition open_at :: "string \<Rightarrow> int \<Rightarrow> int \<Rightarrow> sb_proxy_clock \<Rightarrow> bool" where
  "open_at user epoch m c \<longleftrightarrow> pc_startup_until c \<le> m
     \<and> (case epoch_find c user of None \<Rightarrow> epoch = 1 \<and> 0 \<le> m | Some e \<Rightarrow> ec_epoch e = epoch \<and> ec_until e \<le> m)"

definition elapsed :: "string \<Rightarrow> int \<Rightarrow> sb_proxy_clock \<Rightarrow> bool" where
  "elapsed user epoch c \<longleftrightarrow> readable c \<and> open_at user epoch (pc_now c (pc_calls c)) c"

lemma readable_read:
  assumes "readable c"
  shows "read_now (c\<lparr>pc_used := True\<rparr>) = (pc_now c (pc_calls c),
    c\<lparr>pc_used := True, pc_calls := Suc (pc_calls c), pc_last_now := pc_now c (pc_calls c)\<rparr>)"
  using assms by (auto simp: readable_def read_now_def Let_def not_less dest: spec [of _ "pc_calls c"])

lemma readable_next: "readable c \<Longrightarrow> 0 \<le> pc_now c (pc_calls c) \<and> pc_now c (pc_calls c) \<le> pc_now c (Suc (pc_calls c))"
  by (simp add: readable_def)

lemma readable_step:
  assumes "readable c" "pc_now c' = pc_now c" "pc_calls c' = Suc (pc_calls c)"
    "pc_last_now c' = pc_now c (pc_calls c)"
  shows "readable c'"
proof -
  have mono: "pc_now c (pc_calls c) \<le> pc_now c (pc_calls c + k)" for k
  proof (induction k)
    case (Suc k)
    have "pc_now c (pc_calls c + k) \<le> pc_now c (pc_calls c + Suc k)" using assms(1) by (simp add: readable_def)
    with Suc show ?case by simp
  qed simp
  have "pc_now c (pc_calls c) \<le> pc_now c k" if "Suc (pc_calls c) \<le> k" for k
    using mono [of "k - pc_calls c"] that by simp
  then show ?thesis using assms by (simp add: readable_def)
qed

lemma open_at_mono: "open_at user epoch m c \<Longrightarrow> m \<le> m' \<Longrightarrow> open_at user epoch m' c"
  by (auto simp: open_at_def split: option.splits)

lemma open_at_frame: "open_at user epoch m c \<Longrightarrow>
    open_at user epoch m (c\<lparr>pc_used := True, pc_calls := k, pc_last_now := n\<rparr>)"
  by (simp add: open_at_def)

lemma open_at_observe:
  "open_at user epoch m c \<Longrightarrow> user \<noteq> v \<or> e = epoch \<Longrightarrow> open_at user epoch m (observe_epoch c v e now)"
  by (auto simp: open_at_def epoch_find_observe split: option.splits)

lemma elapsed_wait:
  assumes "elapsed user epoch c"
  shows "fst (clock_wait c user epoch) = 0" "user \<noteq> v \<or> e = epoch \<Longrightarrow> elapsed user epoch (snd (clock_wait c v e))"
proof -
  let ?now = "pc_now c (pc_calls c)"
  let ?c = "c\<lparr>pc_used := True, pc_calls := Suc (pc_calls c), pc_last_now := ?now\<rparr>"
  have ok: "readable c" "open_at user epoch ?now ?c" using assms open_at_frame by (auto simp: elapsed_def)
  note now = readable_next [OF ok(1)]
  have wait: "clock_wait c v e = (let clock = observe_epoch ?c v e ?now;
      entry_until = (case epoch_find clock v of None \<Rightarrow> 0 | Some e \<Rightarrow> ec_until e);
      until = (if entry_until > pc_startup_until clock then entry_until else pc_startup_until clock) in
      (if until > ?now then until - ?now else 0, clock))" for v e
    using now by (simp add: clock_wait_def Let_def readable_read [OF ok(1)])
  have "open_at user epoch ?now (observe_epoch ?c user epoch ?now)"
    using ok(2) by (rule open_at_observe) simp
  then show "fst (clock_wait c user epoch) = 0"
    using now unfolding wait Let_def by (auto simp: open_at_def split: option.splits)
  show "elapsed user epoch (snd (clock_wait c v e))" if "user \<noteq> v \<or> e = epoch"
    using open_at_mono [OF open_at_observe [OF ok(2) that]] now readable_step [OF ok(1)]
    unfolding wait Let_def by (simp add: elapsed_def)
qed

text \<open>A usage report that fits is recorded.\<close>

definition report_fits :: "string \<Rightarrow> string \<Rightarrow> proxy_db \<Rightarrow> sbj \<Rightarrow> bool" where
  "report_fits host boot t r \<longleftrightarrow> (\<exists>l\<in>set (t_leases t). ls_id l = member_text (Some r) ''lease_id''
     \<and> ls_host l = host \<and> ls_boot l = boot
     \<and> ls_used_bytes l \<le> body_int (Some r) ''used_bytes'' 0 \<and> body_int (Some r) ''used_bytes'' 0 \<le> ls_grant_bytes l)"

lemma report_runs:
  assumes s: "codes s = []" "db_ok (tables s)" and fits: "report_fits host boot (tables s) r"
  obtains ls where "report_locked host boot r now s = (Inr (), s\<lparr>tables := (tables s)\<lparr>t_leases := ls\<rparr>\<rparr>)"
    "ls_id ` set ls = ls_id ` set (t_leases (tables s))" "db_ok ((tables s)\<lparr>t_leases := ls\<rparr>)"
    "\<And>user epoch. granted ((tables s)\<lparr>t_leases := ls\<rparr>) user epoch = granted (tables s) user epoch"
    "\<And>q. member_text (Some q) ''lease_id'' \<noteq> member_text (Some r) ''lease_id'' \<Longrightarrow>
       report_fits host boot (tables s) q \<Longrightarrow> report_fits host boot ((tables s)\<lparr>t_leases := ls\<rparr>) q"
proof -
  let ?t = "tables s"
  let ?id = "member_text (Some r) ''lease_id''"
  let ?used = "body_int (Some r) ''used_bytes'' 0"
  define f :: "lease_row \<Rightarrow> lease_row" where "f = (\<lambda>l. if ls_id l = ?id then l\<lparr>ls_used_bytes := ?used, ls_updated_at := now\<rparr> else l)"
  have f: "ls_id (f k) = ls_id k" "ls_host (f k) = ls_host k" "ls_boot (f k) = ls_boot k"
    "ls_user (f k) = ls_user k" "ls_epoch (f k) = ls_epoch k" "ls_grant_bytes (f k) = ls_grant_bytes k" for k
    by (simp_all add: f_def)
  from fits obtain l where l: "l \<in> set (t_leases ?t)" "ls_id l = ?id" "ls_host l = host" "ls_boot l = boot"
    "ls_used_bytes l \<le> ?used" "?used \<le> ls_grant_bytes l" by (auto simp: report_fits_def)
  have "inj_on ls_id (set (t_leases ?t))" using s(2) by (simp add: db_ok_def leases_ok_def distinct_map)
  from inj_onD [OF this] have only: "k = l" if "k \<in> set (t_leases ?t)" "ls_id k = ?id" for k
    using that l(1,2) by simp
  have query: "(case filter (\<lambda>k. ls_id k = ?id \<and> ls_host k = host \<and> ls_boot k = boot) (t_leases ?t) of
      [] \<Rightarrow> None | r # _ \<Rightarrow> Some r) = Some l"
  proof (cases "filter (\<lambda>k. ls_id k = ?id \<and> ls_host k = host \<and> ls_boot k = boot) (t_leases ?t)")
    case Nil
    then show ?thesis using l by (auto simp: filter_empty_conv)
  next
    case (Cons k ks)
    then have "k \<in> set (filter (\<lambda>k. ls_id k = ?id \<and> ls_host k = host \<and> ls_boot k = boot) (t_leases ?t))"
      by (metis list.set_intros(1))
    then have "k = l" using only by (simp only: set_filter mem_Collect_eq)
    then show ?thesis by (simp only: Cons list.case)
  qed
  have pos: "0 \<le> ?used" using l(1,5) s(2) by (force simp: db_ok_def leases_ok_def)
  have run: "lease_usage ?id ?used now ?t
      = Inr (?t\<lparr>t_leases := map f (t_leases ?t)\<rparr>, length (filter (\<lambda>l. ls_id l = ?id) (t_leases ?t)))"
    using only l(6) pos by (auto simp: lease_usage_def upd_rows_def list_ex_iff f_def)
  show ?thesis
  proof (rule that [of "map f (t_leases ?t)"])
    show "report_locked host boot r now s = (Inr (), s\<lparr>tables := ?t\<lparr>t_leases := map f (t_leases ?t)\<rparr>\<rparr>)"
      using s(1) l query run by (simp add: report_locked_def Let_def smooth_steps)
    show "ls_id ` set (map f (t_leases ?t)) = ls_id ` set (t_leases ?t)" by (simp add: image_image f)
    show "db_ok (?t\<lparr>t_leases := map f (t_leases ?t)\<rparr>)"
      using exchange_step_ok [OF exchange_step.usage [OF l(1) l(3) l(4) l(5) l(6)] s(2)] run l(2) by simp
    show "granted (?t\<lparr>t_leases := map f (t_leases ?t)\<rparr>) user epoch = granted ?t user epoch" for user epoch
      by (simp add: granted_def epoch_leases_def filter_map comp_def f)
    show "report_fits host boot (?t\<lparr>t_leases := map f (t_leases ?t)\<rparr>) q"
      if "member_text (Some q) ''lease_id'' \<noteq> ?id" "report_fits host boot ?t q" for q
    proof -
      from that(2) obtain k where "k \<in> set (t_leases ?t)" "ls_id k = member_text (Some q) ''lease_id''"
        "ls_host k = host" "ls_boot k = boot" "ls_used_bytes k \<le> body_int (Some q) ''used_bytes'' 0"
        "body_int (Some q) ''used_bytes'' 0 \<le> ls_grant_bytes k" by (auto simp: report_fits_def)
      with that(1) show ?thesis unfolding report_fits_def by (intro bexI [of _ k]) (auto simp: f_def image_iff)
    qed
  qed
qed


text \<open>What the loop over the users of a node keeps until the turn of \<open>u\<close>, and has from then on.\<close>

definition can_lease :: "nat \<Rightarrow> user_row \<Rightarrow> proxy_db \<Rightarrow> sb_database \<Rightarrow> bool" where
  "can_lease m u t0 s \<longleftrightarrow> codes s = [] \<and> db_ok (tables s) \<and> fresh_ids m s
     \<and> (\<exists>ls. tables s = t0\<lparr>t_leases := ls\<rparr>)
     \<and> (\<exists>c. proxy_clock s = Some c \<and> elapsed (us_id u) (us_epoch u) c)"

definition served :: "user_row \<Rightarrow> string \<Rightarrow> string \<Rightarrow> int \<Rightarrow> sbj list \<Rightarrow> proxy_db \<Rightarrow> bool" where
  "served u host boot now vs t \<longleftrightarrow> (\<exists>l\<in>set (t_leases t). ls_user l = us_id u \<and> ls_host l = host
     \<and> ls_boot l = boot \<and> ls_epoch l = us_epoch u \<and> ls_used_bytes l < ls_grant_bytes l
     \<and> ls_expires_at l = lease_until (us_expires_at u) now
     \<and> (\<exists>v\<in>set vs. \<exists>w. jget (Some v) ''id'' = Some (SBJ_STRING (us_id u)) \<and> jget (Some v) ''lease'' = Some w
          \<and> jget (Some w) ''id'' = Some (SBJ_STRING (ls_id l))
          \<and> jget (Some w) ''grant_bytes'' = Some (SBJ_INT (ls_grant_bytes l))))"

lemma lease_json_members:
  "jget (Some (lease_json l devices)) ''id'' = Some (SBJ_STRING (ls_user l))"
  "\<exists>w. jget (Some (lease_json l devices)) ''lease'' = Some w \<and> jget (Some w) ''id'' = Some (SBJ_STRING (ls_id l))
     \<and> jget (Some w) ''grant_bytes'' = Some (SBJ_INT (ls_grant_bytes l))"
  by (simp_all add: lease_json_def Let_def jset_values del: jget_jset)

lemma lease_json_not_null: "\<not> sbj_is_null (Some (lease_json l devices))"
  using lease_json_members(1) [of l devices] by (auto simp: sbj_is_null_iff sbj_accessors)

lemma upsert_other:
  assumes "lease_upsert new t = Inr (t', n)" "ls_user new \<noteq> user"
  shows "granted t' user epoch = granted t user epoch"
    "l \<in> set (t_leases t) \<Longrightarrow> ls_user l = user \<Longrightarrow> l \<in> set (t_leases t')"
proof -
  have "filter (\<lambda>l. ls_user l = user \<and> ls_epoch l = epoch) (map (\<lambda>l. if same_slot new l then f l else l) ls)
      = filter (\<lambda>l. ls_user l = user \<and> ls_epoch l = epoch) ls"
    if "\<And>l. ls_user (f l) = ls_user l" for f ls
    using that assms(2) by (induction ls) (auto simp: same_slot_def)
  with assms show "granted t' user epoch = granted t user epoch"
    by (auto simp: granted_def epoch_leases_def elim!: lease_upsert_cases)
  show "l \<in> set (t_leases t) \<Longrightarrow> ls_user l = user \<Longrightarrow> l \<in> set (t_leases t')"
    using assms by (auto simp: same_slot_def image_iff elim!: lease_upsert_cases)
qed

lemma can_lease_mono: "can_lease n u t0 s \<Longrightarrow> m \<le> n \<Longrightarrow> can_lease m u t0 s"
  by (auto simp: can_lease_def intro: fresh_ids_mono)

lemma can_lease_wait:
  assumes "can_lease m u t0 s" "us_id u = us_id v \<Longrightarrow> v = u"
  obtains w c where "sb_proxy_clock_wait_ms (us_id v) (us_epoch v) s = (Inr w, s\<lparr>proxy_clock := Some c\<rparr>)"
    "can_lease m u t0 (s\<lparr>proxy_clock := Some c\<rparr>)" "v = u \<longrightarrow> w = 0"
proof -
  from assms(1) obtain c where c: "proxy_clock s = Some c" "elapsed (us_id u) (us_epoch u) c"
    by (auto simp: can_lease_def)
  have "elapsed (us_id u) (us_epoch u) (snd (clock_wait c (us_id v) (us_epoch v)))"
    using elapsed_wait(2) [OF c(2), of "us_id v" "us_epoch v"] assms(2) by auto
  then have "can_lease m u t0 (s\<lparr>proxy_clock := Some (snd (clock_wait c (us_id v) (us_epoch v)))\<rparr>)"
    using assms(1) by (auto simp: can_lease_def fresh_ids_def)
  then show ?thesis using that smooth_wait [OF c(1)] elapsed_wait(1) [OF c(2)] by blast
qed

text \<open>A node that may serve its users: enabled, on an enabled host with a fresh report.\<close>

definition node_ready :: "string \<Rightarrow> int \<Rightarrow> proxy_db \<Rightarrow> bool" where
  "node_ready host now t \<longleftrightarrow> host_enabled t host \<and> (\<exists>n\<in>set (t_ingress t). in_host n = host \<and> in_enabled n)
     \<and> (\<exists>r. find (\<lambda>r. rp_host r = host) (t_reports t) = Some r \<and> report_fresh r now)"

lemma node_ready_leases [simp]: "node_ready host now (t\<lparr>t_leases := ls\<rparr>) = node_ready host now t"
  by (simp add: node_ready_def host_enabled_def)

lemma node_ready_serves:
  "node_ready host now t \<Longrightarrow> (user, host) \<in> set (t_user_nodes t) \<Longrightarrow> user_ingress user now t \<noteq> []"
  by (auto simp: node_ready_def user_ingress_def node_serves_def filter_empty_conv list_ex_iff find_Some_iff)
    (metis nth_mem)

lemma lease_user_runs:
  assumes s: "can_lease (Suc m) u t0 s" and ready: "node_ready host now t0"
    and v: "v \<in> set (lease_users host now t0)" "us_id u = us_id v \<Longrightarrow> v = u"
  obtains vs' s' where "lease_user host boot now v (SBJ_ARRAY vs) s = (Inr (SBJ_ARRAY vs'), s')"
    "can_lease m u t0 s'" "set vs \<subseteq> set vs'"
    "v \<noteq> u \<longrightarrow> granted (tables s') (us_id u) (us_epoch u) = granted (tables s) (us_id u) (us_epoch u)"
    "v \<noteq> u \<and> served u host boot now vs (tables s) \<longrightarrow> served u host boot now vs' (tables s')"
    "v = u \<and> us_not_before u \<le> now \<and> 0 < device_count now (us_id u) t0
       \<and> granted (tables s) (us_id u) (us_epoch u) < user_cap u \<longrightarrow> served u host boot now vs' (tables s')"
proof -
  obtain w c where
    wait: "sb_proxy_clock_wait_ms (us_id v) (us_epoch v) s = (Inr w, s\<lparr>proxy_clock := Some c\<rparr>)"
      "can_lease (Suc m) u t0 (s\<lparr>proxy_clock := Some c\<rparr>)" "v = u \<longrightarrow> w = 0"
    by (rule can_lease_wait [OF s v(2)]) blast
  let ?s = "s\<lparr>proxy_clock := Some c\<rparr>"
  obtain ls where t: "tables s = t0\<lparr>t_leases := ls\<rparr>" using s by (auto simp: can_lease_def)
  have user: "v \<in> set (t_users (tables s))" "(us_id v, host) \<in> set (t_user_nodes (tables s))" "usable_user now v"
    using v(1) by (auto simp: lease_users_def t)
  show ?thesis
  proof (cases "w > 0 \<or> us_not_before v > now")
    case True
    then have run: "lease_user host boot now v (SBJ_ARRAY vs) s = (Inr (SBJ_ARRAY vs), ?s)"
      by (simp add: lease_user_def smooth_steps wait(1))
    show ?thesis by (rule that [OF run can_lease_mono [OF wait(2)]]) (use wait True in auto)
  next
    case False
    have serving: "user_ingress (us_id v) now (tables ?s) \<noteq> []"
      using node_ready_serves [of host now "tables ?s"] ready user(2) by (simp add: t)
    have ok: "codes ?s = []" "db_ok (tables ?s)" "fresh_ids (Suc m) ?s" using wait(2) by (auto simp: can_lease_def)
    have user': "v \<in> set (t_users (tables ?s))" using user(1) by simp
    from ok user' serving show ?thesis
    proof (cases rule: lease_locked_runs [where host = host and boot = boot])
      case none
      have run: "lease_user host boot now v (SBJ_ARRAY vs) s = (Inr (SBJ_ARRAY vs), ?s)"
        using none(1) False by (simp add: lease_user_def smooth_steps wait(1) sbj_null_def)
      show ?thesis by (rule that [OF run can_lease_mono [OF wait(2)]]) (use none(2) in \<open>auto simp: t device_count_def\<close>)
    next
      case (lease new devices t' n k)
      let ?s' = "?s\<lparr>uuid_calls := k, tables := t'\<rparr>"
      let ?v = "lease_json new devices"
      have "exchange_steps host boot now (tables ?s) (tables ?s')"
        using works_Inr [OF works_lease_locked [OF ok(2) user' _ user(3)] _ lease(1)] user(2) False by simp
      then have "db_ok t'" using exchange_steps_ok [OF _ ok(2)] by simp
      moreover obtain ls' where "t' = t0\<lparr>t_leases := ls'\<rparr>"
        using lease(2) by (auto simp: t elim!: lease_upsert_cases)
      ultimately have can: "can_lease m u t0 ?s'" using wait(2) lease(3) by (auto simp: can_lease_def)
      have run: "lease_user host boot now v (SBJ_ARRAY vs) s = (Inr (SBJ_ARRAY (vs @ [?v])), ?s')"
        using lease(1) False by (simp add: lease_user_def smooth_steps wait(1) lease_json_not_null or_null_def)
      show ?thesis
      proof (rule that [OF run can]; (intro impI, (elim conjE)?)?)
        show "set vs \<subseteq> set (vs @ [?v])" by auto
        show "served u host boot now (vs @ [?v]) (tables ?s')"
          if "v = u" "us_not_before u \<le> now" "0 < device_count now (us_id u) t0"
            "granted (tables s) (us_id u) (us_epoch u) < user_cap u"
          using lease(4-9) that(1) lease_json_members [of new devices]
          by (fastforce simp: served_def same_slot_def)
        show "granted (tables ?s') (us_id u) (us_epoch u) = granted (tables s) (us_id u) (us_epoch u)" if "v \<noteq> u"
        proof -
          have "ls_user new \<noteq> us_id u" using lease(4) v(2) that by auto
          then show ?thesis using upsert_other(1) [OF lease(2)] by simp
        qed
        show "served u host boot now (vs @ [?v]) (tables ?s')" if "v \<noteq> u" "served u host boot now vs (tables s)"
        proof -
          have "ls_user new \<noteq> us_id u" using lease(4) v(2) that(1) by auto
          from upsert_other(2) [OF lease(2) this] that(2) show ?thesis
            unfolding served_def by (auto 0 4)
        qed
      qed
    qed
  qed
qed

lemma lease_users_run:
  assumes s: "can_lease (length (lease_users host now t0)) u t0 s" and ready: "node_ready host now t0"
    and u: "u \<in> set (lease_users host now t0)" "us_not_before u \<le> now" "0 < device_count now (us_id u) t0"
    and budget: "granted (tables s) (us_id u) (us_epoch u) < user_cap u"
  obtains vs s' where "sql_each (lease_users host now) (lease_user host boot now) sbj_array s = (Inr (SBJ_ARRAY vs), s')"
    "can_lease 0 u t0 s'" "served u host boot now vs (tables s')"
proof -
  have ids: "distinct (map us_id (t_users t0))"
    using s by (auto simp: can_lease_def db_ok_def users_ok_def)
  have same: "us_id u = us_id v \<Longrightarrow> v = u" if "v \<in> set (lease_users host now t0)" for v
    using ids u(1) that by (auto simp: lease_users_def distinct_map dest: inj_onD)
  have loop: "\<exists>vs' s'. sql_loop (lease_user host boot now) us (SBJ_ARRAY vs) s = (Inr (SBJ_ARRAY vs'), s')
      \<and> can_lease 0 u t0 s' \<and> served u host boot now vs' (tables s')"
    if "can_lease (length us) u t0 s" "set us \<subseteq> set (lease_users host now t0)"
      "u \<in> set us \<and> granted (tables s) (us_id u) (us_epoch u) < user_cap u
        \<or> u \<notin> set us \<and> served u host boot now vs (tables s)" "distinct us" for us vs s
    using that
  proof (induction us arbitrary: vs s)
    case Nil
    then show ?case by (auto simp: smooth_steps can_lease_def)
  next
    case (Cons v us)
    have v: "v \<in> set (lease_users host now t0)" using Cons.prems(2) by simp
    obtain vs1 s1 where step: "lease_user host boot now v (SBJ_ARRAY vs) s = (Inr (SBJ_ARRAY vs1), s1)"
      and "can_lease (length us) u t0 s1"
      and keep: "v \<noteq> u \<longrightarrow> granted (tables s1) (us_id u) (us_epoch u) = granted (tables s) (us_id u) (us_epoch u)"
        "v \<noteq> u \<and> served u host boot now vs (tables s) \<longrightarrow> served u host boot now vs1 (tables s1)"
        "v = u \<and> us_not_before u \<le> now \<and> 0 < device_count now (us_id u) t0
          \<and> granted (tables s) (us_id u) (us_epoch u) < user_cap u \<longrightarrow> served u host boot now vs1 (tables s1)"
      by (rule lease_user_runs [OF Cons.prems(1) [unfolded length_Cons] ready v same [OF v], of boot vs]) blast
    then have "\<exists>vs' s'. sql_loop (lease_user host boot now) us (SBJ_ARRAY vs1) s1 = (Inr (SBJ_ARRAY vs'), s')
        \<and> can_lease 0 u t0 s' \<and> served u host boot now vs' (tables s')"
      using Cons.prems(2-4) u(2,3) by (intro Cons.IH) auto
    then show ?case using step Cons.prems(1) by (auto simp: smooth_steps can_lease_def)
  qed
  obtain ls where t: "tables s = t0\<lparr>t_leases := ls\<rparr>" using s by (auto simp: can_lease_def)
  have "distinct (lease_users host now t0)"
    using ids by (simp add: lease_users_def distinct_map)
  moreover have "lease_users host now (tables s) = lease_users host now t0" by (simp add: t lease_users_def)
  moreover have "codes s = []" using s by (simp add: can_lease_def)
  ultimately show ?thesis
    using loop [OF s order_refl, of "[]"] that u(1) budget by (auto simp: smooth_each sbj_array_def)
qed


lemma reports_run:
  assumes "codes s = []" "db_ok (tables s)" "fresh_ids m s"
    "distinct (map (\<lambda>r. member_text (Some r) ''lease_id'') reports)"
    "\<forall>r\<in>set reports. report_fits host boot (tables s) r"
  shows "\<exists>ls. dfor reports (\<lambda>r. report_locked host boot r now) s
      = (Inr (), s\<lparr>tables := (tables s)\<lparr>t_leases := ls\<rparr>\<rparr>)
    \<and> db_ok ((tables s)\<lparr>t_leases := ls\<rparr>) \<and> fresh_ids m (s\<lparr>tables := (tables s)\<lparr>t_leases := ls\<rparr>\<rparr>)
    \<and> (\<forall>user epoch. granted ((tables s)\<lparr>t_leases := ls\<rparr>) user epoch = granted (tables s) user epoch)"
  using assms
proof (induction reports arbitrary: s)
  case Nil
  then show ?case by (intro exI [of _ "t_leases (tables s)"]) (simp add: smooth_steps)
next
  case (Cons r reports)
  obtain ls where run: "report_locked host boot r now s = (Inr (), s\<lparr>tables := (tables s)\<lparr>t_leases := ls\<rparr>\<rparr>)"
    and ids: "ls_id ` set ls = ls_id ` set (t_leases (tables s))" and ok: "db_ok ((tables s)\<lparr>t_leases := ls\<rparr>)"
    and same: "\<And>user epoch. granted ((tables s)\<lparr>t_leases := ls\<rparr>) user epoch = granted (tables s) user epoch"
    and fits: "\<And>q. member_text (Some q) ''lease_id'' \<noteq> member_text (Some r) ''lease_id'' \<Longrightarrow>
       report_fits host boot (tables s) q \<Longrightarrow> report_fits host boot ((tables s)\<lparr>t_leases := ls\<rparr>) q"
    by (rule report_runs [OF Cons.prems(1,2), of host boot r now]) (use Cons.prems(5) in auto)
  let ?s = "s\<lparr>tables := (tables s)\<lparr>t_leases := ls\<rparr>\<rparr>"
  have "fresh_ids m ?s" using fresh_ids_same [OF Cons.prems(3)] ids by simp
  moreover have "\<forall>q\<in>set reports. report_fits host boot (tables ?s) q"
  proof
    fix q assume q: "q \<in> set reports"
    then have "member_text (Some q) ''lease_id'' \<noteq> member_text (Some r) ''lease_id''"
      using Cons.prems(4) by (auto simp: image_iff)
    then show "report_fits host boot (tables ?s) q" using fits Cons.prems(5) q by simp
  qed
  ultimately obtain ls' where
    "dfor reports (\<lambda>r. report_locked host boot r now) ?s = (Inr (), s\<lparr>tables := (tables s)\<lparr>t_leases := ls'\<rparr>\<rparr>)"
    "db_ok ((tables s)\<lparr>t_leases := ls'\<rparr>)" "fresh_ids m (s\<lparr>tables := (tables s)\<lparr>t_leases := ls'\<rparr>\<rparr>)"
    "\<forall>user epoch. granted ((tables s)\<lparr>t_leases := ls'\<rparr>) user epoch = granted (tables s) user epoch"
    using Cons.IH [of ?s] Cons.prems(1,4) ok same by auto
  then show ?case using run by (auto simp: smooth_steps intro!: exI [of _ ls'])
qed

lemma neighbours_distinct: "\<not> has_neighbours xs \<Longrightarrow> sorted xs \<Longrightarrow> distinct (xs :: string list)"
proof (induction xs rule: has_neighbours.induct)
  case (1 a b xs)
  then show ?case by (auto simp: order_le_less)
qed simp_all

lemma duplicate_reports_distinct:
  "\<not> duplicate_reports reports \<Longrightarrow> distinct (map (\<lambda>r. member_text (Some r) ''lease_id'') reports)"
proof (cases "length reports > 1")
  case True
  assume "\<not> duplicate_reports reports"
  then have "distinct (sort (map (\<lambda>r. member_text (Some r) ''lease_id'') reports))"
    using True by (intro neighbours_distinct) (simp_all add: duplicate_reports_def)
  then show ?thesis by simp
next
  case False
  then show ?thesis by (cases reports; cases "tl reports") auto
qed

lemma node_locked_runs:
  assumes "codes s = []" "node_ready host now t0" "tables s = t0\<lparr>t_leases := ls\<rparr>"
  shows "\<exists>v. node_locked host True now s = (Inr v, s)"
proof -
  have "filter (\<lambda>n. in_host n = host) (t_ingress (tables s)) \<noteq> []"
    using assms(2,3) by (auto simp: node_ready_def filter_empty_conv)
  then show ?thesis
    using assms(1)
    by (cases "filter (\<lambda>n. in_host n = host) (t_ingress (tables s))") (auto simp: node_locked_def smooth_steps)
qed

lemma exchange_grants_run:
  assumes s: "can_lease (length (lease_users host now t0)) u t0 s" and ready: "node_ready host now t0"
    and u: "u \<in> set (lease_users host now t0)" "us_not_before u \<le> now" "0 < device_count now (us_id u) t0"
    and budget: "granted (tables s) (us_id u) (us_epoch u) < user_cap u"
  shows "\<exists>node vs s'. exchange_grants host boot now s = (Inr (node, SBJ_ARRAY vs), s') \<and> can_lease 0 u t0 s'
    \<and> served u host boot now vs (tables s')"
proof -
  have codes: "codes s = []" using s by (simp add: can_lease_def)
  obtain ls where t: "tables s = t0\<lparr>t_leases := ls\<rparr>" using s by (auto simp: can_lease_def)
  obtain n ns where n: "filter (\<lambda>n. in_host n = host \<and> in_enabled n) (t_ingress (tables s)) = n # ns"
    using ready by (cases "filter (\<lambda>n. in_host n = host \<and> in_enabled n) (t_ingress (tables s))")
      (auto simp: node_ready_def t filter_empty_conv)
  obtain r where r: "find (\<lambda>r. rp_host r = host) (t_reports (tables s)) = Some r" "report_fresh r now"
    using ready by (auto simp: node_ready_def t)
  have fresh: "runtime_ready host now s = (Inr (True, rp_observed_at r), s)"
    using codes r by (simp add: runtime_ready_def smooth_steps flip: find_filter)
  obtain node where node: "node_locked host True now s = (Inr node, s)"
    using node_locked_runs [OF codes ready t] by blast
  obtain vs s' where "sql_each (lease_users host now) (lease_user host boot now) sbj_array s
      = (Inr (SBJ_ARRAY vs), s')" "can_lease 0 u t0 s'" "served u host boot now vs (tables s')"
    using lease_users_run [OF s ready u budget] by blast
  then show ?thesis
    using codes fresh node n by (auto simp: exchange_grants_def smooth_steps)
qed

lemma exchange_body_runs:
  assumes s: "codes s = []" "db_ok (tables s)" "fresh_ids (length (t_users (tables s))) s"
    and clock: "proxy_clock s = Some c" "elapsed (us_id u) (us_epoch u) c"
    and ready: "node_ready host now (tables s)"
    and seq: "case find (\<lambda>e. se_host e = host \<and> se_boot e = boot) (t_sessions (tables s)) of
      None \<Rightarrow> seq = 1 | Some e \<Rightarrow> seq = se_request_seq e + 1"
    and reports: "distinct (map (\<lambda>r. member_text (Some r) ''lease_id'') reports)"
      "\<forall>r\<in>set reports. report_fits host boot (tables s) r"
    and u: "u \<in> set (lease_users host now (tables s))" "us_not_before u \<le> now"
      "0 < device_count now (us_id u) (tables s)"
      "granted (tables s) (us_id u) (us_epoch u) < user_cap u"
  shows "\<exists>out s' vs. exchange_body host boot seq hash reports now s = (Inr out, s') \<and> codes s' = []
    \<and> jget (Some out) ''users'' = Some (SBJ_ARRAY vs) \<and> served u host boot now vs (tables s')"
proof -
  let ?t = "tables s"
  obtain ls where ls: "dfor reports (\<lambda>r. report_locked host boot r now) s = (Inr (), s\<lparr>tables := ?t\<lparr>t_leases := ls\<rparr>\<rparr>)"
    "db_ok (?t\<lparr>t_leases := ls\<rparr>)" "fresh_ids (length (t_users ?t)) (s\<lparr>tables := ?t\<lparr>t_leases := ls\<rparr>\<rparr>)"
    "\<forall>user epoch. granted (?t\<lparr>t_leases := ls\<rparr>) user epoch = granted ?t user epoch"
    using reports_run [OF s reports] by blast
  let ?s = "s\<lparr>tables := ?t\<lparr>t_leases := ls\<rparr>\<rparr>"
  have can: "can_lease (length (lease_users host now ?t)) u ?t ?s" 
    using s(1) ls(2) clock fresh_ids_mono [OF ls(3)]
    by (auto simp: can_lease_def lease_users_def intro: length_filter_le)
  obtain node vs s' where grants: "exchange_grants host boot now ?s = (Inr (node, SBJ_ARRAY vs), s')"
    "can_lease 0 u ?t s'" "served u host boot now vs (tables s')"
    using exchange_grants_run [OF can ready u(1-3), of boot] u(4) ls(4) by auto
  let ?out = "response_json host boot seq now node (SBJ_ARRAY vs)"
  have users: "jget (Some ?out) ''users'' = Some (SBJ_ARRAY vs)"
    by (simp add: response_json_def Let_def jset_values del: jget_jset)
  have "\<exists>s2. exchange_fresh host boot seq hash reports now s = (Inr ?out, s2) \<and> codes s2 = []
      \<and> t_leases (tables s2) = t_leases (tables s')"
    using grants(1,2) ls(1)
    by (auto simp: exchange_fresh_def smooth_steps Let_def can_lease_def session_upsert_def)
  then obtain s2 where s2: "exchange_fresh host boot seq hash reports now s = (Inr ?out, s2)" "codes s2 = []"
    "t_leases (tables s2) = t_leases (tables s')" by blast
  have host: "host_check host SB_ERR_AUTH ''Proxy lease host is unknown or disabled'' s = (Inr (), s)"
    using s(1) ready
    by (cases "filter (\<lambda>h. hs_id h = host \<and> hs_enabled h) (t_hosts ?t)")
      (auto simp: host_check_def smooth_steps node_ready_def host_enabled_def list_ex_iff filter_empty_conv)
  have "exchange_body host boot seq hash reports now s = exchange_fresh host boot seq hash reports now s"
    using s(1) seq host
    by (auto simp: exchange_body_def smooth_steps Let_def simp flip: find_filter split: option.splits)
  then show ?thesis using s2 users grants(3) by (auto simp: served_def)
qed

lemma exchange_runs:
  assumes "db_ok (tables s)" "saved s = None" "codes s = []" "fresh_ids (length (t_users (tables s))) s"
    and "proxy_clock s = Some c" "elapsed (us_id u) (us_epoch u) c"
    and "exchange_ok request now" "list_all report_ok (json_items (jget request ''reports''))"
      "\<not> duplicate_reports (json_items (jget request ''reports''))"
    and "\<forall>r\<in>set (json_items (jget request ''reports'')).
      report_fits host (member_text request ''boot_id'') (tables s) r"
    and "case find (\<lambda>e. se_host e = host \<and> se_boot e = member_text request ''boot_id'') (t_sessions (tables s)) of
        None \<Rightarrow> body_int request ''request_seq'' 0 = 1
      | Some e \<Rightarrow> body_int request ''request_seq'' 0 = se_request_seq e + 1"
    and "node_ready host now (tables s)"
    and "u \<in> set (t_users (tables s))" "(us_id u, host) \<in> set (t_user_nodes (tables s))" "usable_user now u"
      "us_not_before u \<le> now" "0 < device_count now (us_id u) (tables s)"
      "granted (tables s) (us_id u) (us_epoch u) < user_cap u"
  shows "\<exists>out s' vs. sb_proxy_lease_exchange host request now s = (Inr out, s')
    \<and> jget (Some out) ''users'' = Some (SBJ_ARRAY vs)
    \<and> served u host (member_text request ''boot_id'') now vs (tables s')"
proof -
  let ?boot = "member_text request ''boot_id''"
  let ?body = "exchange_body host ?boot (body_int request ''request_seq'' 0)
    (sb_sha256_hex (sbj_dump request (- 1)) s) (json_items (jget request ''reports'')) now"
  let ?s = "s\<lparr>saved := Some (tables s)\<rparr>"
  have u: "u \<in> set (lease_users host now (tables ?s))" using assms(13-15) by (simp add: lease_users_def)
  have ok: "codes ?s = []" "db_ok (tables ?s)" "fresh_ids (length (t_users (tables ?s))) ?s"
    using assms(3,4) assms(1) by (simp_all add: fresh_ids_def)
  obtain out s' vs where body: "?body ?s = (Inr out, s')" "codes s' = []"
    "jget (Some out) ''users'' = Some (SBJ_ARRAY vs)" "served u host ?boot now vs (tables s')"
    using exchange_body_runs [OF ok, where u = u and c = c and host = host and now = now and boot = ?boot
        and seq = "body_int request ''request_seq'' 0" and reports = "json_items (jget request ''reports'')"
        and hash = "sb_sha256_hex (sbj_dump request (- 1)) s"]
      u assms(5,6,10-12,16-18) duplicate_reports_distinct [OF assms(9)] by auto
  have "transaction ?body s = (Inr out, s'\<lparr>saved := None\<rparr>)"
    using smooth_transaction [where body = ?body and s = s] assms(3) body by blast
  then have "sb_proxy_lease_exchange host request now s = (Inr out, s'\<lparr>saved := None\<rparr>)"
    using assms(7-9) by (simp add: sb_proxy_lease_exchange_def)
  then show ?thesis using body(3,4) by auto
qed

text \<open>(C6) When SQLite and the clock work, a valid request in sequence from a ready node, with usage
  reports that fit, is answered; and every usable user bound to the node who has an active device,
  is past the waiting time and has budget left gets a lease, stored and in the answer, with bytes
  left to use.\<close>

theorem lease_granted:
  assumes "reachable (tables s)" "saved s = None" "codes s = []" "fresh_ids (length (t_users (tables s))) s"
    and "proxy_clock s = Some c" "elapsed (us_id u) (us_epoch u) c"
    and "exchange_ok request now" "list_all report_ok (json_items (jget request ''reports''))"
      "\<not> duplicate_reports (json_items (jget request ''reports''))"
    and "\<forall>r\<in>set (json_items (jget request ''reports'')).
      report_fits host (member_text request ''boot_id'') (tables s) r"
    and "case find (\<lambda>e. se_host e = host \<and> se_boot e = member_text request ''boot_id'') (t_sessions (tables s)) of
        None \<Rightarrow> body_int request ''request_seq'' 0 = 1
      | Some e \<Rightarrow> body_int request ''request_seq'' 0 = se_request_seq e + 1"
    and "node_ready host now (tables s)"
    and "u \<in> set (t_users (tables s))" "(us_id u, host) \<in> set (t_user_nodes (tables s))" "usable_user now u"
      "us_not_before u \<le> now" "0 < device_count now (us_id u) (tables s)"
      "granted (tables s) (us_id u) (us_epoch u) < user_cap u"
  shows "\<exists>out s' vs. sb_proxy_lease_exchange host request now s = (Inr out, s')
    \<and> jget (Some out) ''users'' = Some (SBJ_ARRAY vs)
    \<and> served u host (member_text request ''boot_id'') now vs (tables s')"
  using exchange_runs [OF reachable_ok [OF assms(1)] assms(2-)] .


lemma scene_elapsed: "\<exists>c. proxy_clock scene = Some c \<and> elapsed user 1 c"
  by (simp add: scene_def elapsed_def readable_def open_at_def clock_new_def epoch_find_def INT64_MAX_def FENCE_MS_def)

lemma stage_ready: "node_ready ''self'' 1000 (tables stage)"
  by (simp add: node_ready_def host_enabled_def report_fresh_def RUNTIME_FRESH_SECONDS_def)

lemma stage_lease_user:
  "us_id stage_user = scene_uuid 0" "us_epoch stage_user = 1" "us_not_before stage_user = 0" "usable_user 1000 stage_user"
  "device_count 1000 (scene_uuid 0) (tables stage) = 1" "granted (tables stage) user epoch = 0" "user_cap stage_user = 100"
  by (simp_all add: stage_user_def usable_user_def unexpired_def device_count_def stage_device_def device_active_def
      granted_def epoch_leases_def user_cap_def)

lemma stage_text: "member_text (Some stage_request) ''boot_id'' = ''a''" "body_int (Some stage_request) ''request_seq'' 0 = 1"
  by (simp_all add: sbj_get_str_def sbj_get_int_def sbj_accessors)

theorem lease_granted_witness:
  "\<exists>out s' vs. sb_proxy_lease_exchange ''self'' (Some stage_request) 1000 stage = (Inr out, s')
    \<and> jget (Some out) ''users'' = Some (SBJ_ARRAY vs) \<and> served stage_user ''self'' ''a'' 1000 vs (tables s')"
proof -
  obtain c where c: "proxy_clock stage = Some c" "elapsed (us_id stage_user) (us_epoch stage_user) c"
    using scene_elapsed by (auto simp: stage_lease_user)
  have "fresh_ids (length (t_users (tables stage))) stage" by (auto simp: fresh_ids_def inj_on_def)
  then show ?thesis
    using lease_granted [OF stage_reachable _ _ _ c stage_request_ok _ _ _ _ stage_ready]
    by (simp add: stage_lease_user stage_text duplicate_reports_def)
qed

lemma exchange_effect_users:
  "exchange_effect host boot seq hash now out t0 t \<Longrightarrow> t_users t = t_users t0 \<and> t_devices t = t_devices t0"
  by (auto simp: exchange_effect_def session_upsert_def Let_def dest!: exchange_steps_frame)

lemma exchange_effect_steps:
  assumes "exchange_effect host boot seq hash now out t0 t"
  obtains "t = t0" | t1 where "exchange_steps host boot now t0 t1" "t_leases t = t_leases t1"
  using assms by (auto simp: exchange_effect_def session_upsert_def Let_def)

lemma stage_exchange:
  "\<exists>out s' vs. sb_proxy_lease_exchange ''self'' (Some stage_request) 1000 stage = (Inr out, s')
    \<and> served stage_user ''self'' ''a'' 1000 vs (tables s')"
proof -
  obtain c where c: "proxy_clock stage = Some c" "elapsed (us_id stage_user) (us_epoch stage_user) c"
    using scene_elapsed by (auto simp: stage_lease_user)
  have "fresh_ids (length (t_users (tables stage))) stage" by (auto simp: fresh_ids_def inj_on_def)
  then show ?thesis
    using exchange_runs [OF reachable_ok [OF stage_reachable] _ _ _ c stage_request_ok _ _ _ _ stage_ready]
    by (auto simp: stage_lease_user stage_text duplicate_reports_def)
qed

text \<open>After the exchange the user has a lease.\<close>

lemma stage_leased:
  "\<exists>t l. reachable t \<and> t_users t = [stage_user] \<and> l \<in> set (t_leases t) \<and> ls_user l = scene_uuid 0
     \<and> ls_epoch l = 1 \<and> ls_used_bytes l < ls_grant_bytes l"
proof -
  obtain out s vs where run: "sb_proxy_lease_exchange ''self'' (Some stage_request) 1000 stage = (Inr out, s)"
    and served: "served stage_user ''self'' ''a'' 1000 vs (tables s)" using stage_exchange by blast
  have "t_users (tables s) = [stage_user]"
    using run reachable_ok [OF stage_reachable]
    by (cases rule: exchange_cases) (auto dest!: exchange_effect_users)
  moreover have "run_op (Lease_Exchange ''self'' (Some stage_request)) 1000 stage = (Inr out, s)" using run by simp
  from reachable.step [OF stage_reachable _ _ this] have "reachable (tables s)" by simp
  ultimately show ?thesis using served by (auto simp: served_def stage_lease_user)
qed

end
