(* ===== verification/Proxy_Effects.thy ===== *)
theory Proxy_Effects
  imports Proxy_Grants
begin

text \<open>
  The specification of the entry points of \<open>c/src/proxy_users.c\<close>: for each of them what the tables are
  after a successful call, row by row, and what the call returns. Apart from the steps of an exchange
  it does not use the statements of the model; that the model meets it is the refinement at the end.
\<close>

subsection \<open>What a read returns\<close>

lemma works_conj: "works P m Q \<Longrightarrow> works P m R \<Longrightarrow> works P m (\<lambda>x t. Q x t \<and> R x t)"
  unfolding works_def triple_def by (fastforce split: prod.splits sum.splits)

text \<open>A loop that describes its rows one after the other.\<close>

lemma works_list:
  assumes "\<And>r ys t0. works (\<lambda>t. t = t0) (f r (SBJ_ARRAY ys))
    (\<lambda>x t. t = t0 \<and> (\<exists>y. V t0 r y \<and> x = SBJ_ARRAY (ys @ [y])))"
  shows "works P (sql_each query f sbj_array)
    (\<lambda>x t. P t \<and> (\<exists>ys. x = SBJ_ARRAY ys \<and> list_all2 (V t) (query t) ys))"
proof -
  have loop: "works (\<lambda>t. t = t0) (sql_loop f rs (SBJ_ARRAY xs))
      (\<lambda>x t. t = t0 \<and> (\<exists>ys. x = SBJ_ARRAY (xs @ ys) \<and> list_all2 (V t) rs ys))" for t0 rs xs
  proof (induction rs arbitrary: xs)
    case Nil
    show ?case unfolding sql_loop.simps
      by (rule works_dbind [OF works_readonly [OF reading.library(2)]]) (simp add: works_dret)
  next
    case (Cons r rs)
    have next_row: "works (\<lambda>t. t = t0 \<and> (\<exists>y. V t0 r y \<and> x = SBJ_ARRAY (xs @ [y]))) (sql_loop f rs x)
        (\<lambda>x t. t = t0 \<and> (\<exists>ys. x = SBJ_ARRAY (xs @ ys) \<and> list_all2 (V t) (r # rs) ys))" for x
    proof (rule works_each, clarify)
      fix y assume y: "V t0 r y"
      show "works (\<lambda>t. t = t0) (sql_loop f rs (SBJ_ARRAY (xs @ [y])))
          (\<lambda>x t. t = t0 \<and> (\<exists>ys. x = SBJ_ARRAY (xs @ ys) \<and> list_all2 (V t) (r # rs) ys))"
        by (rule works_post [OF Cons.IH]) (use y in fastforce)
    qed
    show ?case unfolding sql_loop.simps
      by (rule works_dbind [OF works_readonly [OF reading.library(2)]],
          rule works_dbind [OF assms next_row])
  qed
  show ?thesis
    unfolding sql_each_def sbj_array_def
  proof (rule works_each, rule works_dbind [OF works_readonly [OF reading.library(1)]])
    fix t0 and u :: unit assume P: "P t0"
    show "works (\<lambda>t. t = t0) (\<lambda>s. sql_loop f (query (tables s)) (SBJ_ARRAY []) s)
        (\<lambda>x t. P t \<and> (\<exists>ys. x = SBJ_ARRAY ys \<and> list_all2 (V t) (query t) ys))"
      using works_weaken [OF loop [of t0 "query t0" "[]"], of "\<lambda>t. t = t0"
          "\<lambda>x t. P t \<and> (\<exists>ys. x = SBJ_ARRAY ys \<and> list_all2 (V t) (query t) ys)"] P
      unfolding works_def triple_def by simp
  qed
qed

text \<open>A device as the administrator sees it: neither its key nor the hash of its token is shown.\<close>

definition device_view :: "device_row \<Rightarrow> sbj \<Rightarrow> bool" where
  "device_view d v \<longleftrightarrow>
     jget (Some v) ''id'' = Some (SBJ_STRING (dv_id d))
     \<and> jget (Some v) ''name'' = Some (SBJ_STRING (dv_name d))
     \<and> jget (Some v) ''enabled'' = Some (SBJ_BOOL (dv_enabled d))
     \<and> jget (Some v) ''expires_at'' = Some (SBJ_INT (dv_expires_at d))
     \<and> jget (Some v) ''created_at'' = Some (SBJ_INT (dv_created_at d))
     \<and> jget (Some v) ''password'' = None"

lemma device_view_json: "device_view d (device_json False d)"
  by (simp add: device_view_def device_json_def Let_def jset_values del: jget_jset)

text \<open>The description of a user: the columns of the row, the grants and the usage of the epoch, the
  hosts in order, and the devices in the order in which they were created.\<close>

definition user_view :: "proxy_db \<Rightarrow> string \<Rightarrow> sbj \<Rightarrow> bool" where
  "user_view t user v \<longleftrightarrow>
     (\<exists>u\<in>set (t_users t). us_id u = user \<and> \<not> us_deleted u
       \<and> jget (Some v) ''id'' = Some (SBJ_STRING user)
       \<and> jget (Some v) ''name'' = Some (SBJ_STRING (us_name u))
       \<and> jget (Some v) ''enabled'' = Some (SBJ_BOOL (us_enabled u))
       \<and> jget (Some v) ''quota_bytes'' = Some (SBJ_INT (us_quota_bytes u))
       \<and> jget (Some v) ''expires_at'' = Some (SBJ_INT (us_expires_at u))
       \<and> jget (Some v) ''max_devices'' = Some (SBJ_INT (us_max_devices u))
       \<and> jget (Some v) ''epoch'' = Some (SBJ_INT (us_epoch u))
       \<and> jget (Some v) ''not_before'' = Some (SBJ_INT (us_not_before u))
       \<and> jget (Some v) ''created_at'' = Some (SBJ_INT (us_created_at u))
       \<and> jget (Some v) ''updated_at'' = Some (SBJ_INT (us_updated_at u))
       \<and> jget (Some v) ''allocated_bytes'' = Some (SBJ_INT (granted t user (us_epoch u)))
       \<and> jget (Some v) ''reported_bytes'' = Some (SBJ_INT (reported t user (us_epoch u)))
       \<and> jget (Some v) ''host_ids'' =
           Some (SBJ_ARRAY (map SBJ_STRING (sort [h. (u, h) \<leftarrow> t_user_nodes t, u = user])))
       \<and> (\<exists>ds. jget (Some v) ''devices'' = Some (SBJ_ARRAY ds)
            \<and> list_all2 device_view
                (sort_key (\<lambda>d. (dv_created_at d, dv_id d)) [d \<leftarrow> t_devices t. dv_user d = user]) ds))"

lemma user_view_json:
  assumes "u \<in> set (t_users t)" "us_id u = user" "\<not> us_deleted u"
  shows "user_view t user (jset (jset (user_json u (granted t user (us_epoch u))
      (reported t user (us_epoch u)) wait) ''host_ids'' (SBJ_ARRAY (map SBJ_STRING (nodes_query user t))))
    ''devices'' (SBJ_ARRAY (map (device_json False) (devices_query user False 0 t))))"
proof -
  have "map snd (filter (\<lambda>(u, h). u = user) ns) = [h. (u, h) \<leftarrow> ns, u = user]" for ns :: "(string \<times> string) list"
    by (induction ns) auto
  moreover have "list_all2 device_view ds (map (device_json False) ds)" for ds
    by (induction ds) (simp_all add: device_view_json)
  ultimately show ?thesis
    unfolding user_view_def
    by (intro bexI [OF _ assms(1)])
      (simp_all add: assms user_json_def Let_def jset_values nodes_query_def devices_query_def
        del: jget_jset)
qed

lemma works_user_view: "works P (user_locked id') (\<lambda>v t. P t \<and> user_view t id' v)"
  unfolding user_locked_def
proof (rule works_dbind [OF works_first])
  fix row
  show "works (\<lambda>t. P t \<and> row = (case user_query id' t of [] \<Rightarrow> None | r # _ \<Rightarrow> Some r))
      (case row of None \<Rightarrow> dfail SB_ERR_NOT_FOUND ''Proxy user not found''
       | Some (u, allocated, used) \<Rightarrow>
           dbind (sb_proxy_clock_wait_ms id' (us_epoch u)) (\<lambda>wait_ms.
           dbind (sql_each (nodes_query id')
                   (\<lambda>host out. dret (sbj_arr_push out (Some (sbj_str (Some host))))) sbj_array) (\<lambda>hosts.
           dbind (devices_locked id' False 0) (\<lambda>devices.
             dret (jset (jset (user_json u allocated used wait_ms) ''host_ids'' hosts)
                     ''devices'' devices)))))
      (\<lambda>v t. P t \<and> user_view t id' v)"
  proof (cases row)
    case (Some r)
    obtain u allocated used where r: "r = (u, allocated, used)" by (cases r) auto
    have found: "u \<in> set (t_users t)" "us_id u = id'" "\<not> us_deleted u"
        "allocated = granted t id' (us_epoch u)" "used = reported t id' (us_epoch u)"
      if "row = (case user_query id' t of [] \<Rightarrow> None | r # _ \<Rightarrow> Some r)" for t
      using first_Some [OF that [symmetric, unfolded Some]] r by (auto simp: user_query_def live_user_def)
    have hosts: "foldl (\<lambda>a r. sbj_arr_push a (Some (sbj_str (Some r)))) sbj_array ns
        = SBJ_ARRAY (map SBJ_STRING ns)" for ns
      by (simp add: sbj_array_def foldl_arr_push sbj_str_def sbj_strn_def)
    have view: "user_view t id' (jset (jset (user_json u allocated used wait) ''host_ids'' hs) ''devices'' ds)"
      if "row = (case user_query id' t of [] \<Rightarrow> None | r # _ \<Rightarrow> Some r)"
        "hs = foldl (\<lambda>a r. sbj_arr_push a (Some (sbj_str (Some r)))) sbj_array (nodes_query id' t)"
        "ds = SBJ_ARRAY (map (device_json False) (devices_query id' False 0 t))" for t hs ds wait
      unfolding that(2,3) hosts found(4,5) [OF that(1)]
      by (rule user_view_json) (use found [OF that(1)] in simp_all)
    show ?thesis
      unfolding Some r option.case prod.case
      by (rule works_dbind [OF works_readonly [OF readonly_library(1)]],
          rule works_dbind [OF works_collect], rule works_dbind [OF works_devices_locked],
          rule works_dret, elim conjE, rule conjI, assumption, rule view)
        (simp_all only: Some r)
  qed (simp add: works_dfail)
qed

text \<open>An ingress node as the administrator sees it: without its key, and with what its host last
  reported.\<close>

definition node_view :: "proxy_db \<Rightarrow> int \<Rightarrow> string \<Rightarrow> sbj \<Rightarrow> bool" where
  "node_view t now host v \<longleftrightarrow>
     (\<exists>n\<in>set (t_ingress t). in_host n = host
       \<and> jget (Some v) ''host_id'' = Some (SBJ_STRING host)
       \<and> jget (Some v) ''enabled'' = Some (SBJ_BOOL (in_enabled n))
       \<and> jget (Some v) ''server'' = Some (SBJ_STRING (in_server n))
       \<and> jget (Some v) ''listen'' = Some (SBJ_STRING (in_listen n))
       \<and> jget (Some v) ''listen_port'' = Some (SBJ_INT (in_listen_port n))
       \<and> jget (Some v) ''updated_at'' = Some (SBJ_INT (in_updated_at n))
       \<and> jget (Some v) ''password'' = None
       \<and> (case find (\<lambda>r. rp_host r = host) (t_reports t) of
            None \<Rightarrow> jget (Some v) ''runtime_supported'' = Some (SBJ_BOOL False)
              \<and> jget (Some v) ''runtime_seen_at'' = Some (SBJ_INT 0)
          | Some r \<Rightarrow>
              jget (Some v) ''runtime_supported'' =
                Some (SBJ_BOOL (rp_supported r \<and> now - 180 \<le> rp_observed_at r \<and> rp_observed_at r \<le> now))
              \<and> jget (Some v) ''runtime_seen_at'' = Some (SBJ_INT (rp_observed_at r))))"

lemma works_runtime_seen:
  "works P (runtime_ready host now) (\<lambda>x t. P t
     \<and> x = (case find (\<lambda>r. rp_host r = host) (t_reports t) of
              None \<Rightarrow> (False, 0) | Some r \<Rightarrow> (report_fresh r now, rp_observed_at r)))"
  unfolding runtime_ready_def find_filter
  by (rule works_dbind [OF works_first], rule works_dret) auto

lemma works_node_view: "works P (node_locked host False now) (\<lambda>v t. P t \<and> node_view t now host v)"
  unfolding node_locked_def
proof (rule works_dbind [OF works_first])
  fix row
  show "works (\<lambda>t. P t \<and> row = (case filter (\<lambda>n. in_host n = host) (t_ingress t) of [] \<Rightarrow> None | r # _ \<Rightarrow> Some r))
      (case row of None \<Rightarrow> dfail SB_ERR_NOT_FOUND ''Proxy ingress node not found''
       | Some n \<Rightarrow> if False then dret (node_json False n)
           else dbind (runtime_ready host now) (\<lambda>(ready, seen).
             dret (jset_int (jset_bool (node_json False n) ''runtime_supported'' ready) ''runtime_seen_at'' seen)))
      (\<lambda>v t. P t \<and> node_view t now host v)"
  proof (cases row)
    case (Some n)
    have n: "n \<in> set (t_ingress t)" "in_host n = host"
      if "row = (case filter (\<lambda>n. in_host n = host) (t_ingress t) of [] \<Rightarrow> None | r # _ \<Rightarrow> Some r)" for t
      using first_Some [OF that [symmetric, unfolded Some]] by auto
    have view: "node_view t now host
        (jset_int (jset_bool (node_json False n) ''runtime_supported'' ready) ''runtime_seen_at'' seen)"
      if "row = (case filter (\<lambda>n. in_host n = host) (t_ingress t) of [] \<Rightarrow> None | r # _ \<Rightarrow> Some r)"
        "(ready, seen) = (case find (\<lambda>r. rp_host r = host) (t_reports t) of
           None \<Rightarrow> (False, 0) | Some r \<Rightarrow> (report_fresh r now, rp_observed_at r))" for t ready seen
      unfolding node_view_def
      by (rule bexI [OF _ n(1) [OF that(1)]])
        (use that(2) n(2) [OF that(1)] in \<open>simp add: node_json_def Let_def jset_values report_fresh_def
          RUNTIME_FRESH_SECONDS_def del: jget_jset split: option.splits\<close>)
    have last: "works (\<lambda>t. (P t \<and> row = (case filter (\<lambda>n. in_host n = host) (t_ingress t) of [] \<Rightarrow> None | r # _ \<Rightarrow> Some r))
          \<and> x = (case find (\<lambda>r. rp_host r = host) (t_reports t) of
              None \<Rightarrow> (False, 0) | Some r \<Rightarrow> (report_fresh r now, rp_observed_at r)))
        (case x of (ready, seen) \<Rightarrow>
          dret (jset_int (jset_bool (node_json False n) ''runtime_supported'' ready) ''runtime_seen_at'' seen))
        (\<lambda>v t. P t \<and> node_view t now host v)" for x
      unfolding case_prod_beta by (rule works_dret, elim conjE, rule conjI, assumption, rule view) simp_all
    show ?thesis
      unfolding option.case Some if_False
      by (rule works_dbind [OF works_runtime_seen last [unfolded Some]])
  qed (simp add: works_dfail)
qed

lemma works_users_list:
  "works P sb_proxy_users_list (\<lambda>v t. P t \<and> (\<exists>vs. v = SBJ_ARRAY vs \<and> list_all2 (user_view t)
     (map us_id (sort_key (\<lambda>u. (us_created_at u, us_id u)) (filter (\<lambda>u. \<not> us_deleted u) (t_users t)))) vs))"
  unfolding sb_proxy_users_list_def
  by (rule works_list, rule works_dbind [OF works_user_view], rule works_dret) (auto simp: or_null_def)

lemma works_ingress_list:
  "works P (sb_proxy_ingress_list now) (\<lambda>v t. P t \<and> (\<exists>vs. v = SBJ_ARRAY vs
     \<and> list_all2 (node_view t now) (sort (map in_host (t_ingress t))) vs))"
  unfolding sb_proxy_ingress_list_def
  by (rule works_list, rule works_dbind [OF works_node_view], rule works_dret) (auto simp: or_null_def)

text \<open>What a device is told of a node: the address, and the key of the node followed by its own.\<close>

definition outbound_view :: "string \<Rightarrow> ingress_row \<Rightarrow> sbj \<Rightarrow> bool" where
  "outbound_view key n v \<longleftrightarrow>
     jget (Some v) ''type'' = Some (SBJ_STRING ''shadowsocks'')
     \<and> jget (Some v) ''tag'' = Some (SBJ_STRING (in_host n))
     \<and> jget (Some v) ''server'' = Some (SBJ_STRING (in_server n))
     \<and> jget (Some v) ''server_port'' = Some (SBJ_INT (in_listen_port n))
     \<and> jget (Some v) ''method'' = Some (SBJ_STRING ''2022-blake3-aes-128-gcm'')
     \<and> jget (Some v) ''password'' = Some (SBJ_STRING (in_server_key n @ '':'' @ key))"

lemma outbound_view_json: "outbound_view key n (outbound_json key n)"
  by (simp add: outbound_view_def outbound_json_def METHOD_def Let_def jset_values del: jget_jset)

text \<open>A node serves a user when it is bound to the user and enabled, on an enabled host that reported
  support for proxy users within the last 180 seconds.\<close>

definition serving :: "proxy_db \<Rightarrow> int \<Rightarrow> string \<Rightarrow> ingress_row \<Rightarrow> bool" where
  "serving t now user n \<longleftrightarrow> (user, in_host n) \<in> set (t_user_nodes t) \<and> in_enabled n
     \<and> (\<exists>h\<in>set (t_hosts t). hs_id h = in_host n \<and> hs_enabled h)
     \<and> (\<exists>r\<in>set (t_reports t). rp_host r = in_host n \<and> rp_supported r
          \<and> now - 180 \<le> rp_observed_at r \<and> rp_observed_at r \<le> now)"

definition subscription_view :: "proxy_db \<Rightarrow> int \<Rightarrow> string \<Rightarrow> sbj \<Rightarrow> bool" where
  "subscription_view t now hash v \<longleftrightarrow>
     (\<exists>d\<in>set (t_devices t). \<exists>u\<in>set (t_users t). dv_token_hash d = hash \<and> dv_enabled d
       \<and> (dv_expires_at d = 0 \<or> now < dv_expires_at d) \<and> us_id u = dv_user d \<and> us_enabled u
       \<and> \<not> us_deleted u \<and> (us_expires_at u = 0 \<or> now < us_expires_at u)
       \<and> (\<exists>vs. jget (Some v) ''outbounds'' = Some (SBJ_ARRAY vs)
            \<and> list_all2 (outbound_view (dv_password d))
                (sort_key in_host (filter (serving t now (dv_user d)) (t_ingress t))) vs))"

lemma user_ingress_serving: "user_ingress user now t = filter (serving t now user) (t_ingress t)"
  unfolding user_ingress_def
  by (rule filter_cong)
    (auto simp: serving_def node_serves_def report_fresh_def RUNTIME_FRESH_SECONDS_def host_enabled_def
      list_ex_iff)

lemma works_subscription:
  "works P (dbind (sql_first (device_of_token hash now)) (\<lambda>row. case row of
        None \<Rightarrow> dfail SB_ERR_AUTH ''Invalid, revoked or expired device subscription''
      | Some (user, device_key) \<Rightarrow>
          dbind (sql_each (\<lambda>t. sort_key in_host (user_ingress user now t))
            (\<lambda>n nodes. dret (sbj_arr_push nodes (Some (outbound_json device_key n)))) sbj_array)
            (\<lambda>nodes. dret (jset sbj_object ''outbounds'' nodes))))
     (\<lambda>v t. P t \<and> subscription_view t now hash v)"
proof (rule works_dbind [OF works_first])
  fix row
  show "works (\<lambda>t. P t \<and> row = (case device_of_token hash now t of [] \<Rightarrow> None | r # _ \<Rightarrow> Some r))
      (case row of
        None \<Rightarrow> dfail SB_ERR_AUTH ''Invalid, revoked or expired device subscription''
      | Some (user, device_key) \<Rightarrow>
          dbind (sql_each (\<lambda>t. sort_key in_host (user_ingress user now t))
            (\<lambda>n nodes. dret (sbj_arr_push nodes (Some (outbound_json device_key n)))) sbj_array)
            (\<lambda>nodes. dret (jset sbj_object ''outbounds'' nodes)))
      (\<lambda>v t. P t \<and> subscription_view t now hash v)"
  proof (cases row)
    case (Some r)
    obtain user key where r: "r = (user, key)" by (cases r)
    have outs: "list_all2 (outbound_view key) ns (map (outbound_json key) ns)" for ns
      by (induction ns) (simp_all add: outbound_view_json)
    have view: "subscription_view t now hash (jset sbj_object ''outbounds''
        (foldl (\<lambda>a n. sbj_arr_push a (Some (outbound_json key n))) sbj_array (sort_key in_host (user_ingress user now t))))"
      if row: "row = (case device_of_token hash now t of [] \<Rightarrow> None | r # _ \<Rightarrow> Some r)" for t
    proof -
      obtain d u where du: "d \<in> set (t_devices t)" "u \<in> set (t_users t)" "user = dv_user d" "key = dv_password d"
          "dv_token_hash d = hash" "device_active now d" "us_id u = dv_user d" "usable_user now u"
        using first_Some [OF row [symmetric, unfolded Some r]]
        by (auto simp: device_of_token_def list_ex_iff)
      show ?thesis
        unfolding subscription_view_def sbj_array_def foldl_arr_push append_Nil
        using du(5-8) outs [of "sort_key in_host (user_ingress user now t)"]
        by (intro bexI [OF _ du(1)] bexI [OF _ du(2)])
          (simp add: device_active_def usable_user_def unexpired_def user_ingress_serving du(3,4))
    qed
    show ?thesis
      unfolding Some r option.case prod.case
      by (rule works_dbind [OF works_collect], rule works_dret) (use view in \<open>simp add: Some r\<close>)
  qed (simp add: works_dfail)
qed

text \<open>The answer to an exchange: the node's own address and key, and for each user served the lease of
  this boot in the tables with the user's active devices and their keys. A node that may not serve
  gets no users.\<close>

definition policy_device_view :: "device_row \<Rightarrow> sbj \<Rightarrow> bool" where
  "policy_device_view d v \<longleftrightarrow>
     jget (Some v) ''id'' = Some (SBJ_STRING (dv_id d))
     \<and> jget (Some v) ''expires_at'' = Some (SBJ_INT (dv_expires_at d))
     \<and> jget (Some v) ''password'' = Some (SBJ_STRING (dv_password d))"

definition lease_view :: "proxy_db \<Rightarrow> int \<Rightarrow> lease_row \<Rightarrow> sbj \<Rightarrow> bool" where
  "lease_view t now l v \<longleftrightarrow>
     jget (Some v) ''id'' = Some (SBJ_STRING (ls_user l))
     \<and> jget (Some v) ''epoch'' = Some (SBJ_INT (ls_epoch l))
     \<and> jget (jget (Some v) ''lease'') ''id'' = Some (SBJ_STRING (ls_id l))
     \<and> jget (jget (Some v) ''lease'') ''grant_bytes'' = Some (SBJ_INT (ls_grant_bytes l))
     \<and> jget (jget (Some v) ''lease'') ''used_bytes'' = Some (SBJ_INT (ls_used_bytes l))
     \<and> jget (jget (Some v) ''lease'') ''expires_at'' = Some (SBJ_INT (ls_expires_at l))
     \<and> (\<exists>ds. jget (Some v) ''devices'' = Some (SBJ_ARRAY ds)
          \<and> list_all2 policy_device_view
              (sort_key dv_id [d \<leftarrow> t_devices t. dv_user d = ls_user l \<and> dv_enabled d
                 \<and> (dv_expires_at d = 0 \<or> now < dv_expires_at d)]) ds)"

definition policy_node_view :: "ingress_row \<Rightarrow> sbj \<Rightarrow> bool" where
  "policy_node_view n v \<longleftrightarrow>
     jget (Some v) ''listen'' = Some (SBJ_STRING (in_listen n))
     \<and> jget (Some v) ''listen_port'' = Some (SBJ_INT (in_listen_port n))
     \<and> jget (Some v) ''method'' = Some (SBJ_STRING ''2022-blake3-aes-128-gcm'')
     \<and> jget (Some v) ''password'' = Some (SBJ_STRING (in_server_key n))"

definition served_lease :: "proxy_db \<Rightarrow> string \<Rightarrow> string \<Rightarrow> int \<Rightarrow> user_row \<Rightarrow> sbj \<Rightarrow> bool" where
  "served_lease t host boot now u v \<longleftrightarrow>
     (us_id u, host) \<in> set (t_user_nodes t) \<and> us_enabled u \<and> \<not> us_deleted u
     \<and> (us_expires_at u = 0 \<or> now < us_expires_at u) \<and> us_not_before u \<le> now
     \<and> (\<exists>l\<in>set (t_leases t). ls_user l = us_id u \<and> ls_host l = host \<and> ls_boot l = boot
          \<and> ls_epoch l = us_epoch u \<and> lease_view t now l v)"

definition answer_view :: "proxy_db \<Rightarrow> string \<Rightarrow> string \<Rightarrow> int \<Rightarrow> int \<Rightarrow> sbj \<Rightarrow> bool" where
  "answer_view t host boot seq now v \<longleftrightarrow>
     jget (Some v) ''version'' = Some (SBJ_INT 1)
     \<and> jget (Some v) ''host_id'' = Some (SBJ_STRING host)
     \<and> jget (Some v) ''boot_id'' = Some (SBJ_STRING boot)
     \<and> jget (Some v) ''request_seq'' = Some (SBJ_INT seq)
     \<and> jget (Some v) ''generated_at'' = Some (SBJ_INT now)
     \<and> jget (Some v) ''expires_at'' = Some (SBJ_INT (now + 60))
     \<and> (\<exists>node vs. jget (Some v) ''node'' = Some node \<and> jget (Some v) ''users'' = Some (SBJ_ARRAY vs)
          \<and> (\<forall>w\<in>set vs. \<exists>u\<in>set (t_users t). served_lease t host boot now u w)
          \<and> (node = SBJ_NULL \<and> vs = []
             \<or> (\<exists>n\<in>set (t_ingress t). in_host n = host \<and> policy_node_view n node)))"

subsection \<open>The effect of an operation\<close>

text \<open>The row with a key is written: it is made from the old one, or new if there was none. All other
  rows stay, in their order.\<close>

definition stored :: "('r \<Rightarrow> bool) \<Rightarrow> ('r option \<Rightarrow> 'r) \<Rightarrow> 'r list \<Rightarrow> 'r list \<Rightarrow> bool" where
  "stored p f rs rs' \<longleftrightarrow>
     filter (\<lambda>r. \<not> p r) rs' = filter (\<lambda>r. \<not> p r) rs
     \<and> filter p rs' = (if filter p rs = [] then [f None] else map (\<lambda>r. f (Some r)) (filter p rs))"

lemma stored_upsert:
  assumes "p (f None)" "\<And>r. p r \<Longrightarrow> p (f (Some r))" "\<And>r. p r \<Longrightarrow> g r = f (Some r)"
  shows "stored p f rs (upsert p g (f None) rs)"
proof (cases "list_ex p rs")
  case True
  have "filter (\<lambda>r. \<not> p r) (map (\<lambda>r. if p r then g r else r) xs) = filter (\<lambda>r. \<not> p r) xs"
    "filter p (map (\<lambda>r. if p r then g r else r) xs) = map (\<lambda>r. f (Some r)) (filter p xs)" for xs
    using assms(2,3) by (induction xs) auto
  then show ?thesis
    using True by (auto simp: stored_def upsert_def list_ex_iff filter_empty_conv)
next
  case False
  then have "filter p rs = []" by (auto simp: list_ex_iff filter_empty_conv)
  then show ?thesis using False assms(1) by (simp add: stored_def upsert_def)
qed

text \<open>The rows that saving a user and an ingress node write.\<close>

definition saved_user :: "string \<Rightarrow> sbj option \<Rightarrow> int \<Rightarrow> user_row option \<Rightarrow> user_row" where
  "saved_user user body now old =
     (case old of
        None \<Rightarrow>
          \<lparr>us_id = user, us_name = member_text body ''name'',
           us_enabled = sbj_get_bool body (Some ''enabled'') True, us_deleted = False,
           us_quota_bytes = body_int body ''quota_bytes'' 0,
           us_expires_at = body_int body ''expires_at'' 0,
           us_max_devices = body_int body ''max_devices'' 3, us_epoch = 1, us_not_before = 0,
           us_claim_hash = None, us_created_at = now, us_updated_at = now\<rparr>
      | Some u \<Rightarrow>
          \<lparr>us_id = us_id u, us_name = member_text body ''name'',
           us_enabled = sbj_get_bool body (Some ''enabled'') True, us_deleted = us_deleted u,
           us_quota_bytes = body_int body ''quota_bytes'' 0,
           us_expires_at = body_int body ''expires_at'' 0,
           us_max_devices = body_int body ''max_devices'' 3, us_epoch = us_epoch u,
           us_not_before = us_not_before u, us_claim_hash = us_claim_hash u,
           us_created_at = us_created_at u, us_updated_at = now\<rparr>)"

definition saved_ingress :: "string \<Rightarrow> sbj option \<Rightarrow> string \<Rightarrow> int \<Rightarrow> ingress_row option \<Rightarrow> ingress_row" where
  "saved_ingress host body key now old =
     \<lparr>in_host = host, in_enabled = sbj_get_bool body (Some ''enabled'') False,
      in_server = member_text body ''server'', in_listen = cstr (str_of (jget body ''listen'')),
      in_listen_port = body_int body ''listen_port'' 0,
      in_server_key = (case old of None \<Rightarrow> key | Some n \<Rightarrow> in_server_key n), in_updated_at = now\<rparr>"

definition body_hosts :: "sbj option \<Rightarrow> string list" where
  "body_hosts body = map (\<lambda>h. item_text (Some h)) (json_items (jget body ''host_ids''))"

text \<open>The random secrets: base64 of 16 bytes, or URL-safe base64 of 32.\<close>

definition drawn_key :: "sb_database \<Rightarrow> nat \<Rightarrow> string \<Rightarrow> bool" where
  "drawn_key s n key \<longleftrightarrow> (\<exists>raw. secret_bytes s n 16 = Some raw \<and> key = sb_base64_encode raw)"

definition drawn_token :: "sb_database \<Rightarrow> nat \<Rightarrow> string \<Rightarrow> bool" where
  "drawn_token s n token \<longleftrightarrow> (\<exists>raw. secret_bytes s n 32 = Some raw \<and> token = sb_base64url_encode raw)"

text \<open>What a report in a request says has been recorded on the node's lease.\<close>

definition usage_recorded :: "string \<Rightarrow> string \<Rightarrow> sbj list \<Rightarrow> proxy_db \<Rightarrow> bool" where
  "usage_recorded host boot reports t \<longleftrightarrow>
     (\<forall>r\<in>set reports. \<exists>l\<in>set (t_leases t). ls_id l = member_text (Some r) ''lease_id''
        \<and> ls_host l = host \<and> ls_boot l = boot \<and> ls_used_bytes l = body_int (Some r) ''used_bytes'' 0)"

text \<open>The effect of a successful operation: the tables \<open>t\<close> after it, row by row, and the result
  \<open>out\<close>. Every table that is not mentioned stays as it is.\<close>

fun op_effect :: "proxy_op \<Rightarrow> int \<Rightarrow> sb_database \<Rightarrow> sbj \<Rightarrow> proxy_db \<Rightarrow> bool" where
  "op_effect (Runtime_Report host capabilities) now s out t =
     (host_enabled (tables s) host \<and> (\<forall>c\<in>set (json_items capabilities). text_ok (Some c) 128 True)
      \<and> t = (tables s)\<lparr>t_reports := t_reports t\<rparr>
      \<and> stored (\<lambda>r. rp_host r = host)
          (\<lambda>_. \<lparr>rp_host = host,
                 rp_supported = (SBJ_STRING ''proxy_users_v1'' \<in> set (json_items capabilities)),
                 rp_observed_at = now\<rparr>) (t_reports (tables s)) (t_reports t)
      \<and> out = sbj_null)"
| "op_effect (User_Get user) now s out t = (t = tables s \<and> user_view t user out)"
| "op_effect Users_List now s out t =
     (t = tables s \<and> (\<exists>vs. out = SBJ_ARRAY vs \<and> list_all2 (user_view t)
        (map us_id (sort_key (\<lambda>u. (us_created_at u, us_id u)) [u \<leftarrow> t_users t. \<not> us_deleted u])) vs))"
| "op_effect (User_Save id' body) now s out t =
     (\<exists>user. user_body_ok body
      \<and> (case id' of
           None \<Rightarrow> user = next_uuid s \<and> length [u \<leftarrow> t_users (tables s). \<not> us_deleted u] < 256
         | Some i \<Rightarrow> user = i \<and> change_allowed i body now (tables s))
      \<and> distinct (body_hosts body) \<and> set (body_hosts body) \<subseteq> in_host ` set (t_ingress (tables s))
      \<and> t = (tables s)\<lparr>t_users := t_users t,
              t_user_nodes := [(u, h) \<leftarrow> t_user_nodes (tables s). u \<noteq> user] @ map (Pair user) (body_hosts body)\<rparr>
      \<and> stored (\<lambda>u. us_id u = user) (saved_user user body now) (t_users (tables s)) (t_users t)
      \<and> user_view t user out)"
| "op_effect (User_Remove user) now s out t =
     ((\<exists>u\<in>set (t_users (tables s)). us_id u = user \<and> \<not> us_deleted u)
      \<and> t = (tables s)\<lparr>t_users := map (\<lambda>u. if us_id u = user \<and> \<not> us_deleted u
                then u\<lparr>us_enabled := False, us_deleted := True, us_claim_hash := None, us_updated_at := now\<rparr>
                else u) (t_users (tables s)),
              t_devices := map (\<lambda>d. if dv_user d = user then d\<lparr>dv_enabled := False\<rparr> else d)
                (t_devices (tables s))\<rparr>
      \<and> out = sbj_null)"
| "op_effect (User_Reset user) now s out t =
     (1 \<le> now \<and> (\<exists>u\<in>set (t_users (tables s)). us_id u = user \<and> \<not> us_deleted u \<and> us_epoch u < SAFE_INTEGER)
      \<and> t = (tables s)\<lparr>t_users := map (\<lambda>u. if us_id u = user \<and> \<not> us_deleted u
                then u\<lparr>us_epoch := us_epoch u + 1,
                       us_not_before := Max (insert (now + 60)
                         (ls_expires_at ` {l \<in> set (t_leases (tables s)). ls_user l = user})),
                       us_updated_at := now\<rparr>
                else u) (t_users (tables s))\<rparr>
      \<and> (\<exists>v. user_view t user v \<and> out = jset_int v ''lease_wait_seconds'' 60))"
| "op_effect (Claim_Rotate user) now s out t =
     (\<exists>token. drawn_token s (secret_calls s) token
      \<and> (\<exists>u\<in>set (t_users (tables s)). us_id u = user \<and> \<not> us_deleted u)
      \<and> t = (tables s)\<lparr>t_users := map (\<lambda>u. if us_id u = user \<and> \<not> us_deleted u
                then u\<lparr>us_claim_hash := Some (sb_sha256_hex token s), us_updated_at := now\<rparr>
                else u) (t_users (tables s))\<rparr>
      \<and> out = jset_str sbj_object ''claim_token'' token)"
| "op_effect (Claim_Resolve token) now s out t =
     (t = tables s \<and> (\<exists>tok u. token = Some tok \<and> u \<in> set (t_users t)
        \<and> us_claim_hash u = Some (sb_sha256_hex tok s) \<and> us_enabled u \<and> \<not> us_deleted u
        \<and> (us_expires_at u = 0 \<or> now < us_expires_at u) \<and> out = SBJ_STRING (us_id u)))"
| "op_effect (Device_Create user body) now s out t =
     (\<exists>password token. drawn_key s (secret_calls s) password \<and> drawn_token s (secret_calls s + 1) token
      \<and> device_body_ok body now \<and> device_allowed user now (tables s)
      \<and> t = (tables s)\<lparr>t_devices := t_devices (tables s) @
              [\<lparr>dv_id = next_uuid s, dv_user = user, dv_name = member_text body ''name'',
                dv_enabled = True, dv_password = password, dv_token_hash = sb_sha256_hex token s,
                dv_expires_at = body_int body ''expires_at'' 0, dv_created_at = now, dv_revoked_at = None\<rparr>]\<rparr>
      \<and> out = jset_int (jset_str (jset_str (jset_str sbj_object ''id'' (next_uuid s))
                ''name'' (member_text body ''name'')) ''subscription_token'' token)
                ''expires_at'' (body_int body ''expires_at'' 0))"
| "op_effect (Device_Revoke user device) now s out t =
     ((\<exists>d\<in>set (t_devices (tables s)). dv_id d = device \<and> dv_user d = user)
      \<and> t = (tables s)\<lparr>t_devices := map (\<lambda>d. if dv_id d = device \<and> dv_user d = user
                then d\<lparr>dv_enabled := False, dv_revoked_at := Some now\<rparr> else d) (t_devices (tables s))\<rparr>
      \<and> out = sbj_null)"
| "op_effect Ingress_List now s out t =
     (t = tables s \<and> (\<exists>vs. out = SBJ_ARRAY vs
        \<and> list_all2 (node_view t now) (sort (map in_host (t_ingress t))) vs))"
| "op_effect (Ingress_Save host body) now s out t =
     (\<exists>key. drawn_key s (secret_calls s) key \<and> ingress_body_ok body \<and> host_enabled (tables s) host
      \<and> (sbj_get_bool body (Some ''enabled'') False \<longrightarrow> runtime_fresh host now (tables s))
      \<and> t = (tables s)\<lparr>t_ingress := t_ingress t\<rparr>
      \<and> stored (\<lambda>n. in_host n = host) (saved_ingress host body key now)
          (t_ingress (tables s)) (t_ingress t)
      \<and> node_view t now host out)"
| "op_effect (Subscription token) now s out t =
     (t = tables s \<and> (\<exists>tok. token = Some tok \<and> subscription_view t now (sb_sha256_hex tok s) out))"
| "op_effect (Lease_Exchange host request) now s out t =
     (let boot = member_text request ''boot_id''; seq = body_int request ''request_seq'' 0 in
      exchange_ok request now
      \<and> exchange_effect host boot seq (sb_sha256_hex (sbj_dump request (- 1)) s) now out (tables s) t
      \<and> (t = tables s
         \<or> usage_recorded host boot (json_items (jget request ''reports'')) t
           \<and> answer_view t host boot seq now out))"

subsection \<open>The operations have their effect\<close>

lemma works_user_room:
  "works P user_room (\<lambda>_ t. P t \<and> length (filter (\<lambda>u. \<not> us_deleted u) (t_users t)) < 256)"
  unfolding user_room_def
  by (rule works_dbind [OF works_first], rule works_if, rule works_dret)
    (auto intro: works_dfail split: option.splits)

abbreviation node_inserts :: "string \<Rightarrow> sbj list \<Rightarrow> (sb_database, unit) dbm" where
  "node_inserts id' hs \<equiv>
     dfor hs (\<lambda>h. dbind (sql_run (user_node_insert id' (item_text (Some h)))) (\<lambda>_. dret ()))"

lemma works_node_inserts:
  "works (\<lambda>t. t = t0) (node_inserts id' hs)
    (\<lambda>_ t. t = t0\<lparr>t_user_nodes := t_user_nodes t0 @ map (\<lambda>h. (id', item_text (Some h))) hs\<rparr>
       \<and> distinct (map (\<lambda>h. item_text (Some h)) hs)
       \<and> (\<forall>h\<in>set hs. (id', item_text (Some h)) \<notin> set (t_user_nodes t0)
            \<and> item_text (Some h) \<in> in_host ` set (t_ingress t0)))"
proof (induction hs arbitrary: t0)
  case Nil
  show ?case unfolding dfor.simps by (rule works_dret) simp
next
  case (Cons h hs)
  let ?t = "t0\<lparr>t_user_nodes := t_user_nodes t0 @ [(id', item_text (Some h))]\<rparr>"
  have one: "works (\<lambda>t. t = t0) (dbind (sql_run (user_node_insert id' (item_text (Some h)))) (\<lambda>_. dret ()))
      (\<lambda>_ t. t = ?t \<and> (id', item_text (Some h)) \<notin> set (t_user_nodes t0)
         \<and> item_text (Some h) \<in> in_host ` set (t_ingress t0))"
    by (rule works_dbind [OF works_run], rule works_dret)
      (auto simp: user_node_insert_def list_ex_iff split: if_splits, metis image_eqI)
  show ?case unfolding dfor.simps
  proof (rule works_dbind [OF one], rule works_each, clarify)
    fix n assume new: "(id', item_text (Some h)) \<notin> set (t_user_nodes t0)" "item_text (Some h) = in_host n"
      "n \<in> set (t_ingress t0)"
    show "works (\<lambda>t. t = ?t)
        (node_inserts id' hs)
        (\<lambda>_ t. t = t0\<lparr>t_user_nodes := t_user_nodes t0 @ map (\<lambda>h. (id', item_text (Some h))) (h # hs)\<rparr>
           \<and> distinct (map (\<lambda>h. item_text (Some h)) (h # hs))
           \<and> (\<forall>h\<in>set (h # hs). (id', item_text (Some h)) \<notin> set (t_user_nodes t0)
                \<and> item_text (Some h) \<in> in_host ` set (t_ingress t0)))"
      by (rule works_post [OF Cons.IH]) (use new in auto)
  qed
qed

lemma user_upsert_stored:
  assumes "user_upsert user body now t0 = Inr (t, n)"
  shows "t = t0\<lparr>t_users := t_users t\<rparr>
    \<and> stored (\<lambda>u. us_id u = user) (saved_user user body now) (t_users t0) (t_users t)"
proof -
  have new: "user_fields body now (user_new user now) = saved_user user body now None"
    by (simp add: user_fields_def user_new_def saved_user_def)
  have "stored (\<lambda>u. us_id u = user) (saved_user user body now) (t_users t0)
      (upsert (\<lambda>u. us_id u = user) (user_fields body now) (saved_user user body now None) (t_users t0))"
    by (rule stored_upsert) (simp_all add: user_fields_def saved_user_def)
  moreover have "t = t0\<lparr>t_users :=
      upsert (\<lambda>u. us_id u = user) (user_fields body now) (saved_user user body now None) (t_users t0)\<rparr>"
    using assms unfolding user_upsert_def new Let_def by (simp split: if_splits)
  ultimately show ?thesis by simp
qed

lemma works_user_saved:
  "works (\<lambda>t. t = t0) (user_save_body generated user body now)
    (\<lambda>out t. (if generated then length (filter (\<lambda>u. \<not> us_deleted u) (t_users t0)) < 256
              else change_allowed user body now t0)
       \<and> distinct (body_hosts body) \<and> set (body_hosts body) \<subseteq> in_host ` set (t_ingress t0)
       \<and> t = t0\<lparr>t_users := t_users t, t_user_nodes :=
               filter (\<lambda>(u, h). u \<noteq> user) (t_user_nodes t0) @ map (Pair user) (body_hosts body)\<rparr>
       \<and> stored (\<lambda>u. us_id u = user) (saved_user user body now) (t_users t0) (t_users t)
       \<and> user_view t user out)"
proof -
  let ?A = "if generated then length (filter (\<lambda>u. \<not> us_deleted u) (t_users t0)) < 256
    else change_allowed user body now t0"
  define J where "J t \<longleftrightarrow> ?A \<and> t = t0\<lparr>t_users := t_users t\<rparr>
    \<and> stored (\<lambda>u. us_id u = user) (saved_user user body now) (t_users t0) (t_users t)" for t
  let ?hosts = "json_items (jget body ''host_ids'')"
  define K where "K t \<longleftrightarrow> ?A \<and> distinct (body_hosts body) \<and> set (body_hosts body) \<subseteq> in_host ` set (t_ingress t0)
    \<and> t = t0\<lparr>t_users := t_users t, t_user_nodes :=
         filter (\<lambda>(u, h). u \<noteq> user) (t_user_nodes t0) @ map (Pair user) (body_hosts body)\<rparr>
    \<and> stored (\<lambda>u. us_id u = user) (saved_user user body now) (t_users t0) (t_users t)" for t
  have check: "works (\<lambda>t. t = t0) (if \<not> generated then user_change_ok user body now else user_room)
      (\<lambda>_ t. t = t0 \<and> ?A)"
    by (rule works_if, rule works_post [OF works_user_change_ok], simp, rule works_post [OF works_user_room]) simp
  have upsert: "works (\<lambda>t. t = t0 \<and> ?A) (sql_run (user_upsert user body now)) (\<lambda>_. J)"
    by (rule works_post [OF works_run]) (use user_upsert_stored in \<open>auto simp: J_def\<close>)
  have nodes: "works J (sql_run (user_nodes_delete user)) (\<lambda>_ t. \<exists>t1. J t1
      \<and> t = t1\<lparr>t_user_nodes := filter (\<lambda>(u, h). u \<noteq> user) (t_user_nodes t0)\<rparr>)"
  proof (rule works_post [OF works_run], clarify)
    fix n t t1 assume J: "J t1" and run: "user_nodes_delete user t1 = Inr (t, n)"
    then have "t_user_nodes t1 = t_user_nodes t0" by (metis J_def proxy_db.select_convs(6) proxy_db.surjective proxy_db.update_convs(5))
    then show "\<exists>t1. J t1 \<and> t = t1\<lparr>t_user_nodes := filter (\<lambda>(u, h). u \<noteq> user) (t_user_nodes t0)\<rparr>"
      using J run by (auto simp: user_nodes_delete_def)
  qed
  have inserts: "works (\<lambda>t. \<exists>t1. J t1 \<and> t = t1\<lparr>t_user_nodes := filter (\<lambda>(u, h). u \<noteq> user) (t_user_nodes t0)\<rparr>)
      (node_inserts user ?hosts) (\<lambda>_. K)"
  proof (rule works_each, clarify)
    fix t1 assume J: "J t1"
    then obtain us where t1: "t1 = t0\<lparr>t_users := us\<rparr>"
        "stored (\<lambda>u. us_id u = user) (saved_user user body now) (t_users t0) us" ?A
      by (metis J_def)
    show "works (\<lambda>t. t = t1\<lparr>t_user_nodes := filter (\<lambda>(u, h). u \<noteq> user) (t_user_nodes t0)\<rparr>)
        (node_inserts user ?hosts) (\<lambda>_. K)"
      by (rule works_post [OF works_node_inserts]) (use t1 in \<open>auto simp: K_def body_hosts_def\<close>)
  qed
  have "works (\<lambda>t. t = t0) (user_save_body generated user body now) (\<lambda>out t. K t \<and> user_view t user out)"
    unfolding user_save_body_def Let_def
    by (rule works_dbind [OF check],
        rule works_dbind [OF works_readonly [OF reading.for_each [OF readonly_checks(3)]]],
        rule works_dbind [OF upsert], rule works_dbind [OF nodes], rule works_dbind [OF inserts],
        rule works_user_view)
  then show ?thesis by (rule works_post) (simp add: K_def)
qed

lemma works_user_reset:
  "works (\<lambda>t. t = t0)
    (dbind (sql_run (user_next_epoch id' now)) (\<lambda>changes.
       if changes \<noteq> 1 then dfail SB_ERR_NOT_FOUND ''Proxy user not found''
       else
         dbind (user_locked id') (\<lambda>out.
         dbind (sb_proxy_clock_reset_epoch id' (body_int (Some out) ''epoch'' 0)) (\<lambda>_.
           dret (jset_int out ''lease_wait_seconds'' LEASE_SECONDS)))))
    (\<lambda>out t. user_next_epoch id' now t0 = Inr (t, 1)
       \<and> (\<exists>v. user_view t id' v \<and> out = jset_int v ''lease_wait_seconds'' 60))"
  by (rule works_dbind [OF works_run], rule works_if, rule works_dfail,
      rule works_dbind [OF works_user_view],
      rule works_dbind [OF works_readonly [OF readonly_library(2)]], rule works_dret)
    (auto simp: LEASE_SECONDS_def)

lemma last_lease_expiry_Max:
  assumes "0 \<le> a"
  shows "max a (last_lease_expiry t user) = Max (insert a (ls_expires_at ` {l \<in> set (t_leases t). ls_user l = user}))"
proof -
  define es where "es = map ls_expires_at (filter (\<lambda>l. ls_user l = user) (t_leases t))"
  have set: "ls_expires_at ` {l \<in> set (t_leases t). ls_user l = user} = set es" by (simp add: es_def)
  show ?thesis
  proof (cases es)
    case Nil
    then show ?thesis unfolding set using assms by (simp add: last_lease_expiry_def es_def [symmetric])
  next
    case (Cons e xs)
    have "foldl max e xs = Max (set (e # xs))"
      unfolding Max.set_eq_fold by (simp add: foldl_conv_fold max.commute)
    then show ?thesis unfolding set by (simp add: last_lease_expiry_def es_def [symmetric] Cons)
  qed
qed

lemma next_epoch_effect:
  assumes "users_ok t0" "1 \<le> now" "user_next_epoch user now t0 = Inr (t, 1)"
  shows "(\<exists>u\<in>set (t_users t0). us_id u = user \<and> \<not> us_deleted u \<and> us_epoch u < SAFE_INTEGER)
    \<and> t = t0\<lparr>t_users := map (\<lambda>u. if us_id u = user \<and> \<not> us_deleted u
           then u\<lparr>us_epoch := us_epoch u + 1,
                  us_not_before := Max (insert (now + 60) (ls_expires_at ` {l \<in> set (t_leases t0). ls_user l = user})),
                  us_updated_at := now\<rparr>
           else u) (t_users t0)\<rparr>"
proof -
  from assms(3) have one: "length (filter (\<lambda>u. live_user user u \<and> us_epoch u < SAFE_INTEGER) (t_users t0)) = 1"
    and t: "t = t0\<lparr>t_users := map (\<lambda>u. if live_user user u \<and> us_epoch u < SAFE_INTEGER
        then u\<lparr>us_epoch := us_epoch u + 1,
               us_not_before := max (now + LEASE_SECONDS) (last_lease_expiry t0 (us_id u)),
               us_updated_at := now\<rparr> else u) (t_users t0)\<rparr>"
    by (auto simp: user_next_epoch_def upd_rows_def)
  from one have "filter (\<lambda>u. live_user user u \<and> us_epoch u < SAFE_INTEGER) (t_users t0) \<noteq> []" by force
  then obtain u where u: "u \<in> set (t_users t0)" "live_user user u" "us_epoch u < SAFE_INTEGER"
    by (auto simp: filter_empty_conv)
  have "us_epoch v < SAFE_INTEGER" if "v \<in> set (t_users t0)" "live_user user v" for v
    using users_ok_unique [OF assms(1) u(1) that(1)] u that(2) by (auto simp: live_user_def)
  then show ?thesis
    unfolding t using u assms(2) last_lease_expiry_Max [of "now + 60" t0 user]
    by (auto simp: live_user_def LEASE_SECONDS_def intro!: arg_cong [of _ _ "\<lambda>us. t0\<lparr>t_users := us\<rparr>"])
qed

lemma ingress_upsert_stored:
  assumes "ingress_upsert host body key now t0 = Inr (t, n)"
  shows "t = t0\<lparr>t_ingress := t_ingress t\<rparr>
    \<and> stored (\<lambda>n. in_host n = host) (saved_ingress host body key now) (t_ingress t0) (t_ingress t)"
proof -
  have new: "ingress_fields body now
      \<lparr>in_host = host, in_enabled = False, in_server = [], in_listen = [], in_listen_port = 0,
       in_server_key = key, in_updated_at = now\<rparr> = saved_ingress host body key now None"
    by (simp add: ingress_fields_def saved_ingress_def)
  have "stored (\<lambda>n. in_host n = host) (saved_ingress host body key now) (t_ingress t0)
      (upsert (\<lambda>n. in_host n = host) (ingress_fields body now) (saved_ingress host body key now None) (t_ingress t0))"
    by (rule stored_upsert) (auto simp: ingress_fields_def saved_ingress_def)
  moreover have "t = t0\<lparr>t_ingress :=
      upsert (\<lambda>n. in_host n = host) (ingress_fields body now) (saved_ingress host body key now None) (t_ingress t0)\<rparr>"
    using assms unfolding ingress_upsert_def new Let_def by (simp split: if_splits)
  ultimately show ?thesis by simp
qed

lemma works_ingress_view:
  "works (\<lambda>t. t = t0) (ingress_save_body host body key now) (\<lambda>out t. node_view t now host out)"
  unfolding ingress_save_body_def
  by (rule works_dbind [where R = "\<lambda>_ _. True"], rule works_weaken [OF works_host_check], simp, simp,
      rule works_dbind [where R = "\<lambda>_ _. True"], rule works_post [OF works_readonly],
      (auto intro!: readonly_intros)[1], simp,
      rule works_dbind [OF works_run], rule works_post [OF works_node_view]) simp

lemma new_secret_cases:
  assumes "new_secret base64 s = (r, s')"
  shows "s' = s\<lparr>secret_calls := secret_calls s + 1\<rparr>"
    "r = Inr x \<Longrightarrow> base64 \<Longrightarrow> drawn_key s (secret_calls s) x"
    "r = Inr x \<Longrightarrow> \<not> base64 \<Longrightarrow> drawn_token s (secret_calls s) x"
  using assms
  by (auto simp: new_secret_def drawn_key_def drawn_token_def Let_def dret_def dfail_def sb_fail_def
      split: option.splits)

text \<open>Granting leaves the recorded usage alone.\<close>

definition same_usage :: "sb_database \<Rightarrow> sb_database \<Rightarrow> bool" where
  "same_usage s s' \<longleftrightarrow> (\<forall>l\<in>set (t_leases (tables s)). \<exists>l'\<in>set (t_leases (tables s')).
     ls_id l' = ls_id l \<and> ls_host l' = ls_host l \<and> ls_boot l' = ls_boot l \<and> ls_used_bytes l' = ls_used_bytes l)"

interpretation metering: db_relation same_usage
  by unfold_locales (auto simp: same_usage_def, (metis (no_types))+)

abbreviation keeps_usage :: "(sb_database, 'a) dbm \<Rightarrow> bool" where
  "keeps_usage \<equiv> db_relation.within same_usage"

lemma usage_readonly: "readonly m \<Longrightarrow> keeps_usage m"
  by (auto simp: metering.within_def reading.within_def same_usage_def same_tables_def)

lemma usage_map:
  assumes "\<And>l. ls_id (f l) = ls_id l \<and> ls_host (f l) = ls_host l \<and> ls_boot (f l) = ls_boot l
    \<and> ls_used_bytes (f l) = ls_used_bytes l"
  shows "same_usage s (s\<lparr>tables := (tables s)\<lparr>t_leases := map f (t_leases (tables s))\<rparr>\<rparr>)"
  using assms by (auto simp: same_usage_def)

lemma usage_lease_upsert: "keeps_usage (sql_run (lease_upsert l))"
proof (rule metering.run)
  fix s :: sb_database and t n assume "lease_upsert l (tables s) = Inr (t, n)"
  then show "same_usage s (s\<lparr>tables := t\<rparr>)"
  proof (cases rule: lease_upsert_cases)
    case renew
    show ?thesis unfolding renew(6) by (rule usage_map) simp
  next
    case fresh
    then show ?thesis by (auto simp: same_usage_def)
  qed
qed

lemma usage_lease_locked: "keeps_usage (lease_locked host boot user epoch quota expiry now)"
proof -
  have "keeps_usage (lease_write i l devices)" for i l devices
  proof -
    have uuid: "keeps_usage (case i of None \<Rightarrow> sb_uuid_v4 | Some i \<Rightarrow> dret i)"
      by (rule usage_readonly) (simp add: readonly_intros split: option.split)
    show ?thesis
      unfolding lease_write_def Let_def
      by (rule metering.dbind [OF uuid], rule metering.dbind [OF usage_lease_upsert], rule metering.basic)
  qed
  then show ?thesis
    unfolding lease_locked_def Let_def
    by (auto intro!: metering.dbind [OF usage_readonly] metering.branch readonly_devices_locked reading.first
        split: option.split) (auto intro!: metering.basic)
qed

lemma usage_exchange_grants: "keeps_usage (exchange_grants host boot now)"
proof -
  have user: "keeps_usage (lease_user host boot now u out)" for u out
    unfolding lease_user_def
    by (rule metering.dbind [OF usage_readonly [OF readonly_library(1)]], rule metering.branch,
        rule metering.basic, rule metering.dbind [OF usage_lease_locked], rule metering.basic)
  have "keeps_usage (dbind (node_locked host True now) (\<lambda>node.
      dbind (sql_each (lease_users host now) (lease_user host boot now) sbj_array) (\<lambda>users.
        dret (node, users))))"
    by (rule metering.dbind [OF usage_readonly [OF readonly_node_locked]],
        rule metering.dbind [OF metering.each [OF user]], rule metering.basic)
  then show ?thesis
    unfolding exchange_grants_def
    by (auto intro!: metering.dbind [OF metering.first] metering.dbind [OF usage_readonly [OF readonly_runtime_ready]]
        metering.branch metering.basic split: prod.split)
qed

lemma works_usage:
  "keeps_usage m \<Longrightarrow> works P m Q \<Longrightarrow> (\<And>t. P t \<Longrightarrow> usage_recorded host boot reports t) \<Longrightarrow>
     works P m (\<lambda>x t. Q x t \<and> usage_recorded host boot reports t)"
  unfolding works_def triple_def metering.within_def
  by (fastforce simp: same_usage_def usage_recorded_def split: prod.splits sum.splits)

text \<open>The reports of a request are recorded one after the other; no lease is reported twice.\<close>

abbreviation report_id :: "sbj \<Rightarrow> string" where
  "report_id r \<equiv> member_text (Some r) ''lease_id''"

lemma works_report_recorded:
  assumes "report_id r \<notin> report_id ` set past"
  shows "works (usage_recorded host boot past) (report_locked host boot r now)
    (\<lambda>_. usage_recorded host boot (past @ [r]))"
  unfolding report_locked_def Let_def
proof (rule works_dbind [OF works_first])
  fix row :: "lease_row option"
  let ?used = "body_int (Some r) ''used_bytes'' 0"
  let ?pre = "\<lambda>t. usage_recorded host boot past t \<and> row =
    (case filter (\<lambda>l. ls_id l = report_id r \<and> ls_host l = host \<and> ls_boot l = boot) (t_leases t) of
       [] \<Rightarrow> None | r # _ \<Rightarrow> Some r)"
  let ?ok = "case row of None \<Rightarrow> False | Some l \<Rightarrow> ls_used_bytes l \<le> ?used \<and> ?used \<le> ls_grant_bytes l"
  have "usage_recorded host boot (past @ [r]) t'" if pre: "?pre t" and ok: ?ok
    and run: "lease_usage (report_id r) ?used now t = Inr (t', n)" for t t' n
  proof -
    from ok obtain l where l: "row = Some l" by (cases row) auto
    with first_Some [OF conjunct2 [OF pre, symmetric, unfolded l]]
    have l': "l \<in> set (t_leases t)" "ls_id l = report_id r" "ls_host l = host" "ls_boot l = boot" by auto
    have t': "t_leases t' = map (\<lambda>l. if ls_id l = report_id r then l\<lparr>ls_used_bytes := ?used, ls_updated_at := now\<rparr>
        else l) (t_leases t)"
      using run by (auto simp: lease_usage_def upd_rows_def Let_def split: if_splits)
    have "\<exists>k\<in>set (t_leases t'). ls_id k = report_id q \<and> ls_host k = host \<and> ls_boot k = boot
        \<and> ls_used_bytes k = body_int (Some q) ''used_bytes'' 0" if q: "q \<in> set past" for q
    proof -
      obtain k where k: "k \<in> set (t_leases t)" "ls_id k = report_id q" "ls_host k = host" "ls_boot k = boot"
          "ls_used_bytes k = body_int (Some q) ''used_bytes'' 0"
        using pre q by (auto simp: usage_recorded_def)
      moreover have "report_id q \<noteq> report_id r" using assms imageI [OF q, of report_id] by metis
      ultimately show ?thesis unfolding t' by (intro bexI [of _ k]) (auto simp: image_iff)
    qed
    moreover have "\<exists>k\<in>set (t_leases t'). ls_id k = report_id r \<and> ls_host k = host \<and> ls_boot k = boot
        \<and> ls_used_bytes k = ?used"
      unfolding t' using l' by (intro bexI [of _ "l\<lparr>ls_used_bytes := ?used, ls_updated_at := now\<rparr>"]) force+
    ultimately show ?thesis by (auto simp: usage_recorded_def)
  qed
  then show "works ?pre
      (if ?ok then dbind (sql_run (lease_usage (report_id r) ?used now)) (\<lambda>_. dret ())
       else dfail SB_ERR_CONFLICT ''Unknown lease, counter rollback or usage exceeding the grant'')
      (\<lambda>_. usage_recorded host boot (past @ [r]))"
    by (intro works_if works_dfail) (rule works_dbind [OF works_run], rule works_dret, blast)
qed

lemma works_reports_recorded:
  "distinct (map report_id (past @ reports)) \<Longrightarrow> works (usage_recorded host boot past)
     (dfor reports (\<lambda>r. report_locked host boot r now)) (\<lambda>_. usage_recorded host boot (past @ reports))"
proof (induction reports arbitrary: past)
  case Nil
  show ?case by (simp add: works_dret)
next
  case (Cons r reports)
  have "works (usage_recorded host boot past) (report_locked host boot r now)
      (\<lambda>_. usage_recorded host boot (past @ [r]))"
    by (rule works_report_recorded) (use Cons.prems in auto)
  from works_dbind [OF this Cons.IH [of "past @ [r]"]] show ?case
    using Cons.prems by simp
qed

text \<open>A loop with an invariant about the rows it has been through.\<close>

lemma works_prefix:
  assumes "I [] acc t0"
    and "\<And>past r rest acc. query t0 = past @ r # rest \<Longrightarrow> works (I past acc) (f r acc) (I (past @ [r]))"
  shows "works (\<lambda>t. t = t0) (sql_each query f acc) (I (query t0))"
proof -
  have loop: "works (I past acc) (sql_loop f rest acc) (I (past @ rest))" if "query t0 = past @ rest" for past rest acc
    using that
  proof (induction rest arbitrary: past acc)
    case Nil
    show ?case unfolding sql_loop.simps
      by (rule works_dbind [OF works_readonly [OF reading.library(2)]]) (simp add: works_dret)
  next
    case (Cons r rest)
    show ?case unfolding sql_loop.simps
      by (rule works_dbind [OF works_readonly [OF reading.library(2)]],
          rule works_dbind [OF assms(2) [OF Cons.prems]])
        (use Cons.IH [of "past @ [r]"] Cons.prems in simp)
  qed
  show ?thesis
    unfolding sql_each_def
  proof (rule works_dbind [OF works_readonly [OF reading.library(1)]])
    fix u :: unit
    show "works (\<lambda>t. t = t0) (\<lambda>s. sql_loop f (query (tables s)) acc s) (I (query t0))"
      using works_weaken [OF loop [of "[]" "query t0" acc], of "\<lambda>t. t = t0" "I (query t0)"] assms(1)
      unfolding works_def triple_def by simp
  qed
qed

lemma lease_view_json:
  "lease_view t now l (lease_json l (SBJ_ARRAY (map (device_json True) (devices_query (ls_user l) True now t))))"
proof -
  have "list_all2 policy_device_view ds (map (device_json True) ds)" for ds
    by (induction ds)
      (simp_all add: policy_device_view_def device_json_def Let_def jset_values del: jget_jset)
  then show ?thesis
    by (simp add: lease_view_def lease_json_def devices_query_def device_active_def unexpired_def Let_def
        jset_values del: jget_jset)
qed

lemma works_lease_written:
  "works (\<lambda>t. t = t1) (lease_write id' l devices)
    (\<lambda>v t. \<exists>i n. (id' = None \<or> id' = Some i) \<and> lease_upsert (l\<lparr>ls_id := i\<rparr>) t1 = Inr (t, n)
       \<and> v = lease_json (l\<lparr>ls_id := i\<rparr>) devices)"
proof -
  have id: "works (\<lambda>t. t = t1) (case id' of None \<Rightarrow> sb_uuid_v4 | Some i \<Rightarrow> dret i)
      (\<lambda>i t. t = t1 \<and> (id' = None \<or> id' = Some i))"
    by (cases id') (auto intro: works_dret works_post [OF works_readonly [OF readonly_library(4)]])
  show ?thesis
    unfolding lease_write_def Let_def
    by (rule works_dbind [OF id], rule works_dbind [OF works_run], rule works_dret) blast
qed

text \<open>The lease of a user is written and described, or the user gets none; other users' leases stay.\<close>

definition leased :: "proxy_db \<Rightarrow> string \<Rightarrow> string \<Rightarrow> string \<Rightarrow> int \<Rightarrow> int \<Rightarrow> sbj \<Rightarrow> proxy_db \<Rightarrow> bool" where
  "leased t1 user host boot epoch now v t \<longleftrightarrow> v = sbj_null \<and> t = t1
     \<or> (\<exists>l\<in>set (t_leases t). ls_user l = user \<and> ls_host l = host \<and> ls_boot l = boot \<and> ls_epoch l = epoch
          \<and> lease_view t now l v \<and> t = t1\<lparr>t_leases := t_leases t\<rparr>
          \<and> (\<forall>k\<in>set (t_leases t1). ls_user k \<noteq> user \<longrightarrow> k \<in> set (t_leases t)))"

lemma lease_row_written:
  assumes "lease_upsert l t1 = Inr (t, n)"
    and "\<And>k. find (same_slot l) (t_leases t1) = Some k \<Longrightarrow> ls_id l = ls_id k \<and> ls_used_bytes l = ls_used_bytes k"
  shows "l \<in> set (t_leases t) \<and> t = t1\<lparr>t_leases := t_leases t\<rparr>
    \<and> (\<forall>k\<in>set (t_leases t1). ls_user k \<noteq> ls_user l \<longrightarrow> k \<in> set (t_leases t))"
  using assms(1)
proof (cases rule: lease_upsert_cases)
  case (renew k)
  have "k\<lparr>ls_grant_bytes := ls_grant_bytes l, ls_expires_at := ls_expires_at l, ls_updated_at := ls_updated_at l\<rparr> = l"
    using renew(2) assms(2) [OF renew(3)] by (simp add: same_slot_def)
  then have "l \<in> set (t_leases t)" unfolding renew(6) using renew(1,2) by (force simp: image_iff)
  moreover have "k \<in> set (t_leases t)" if "k \<in> set (t_leases t1)" "ls_user k \<noteq> ls_user l" for k
    unfolding renew(6) using that by (auto simp: same_slot_def)
  ultimately show ?thesis by (simp add: renew(6))
qed auto

lemma works_leased:
  "works (\<lambda>t. t = t1) (lease_locked host boot user epoch quota expiry now)
    (leased t1 user host boot epoch now)"
proof (rule works_lease_rule)
  fix row :: "lease_row option" and devices hosts used grant
  let ?l = "\<lparr>ls_id = [], ls_user = user, ls_host = host, ls_boot = boot, ls_epoch = epoch,
    ls_grant_bytes = grant, ls_used_bytes = used,
    ls_expires_at = lease_until expiry now, ls_updated_at = now\<rparr>"
  assume row: "row = (case lease_slot user host boot epoch t1 of [] \<Rightarrow> None | r # _ \<Rightarrow> Some r)"
    and devices: "devices = SBJ_ARRAY (map (device_json True) (devices_query user True now t1))"
    and used: "used = (case row of None \<Rightarrow> 0 | Some l \<Rightarrow> ls_used_bytes l)"
  show "works (\<lambda>t. t = t1) (lease_write (map_option ls_id row) ?l devices) (leased t1 user host boot epoch now)"
  proof (rule works_post [OF works_lease_written], clarify)
    fix t i n assume id: "map_option ls_id row = None \<or> map_option ls_id row = Some i"
      and run: "lease_upsert (?l\<lparr>ls_id := i\<rparr>) t1 = Inr (t, n)"
    have slot: "find (same_slot (?l\<lparr>ls_id := i\<rparr>)) (t_leases t1) = row"
      unfolding row by (subst lease_slot_find [of "?l\<lparr>ls_id := i\<rparr>"]) simp_all
    note written = lease_row_written [OF run, unfolded slot]
    have w: "?l\<lparr>ls_id := i\<rparr> \<in> set (t_leases t)" "t = t1\<lparr>t_leases := t_leases t\<rparr>"
        "\<And>k. k \<in> set (t_leases t1) \<Longrightarrow> ls_user k \<noteq> user \<Longrightarrow> k \<in> set (t_leases t)"
      using written id used by auto
    have "devices_query user True now t = devices_query user True now t1"
      by (subst w(2)) (simp add: devices_query_def)
    then have "lease_view t now (?l\<lparr>ls_id := i\<rparr>) (lease_json (?l\<lparr>ls_id := i\<rparr>) devices)"
      using lease_view_json [of t now "?l\<lparr>ls_id := i\<rparr>"] by (simp add: devices)
    then show "leased t1 user host boot epoch now (lease_json (?l\<lparr>ls_id := i\<rparr>) devices) t"
      unfolding leased_def using w by (intro disjI2 bexI [OF _ w(1)]) simp
  qed
qed (simp add: leased_def)

lemma served_frame:
  assumes "served_lease t host boot now u v" "t' = t\<lparr>t_leases := ls\<rparr>"
    and "\<And>l. l \<in> set (t_leases t) \<Longrightarrow> ls_user l = us_id u \<Longrightarrow> l \<in> set ls"
  shows "served_lease t' host boot now u v"
proof -
  have view: "lease_view t' now l v = lease_view t now l v" for l
    by (simp add: lease_view_def assms(2))
  show ?thesis using assms(1,3) unfolding served_lease_def view by (auto simp: assms(2))
qed

lemma leased_served:
  assumes "leased t1 (us_id u) host boot (us_epoch u) now v t" "v \<noteq> sbj_null"
    "(us_id u, host) \<in> set (t_user_nodes t1)" "usable_user now u" "us_not_before u \<le> now"
  shows "served_lease t host boot now u v"
proof -
  obtain l where l: "l \<in> set (t_leases t)" "ls_user l = us_id u" "ls_host l = host" "ls_boot l = boot"
      "ls_epoch l = us_epoch u" "lease_view t now l v" "t = t1\<lparr>t_leases := t_leases t\<rparr>"
    using assms(1,2) by (auto simp: leased_def)
  have "t_user_nodes t = t_user_nodes t1" by (subst l(7)) simp
  then show ?thesis
    unfolding served_lease_def using assms(3-5) l by (auto simp: usable_user_def unexpired_def)
qed

text \<open>One round of the loop: the answers so far stay valid, and a new one is about the user.\<close>

definition answered :: "proxy_db \<Rightarrow> string \<Rightarrow> string \<Rightarrow> int \<Rightarrow> user_row list \<Rightarrow> sbj \<Rightarrow> proxy_db \<Rightarrow> bool" where
  "answered t0 host boot now us v t \<longleftrightarrow> t = t0\<lparr>t_leases := t_leases t\<rparr>
     \<and> (\<exists>vs. v = SBJ_ARRAY vs \<and> (\<forall>w\<in>set vs. \<exists>u\<in>set us. served_lease t host boot now u w))"

lemma answered_leased:
  assumes "answered t0 host boot now past acc t1" "leased t1 (us_id u) host boot (us_epoch u) now v t"
    and u: "u \<in> set (lease_users host now t0)" "us_id u \<notin> us_id ` set past" "us_not_before u \<le> now"
  shows "answered t0 host boot now (past @ [u])
    (if sbj_is_null (Some v) then acc else sbj_arr_push acc (Some v)) t"
proof -
  obtain vs where t1: "t1 = t0\<lparr>t_leases := t_leases t1\<rparr>" and acc: "acc = SBJ_ARRAY vs"
    and old: "\<And>w. w \<in> set vs \<Longrightarrow> \<exists>u\<in>set past. served_lease t1 host boot now u w"
    using assms(1) by (auto simp: answered_def)
  have t: "t = t1\<lparr>t_leases := t_leases t\<rparr>"
    "\<And>k. k \<in> set (t_leases t1) \<Longrightarrow> ls_user k \<noteq> us_id u \<Longrightarrow> k \<in> set (t_leases t)"
    using assms(2) by (auto simp: leased_def)
  have frame: "t = t0\<lparr>t_leases := t_leases t\<rparr>" by (subst t(1), subst t1) simp
  have nodes: "t_user_nodes t1 = t_user_nodes t0" by (subst t1) simp
  have kept: "\<exists>x\<in>set (past @ [u]). served_lease t host boot now x w" if w: "w \<in> set vs" for w
  proof -
    obtain x where x: "x \<in> set past" "served_lease t1 host boot now x w" using old [OF w] by blast
    have "us_id x \<noteq> us_id u" using u(2) imageI [OF x(1), of us_id] by metis
    then have "served_lease t host boot now x w" by (intro served_frame [OF x(2) t(1)]) (simp add: t(2))
    then show ?thesis using x(1) by auto
  qed
  have new: "served_lease t host boot now u v" if "v \<noteq> sbj_null"
    by (rule leased_served [OF assms(2) that]) (use u nodes in \<open>auto simp: lease_users_def\<close>)
  have null: "sbj_is_null (Some v) \<longleftrightarrow> v = sbj_null"
    by (cases v) (simp_all add: sbj_null_def)
  show ?thesis
    unfolding answered_def using frame kept new by (auto simp: acc null or_null_def)
qed

lemma works_lease_users:
  assumes "users_ok t0"
  shows "works (\<lambda>t. t = t0) (sql_each (lease_users host now) (lease_user host boot now) sbj_array)
    (answered t0 host boot now (lease_users host now t0))"
proof (rule works_prefix)
  show "answered t0 host boot now [] sbj_array t0" by (simp add: answered_def sbj_array_def)
  fix past u rest acc assume users: "lease_users host now t0 = past @ u # rest"
  have "distinct (map us_id (lease_users host now t0))"
    using assms by (simp add: lease_users_def users_ok_def distinct_map_filter distinct_map inj_on_def)
  then have new: "us_id u \<notin> us_id ` set past" "u \<in> set (lease_users host now t0)"
    unfolding users by auto
  show "works (answered t0 host boot now past acc) (lease_user host boot now u acc)
      (answered t0 host boot now (past @ [u]))"
    unfolding lease_user_def
  proof (rule works_dbind [OF works_readonly [OF readonly_library(1)]], rule works_if)
    show "works (answered t0 host boot now past acc) (dret acc) (answered t0 host boot now (past @ [u]))"
      by (rule works_dret) (fastforce simp: answered_def)
  next
    fix wait_ms assume wait: "\<not> (0 < wait_ms \<or> now < us_not_before u)"
    show "works (answered t0 host boot now past acc)
        (dbind (lease_locked host boot (us_id u) (us_epoch u) (us_quota_bytes u) (us_expires_at u) now)
          (\<lambda>v. dret (if sbj_is_null (Some v) then acc else sbj_arr_push acc (Some v))))
        (answered t0 host boot now (past @ [u]))"
      by (rule works_each, rule works_dbind [OF works_leased], rule works_dret,
          rule answered_leased [OF _ _ new(2,1)]) (use wait in auto)
  qed
qed

lemma works_policy_node:
  "works P (node_locked host True now)
    (\<lambda>v t. P t \<and> (\<exists>n\<in>set (t_ingress t). in_host n = host \<and> policy_node_view n v))"
  unfolding node_locked_def
proof (rule works_dbind [OF works_first])
  fix row
  have "policy_node_view n (node_json True n)" for n
    by (simp add: policy_node_view_def node_json_def METHOD_def Let_def jset_values del: jget_jset)
  then show "works (\<lambda>t. P t \<and> row = (case filter (\<lambda>n. in_host n = host) (t_ingress t) of [] \<Rightarrow> None | r # _ \<Rightarrow> Some r))
      (case row of None \<Rightarrow> dfail SB_ERR_NOT_FOUND ''Proxy ingress node not found''
       | Some n \<Rightarrow> if True then dret (node_json True n)
           else dbind (runtime_ready host now) (\<lambda>(ready, seen).
             dret (jset_int (jset_bool (node_json True n) ''runtime_supported'' ready) ''runtime_seen_at'' seen)))
      (\<lambda>v t. P t \<and> (\<exists>n\<in>set (t_ingress t). in_host n = host \<and> policy_node_view n v))"
    by (cases row) (auto intro!: works_dfail works_dret dest!: sym [of "Some _"] first_Some)
qed

text \<open>The users and the node of an answer.\<close>

definition answer_parts :: "proxy_db \<Rightarrow> string \<Rightarrow> string \<Rightarrow> int \<Rightarrow> sbj \<times> sbj \<Rightarrow> bool" where
  "answer_parts t host boot now p \<longleftrightarrow>
     (\<exists>vs. snd p = SBJ_ARRAY vs \<and> (\<forall>w\<in>set vs. \<exists>u\<in>set (t_users t). served_lease t host boot now u w)
        \<and> (fst p = SBJ_NULL \<and> vs = [] \<or> (\<exists>n\<in>set (t_ingress t). in_host n = host \<and> policy_node_view n (fst p))))"

lemma works_exchange_answer:
  assumes "users_ok t0"
  shows "works (\<lambda>t. t = t0) (exchange_grants host boot now) (\<lambda>p t. answer_parts t host boot now p)"
proof -
  have node: "works (\<lambda>t. t = t0)
      (dbind (node_locked host True now) (\<lambda>node.
       dbind (sql_each (lease_users host now) (lease_user host boot now) sbj_array) (\<lambda>users.
         dret (node, users)))) (\<lambda>p t. answer_parts t host boot now p)"
  proof (rule works_dbind [OF works_policy_node], rule works_each, elim conjE, simp only:)
    fix node assume n: "\<exists>n\<in>set (t_ingress t0). in_host n = host \<and> policy_node_view n node"
    show "works (\<lambda>t. t = t0)
        (dbind (sql_each (lease_users host now) (lease_user host boot now) sbj_array) (\<lambda>users.
           dret (node, users))) (\<lambda>p t. answer_parts t host boot now p)"
    proof (rule works_dbind [OF works_lease_users [OF assms]], rule works_dret)
      fix users t assume "answered t0 host boot now (lease_users host now t0) users t"
      then obtain vs where t: "t = t0\<lparr>t_leases := t_leases t\<rparr>" and vs: "users = SBJ_ARRAY vs"
          "\<And>w. w \<in> set vs \<Longrightarrow> \<exists>u\<in>set (lease_users host now t0). served_lease t host boot now u w"
        by (auto simp: answered_def)
      have "t_users t = t_users t0" "t_ingress t = t_ingress t0" by (subst t, simp)+
      then show "answer_parts t host boot now (node, users)"
        using vs n by (auto simp: answer_parts_def lease_users_def)
    qed
  qed
  show ?thesis
    unfolding exchange_grants_def
    by (rule works_dbind [OF works_readonly [OF reading.first]],
        rule works_dbind [OF works_readonly [OF readonly_runtime_ready]])
      (use node in \<open>auto intro!: works_if works_dret split: prod.split\<close>,
        (simp add: answer_parts_def sbj_null_def sbj_array_def)+)
qed

lemma answer_view_response:
  assumes "answer_parts t host boot now (node, users)"
  shows "answer_view (t\<lparr>t_sessions := ss\<rparr>) host boot seq now (response_json host boot seq now node users)"
proof -
  have served: "served_lease (t\<lparr>t_sessions := ss\<rparr>) = served_lease t"
    by (intro ext) (simp add: served_lease_def lease_view_def)
  obtain vs where vs: "users = SBJ_ARRAY vs" "\<forall>w\<in>set vs. \<exists>u\<in>set (t_users t). served_lease t host boot now u w"
      "node = SBJ_NULL \<and> vs = [] \<or> (\<exists>n\<in>set (t_ingress t). in_host n = host \<and> policy_node_view n node)"
    using assms by (auto simp: answer_parts_def)
  have "jget (Some (response_json host boot seq now node users)) ''node'' = Some node"
    "jget (Some (response_json host boot seq now node users)) ''users'' = Some (SBJ_ARRAY vs)"
    by (simp_all add: response_json_def vs(1) Let_def jset_values del: jget_jset)
  then show ?thesis
    unfolding answer_view_def served using vs(2,3)
    by (simp_all add: response_json_def LEASE_SECONDS_def Let_def jset_values del: jget_jset)
qed

lemma works_fresh_answer:
  assumes ok: "db_ok t0" and reports: "distinct (map report_id reports)"
  shows "works (\<lambda>t. t = t0) (exchange_fresh host boot seq hash reports now)
    (\<lambda>out t. usage_recorded host boot reports t \<and> answer_view t host boot seq now out)"
proof -
  let ?U = "usage_recorded host boot reports"
  have recorded: "works (\<lambda>t. t = t0) (dfor reports (\<lambda>r. report_locked host boot r now)) (\<lambda>_ t. ?U t)"
    using works_weaken [OF works_reports_recorded [of "[]" reports host boot now]] reports
    by (simp add: usage_recorded_def)
  have steps: "works (\<lambda>t. t = t0) (dfor reports (\<lambda>r. report_locked host boot r now))
      (\<lambda>_ t. exchange_steps host boot now t0 t)"
    by (rule works_weaken [OF works_dfor [OF works_report_locked]]) simp_all
  have grants: "works (\<lambda>t. ?U t \<and> exchange_steps host boot now t0 t) (exchange_grants host boot now)
      (\<lambda>p t. answer_parts t host boot now p \<and> ?U t)"
  proof (rule works_each, elim conjE)
    fix t1 assume t1: "?U t1" "exchange_steps host boot now t0 t1"
    then have "users_ok t1" using exchange_steps_ok [OF t1(2) ok] by (simp add: db_ok_def)
    from works_usage [OF usage_exchange_grants works_exchange_answer [OF this]]
    show "works (\<lambda>t. t = t1) (exchange_grants host boot now) (\<lambda>p t. answer_parts t host boot now p \<and> ?U t)"
      using t1(1) by blast
  qed
  have store: "works (\<lambda>t. answer_parts t host boot now p \<and> ?U t)
      (dbind (sql_run (session_upsert row)) (\<lambda>_. dret (response_json host boot seq now (fst p) (snd p))))
      (\<lambda>out t. ?U t \<and> answer_view t host boot seq now out)" for p row
    by (rule works_dbind [OF works_run], rule works_dret)
      (auto simp: session_upsert_def usage_recorded_def answer_view_response)
  show ?thesis
    unfolding exchange_fresh_def Let_def
    by (rule works_dbind [OF works_conj [OF recorded steps]], rule works_dbind [OF grants])
      (use store in \<open>simp add: split_beta\<close>)
qed

lemma works_exchange_result:
  assumes "db_ok t0" "distinct (map report_id reports)"
  shows "works (\<lambda>t. t = t0) (exchange_body host boot seq hash reports now)
    (\<lambda>out t. t = t0 \<or> usage_recorded host boot reports t \<and> answer_view t host boot seq now out)"
  unfolding exchange_body_def
proof (rule works_dbind [OF works_readonly [OF readonly_checks(4)]],
    rule works_dbind [OF works_readonly [OF reading.first]])
  fix u :: unit and row :: "session_row option"
  have "works (\<lambda>t. t = t0)
      (case row of None \<Rightarrow> dsilent
       | Some e \<Rightarrow> (case sbj_parse (Some (se_response e)) of
            Inl _ \<Rightarrow> dfail SB_ERR_GENERIC ''Stored proxy lease snapshot is invalid''
          | Inr out \<Rightarrow> dret out))
      (\<lambda>out t. t = t0 \<or> usage_recorded host boot reports t \<and> answer_view t host boot seq now out)"
    by (auto intro!: works_dsilent works_dfail works_dret split: option.split sum.split)
  moreover have "works (\<lambda>t. t = t0) (exchange_fresh host boot seq hash reports now)
      (\<lambda>out t. t = t0 \<or> usage_recorded host boot reports t \<and> answer_view t host boot seq now out)"
    by (rule works_post [OF works_fresh_answer [OF assms]]) simp
  ultimately show "works (\<lambda>t. t = t0)
      (let replay = case row of None \<Rightarrow> False | Some e \<Rightarrow> seq = se_request_seq e \<and> hash = se_request_hash e;
           conflict = case row of None \<Rightarrow> seq \<noteq> 1 | Some e \<Rightarrow> seq \<noteq> se_request_seq e + 1 \<and> \<not> replay in
       if conflict
       then dfail SB_ERR_CONFLICT ''Proxy lease sequence changed; retry the same request or use the next sequence''
       else if replay
       then (case row of None \<Rightarrow> dsilent
             | Some e \<Rightarrow> (case sbj_parse (Some (se_response e)) of
                  Inl _ \<Rightarrow> dfail SB_ERR_GENERIC ''Stored proxy lease snapshot is invalid''
                | Inr out \<Rightarrow> dret out))
       else exchange_fresh host boot seq hash reports now)
      (\<lambda>out t. t = t0 \<or> usage_recorded host boot reports t \<and> answer_view t host boot seq now out)"
    unfolding Let_def by (intro works_if works_dfail)
qed

lemma effect_exchange:
  assumes ok: "db_ok (tables s)" and saved: "saved s = None"
  shows "keeps_promise s (run_op (Lease_Exchange host request) now s) (op_effect (Lease_Exchange host request) now s)"
proof -
  obtain r s' where run: "sb_proxy_lease_exchange host request now s = (r, s')" by force
  then show ?thesis
    using ok saved
  proof (cases rule: exchange_cases)
    case (failed e)
    then show ?thesis by (simp add: keeps_promise_def run)
  next
    case (answered out)
    let ?reports = "json_items (jget request ''reports'')"
    let ?body = "exchange_body host (member_text request ''boot_id'') (body_int request ''request_seq'' 0)
      (sb_sha256_hex (sbj_dump request (- 1)) s) ?reports now"
    have tr: "\<not> duplicate_reports ?reports" "transaction ?body s = (r, s')"
      using run answered(1) unfolding sb_proxy_lease_exchange_def Let_def
      by (auto simp: dfail_def sb_fail_def split: if_splits)
    have "atomic db_ok (transaction ?body) (\<lambda>out t0 t. t = t0
        \<or> usage_recorded host (member_text request ''boot_id'') ?reports t
          \<and> answer_view t host (member_text request ''boot_id'') (body_int request ''request_seq'' 0) now out)"
      by (rule atomic_transaction, rule works_exchange_result [OF _ duplicate_reports_distinct [OF tr(1)]])
    from atomicD(3) [OF this ok saved tr(2) answered(1)] answered(2-4)
    show ?thesis by (simp add: keeps_promise_def run answered(1) Let_def)
  qed
qed

lemma promise_refine:
  assumes "keeps_promise s res Q"
    and "\<And>out s'. res = (Inr out, s') \<Longrightarrow> Q out (tables s') \<Longrightarrow> Q' out (tables s')"
  shows "keeps_promise s res Q'"
  using assms by (cases res; cases "fst res") (auto simp: keeps_promise_def)

lemma promise_read:
  assumes "readonly m" "works (\<lambda>t. t = tables s) m (\<lambda>out t. t = tables s \<and> Q out t)" "saved s = None"
    and "\<And>out. Q out (tables s) \<Longrightarrow> Q' out (tables s)"
  shows "keeps_promise s (m s) Q'"
proof -
  obtain r s' where m: "m s = (r, s')" by force
  have s': "tables s' = tables s" "saved s' = None"
    using reading.withinD [OF assms(1) m] assms(3) by (simp_all add: same_tables_def)
  show ?thesis
  proof (cases r)
    case (Inr out)
    have "Q out (tables s')" using works_Inr [OF assms(2) refl m [unfolded Inr]] by blast
    then show ?thesis using assms(4) s' m Inr by (simp add: keeps_promise_def)
  qed (simp add: keeps_promise_def m s')
qed

lemma then_null_out: "then_null m s = (Inr out, s') \<Longrightarrow> out = sbj_null"
  by (auto simp: then_null_def dbind_def dret_def split: prod.splits sum.splits)

lemma capabilities_ok_Inr:
  "capabilities_ok cs b = Inr b' \<Longrightarrow> (\<forall>c\<in>set cs. text_ok (Some c) 128 True)
     \<and> (b' \<longleftrightarrow> b \<or> SBJ_STRING ''proxy_users_v1'' \<in> set cs)"
  by (induction cs arbitrary: b)
    (auto simp: sb_fail_def sbj_string_is_def split: if_splits option.splits sbj.splits)

lemma effect_report:
  assumes "saved s = None"
  shows "keeps_promise s (run_op (Runtime_Report host capabilities) now s)
    (op_effect (Runtime_Report host capabilities) now s)"
proof -
  have "keeps_promise s (dbind (sql_run (report_upsert host b now))
      (\<lambda>n. if n \<noteq> 1 then dfail SB_ERR_AUTH ''Runtime host is unknown or disabled'' else dret sbj_null) s)
      (op_effect (Runtime_Report host capabilities) now s)"
    if b: "capabilities_ok (json_items capabilities) False = Inr b" for b
  proof (rule promise_changes [OF assms])
    fix t assume run: "report_upsert host b now (tables s) = Inr (t, 1)"
    let ?f = "\<lambda>_. \<lparr>rp_host = host, rp_supported = b, rp_observed_at = now\<rparr>"
    have "stored (\<lambda>r. rp_host r = host) ?f (t_reports (tables s))
        (upsert (\<lambda>r. rp_host r = host) (\<lambda>r. r\<lparr>rp_supported := b, rp_observed_at := now\<rparr>) (?f None) (t_reports (tables s)))"
      by (rule stored_upsert) auto
    then show "op_effect (Runtime_Report host capabilities) now s sbj_null t"
      using run capabilities_ok_Inr [OF b] by (auto simp: report_upsert_def split: if_splits)
  qed (auto simp: report_upsert_def split: if_splits)
  then show ?thesis
    using promise_fail [OF assms]
    by (auto simp: then_null_def sb_proxy_runtime_report_def dbind_assoc if_distrib [of "\<lambda>m. dbind m f" for f]
        dbind_def [of "\<lambda>s. (Inl e, s)" for e] simp del: op_effect.simps cong: if_cong split: sum.split)
qed

lemma effect_user_save:
  assumes "saved s = None"
  shows "keeps_promise s (run_op (User_Save id' body) now s) (op_effect (User_Save id' body) now s)"
proof -
  note save = atomic_transaction [OF works_user_saved, where P = "\<lambda>_. True"]
  show ?thesis
  proof (cases "user_body_ok body \<and> host_ids_ok [] (json_items (jget body ''host_ids'')) = Inr ()")
    case True
    show ?thesis
    proof (cases id')
      case (Some i)
      have "keeps_promise s (transaction (user_save_body False i body now) s)
          (op_effect (User_Save id' body) now s)"
        by (rule promise_atomic [OF save]) (use True Some assms in auto)
      then show ?thesis using True Some by (simp add: sb_proxy_user_save_def del: op_effect.simps)
    next
      case None
      let ?s = "s\<lparr>uuid_calls := uuid_calls s + 1\<rparr>"
      have "keeps_promise ?s (transaction (user_save_body True (next_uuid s) body now) ?s)
          (op_effect (User_Save id' body) now s)"
        by (rule promise_atomic [OF save]) (use True None assms in auto)
      from promise_state [OF this, of s] show ?thesis
        using True None by (simp add: sb_proxy_user_save_def dbind_def sb_uuid_v4_def del: op_effect.simps)
    qed
  next
    case False
    then show ?thesis
      using promise_fail [OF assms]
      by (cases "host_ids_ok [] (json_items (jget body ''host_ids''))")
        (auto simp: sb_proxy_user_save_def simp del: op_effect.simps)
  qed
qed

lemma effect_device_create:
  assumes "saved s = None"
  shows "keeps_promise s (run_op (Device_Create user body) now s) (op_effect (Device_Create user body) now s)"
proof (cases "device_body_ok body now")
  case True
  define s1 where "s1 = s\<lparr>uuid_calls := uuid_calls s + 1\<rparr>"
  obtain p s2 where p: "new_secret True s1 = (p, s2)" by force
  obtain k s3 where k: "new_secret False s2 = (k, s3)" by force
  have s3: "tables s3 = tables s" "saved s3 = None" "sha256 s3 = sha256 s"
    using new_secret_cases(1) [OF p] new_secret_cases(1) [OF k] assms by (simp_all add: s1_def)
  have run: "run_op (Device_Create user body) now s =
      (case (p, k) of
         (Inr password, Inr token) \<Rightarrow>
           dbind (transaction (device_create_body
               (device_new (next_uuid s) user body password (sb_sha256_hex token s) now) now))
             (\<lambda>_. dret (device_result (next_uuid s) body token)) s3
       | (_, Inl e) \<Rightarrow> (Inl e, s3) | (Inl e, _) \<Rightarrow> (Inl e, s3))"
    using True p k s3(3)
    by (cases p; cases k) (simp_all add: sb_proxy_device_create_def dbind_def [of sb_uuid_v4] sb_uuid_v4_def
        s1_def sb_sha256_hex_def)
  have create: "atomic (\<lambda>_. True) (transaction (device_create_body d now))
      (\<lambda>_ t0 t. device_allowed (dv_user d) now t0 \<and> (\<exists>n. device_insert d t0 = Inr (t, n)))" for d
    by (rule atomic_transaction) (rule works_device_create_body)
  have ok: "keeps_promise s (dbind (transaction (device_create_body
             (device_new (next_uuid s) user body password (sb_sha256_hex token s) now) now))
             (\<lambda>_. dret (device_result (next_uuid s) body token)) s3)
         (op_effect (Device_Create user body) now s)" if pk: "p = Inr password" "k = Inr token" for password token
  proof -
    let ?d = "device_new (next_uuid s) user body password (sb_sha256_hex token s) now"
    obtain r s4 where tr: "transaction (device_create_body ?d now) s3 = (r, s4)" by force
    have drawn: "drawn_key s (secret_calls s) password" "drawn_token s (secret_calls s + 1) token"
      using new_secret_cases(2) [OF p pk(1)] new_secret_cases(3) [OF k pk(2)] new_secret_cases(1) [OF p]
      by (simp_all add: s1_def drawn_key_def drawn_token_def)
    have "op_effect (Device_Create user body) now s (device_result (next_uuid s) body token) (tables s4)"
      if "r = Inr x" for x
    proof -
      have "device_allowed user now (tables s)" "\<exists>n. device_insert ?d (tables s) = Inr (tables s4, n)"
        using atomicD(3) [OF create TrueI s3(2) tr that] s3(1) by (simp_all add: device_new_def)
      then show ?thesis
        using drawn True unfolding op_effect.simps
        by (intro exI [of _ password] exI [of _ token])
          (auto simp: device_insert_def device_new_def device_result_def Let_def split: if_splits)
    qed
    then show ?thesis
      using atomicD(1,2) [OF create TrueI s3(2) tr] s3(1) tr
      by (cases r) (auto simp: keeps_promise_def dbind_def dret_def simp del: op_effect.simps)
  qed
  show ?thesis
    unfolding run using ok promise_state [OF promise_fail(1) [OF s3(2)] s3(1)]
    by (auto simp del: op_effect.simps split: sum.split)
qed (use promise_fail [OF assms] in \<open>simp add: sb_proxy_device_create_def del: op_effect.simps\<close>)

lemma effect_claim_rotate:
  assumes ok: "db_ok (tables s)" and "saved s = None"
  shows "keeps_promise s (run_op (Claim_Rotate user) now s) (op_effect (Claim_Rotate user) now s)"
proof -
  obtain k s1 where k: "new_secret False s = (k, s1)" by force
  have s1: "tables s1 = tables s" "saved s1 = None" "sha256 s1 = sha256 s"
    using new_secret_cases(1) [OF k] assms(2) by simp_all
  have "keeps_promise s1 (dbind (sql_run (claim_update user (sb_sha256_hex token s) now))
      (\<lambda>n. if n = 1 then dret (jset_str sbj_object ''claim_token'' token)
        else dfail SB_ERR_NOT_FOUND ''Proxy user not found'') s1)
      (op_effect (Claim_Rotate user) now s)" if token: "k = Inr token" for token
  proof (rule promise_changes [OF s1(2)])
    fix t assume "claim_update user (sb_sha256_hex token s) now (tables s1) = Inr (t, 1)"
    then have t: "t = (tables s)\<lparr>t_users := map (\<lambda>u. if us_id u = user \<and> \<not> us_deleted u
          then u\<lparr>us_claim_hash := Some (sb_sha256_hex token s), us_updated_at := now\<rparr> else u) (t_users (tables s))\<rparr>"
        "length (filter (live_user user) (t_users (tables s))) = 1"
      by (auto simp: claim_update_def upd_rows_def live_user_def s1(1) Let_def split: if_splits)
    then have "filter (live_user user) (t_users (tables s)) \<noteq> []" by force
    then show "op_effect (Claim_Rotate user) now s (jset_str sbj_object ''claim_token'' token) t"
      unfolding op_effect.simps using new_secret_cases(3) [OF k token] t(1)
      by (intro exI [of _ token]) (auto simp: filter_empty_conv live_user_def)
  next
    fix t n assume "claim_update user (sb_sha256_hex token s) now (tables s1) = Inr (t, n)" "n \<noteq> 1"
    then show "t = tables s1"
      using ok s1(1) users_untouched
      by (auto simp: claim_update_def db_ok_def split: if_splits prod.splits)
  qed auto
  from promise_state [OF this s1(1)] promise_state [OF promise_fail(1) [OF s1(2)] s1(1)]
  show ?thesis
    using k s1(3)
    by (cases k) (simp_all add: sb_proxy_claim_rotate_def dbind_def [of "new_secret False"] sb_sha256_hex_def
        del: op_effect.simps)
qed

lemma effect_ingress_save:
  assumes "saved s = None"
  shows "keeps_promise s (run_op (Ingress_Save host body) now s) (op_effect (Ingress_Save host body) now s)"
proof (cases "ingress_body_ok body")
  case True
  obtain k s1 where k: "new_secret True s = (k, s1)" by force
  have s1: "tables s1 = tables s" "saved s1 = None" using new_secret_cases(1) [OF k] assms by simp_all
  show ?thesis
  proof (cases k)
    case (Inl e)
    then show ?thesis
      using True k promise_state [OF promise_fail(1) [OF s1(2)] s1(1)]
      by (simp add: sb_proxy_ingress_save_def dbind_def del: op_effect.simps)
  next
    case (Inr key)
    have "keeps_promise s1 (transaction (ingress_save_body host body key now) s1)
        (op_effect (Ingress_Save host body) now s)"
    proof (rule promise_atomic [OF atomic_transaction [OF works_conj [OF works_ingress_save_body works_ingress_view],
            where P = "\<lambda>_. True"] TrueI s1(2)], elim conjE exE)
      fix out t n assume "host_enabled (tables s1) host" "node_view t now host out"
        "sbj_get_bool body (Some ''enabled'') False \<longrightarrow> runtime_fresh host now (tables s1)"
        "ingress_upsert host body key now (tables s1) = Inr (t, n)"
      then show "op_effect (Ingress_Save host body) now s out t"
        unfolding op_effect.simps
        using True s1(1) ingress_upsert_stored [of host body key now "tables s1" t n] new_secret_cases(2) [OF k Inr]
        by (intro exI [of _ key]) simp
    qed
    from promise_state [OF this s1(1)] show ?thesis
      using True k Inr by (simp add: sb_proxy_ingress_save_def dbind_def del: op_effect.simps)
  qed
qed (use promise_fail [OF assms] in \<open>simp add: sb_proxy_ingress_save_def del: op_effect.simps\<close>)

lemma effect_user_reset:
  assumes ok: "db_ok (tables s)" and "saved s = None"
  shows "keeps_promise s (run_op (User_Reset user) now s) (op_effect (User_Reset user) now s)"
proof (cases "now < 1 \<or> now > 4102444740")
  case True
  then show ?thesis
    using promise_fail [OF assms(2)] by (simp add: sb_proxy_user_reset_def del: op_effect.simps)
next
  case False
  have "keeps_promise s (sb_proxy_user_reset user now s) (op_effect (User_Reset user) now s)"
    unfolding sb_proxy_user_reset_def if_not_P [OF False]
    by (rule promise_atomic [OF atomic_transaction [OF works_user_reset, where P = "\<lambda>_. True"] TrueI assms(2)])
      (use False next_epoch_effect [of "tables s" now user] ok in \<open>auto simp: db_ok_def\<close>)
  then show ?thesis by simp
qed

lemma effect_tokens:
  assumes saved: "saved s = None"
  shows "keeps_promise s (run_op (Claim_Resolve token) now s) (op_effect (Claim_Resolve token) now s)"
    "keeps_promise s (run_op (Subscription token) now s) (op_effect (Subscription token) now s)"
proof -
  show "keeps_promise s (run_op (Subscription token) now s) (op_effect (Subscription token) now s)"
  proof (cases "\<exists>tok. token = Some tok \<and> length tok = 43")
    case True
    then obtain tok where tok: "token = Some tok" "length tok = 43" by blast
    let ?m = "dbind (sql_first (device_of_token (sb_sha256_hex tok s) now)) (\<lambda>row. case row of
        None \<Rightarrow> dfail SB_ERR_AUTH ''Invalid, revoked or expired device subscription''
      | Some (user, device_key) \<Rightarrow>
          dbind (sql_each (\<lambda>t. sort_key in_host (user_ingress user now t))
            (\<lambda>n nodes. dret (sbj_arr_push nodes (Some (outbound_json device_key n)))) sbj_array)
            (\<lambda>nodes. dret (jset sbj_object ''outbounds'' nodes)))"
    have "readonly ?m" by (auto intro!: readonly_intros split: option.split)
    from promise_read [OF this works_subscription saved] have "keeps_promise s (?m s) (op_effect (Subscription token) now s)"
      using tok(1) by simp
    then show ?thesis using tok by (simp add: sb_proxy_subscription_def del: op_effect.simps)
  qed (use promise_fail [OF saved] in \<open>auto simp: sb_proxy_subscription_def simp del: op_effect.simps split: option.split\<close>)
  show "keeps_promise s (run_op (Claim_Resolve token) now s) (op_effect (Claim_Resolve token) now s)"
  proof (cases "\<exists>tok. token = Some tok \<and> length tok = 43")
    case True
    then obtain tok where tok: "token = Some tok" "length tok = 43" by blast
    let ?q = "\<lambda>t. filter (\<lambda>u. us_claim_hash u = Some (sb_sha256_hex tok s) \<and> usable_user now u) (t_users t)"
    let ?m = "dbind (sql_first ?q) (\<lambda>row. case row of Some u \<Rightarrow> dret (SBJ_STRING (us_id u))
        | None \<Rightarrow> dfail SB_ERR_AUTH ''Invalid or expired proxy claim token'')"
    have read: "readonly ?m" by (auto intro!: readonly_intros split: option.split)
    have "works (\<lambda>t. t = tables s) ?m (\<lambda>out t. t = tables s \<and> (\<exists>u\<in>set (?q t). out = SBJ_STRING (us_id u)))"
      by (rule works_dbind [OF works_first])
        (auto intro!: works_dret works_dfail split: option.split dest!: sym [of "Some _"] first_Some)
    from promise_read [OF read this saved] have "keeps_promise s (?m s) (op_effect (Claim_Resolve token) now s)"
      using tok(1) by (auto simp: usable_user_def unexpired_def)
    moreover have "run_op (Claim_Resolve token) now s = ?m s"
      using tok
      by (auto simp: sb_proxy_claim_resolve_def dbind_def dret_def dfail_def sb_fail_def sbj_str_def sbj_strn_def
          split: prod.split sum.split option.split)
    ultimately show ?thesis by simp
  next
    case False
    then have "run_op (Claim_Resolve token) now s = dfail SB_ERR_AUTH ''Invalid proxy claim token'' s"
      by (auto simp: sb_proxy_claim_resolve_def dbind_def dfail_def sb_fail_def split: option.split)
    then show ?thesis using promise_fail [OF saved] by (simp del: op_effect.simps)
  qed
qed

lemma effect_user_remove:
  assumes ok: "db_ok (tables s)" and "saved s = None"
  shows "keeps_promise s (run_op (User_Remove user) now s) (op_effect (User_Remove user) now s)"
proof (rule promise_refine [OF op_refines [OF assms, of "User_Remove user"]])
  fix out s' assume run: "run_op (User_Remove user) now s = (Inr out, s')"
    and "op_writes (User_Remove user) now s out (tables s')"
  then obtain t1 n where t1: "user_delete user now (tables s) = Inr (t1, 1)" "devices_disable user t1 = Inr (tables s', n)"
    by auto
  from t1(1) have "length (filter (live_user user) (t_users (tables s))) = 1"
    by (auto simp: user_delete_def upd_rows_def)
  then have "filter (live_user user) (t_users (tables s)) \<noteq> []" by force
  then have live: "\<exists>u\<in>set (t_users (tables s)). us_id u = user \<and> \<not> us_deleted u"
    by (auto simp: filter_empty_conv live_user_def)
  have "out = sbj_null" using run then_null_out by simp
  then show "op_effect (User_Remove user) now s out (tables s')"
    using t1 live by (auto simp: user_delete_def devices_disable_def upd_rows_def live_user_def)
qed

lemma effect_device_revoke:
  assumes ok: "db_ok (tables s)" and "saved s = None"
  shows "keeps_promise s (run_op (Device_Revoke user device) now s) (op_effect (Device_Revoke user device) now s)"
proof (rule promise_refine [OF op_refines [OF assms, of "Device_Revoke user device"]])
  fix out s' assume run: "run_op (Device_Revoke user device) now s = (Inr out, s')"
    and writes: "op_writes (Device_Revoke user device) now s out (tables s')"
  then have "length (filter (\<lambda>d. dv_id d = device \<and> dv_user d = user) (t_devices (tables s))) = 1"
    by (auto simp: device_disable_def upd_rows_def)
  then have "filter (\<lambda>d. dv_id d = device \<and> dv_user d = user) (t_devices (tables s)) \<noteq> []" by force
  then have "\<exists>d\<in>set (t_devices (tables s)). dv_id d = device \<and> dv_user d = user"
    by (auto simp: filter_empty_conv)
  moreover have "out = sbj_null" using run then_null_out by simp
  ultimately show "op_effect (Device_Revoke user device) now s out (tables s')"
    using writes by (simp add: device_disable_def upd_rows_def)
qed

lemma effect_reads:
  assumes saved: "saved s = None"
  shows "keeps_promise s (run_op (User_Get user) now s) (op_effect (User_Get user) now s)"
    "keeps_promise s (run_op Users_List now s) (op_effect Users_List now s)"
    "keeps_promise s (run_op Ingress_List now s) (op_effect Ingress_List now s)"
proof -
  note reads = promise_read [OF readonly_queries(1) works_user_view [folded sb_proxy_user_get_def] saved]
    promise_read [OF readonly_queries(2) works_users_list saved]
    promise_read [OF readonly_queries(3) works_ingress_list saved]
  show "keeps_promise s (run_op (User_Get user) now s) (op_effect (User_Get user) now s)"
    unfolding run_op.simps by (rule reads(1)) simp
  show "keeps_promise s (run_op Users_List now s) (op_effect Users_List now s)"
    unfolding run_op.simps by (rule reads(2)) simp
  show "keeps_promise s (run_op Ingress_List now s) (op_effect Ingress_List now s)"
    unfolding run_op.simps by (rule reads(3)) simp
qed

text \<open>Refinement: whatever SQLite reports in between, every entry point of \<open>proxy_users.h\<close> either
  fails and leaves the tables as they were, or succeeds with its effect. No transaction stays open.\<close>

lemma op_effects:
  assumes "db_ok (tables s)" "saved s = None"
  shows "keeps_promise s (run_op op now s) (op_effect op now s)"
  using effect_report effect_reads effect_user_save effect_user_remove effect_user_reset effect_claim_rotate
    effect_tokens effect_device_create effect_device_revoke effect_ingress_save effect_exchange assms
  by (cases op) (simp_all only:)

end
