(* ===== verification/Proxy_Promises.thy ===== *)
theory Proxy_Promises
  imports Proxy_Effects Json_Roundtrip
begin

text \<open>
  What holds of all reachable tables: refinement of every operation to its effect, the budget of a
  user, the separation of epochs, revoked devices, and the answer a node gets when it repeats a
  request. The instances use the database of \<open>Proxy_Grants\<close>.
\<close>


subsection \<open>Properties of the reachable tables\<close>




text \<open>(C2) In all reachable tables, for each user: what the nodes reported as used in the current epoch is
  at most what was granted, over all nodes and all their restarts, and that is at most the quota
  (or \<open>SAFE_INTEGER\<close> when there is none).\<close>

theorem lease_budget:
  assumes "reachable t" "u \<in> set (t_users t)"
  shows "0 \<le> reported t (us_id u) (us_epoch u)
    \<and> reported t (us_id u) (us_epoch u) \<le> granted t (us_id u) (us_epoch u)
    \<and> granted t (us_id u) (us_epoch u) \<le> (if us_quota_bytes u = 0 then SAFE_INTEGER else us_quota_bytes u)"
proof -
  have ok: "db_ok t" using assms(1) by (rule reachable_ok)
  have "0 \<le> sum_list (map ls_used_bytes ls) \<and> sum_list (map ls_used_bytes ls) \<le> sum_list (map ls_grant_bytes ls)"
    if "set ls \<subseteq> set (t_leases t)" for ls
    using that ok by (induction ls) (auto simp: db_ok_def leases_ok_def intro: add_mono)
  then show ?thesis
    using ok assms(2)
    by (auto simp: reported_def granted_def epoch_leases_def db_ok_def budget_ok_def user_cap_def)
qed

theorem lease_budget_witness:
  "\<exists>t u l. reachable t \<and> u \<in> set (t_users t) \<and> l \<in> set (t_leases t) \<and> ls_user l = us_id u
     \<and> 0 < ls_grant_bytes l \<and> granted t (us_id u) (us_epoch u) \<le> 100"
proof -
  obtain t l where t: "reachable t" "t_users t = [stage_user]" "l \<in> set (t_leases t)" "ls_user l = scene_uuid 0"
    "ls_used_bytes l < ls_grant_bytes l" using stage_leased by blast
  moreover from t(1,3) have "0 \<le> ls_used_bytes l" using reachable_ok by (auto simp: db_ok_def leases_ok_def)
  ultimately show ?thesis
    using lease_budget [OF t(1), of stage_user]
    by (intro exI [of _ t] exI [of _ stage_user] exI [of _ l]) (simp add: stage_user_def)
qed

text \<open>A grant without the usage reported on it.\<close>

definition grant_of :: "lease_row \<Rightarrow> string \<times> string \<times> string \<times> string \<times> int \<times> int \<times> int" where
  "grant_of l = (ls_id l, ls_user l, ls_host l, ls_boot l, ls_epoch l, ls_grant_bytes l, ls_expires_at l)"

definition granted_to :: "user_row \<Rightarrow> string \<Rightarrow> int \<Rightarrow> proxy_db \<Rightarrow> lease_row \<Rightarrow> bool" where
  "granted_to u host now t l \<longleftrightarrow> u \<in> set (t_users t) \<and> (us_id u, host) \<in> set (t_user_nodes t) \<and> usable_user now u
     \<and> us_not_before u \<le> now \<and> ls_user l = us_id u \<and> ls_host l = host \<and> ls_epoch l = us_epoch u
     \<and> ls_expires_at l \<le> now + LEASE_SECONDS"

lemma exchange_steps_origin:
  assumes "exchange_steps host boot now t0 t" "l \<in> set (t_leases t)"
  shows "(\<exists>k\<in>set (t_leases t0). grant_of k = grant_of l) \<or> (\<exists>u. granted_to u host now t0 l)"
  using assms
proof (induction arbitrary: l rule: rtranclp_induct)
  case base
  then show ?case by blast
next
  case (step t1 t2)
  obtain ls where t1: "t1 = t0\<lparr>t_leases := ls\<rparr>" using exchange_steps_frame [OF step.hyps(1)] ..
  have old: ?case if "k \<in> set (t_leases t1)" "grant_of k = grant_of l" for k
    using step.IH [OF that(1)] that(2) by (auto simp: granted_to_def grant_of_def)
  from step.hyps(2) show ?case
  proof cases
    case (usage k used n)
    then have "\<exists>j\<in>set (t_leases t1). grant_of j = grant_of l"
      using step.prems by (auto simp: lease_usage_def upd_rows_def Let_def grant_of_def split: if_splits)
        blast+
    then show ?thesis using old by blast
  next
    case (grant u new n)
    have until: "lease_until (us_expires_at u) now \<le> now + LEASE_SECONDS" by (simp add: lease_until_def Let_def)
    from grant(13) have "l \<in> set (t_leases t1) \<or> same_slot new l \<and> ls_expires_at l = ls_expires_at new"
      using step.prems by (cases rule: lease_upsert_cases) (auto simp: same_slot_def split: if_splits)
    then show ?thesis
    proof
      assume "l \<in> set (t_leases t1)"
      then show ?thesis using old by blast
    next
      assume "same_slot new l \<and> ls_expires_at l = ls_expires_at new"
      then have "granted_to u host now t0 l"
        using grant until by (auto simp: granted_to_def same_slot_def t1)
      then show ?thesis by blast
    qed
  qed
qed

text \<open>(C5) A lease that an exchange grants or renews belongs to a usable user bound to the node, is of the
  user's current epoch and ends at most 60 seconds later; and every lease of that user of another
  epoch, on any node, is of an earlier epoch and has already expired by then. Counters of two epochs
  never run at the same time.\<close>

theorem lease_epochs:
  assumes "reachable (tables s)" "saved s = None"
    and "sb_proxy_lease_exchange host request now s = (Inr out, s')" "l \<in> set (t_leases (tables s'))"
    and "\<forall>k\<in>set (t_leases (tables s)). grant_of k \<noteq> grant_of l"
  shows "\<exists>u. granted_to u host now (tables s) l \<and> (\<forall>k\<in>set (t_leases (tables s')).
    ls_user k = ls_user l \<and> ls_epoch k \<noteq> ls_epoch l \<longrightarrow> ls_epoch k < ls_epoch l \<and> ls_expires_at k \<le> now)"
proof -
  have ok: "db_ok (tables s)" by (rule reachable_ok [OF assms(1)])
  from assms(3) ok assms(2) have eff: "exchange_effect host (member_text request ''boot_id'')
      (body_int request ''request_seq'' 0) (sb_sha256_hex (sbj_dump request (- 1)) s) now out (tables s) (tables s')"
    by (cases rule: exchange_cases) auto
  then obtain t1 where steps: "exchange_steps host (member_text request ''boot_id'') now (tables s) t1"
    and leases: "t_leases (tables s') = t_leases t1"
    using assms(4,5) by (cases rule: exchange_effect_steps) auto
  then obtain u where u: "granted_to u host now (tables s) l"
    using exchange_steps_origin [OF steps, of l] assms(4,5) by auto
  have "epochs_ok (tables s')" using exchange_effect_ok [OF eff ok] by (simp add: db_ok_def)
  moreover have "u \<in> set (t_users (tables s'))"
    using u exchange_effect_users [OF eff] by (simp add: granted_to_def)
  ultimately show ?thesis using u by (fastforce simp: epochs_ok_def granted_to_def)
qed

theorem lease_epochs_witness:
  "\<exists>out s' l u. sb_proxy_lease_exchange ''self'' (Some stage_request) 1000 stage = (Inr out, s')
     \<and> l \<in> set (t_leases (tables s')) \<and> granted_to u ''self'' 1000 (tables stage) l"
proof -
  obtain out s' l where "sb_proxy_lease_exchange ''self'' (Some stage_request) 1000 stage = (Inr out, s')"
    "l \<in> set (t_leases (tables s'))" using stage_exchange by (auto simp: served_def)
  then show ?thesis using lease_epochs [OF stage_reachable] by fastforce
qed

definition disabled :: "proxy_db \<Rightarrow> string set" where
  "disabled t = dv_id ` {d \<in> set (t_devices t). \<not> dv_enabled d}"

lemma disabled_mono:
  "disabled t \<subseteq> disabled (t\<lparr>t_devices := t_devices t @ ds\<rparr>)"
  "(\<And>d. dv_id (f d) = dv_id d) \<Longrightarrow> (\<And>d. \<not> dv_enabled d \<Longrightarrow> \<not> dv_enabled (f d)) \<Longrightarrow>
     disabled t \<subseteq> disabled (t\<lparr>t_devices := map f (t_devices t)\<rparr>)"
  by (force simp: disabled_def image_iff)+

lemma op_writes_disabled:
  assumes "op_writes op now s out t"
  shows "disabled (tables s) \<subseteq> disabled t"
proof (cases op)
  case (Lease_Exchange host request)
  then have "t_devices t = t_devices (tables s)" using assms exchange_effect_users by auto
  then show ?thesis by (simp add: disabled_def)
next
  case (Device_Revoke user device)
  then have t: "t = (tables s)\<lparr>t_devices := map (\<lambda>d. if dv_id d = device \<and> dv_user d = user
      then d\<lparr>dv_enabled := False, dv_revoked_at := Some now\<rparr> else d) (t_devices (tables s))\<rparr>"
    using assms by (simp add: device_disable_def upd_rows_def)
  show ?thesis unfolding t by (rule disabled_mono(2)) auto
next
  case (User_Remove user)
  then obtain t1 n where run: "user_delete user now (tables s) = Inr (t1, 1)" "devices_disable user t1 = Inr (t, n)"
    using assms by auto
  have t: "t = t1\<lparr>t_devices := map (\<lambda>d. if dv_user d = user then d\<lparr>dv_enabled := False\<rparr> else d) (t_devices t1)\<rparr>"
    using run(2) by (simp add: devices_disable_def upd_rows_def)
  have "t_devices t1 = t_devices (tables s)" using run(1) by (auto simp: user_delete_def upd_rows_def)
  then have "disabled (tables s) = disabled t1" by (simp add: disabled_def)
  also have "\<dots> \<subseteq> disabled t" unfolding t by (rule disabled_mono(2)) auto
  finally show ?thesis .
next
  case (Device_Create user body)
  then obtain d where t: "t = (tables s)\<lparr>t_devices := t_devices (tables s) @ [d]\<rparr>"
    using assms by (auto simp: device_insert_def split: if_splits)
  show ?thesis unfolding t by (rule disabled_mono(1))
next
  case (User_Save i body)
  then have "t_devices t = t_devices (tables s)" using assms by (auto simp: user_upsert_def Let_def split: if_splits)
  then show ?thesis by (simp add: disabled_def)
qed (use assms in \<open>simp_all add: report_upsert_def user_next_epoch_def claim_update_def
      ingress_upsert_def upd_rows_def Let_def split: if_splits\<close>, auto simp: disabled_def)

text \<open>(C8) No operation brings a revoked device back: it stays disabled, and its subscription token is
  refused at any time.\<close>

theorem revoked_stays:
  assumes "reachable (tables s)" "saved s = None" "run_op op now s = (r, s')"
    and "d \<in> set (t_devices (tables s))" "\<not> dv_enabled d"
  shows "(\<exists>d'\<in>set (t_devices (tables s')). dv_id d' = dv_id d \<and> \<not> dv_enabled d')
    \<and> (sb_sha256_hex token s = dv_token_hash d \<longrightarrow>
         (\<exists>e. fst (sb_proxy_subscription (Some token) later s) = Inl e))"
proof
  have ok: "db_ok (tables s)" by (rule reachable_ok [OF assms(1)])
  have "keeps_promise s (r, s') (op_writes op now s)"
    using op_refines [OF ok assms(2), of op now] assms(3) by simp
  then have "disabled (tables s) \<subseteq> disabled (tables s')"
    by (cases r) (auto simp: keeps_promise_def dest!: op_writes_disabled)
  moreover have "dv_id d \<in> disabled (tables s)" using assms(4,5) by (auto simp: disabled_def)
  ultimately have "dv_id d \<in> disabled (tables s')" by blast
  then show "\<exists>d'\<in>set (t_devices (tables s')). dv_id d' = dv_id d \<and> \<not> dv_enabled d'"
    by (auto simp: disabled_def)
  show "sb_sha256_hex token s = dv_token_hash d \<longrightarrow> (\<exists>e. fst (sb_proxy_subscription (Some token) later s) = Inl e)"
  proof
    assume hash: "sb_sha256_hex token s = dv_token_hash d"
    have only: "e = d" if "e \<in> set (t_devices (tables s))" "dv_token_hash e = dv_token_hash d" for e
      using ok that assms(4) by (auto simp: db_ok_def devices_ok_def distinct_map dest: inj_onD)
    have "\<not> device_active later e" if "e \<in> set (t_devices (tables s))" "dv_token_hash e = dv_token_hash d" for e
      using only [OF that] assms(5) by (simp add: device_active_def)
    then have none: "device_of_token (dv_token_hash d) later (tables s) = []"
      by (auto simp: device_of_token_def filter_empty_conv)
    have "triple (\<lambda>x. tables x = tables s) (sql_first (device_of_token (dv_token_hash d) later))
        (\<lambda>row x. row = None) (\<lambda>_. True)"
      by (rule triple_weaken [OF triple_first]) (auto simp: quiet_def none)
    then show "\<exists>e. fst (sb_proxy_subscription (Some token) later s) = Inl e"
      by (cases "sql_first (device_of_token (dv_token_hash d) later) s")
        (auto simp: sb_proxy_subscription_def dfail_def sb_fail_def hash dbind_def triple_def split: sum.splits)
  qed
qed


subsection \<open>A retry gets the same answer\<close>

text \<open>Values that survive being stored as text.\<close>

definition storable :: "nat \<Rightarrow> sbj \<Rightarrow> bool" where
  "storable n v \<longleftrightarrow> wf_json v \<and> float_free v \<and> valid_strings v \<and> depth_le n v"

named_theorems storable_intros

lemma storable_jset [storable_intros]:
  assumes "storable (Suc n) u" "storable n v" "valid_utf8 k"
  shows "storable (Suc n) (jset u k v)"
proof (cases "\<exists>kvs. u = SBJ_OBJECT kvs")
  case True
  then obtain kvs where u: "u = SBJ_OBJECT kvs" by blast
  show ?thesis
  proof -
    have sorted: "sorted_keys kvs" using assms(1) by (simp add: storable_def u)
    have mem: "a = (k, v) \<or> a \<in> set kvs" if "a \<in> set (obj_setn kvs k v)" for a
      using that set_obj_setn [OF sorted] by blast
    have jset: "jset u k v = SBJ_OBJECT (obj_setn kvs k v)" by (simp add: u sbj_accessors or_null_def)
    show ?thesis
      using assms obj_setn_sorted [OF sorted] unfolding jset by (auto simp: storable_def u dest!: mem)
  qed
next
  case False
  then show ?thesis using assms(1) by (cases u) (simp_all add: sbj_set_def sbj_setn_def)
qed

lemma storable_values [storable_intros]:
  "storable (Suc n) sbj_object" "storable (Suc n) (SBJ_ARRAY [])" "storable n sbj_null"
  "in_i64 i \<Longrightarrow> storable n (SBJ_INT i)" "storable n (SBJ_BOOL b)" "valid_utf8 s \<Longrightarrow> storable n (SBJ_STRING s)"
  by (simp_all add: storable_def sbj_object_def sbj_null_def)

lemma storable_set [storable_intros]:
  "storable (Suc n) u \<Longrightarrow> valid_utf8 s \<Longrightarrow> valid_utf8 k \<Longrightarrow> storable (Suc n) (jset_str u k s)"
  "storable (Suc n) u \<Longrightarrow> in_i64 i \<Longrightarrow> valid_utf8 k \<Longrightarrow> storable (Suc n) (jset_int u k i)"
  "storable (Suc n) u \<Longrightarrow> valid_utf8 k \<Longrightarrow> storable (Suc n) (jset_bool u k b)"
  unfolding jset_values by (simp_all add: storable_intros)

lemma storable_array: "(\<And>v. v \<in> set vs \<Longrightarrow> storable n v) \<Longrightarrow> storable (Suc n) (SBJ_ARRAY vs)"
  by (auto simp: storable_def)

lemma ascii_utf8: "(\<And>c. c \<in> set s \<Longrightarrow> byte c < 128) \<Longrightarrow> valid_utf8 s"
proof (induction s)
  case (Cons c s)
  then have "utf8_seq (c # s) = 1" by simp
  then show ?case using Cons by (subst valid_utf8.simps) simp
qed simp

lemma uuid_text_utf8 [simp]: "valid_utf8 (uuid_text b)"
proof (rule ascii_utf8)
  have low: "\<forall>c\<in>set hex_lower. byte c < 128" "length hex_lower = 16" by (simp_all add: hex_lower_def)
  have "byte c div 16 < 16" for c using byte_less_256 [of c] by (simp add: less_mult_imp_div_less)
  then have hex: "byte c < 128" if "c \<in> set (sb_hex_encode x)" for c x
    using that low by (auto simp: sb_hex_encode_def)
  fix c assume "c \<in> set (uuid_text b)"
  then show "byte c < 128" using hex by (auto simp: uuid_text_def Let_def)
qed

text \<open>The texts and numbers of the tables that go into an answer.\<close>

definition texts_ok :: "proxy_db \<Rightarrow> bool" where
  "texts_ok t \<longleftrightarrow> (\<forall>n\<in>set (t_ingress t). valid_utf8 (in_listen n) \<and> valid_utf8 (in_server_key n) \<and> in_i64 (in_listen_port n))
     \<and> (\<forall>d\<in>set (t_devices t). valid_utf8 (dv_id d) \<and> valid_utf8 (dv_password d) \<and> in_i64 (dv_expires_at d))
     \<and> (\<forall>u\<in>set (t_users t). valid_utf8 (us_id u)) \<and> (\<forall>l\<in>set (t_leases t). valid_utf8 (ls_id l))"

lemma keys_utf8 [simp]:
  "valid_utf8 ''id''" "valid_utf8 ''epoch''" "valid_utf8 ''grant_bytes''" "valid_utf8 ''used_bytes''"
  "valid_utf8 ''expires_at''" "valid_utf8 ''lease''" "valid_utf8 ''devices''" "valid_utf8 ''version''"
  "valid_utf8 ''host_id''" "valid_utf8 ''boot_id''" "valid_utf8 ''request_seq''" "valid_utf8 ''generated_at''"
  "valid_utf8 ''node''" "valid_utf8 ''users''" "valid_utf8 ''listen''" "valid_utf8 ''listen_port''"
  "valid_utf8 ''method''" "valid_utf8 ''password''" "valid_utf8 METHOD"
  by (rule ascii_utf8; auto simp: METHOD_def)+

lemma storable_devices:
  assumes "texts_ok t"
  shows "storable (Suc (Suc n)) (SBJ_ARRAY (map (device_json True) (devices_query user True now t)))"
proof (rule storable_array)
  fix v assume "v \<in> set (map (device_json True) (devices_query user True now t))"
  then obtain d where "d \<in> set (t_devices t)" "v = device_json True d" by (auto simp: devices_query_def)
  then show "storable (Suc n) v"
    using assms by (simp add: device_json_def texts_ok_def Let_def storable_intros)
qed

lemma storable_node:
  "texts_ok t \<Longrightarrow> n \<in> set (t_ingress t) \<Longrightarrow> storable (Suc m) (node_json True n)"
  by (simp add: node_json_def texts_ok_def Let_def storable_intros)

lemma worksI:
  assumes "\<And>s x s'. P (tables s) \<Longrightarrow> m s = (Inr x, s') \<Longrightarrow> Q x (tables s') \<and> saved s' = saved s"
    "\<And>s e s'. P (tables s) \<Longrightarrow> m s = (Inl e, s') \<Longrightarrow> saved s' = saved s"
  shows "works P m Q"
  using assms unfolding works_def by (intro allI tripleI) blast+

lemma works_uuid: "works P sb_uuid_v4 (\<lambda>i t. P t \<and> valid_utf8 i)"
  by (auto simp: works_def sb_uuid_v4_def intro!: tripleI)

text \<open>The lease a user is given.\<close>

definition lease_value ::
  "string \<Rightarrow> string \<Rightarrow> string \<Rightarrow> int \<Rightarrow> int \<Rightarrow> proxy_db \<Rightarrow> sbj \<Rightarrow> proxy_db \<Rightarrow> bool" where
  "lease_value host boot user epoch until t1 v t \<longleftrightarrow> v = sbj_null \<and> t = t1
     \<or> (\<exists>l devices n. v = lease_json l devices \<and> storable 2 devices \<and> lease_upsert l t1 = Inr (t, n)
         \<and> valid_utf8 (ls_id l) \<and> ls_user l = user \<and> ls_host l = host \<and> ls_boot l = boot \<and> ls_epoch l = epoch
         \<and> ls_expires_at l = until \<and> (\<exists>k\<in>set (t_leases t). same_slot l k \<and> ls_used_bytes l = ls_used_bytes k
           \<and> ls_grant_bytes l = ls_grant_bytes k))"

lemma works_lease_write_value:
  assumes "pred_option valid_utf8 i"
  shows "works (\<lambda>t. t = t1) (lease_write i l devices)
    (\<lambda>v t. \<exists>j n. v = lease_json (l\<lparr>ls_id := j\<rparr>) devices \<and> valid_utf8 j \<and> lease_upsert (l\<lparr>ls_id := j\<rparr>) t1 = Inr (t, n))"
proof -
  have id: "works (\<lambda>t. t = t1) (case i of None \<Rightarrow> sb_uuid_v4 | Some i \<Rightarrow> dret i) (\<lambda>j t. t = t1 \<and> valid_utf8 j)"
    using assms by (cases i) (auto intro: works_uuid works_dret)
  show ?thesis
    unfolding lease_write_def Let_def
    by (rule works_dbind [OF id], rule works_dbind [OF works_run], rule works_dret) auto
qed

lemma upsert_slot:
  assumes "lease_upsert l t1 = Inr (t, n)" "find (same_slot l) (t_leases t1) = row"
    "ls_used_bytes l = (case row of None \<Rightarrow> 0 | Some k \<Rightarrow> ls_used_bytes k)"
  shows "\<exists>k\<in>set (t_leases t). same_slot l k \<and> ls_used_bytes l = ls_used_bytes k \<and> ls_grant_bytes l = ls_grant_bytes k"
  using lease_upsert_row [OF assms(1)] assms(2,3) by (cases row) (auto intro!: bexI)

lemma works_lease_value:
  assumes "texts_ok t1"
  shows "works (\<lambda>t. t = t1) (lease_locked host boot user epoch quota expiry now)
    (lease_value host boot user epoch (lease_until expiry now) t1)"
proof (rule works_lease_rule)
  fix row :: "lease_row option" and devices hosts used grant
  assume row: "row = (case lease_slot user host boot epoch t1 of [] \<Rightarrow> None | r # _ \<Rightarrow> Some r)"
    and devices: "devices = SBJ_ARRAY (map (device_json True) (devices_query user True now t1))"
    and used: "used = (case row of None \<Rightarrow> 0 | Some l \<Rightarrow> ls_used_bytes l)"
  have store: "storable 2 devices" using storable_devices [OF assms] by (simp add: devices numeral_2_eq_2)
  have ids: "pred_option valid_utf8 (map_option ls_id row)"
  proof (cases row)
    case (Some k)
    then have "k \<in> set (lease_slot user host boot epoch t1)" using first_Some row by metis
    then show ?thesis using assms Some by (simp add: texts_ok_def lease_slot_def)
  qed simp
  let ?l = "\<lparr>ls_id = [], ls_user = user, ls_host = host, ls_boot = boot, ls_epoch = epoch, ls_grant_bytes = grant,
    ls_used_bytes = used, ls_expires_at = lease_until expiry now, ls_updated_at = now\<rparr>"
  show "works (\<lambda>t. t = t1) (lease_write (map_option ls_id row) ?l devices)
      (lease_value host boot user epoch (lease_until expiry now) t1)"
  proof (rule works_post [OF works_lease_write_value [OF ids]], elim exE conjE)
    fix v t j n assume run: "lease_upsert (?l\<lparr>ls_id := j\<rparr>) t1 = Inr (t, n)"
      "v = lease_json (?l\<lparr>ls_id := j\<rparr>) devices" "valid_utf8 j"
    have slot: "\<exists>k\<in>set (t_leases t). same_slot (?l\<lparr>ls_id := j\<rparr>) k \<and> ls_used_bytes (?l\<lparr>ls_id := j\<rparr>) = ls_used_bytes k
        \<and> ls_grant_bytes (?l\<lparr>ls_id := j\<rparr>) = ls_grant_bytes k"
      by (rule upsert_slot [OF run(1) lease_slot_find [symmetric]]) (simp_all add: used row)
    show "lease_value host boot user epoch (lease_until expiry now) t1 v t"
      unfolding lease_value_def
      by (rule disjI2, rule exI [of _ "?l\<lparr>ls_id := j\<rparr>"], rule exI [of _ devices], rule exI [of _ n])
        (use run store slot in simp)
  qed
qed (simp add: lease_value_def)


lemma lease_numbers:
  assumes ok: "db_ok t" and u: "u \<in> set (t_users t)"
    and k: "k \<in> set (t_leases t)" "ls_user k = us_id u" "ls_epoch k = us_epoch u"
  shows "in_i64 (ls_grant_bytes k)" "in_i64 (ls_used_bytes k)" "in_i64 (us_epoch u)"
proof -
  let ?ls = "epoch_leases t (us_id u) (us_epoch u)"
  have used: "0 \<le> ls_used_bytes k" "ls_used_bytes k \<le> ls_grant_bytes k"
    using ok k(1) by (auto simp: db_ok_def leases_ok_def)
  have "ls_grant_bytes k \<le> sum_list (map ls_grant_bytes ?ls)"
  proof (rule member_le_sum_list)
    show "ls_grant_bytes k \<in> set (map ls_grant_bytes ?ls)" using k by (simp add: epoch_leases_def)
    show "0 \<le> x" if "x \<in> set (map ls_grant_bytes ?ls)" for x
      using that ok by (force simp: epoch_leases_def db_ok_def leases_ok_def)
  qed
  also have "\<dots> \<le> user_cap u" using ok u by (auto simp: db_ok_def budget_ok_def granted_def)
  also have "\<dots> \<le> SAFE_INTEGER" using ok u by (auto simp: user_cap_def db_ok_def users_ok_def)
  finally show "in_i64 (ls_grant_bytes k)" "in_i64 (ls_used_bytes k)"
    using used by (simp_all add: in_i64_def SAFE_INTEGER_def)
  show "in_i64 (us_epoch u)" using ok u by (auto simp: db_ok_def users_ok_def in_i64_def SAFE_INTEGER_def)
qed

definition storable_users :: "sbj \<Rightarrow> bool" where
  "storable_users acc \<longleftrightarrow> (\<exists>vs. acc = SBJ_ARRAY vs \<and> (\<forall>v\<in>set vs. storable 3 v))"

lemma lease_value_storable:
  assumes val: "lease_value host boot (us_id u) (us_epoch u) (lease_until (us_expires_at u) now) t1 v t"
    and t: "db_ok t" "texts_ok t1" and u: "u \<in> set (t_users t)" "usable_user now u"
    and now: "1 \<le> now" "now \<le> 4102444740"
  shows "texts_ok t \<and> (v = sbj_null \<or> storable 3 v)"
  using val unfolding lease_value_def
proof (elim disjE exE conjE bexE)
  assume "v = sbj_null" "t = t1"
  then show ?thesis using t(2) by simp
next
  fix l devices n k
  assume v: "v = lease_json l devices" and store: "storable 2 devices" and up: "lease_upsert l t1 = Inr (t, n)"
    and l: "valid_utf8 (ls_id l)" "ls_user l = us_id u" "ls_epoch l = us_epoch u"
      "ls_expires_at l = lease_until (us_expires_at u) now"
    and k: "k \<in> set (t_leases t)" "same_slot l k" "ls_used_bytes l = ls_used_bytes k"
      "ls_grant_bytes l = ls_grant_bytes k"
  have texts: "texts_ok t"
    using up t(2) l(1) by (auto simp: texts_ok_def elim!: lease_upsert_cases)
  note numbers = lease_numbers [OF t(1) u(1) k(1)]
  have "in_i64 (lease_until (us_expires_at u) now)"
    using u(2) now by (auto simp: lease_until_def usable_user_def unexpired_def LEASE_SECONDS_def in_i64_def Let_def)
  moreover have "valid_utf8 (us_id u)" using texts u(1) by (simp add: texts_ok_def)
  moreover have "storable (Suc 1) devices" using store by (simp add: numeral_2_eq_2)
  ultimately have "storable (Suc 2) v"
    using numbers k l unfolding v lease_json_def Let_def
    by (intro storable_intros) (auto simp: same_slot_def numeral_2_eq_2 intro!: storable_intros)
  then show ?thesis using texts by (simp add: numeral_3_eq_3 numeral_2_eq_2)
qed

lemma works_lease_user_value:
  assumes ok: "db_ok t0" and u: "u \<in> set (lease_users host now t0)" and now: "1 \<le> now" "now \<le> 4102444740"
  shows "works (\<lambda>t. exchange_steps host boot now t0 t \<and> texts_ok t \<and> storable_users out)
    (lease_user host boot now u out) (\<lambda>out t. exchange_steps host boot now t0 t \<and> texts_ok t \<and> storable_users out)"
  unfolding lease_user_def
proof (rule works_dbind [OF works_readonly [OF readonly_library(1)]], rule works_if)
  let ?I = "\<lambda>out t. exchange_steps host boot now t0 t \<and> texts_ok t \<and> storable_users out"
  let ?m = "lease_locked host boot (us_id u) (us_epoch u) (us_quota_bytes u) (us_expires_at u) now"
  fix wait_ms assume wait: "\<not> (0 < wait_ms \<or> now < us_not_before u)"
  show "works (?I out) (dbind ?m (\<lambda>v. dret (if sbj_is_null (Some v) then out else sbj_arr_push out (Some v)))) ?I"
  proof (rule works_each)
    fix t1 assume t1: "?I out t1"
    then obtain vs where out: "out = SBJ_ARRAY vs" "\<forall>v\<in>set vs. storable 3 v" by (auto simp: storable_users_def)
    obtain ls where frame: "t1 = t0\<lparr>t_leases := ls\<rparr>" using exchange_steps_frame t1 by blast
    have ok1: "db_ok t1" using exchange_steps_ok [OF _ ok] t1 by blast
    have user: "u \<in> set (t_users t1)" "(us_id u, host) \<in> set (t_user_nodes t1)" "usable_user now u"
      using u by (auto simp: frame lease_users_def)
    let ?v = "lease_value host boot (us_id u) (us_epoch u) (lease_until (us_expires_at u) now) t1"
    have one: "works (\<lambda>t. t = t1) ?m (\<lambda>v t. exchange_steps host boot now t1 t \<and> ?v v t)"
      using works_lease_locked [OF ok1 user] works_lease_value wait t1 by (intro works_conj) auto
    have step: "?I (if sbj_is_null (Some v) then out else sbj_arr_push out (Some v)) t"
      if "exchange_steps host boot now t1 t" "?v v t" for v t
    proof -
      have "t_users t = t_users t1" using exchange_steps_frame [OF that(1)] by auto
      then have "texts_ok t \<and> (v = sbj_null \<or> storable 3 v)"
        using lease_value_storable [OF that(2) exchange_steps_ok [OF that(1) ok1] _ _ user(3) now] t1 user(1) by auto
      then show ?thesis using t1 that(1) out
        by (auto simp: storable_users_def sbj_null_def or_null_def)
    qed
    show "works (\<lambda>t. t = t1)
        (dbind ?m (\<lambda>v. dret (if sbj_is_null (Some v) then out else sbj_arr_push out (Some v)))) ?I"
      by (rule works_dbind [OF one], rule works_dret, erule conjE, rule step)
  qed
qed (auto intro: works_dret)


lemma storable_mono: "storable k v \<Longrightarrow> k \<le> m \<Longrightarrow> storable m v"
proof -
  have "depth_le k v \<Longrightarrow> k \<le> m \<Longrightarrow> depth_le m v"
    by (induction k v arbitrary: m rule: depth_le.induct) (auto split: nat.splits)
  then show "storable k v \<Longrightarrow> k \<le> m \<Longrightarrow> storable m v" by (simp add: storable_def)
qed

lemma works_report_texts: "works texts_ok (report_locked host boot report now) (\<lambda>_. texts_ok)"
proof -
  have usage: "texts_ok t \<Longrightarrow> lease_usage i used now t = Inr (t', n) \<Longrightarrow> texts_ok t'" for t t' n i used
    by (auto simp: lease_usage_def upd_rows_def texts_ok_def Let_def split: if_splits)
  have run: "works texts_ok (sql_run (lease_usage i used now)) (\<lambda>_. texts_ok)" for i used
    by (rule works_post [OF works_run]) (auto intro: usage)
  show ?thesis
    unfolding report_locked_def Let_def
    by (rule works_dbind [OF works_readonly [OF reading.first]], rule works_if,
        rule works_dbind [OF run], rule works_dret, assumption, rule works_dfail)
qed

lemma works_node_value:
  assumes "\<And>t. I t \<Longrightarrow> texts_ok t"
  shows "works I (node_locked host True now) (\<lambda>v t. I t \<and> storable 2 v)"
  unfolding node_locked_def
proof (rule works_dbind [OF works_first])
  fix row :: "ingress_row option"
  show "works (\<lambda>t. I t \<and> row = (case filter (\<lambda>n. in_host n = host) (t_ingress t) of [] \<Rightarrow> None | r # _ \<Rightarrow> Some r))
      (case row of None \<Rightarrow> dfail SB_ERR_NOT_FOUND ''Proxy ingress node not found''
       | Some n \<Rightarrow>
           (if True then dret (node_json True n)
            else dbind (runtime_ready host now) (\<lambda>(ready, seen).
              dret (jset_int (jset_bool (node_json True n) ''runtime_supported'' ready) ''runtime_seen_at'' seen))))
      (\<lambda>v t. I t \<and> storable 2 v)"
  proof (cases row)
    case (Some n)
    have "I t \<and> storable 2 (node_json True n)"
      if t: "I t \<and> row = (case filter (\<lambda>n. in_host n = host) (t_ingress t) of [] \<Rightarrow> None | r # _ \<Rightarrow> Some r)" for t
    proof -
      have "n \<in> set (filter (\<lambda>n. in_host n = host) (t_ingress t))" using t Some first_Some by metis
      then show ?thesis using t storable_node [of t n 1] assms by (simp add: numeral_2_eq_2)
    qed
    then show ?thesis unfolding Some by (auto intro: works_dret)
  qed (simp add: works_dfail)
qed

lemma works_exchange_value:
  assumes ok: "db_ok t0" "texts_ok t0" and now: "1 \<le> now" "now \<le> 4102444740"
    and id: "valid_utf8 host" "valid_utf8 boot" "in_i64 seq"
  shows "works (\<lambda>t. t = t0) (exchange_fresh host boot seq hash reports now) (\<lambda>out t. storable SBJ_MAX_DEPTH out)"
proof -
  define I where "I = (\<lambda>t. exchange_steps host boot now t0 t \<and> texts_ok t)"
  have reports: "works (\<lambda>t. t = t0) (dfor reports (\<lambda>r. report_locked host boot r now)) (\<lambda>_. I)"
  proof (rule works_weaken [OF works_dfor])
    fix x
    show "works I (report_locked host boot x now) (\<lambda>_. I)"
      unfolding I_def
      by (rule works_conj; rule works_weaken [OF works_report_locked] works_weaken [OF works_report_texts]) auto
  qed (use ok(2) in \<open>auto simp: I_def\<close>)
  have users: "works I (sql_each (lease_users host now) (lease_user host boot now) sbj_array) (\<lambda>out t. I t \<and> storable_users out)"
  proof (rule works_sql_each)
    fix t r acc assume t: "I t" and r: "r \<in> set (lease_users host now t)"
    obtain ls where "t = t0\<lparr>t_leases := ls\<rparr>" using exchange_steps_frame t unfolding I_def by blast
    then have "r \<in> set (lease_users host now t0)" using r by (simp add: lease_users_def)
    from works_lease_user_value [OF ok(1) this now]
    show "works (\<lambda>t. I t \<and> storable_users acc) (lease_user host boot now r acc) (\<lambda>out t. I t \<and> storable_users out)"
      by (simp add: I_def)
  qed (simp add: storable_users_def sbj_array_def)
  have node: "works I (node_locked host True now) (\<lambda>v t. I t \<and> storable 2 v)"
    by (rule works_node_value) (simp add: I_def)
  have both: "works I (dbind (node_locked host True now) (\<lambda>node.
       dbind (sql_each (lease_users host now) (lease_user host boot now) sbj_array) (\<lambda>users. dret (node, users))))
      (\<lambda>x t. storable 2 (fst x) \<and> storable_users (snd x))"
  proof (rule works_dbind [OF node])
    fix v
    show "works (\<lambda>t. I t \<and> storable 2 v)
        (dbind (sql_each (lease_users host now) (lease_user host boot now) sbj_array) (\<lambda>users. dret (v, users)))
        (\<lambda>x t. storable 2 (fst x) \<and> storable_users (snd x))"
    proof (cases "storable 2 v")
      case True
      have "works I (dbind (sql_each (lease_users host now) (lease_user host boot now) sbj_array) (\<lambda>users. dret (v, users)))
          (\<lambda>x t. storable 2 (fst x) \<and> storable_users (snd x))"
        by (rule works_dbind [OF users], rule works_dret) (simp add: True)
      then show ?thesis by (rule works_weaken) simp_all
    qed (auto simp: works_def triple_def)
  qed
  have null: "storable 2 sbj_null" "storable_users sbj_array"
    by (simp_all add: storable_intros storable_users_def sbj_array_def)
  have grants: "works I (exchange_grants host boot now) (\<lambda>x t. storable 2 (fst x) \<and> storable_users (snd x))"
    unfolding exchange_grants_def
    by (rule works_dbind [OF works_readonly [OF reading.first]],
        rule works_dbind [OF works_readonly [OF readonly_runtime_ready]])
      (auto intro!: works_if both works_dret null split: prod.split)
  have out: "storable SBJ_MAX_DEPTH (response_json host boot seq now node users)"
    if node: "storable 2 node" and "storable_users users" for node users
  proof -
    obtain vs where vs: "users = SBJ_ARRAY vs" "\<forall>v\<in>set vs. storable 3 v"
      using \<open>storable_users users\<close> by (auto simp: storable_users_def)
    have "storable (Suc (Suc 3)) (response_json host boot seq now node users)"
      using storable_mono [OF node, of "Suc 3"] storable_array [OF bspec [OF vs(2)]] now id
      unfolding response_json_def Let_def vs(1)
      by (intro storable_intros) (auto simp: in_i64_def LEASE_SECONDS_def)
    then show ?thesis by (rule storable_mono) (simp add: SBJ_MAX_DEPTH_def)
  qed
  show ?thesis
    unfolding exchange_fresh_def Let_def
    by (rule works_dbind [OF reports], rule works_dbind [OF grants], simp only: split_beta,
        rule works_dbind [OF works_run], rule works_dret) (auto intro: out)
qed

text \<open>The session row an exchange leaves, and the answer that is read from it again.\<close>

lemma session_upsert_find:
  assumes "session_upsert e t = Inr (t', n)"
  shows "\<exists>f. find (\<lambda>f. se_host f = se_host e \<and> se_boot f = se_boot e) (t_sessions t') = Some f
    \<and> se_request_seq f = se_request_seq e \<and> se_request_hash f = se_request_hash e \<and> se_response f = se_response e"
proof -
  let ?p = "\<lambda>f. se_host f = se_host e \<and> se_boot f = se_boot e"
  let ?g = "\<lambda>f. f\<lparr>se_request_seq := se_request_seq e, se_request_hash := se_request_hash e,
    se_response := se_response e, se_updated_at := se_updated_at e\<rparr>"
  have "list_ex ?p es \<Longrightarrow> \<exists>f. find ?p (map (\<lambda>r. if ?p r then ?g r else r) es) = Some (?g f)" for es
    by (induction es) auto
  moreover have "\<not> list_ex ?p es \<Longrightarrow> find ?p (es @ [e]) = Some e" for es by (induction es) auto
  ultimately show ?thesis using assms by (auto simp: session_upsert_def upsert_def split: if_splits) fastforce
qed

lemma works_body_value:
  assumes "db_ok t0" "texts_ok t0" "1 \<le> now" "now \<le> 4102444740" "valid_utf8 host" "valid_utf8 boot" "in_i64 seq"
  shows "works (\<lambda>t. t = t0) (exchange_body host boot seq hash reports now)
    (\<lambda>out t. (\<exists>e. find (\<lambda>e. se_host e = host \<and> se_boot e = boot) (t_sessions t0) = Some e \<and> se_request_seq e = seq)
       \<or> storable SBJ_MAX_DEPTH out)"
  unfolding exchange_body_def
proof (rule works_dbind [OF works_host_check], rule works_dbind [OF works_first], rule works_each)
  fix row t
  assume pre: "(t = t0 \<and> host_enabled t host) \<and> row =
    (case filter (\<lambda>e. se_host e = host \<and> se_boot e = boot) (t_sessions t) of [] \<Rightarrow> None | r # _ \<Rightarrow> Some r)"
  then have t: "t = t0" and row: "find (\<lambda>e. se_host e = host \<and> se_boot e = boot) (t_sessions t0) = row"
    by (auto simp: find_filter)
  show "works (\<lambda>x. x = t)
      (let replay = (case row of None \<Rightarrow> False | Some e \<Rightarrow> seq = se_request_seq e \<and> hash = se_request_hash e);
           conflict = (case row of None \<Rightarrow> seq \<noteq> 1 | Some e \<Rightarrow> seq \<noteq> se_request_seq e + 1 \<and> \<not> replay) in
       if conflict
       then dfail SB_ERR_CONFLICT
         ''Proxy lease sequence changed; retry the same request or use the next sequence''
       else if replay
       then (case row of None \<Rightarrow> dsilent
             | Some e \<Rightarrow> (case sbj_parse (Some (se_response e)) of
                  Inl _ \<Rightarrow> dfail SB_ERR_GENERIC ''Stored proxy lease snapshot is invalid''
                | Inr out \<Rightarrow> dret out))
       else exchange_fresh host boot seq hash reports now)
      (\<lambda>out t. (\<exists>e. find (\<lambda>e. se_host e = host \<and> se_boot e = boot) (t_sessions t0) = Some e \<and> se_request_seq e = seq)
       \<or> storable SBJ_MAX_DEPTH out)"
    unfolding Let_def t row
    by (intro works_if works_dfail works_post [OF works_exchange_value [OF assms]])
      (auto split: option.splits sum.splits intro!: works_dret works_dfail works_dsilent)
qed

lemma exchange_effect_hosts: "exchange_effect host boot seq hash now out t0 t \<Longrightarrow> t_hosts t = t_hosts t0"
  by (auto simp: exchange_effect_def session_upsert_def Let_def dest!: exchange_steps_frame)

text \<open>An answer is stored so that it is read back.\<close>

lemma exchange_stored:
  assumes ok: "db_ok (tables s)" "saved s = None" "texts_ok (tables s)" "valid_utf8 host"
    and run: "sb_proxy_lease_exchange host request now s = (Inr out, s')"
  shows "host_enabled (tables s') host \<and> (\<exists>e. find (\<lambda>e. se_host e = host \<and> se_boot e = member_text request ''boot_id'')
      (t_sessions (tables s')) = Some e \<and> se_request_seq e = body_int request ''request_seq'' 0
    \<and> se_request_hash e = sb_sha256_hex (sbj_dump request (- 1)) s \<and> sbj_parse (Some (se_response e)) = Inr out)"
proof -
  let ?boot = "member_text request ''boot_id''" and ?seq = "body_int request ''request_seq'' 0"
  let ?hash = "sb_sha256_hex (sbj_dump request (- 1)) s"
  let ?find = "\<lambda>t. find (\<lambda>e. se_host e = host \<and> se_boot e = ?boot) (t_sessions t)"
  from run ok(1,2) have req: "exchange_ok request now"
    and eff: "exchange_effect host ?boot ?seq ?hash now out (tables s) (tables s')"
    by (cases rule: exchange_cases; simp)+
  from req have now: "1 \<le> now" "now \<le> 4102444740" and boot: "valid_utf8 ?boot" and seq: "in_i64 ?seq"
    by (auto simp: exchange_ok_def text_ok_def number_ok_def sbj_get_str_def sbj_get_int_def sbj_accessors
        sbj_validate_utf8_def utf8_check_iff in_i64_def SAFE_INTEGER_def nul_free_def list_all_iff
        split: option.splits sbj.splits if_splits) (subst cstr_id; force simp: nul_free_def)
  have val: "(\<exists>e. ?find (tables s) = Some e \<and> se_request_seq e = ?seq) \<or> storable SBJ_MAX_DEPTH out"
  proof -
    let ?body = "exchange_body host ?boot ?seq ?hash (json_items (jget request ''reports'')) now"
    have "transaction ?body s = (Inr out, s')"
      using run by (auto simp: sb_proxy_lease_exchange_def Let_def dfail_def sb_fail_def split: if_splits)
    then obtain s0 s1 where "?body s0 = (Inr out, s1)" "tables s0 = tables s" by (auto elim!: transaction_Inr)
    with works_Inr [OF works_body_value [OF ok(1,3) now ok(4) boot seq] _ this(1)] show ?thesis by simp
  qed
  have host: "host_enabled (tables s') host"
    using eff exchange_effect_hosts [OF eff] by (simp add: exchange_effect_def Let_def host_enabled_def)
  from eff consider (old) e where "?find (tables s) = Some e" "se_request_seq e = ?seq" "se_request_hash e = ?hash"
      "sbj_parse (Some (se_response e)) = Inr out" "tables s' = tables s"
    | (new) t1 n where "case ?find (tables s) of None \<Rightarrow> ?seq = 1 | Some e \<Rightarrow> ?seq = se_request_seq e + 1"
      "session_upsert \<lparr>se_host = host, se_boot = ?boot, se_request_seq = ?seq, se_request_hash = ?hash,
        se_response = sbj_dump (Some out) (- 1), se_updated_at = now\<rparr> t1 = Inr (tables s', n)"
    unfolding exchange_effect_def Let_def by blast
  then show ?thesis
  proof cases
    case old
    then show ?thesis using host by auto
  next
    case new
    then have "storable SBJ_MAX_DEPTH out" using val by (auto split: option.splits)
    then have "sbj_parse (Some (sbj_dump (Some out) (- 1))) = Inr out"
      by (simp add: storable_def sbj_parse_def parse_document_dump)
    then show ?thesis using session_upsert_find [OF new(2)] host by auto
  qed
qed

text \<open>(C7) Retries are safe. After an exchange the same request, sent again at any valid time, is given
  the equal answer and changes nothing: no usage is counted twice and nothing new is granted. The texts in
  the tables and the host id are UTF-8 and the device numbers fit their columns.\<close>

theorem lease_replay:
  assumes "reachable (tables s)" "saved s = None" "texts_ok (tables s)" "valid_utf8 host"
    and "sb_proxy_lease_exchange host request now s = (Inr out, s1)"
    and "codes s2 = []" "saved s2 = None" "tables s2 = tables s1" "sha256 s2 = sha256 s" "exchange_ok request later"
  shows "sb_proxy_lease_exchange host request later s2 = (Inr out, s2)"
proof -
  let ?boot = "member_text request ''boot_id''" and ?seq = "body_int request ''request_seq'' 0"
  let ?hash = "sb_sha256_hex (sbj_dump request (- 1)) s2" and ?reports = "json_items (jget request ''reports'')"
  let ?body = "exchange_body host ?boot ?seq ?hash ?reports later"
  let ?s = "s2\<lparr>saved := Some (tables s2)\<rparr>"
  obtain e where host: "host_enabled (tables s2) host"
    and e: "find (\<lambda>e. se_host e = host \<and> se_boot e = ?boot) (t_sessions (tables s2)) = Some e" "se_request_seq e = ?seq"
      "se_request_hash e = ?hash" "sbj_parse (Some (se_response e)) = Inr out"
    using exchange_stored [OF reachable_ok [OF assms(1)] assms(2-5)] assms(8,9) by (auto simp: sb_sha256_hex_def)
  have "host_check host SB_ERR_AUTH ''Proxy lease host is unknown or disabled'' ?s = (Inr (), ?s)"
    using assms(6) host
    by (cases "filter (\<lambda>h. hs_id h = host \<and> hs_enabled h) (t_hosts (tables s2))")
      (auto simp: host_check_def smooth_steps host_enabled_def list_ex_iff filter_empty_conv)
  then have "?body ?s = (Inr out, ?s)"
    using assms(6) e by (simp add: exchange_body_def smooth_steps Let_def flip: find_filter)
  then have "transaction ?body s2 = (Inr out, ?s\<lparr>saved := None\<rparr>)"
    using smooth_transaction [where body = ?body and s = s2] assms(6) by simp
  moreover have "?s\<lparr>saved := None\<rparr> = s2" using assms(7) by simp
  moreover have "list_all report_ok ?reports" "\<not> duplicate_reports ?reports"
    using assms(5) by (auto simp: sb_proxy_lease_exchange_def Let_def dfail_def sb_fail_def split: if_splits)
  ultimately show ?thesis using assms(10) by (simp add: sb_proxy_lease_exchange_def)
qed


subsection \<open>Instances\<close>

lemma stage_password: "dv_password stage_device = ''AAAAAAAAAAAAAAAAAAAAAA==''"
proof -
  have "replicate 15 (CHR 0x00) = replicate (Suc (Suc (Suc (Suc (Suc (Suc (Suc (Suc (Suc (Suc (Suc (Suc (Suc (Suc (Suc 0))))))))))))))) (CHR 0x00)"
    by (simp add: numeral_eq_Suc)
  then show ?thesis
    by (simp add: stage_device_def sb_base64_encode_def b64_encode.simps sextet_def B64_def byte_simps)
qed

lemma stage_texts: "texts_ok (tables stage)"
proof -
  have "valid_utf8 ''1.2.3.4''" "valid_utf8 ''AQEBAQEBAQEBAQEBAQEBAQ==''" "valid_utf8 ''AAAAAAAAAAAAAAAAAAAAAA==''"
    by (rule ascii_utf8; auto)+
  moreover have "valid_utf8 (scene_uuid n)" for n by (simp add: scene_uuid_def)
  ultimately show ?thesis
    by (simp add: texts_ok_def stage_password stage_user_def in_i64_def) (simp add: stage_device_def)
qed

theorem lease_replay_witness:
  "\<exists>out s1. sb_proxy_lease_exchange ''self'' (Some stage_request) 1000 stage = (Inr out, s1)
     \<and> sb_proxy_lease_exchange ''self'' (Some stage_request) 1030 (stage\<lparr>tables := tables s1\<rparr>)
       = (Inr out, stage\<lparr>tables := tables s1\<rparr>)"
proof -
  obtain out s1 where run: "sb_proxy_lease_exchange ''self'' (Some stage_request) 1000 stage = (Inr out, s1)"
    using stage_exchange by blast
  have "valid_utf8 ''self''" by (rule ascii_utf8) auto
  moreover have "exchange_ok (Some stage_request) 1030" using stage_request_ok by (simp add: exchange_ok_def)
  ultimately show ?thesis
    using run lease_replay [OF stage_reachable _ stage_texts _ run, of "stage\<lparr>tables := tables s1\<rparr>" 1030] by auto
qed

text \<open>A clock that always shows the same time.\<close>

definition steady :: "sb_proxy_clock \<Rightarrow> bool" where
  "steady c \<longleftrightarrow> pc_now c = (\<lambda>_. 1000) \<and> 0 \<le> pc_last_now c \<and> pc_last_now c \<le> 1000"

lemma steady_step: "clock_step c c' \<Longrightarrow> steady c \<Longrightarrow> steady c'"
  by (induction rule: clock_step.induct)
    (auto simp: steady_def clock_wait_def clock_reset_def Let_def split_beta read_now_def)

lemma steady_ticks:
  assumes "ticks m" "m s = (r, s')" "proxy_clock s = Some c" "steady c"
  shows "\<exists>c'. proxy_clock s' = Some c' \<and> steady c'"
proof -
  have "steady y" if "clock_step\<^sup>*\<^sup>* x y" "steady x" for x y
    using that by (induction rule: rtranclp_induct) (auto intro: steady_step)
  then show ?thesis
    using ticksD [OF assms(1), of s] assms(2-4) by (auto simp: clock_steps_def split: option.splits)
qed

lemma steady_reset: "steady c \<Longrightarrow> pc_last_now (clock_reset c user epoch) = 1000"
  by (simp add: steady_def clock_reset_def Let_def split_beta read_now_def INT64_MAX_def FENCE_MS_def)

lemma stage_reset:
  "\<exists>out s. sb_proxy_user_reset (scene_uuid 0) 1000 stage = (Inr out, s) \<and> codes s = [] \<and> saved s = None
     \<and> t_users (tables s) = [stage_user\<lparr>us_epoch := 2, us_not_before := 1060, us_updated_at := 1000\<rparr>]
     \<and> tables s = (tables stage)\<lparr>t_users := t_users (tables s)\<rparr>"
proof -
  obtain c where c: "proxy_clock scene = Some c" using scene_elapsed by blast
  let ?body = "dbind (sql_run (user_next_epoch (scene_uuid 0) 1000)) (\<lambda>changes.
     if changes \<noteq> 1 then dfail SB_ERR_NOT_FOUND ''Proxy user not found''
     else dbind (user_locked (scene_uuid 0)) (\<lambda>out.
       dbind (sb_proxy_clock_reset_epoch (scene_uuid 0) (body_int (Some out) ''epoch'' 0)) (\<lambda>_.
         dret (jset_int out ''lease_wait_seconds'' LEASE_SECONDS))))"
  have "\<exists>out s. ?body (stage\<lparr>saved := Some (tables stage)\<rparr>) = (Inr out, s) \<and> codes s = []
     \<and> t_users (tables s) = [stage_user\<lparr>us_epoch := 2, us_not_before := 1060, us_updated_at := 1000\<rparr>]
     \<and> tables s = (tables stage)\<lparr>t_users := t_users (tables s)\<rparr>"
    by (simp add: smooth_steps dbind_assoc split_beta c user_locked_def smooth_devices_locked user_query_def user_next_epoch_def
        upd_rows_def live_user_def last_lease_expiry_def LEASE_SECONDS_def SAFE_INTEGER_def Let_def
        sb_proxy_clock_reset_epoch_def stage_user_def)
  then show ?thesis
    using smooth_transaction [where body = ?body and s = stage]
    by (auto simp: sb_proxy_user_reset_def)
qed

lemma stage_reset_exchange:
  assumes "codes s = []" "saved s = None" "proxy_clock s = Some c" "tables s = (tables stage)\<lparr>t_users := t_users (tables s)\<rparr>"
    "t_users (tables s) = [stage_user\<lparr>us_epoch := 2, us_not_before := 1060, us_updated_at := 1000\<rparr>]"
  shows "\<exists>out s'. sb_proxy_lease_exchange ''self'' (Some stage_request) 1000 s = (Inr out, s')"
proof -
  let ?body = "exchange_body ''self'' ''a'' 1 (sb_sha256_hex (sbj_dump (Some stage_request) (- 1)) s) [] 1000"
  have t: "t_sessions (tables s) = []" "t_leases (tables s) = []" "t_hosts (tables s) = t_hosts scene_tables"
    "t_ingress (tables s) = t_ingress scene_tables" "t_reports (tables s) = t_reports scene_tables"
    "t_user_nodes (tables s) = [(scene_uuid 0, ''self'')]"
    by (subst assms(4), simp)+
  have "\<exists>out s'. ?body (s\<lparr>saved := Some (tables s)\<rparr>) = (Inr out, s') \<and> codes s' = []"
    using assms(1,3)
    by (simp add: smooth_steps t assms(5) exchange_body_def exchange_fresh_def exchange_grants_def host_check_def
        runtime_ready_def node_locked_def lease_users_def lease_user_def smooth_each stage_user_def usable_user_def
        unexpired_def report_fresh_def RUNTIME_FRESH_SECONDS_def session_upsert_def Let_def split_beta)
  then show ?thesis
    using smooth_transaction [where body = ?body and s = s] assms(1) stage_request_ok
    by (auto simp: sb_proxy_lease_exchange_def stage_text duplicate_reports_def)
qed


theorem reset_fence_witness:
  "\<exists>out s1 answer s3. sb_proxy_user_reset (scene_uuid 0) 1000 stage = (Inr out, s1)
     \<and> sb_proxy_lease_exchange ''self'' (Some stage_request) 1000 s1 = (Inr answer, s3)
     \<and> grants (scene_uuid 0) (tables s3) = grants (scene_uuid 0) (tables s1)"
proof -
  obtain out s1 where run: "sb_proxy_user_reset (scene_uuid 0) 1000 stage = (Inr out, s1)" "codes s1 = []" "saved s1 = None"
    "t_users (tables s1) = [stage_user\<lparr>us_epoch := 2, us_not_before := 1060, us_updated_at := 1000\<rparr>]"
    "tables s1 = (tables stage)\<lparr>t_users := t_users (tables s1)\<rparr>" using stage_reset by blast
  obtain c0 where c0: "proxy_clock stage = Some c0" "steady c0" by (simp add: scene_def steady_def clock_new_def)
  obtain c where c: "proxy_clock s1 = Some c" "steady c"
    using steady_ticks [OF ticks_op [of "User_Reset (scene_uuid 0)" 1000] _ c0] run(1) by auto
  obtain c1 e where "c = clock_reset c1 (scene_uuid 0) e" using reset_clock [OF run(1) c(1)] by blast
  then have last: "pc_last_now c = 1000" using steady_reset c(2) by (auto simp: steady_def clock_reset_def Let_def split_beta read_now_def)
  obtain answer s3 where ex: "sb_proxy_lease_exchange ''self'' (Some stage_request) 1000 s1 = (Inr answer, s3)"
    using stage_reset_exchange [OF run(2,3) c(1) run(5,4)] by blast
  obtain c3 where c3: "proxy_clock s3 = Some c3" "steady c3"
    using steady_ticks [OF ticks_op [of "Lease_Exchange ''self'' (Some stage_request)" 1000] _ c] ex by auto
  have "grants (scene_uuid 0) (tables s3) = grants (scene_uuid 0) (tables s1)"
    using c(2) c3(2) last
    by (intro reset_fence [OF run(1) c(1) _ _ _ goes_on.now ex c3(1)])
      (simp_all add: steady_def INT64_MAX_def FENCE_MS_def)
  then show ?thesis using run(1) ex by blast
qed

theorem revoked_stays_witness:
  "\<exists>s d. reachable (tables s) \<and> d \<in> set (t_devices (tables s)) \<and> \<not> dv_enabled d
     \<and> (\<exists>e. fst (sb_proxy_subscription (Some (sb_base64url_encode (of_byte 1 # replicate 31 (CHR 0x00)))) 1000 s) = Inl e)"
proof -
  let ?d = "stage_device\<lparr>dv_enabled := False, dv_revoked_at := Some 1000\<rparr>"
  have "\<exists>out s. sb_proxy_device_revoke (scene_uuid 0) (scene_uuid 1) 1000 stage = (Inr out, s) \<and> saved s = None
      \<and> t_devices (tables s) = [?d] \<and> sha256 s = (\<lambda>d. d)"
    by (simp add: sb_proxy_device_revoke_def smooth_steps device_disable_def upd_rows_def stage_device_def)
  then obtain out s where s: "run_op (Device_Revoke (scene_uuid 0) (scene_uuid 1)) 1000 stage = (Inr out, s)"
    "saved s = None" "t_devices (tables s) = [?d]" "sha256 s = (\<lambda>d. d)" by (auto simp: then_null_def smooth_steps)
  have "reachable (tables s)" using reachable.step [OF stage_reachable _ _ s(1)] by simp
  then show ?thesis
    using revoked_stays [of s "Device_Revoke (scene_uuid 0) (scene_uuid 1)" 1000, OF _ s(2) prod.collapse [symmetric], of ?d] s(3,4)
    by (intro exI [of _ s] exI [of _ ?d]) (auto simp: sb_sha256_hex_def stage_device_def)
qed


text \<open>A clock that can be read twice, fails twice and then comes back.\<close>

definition failing :: "nat \<Rightarrow> int" where
  "failing n = (if n < 2 then 1000 else if n < 4 then - 1 else 100000)"

definition lapse_clock :: "int \<Rightarrow> bool \<Rightarrow> nat \<Rightarrow> proxy_epoch_clock list \<Rightarrow> sb_proxy_clock" where
  "lapse_clock shown used calls es =
     (clock_new \<lparr>id_device = 0, id_inode = 0, id_memory = Some 0, id_process = 1\<rparr> shown failing)
       \<lparr>pc_used := used, pc_calls := calls, pc_epochs := es\<rparr>"

text \<open>SQLite fails at the twelfth call, the commit of the first reset.\<close>

definition lapse :: sb_database where
  "lapse = stage\<lparr>codes := replicate 11 0 @ [5], proxy_clock := Some (lapse_clock 0 False 0 [])\<rparr>"

definition lapsed :: sb_database where
  "lapsed = stage\<lparr>codes := [], saved := None, proxy_clock :=
     Some (lapse_clock 1000 True 2 [\<lparr>ec_user = scene_uuid 0, ec_epoch = 2, ec_until = 61000\<rparr>])\<rparr>"

lemmas lapse_clock_simps = clock_wait_def clock_reset_def read_now_def observe_epoch_def epoch_find_def epoch_add_def
  lapse_clock_def clock_new_def failing_def Let_def INT64_MAX_def FENCE_MS_def sb_streq_iff

lemma next_code_Cons: "codes s = c # cs \<Longrightarrow> next_code s = (c, s\<lparr>codes := cs\<rparr>)"
  by (simp add: next_code_def)

lemma user_epoch:
  "body_int (Some (jset (jset (user_json u a r w) ''host_ids'' h) ''devices'' d)) ''epoch'' 0 = us_epoch u"
  by (simp add: user_json_def Let_def sbj_get_int_def jset_values del: jget_jset)

lemma lapse_reset: "\<exists>e. sb_proxy_user_reset (scene_uuid 0) 1000 lapse = (Inl e, lapsed)"
proof -
  have r: "replicate 11 x = [x, x, x, x, x, x, x, x, x, x, x]" for x :: int by (simp add: numeral_eq_Suc)
  have "clock_wait (lapse_clock 0 False 0 []) (scene_uuid 0) 2
      = (60000, lapse_clock 1000 True 1 [\<lparr>ec_user = scene_uuid 0, ec_epoch = 2, ec_until = 61000\<rparr>])"
    "clock_reset (lapse_clock 1000 True 1 [\<lparr>ec_user = scene_uuid 0, ec_epoch = 2, ec_until = 61000\<rparr>]) (scene_uuid 0) 2
      = lapse_clock 1000 True 2 [\<lparr>ec_user = scene_uuid 0, ec_epoch = 2, ec_until = 61000\<rparr>]"
    by (simp_all add: lapse_clock_simps)
  then show ?thesis
    by (simp add: lapse_def r next_code_Cons sb_proxy_user_reset_def transaction_def sbq_begin_def sbq_exec_def sbq_commit_def dbind_def dret_def
     sql_run_def sbq_prepare_def sbq_step_done_def user_next_epoch_def upd_rows_def live_user_def last_lease_expiry_def LEASE_SECONDS_def
      SAFE_INTEGER_def stage_user_def user_locked_def sql_first_def sbq_step_row_def user_query_def devices_locked_def sql_each_def split_beta Let_def
   nodes_query_def devices_query_def stage_device_def sb_proxy_clock_wait_ms_def sb_proxy_clock_reset_epoch_def sbq_fail_def sb_fail_def sbq_rollback_def
   lapsed_def user_epoch)
qed

lemma lapsed_reset:
  "\<exists>out s. sb_proxy_user_reset (scene_uuid 0) 1100 lapsed = (Inr out, s) \<and> proxy_clock s =
     Some (lapse_clock 1000 True 4 [\<lparr>ec_user = scene_uuid 0, ec_epoch = 2, ec_until = 61000\<rparr>])
     \<and> us_epoch (hd (t_users (tables s))) = 2"
proof -
  let ?es = "[\<lparr>ec_user = scene_uuid 0, ec_epoch = 2, ec_until = 61000\<rparr>]"
  let ?body = "dbind (sql_run (user_next_epoch (scene_uuid 0) 1100)) (\<lambda>changes.
     if changes \<noteq> 1 then dfail SB_ERR_NOT_FOUND ''Proxy user not found''
     else dbind (user_locked (scene_uuid 0)) (\<lambda>out.
       dbind (sb_proxy_clock_reset_epoch (scene_uuid 0) (body_int (Some out) ''epoch'' 0)) (\<lambda>_.
         dret (jset_int out ''lease_wait_seconds'' LEASE_SECONDS))))"
  have clock: "clock_wait (lapse_clock 1000 True 2 ?es) (scene_uuid 0) 2 = (60000, lapse_clock 1000 True 3 ?es)"
    "clock_reset (lapse_clock 1000 True 3 ?es) (scene_uuid 0) 2 = lapse_clock 1000 True 4 ?es"
    by (simp_all add: lapse_clock_simps)
  have t: "tables lapsed = tables stage" "codes lapsed = []" "proxy_clock lapsed = Some (lapse_clock 1000 True 2 ?es)"
    by (simp_all add: lapsed_def)
  have "\<exists>out s. ?body (lapsed\<lparr>saved := Some (tables lapsed)\<rparr>) = (Inr out, s) \<and> codes s = []
     \<and> proxy_clock s = Some (lapse_clock 1000 True 4 ?es) \<and> us_epoch (hd (t_users (tables s))) = 2"
    by (simp add: smooth_steps dbind_assoc split_beta t clock user_epoch user_locked_def smooth_devices_locked user_query_def user_next_epoch_def
        upd_rows_def live_user_def last_lease_expiry_def LEASE_SECONDS_def SAFE_INTEGER_def Let_def
        sb_proxy_clock_reset_epoch_def stage_user_def)
  then show ?thesis
    using smooth_transaction [where body = ?body and s = lapsed]
    by (auto simp: sb_proxy_user_reset_def t)
qed

text \<open>(C32) A reset during a failure of the clock does not always start a wait of its own at the next valid
  reading: when an earlier reset of the user observed the new epoch and was rolled back, the fence
  of that reset stays in place. Here it has ended, and the next reading gives no waiting time although
  none was taken since the reset.\<close>

theorem reset_without_fence:
  "\<exists>e s1 out s2 c. sb_proxy_user_reset (scene_uuid 0) 1000 lapse = (Inl e, s1) \<and> tables s1 = tables lapse
     \<and> sb_proxy_user_reset (scene_uuid 0) 1100 s1 = (Inr out, s2) \<and> us_epoch (hd (t_users (tables s2))) = 2
     \<and> proxy_clock s2 = Some c \<and> pc_now c 2 = - 1 \<and> pc_now c 3 = - 1 \<and> pc_calls c = 4
     \<and> fst (sb_proxy_clock_wait_ms (scene_uuid 0) 2 s2) = Inr 0"
proof -
  let ?c = "lapse_clock 1000 True 4 [\<lparr>ec_user = scene_uuid 0, ec_epoch = 2, ec_until = 61000\<rparr>]"
  have "pc_now ?c 2 = - 1" "pc_now ?c 3 = - 1" by (simp_all add: lapse_clock_simps)
  moreover have "pc_calls ?c = 4" "fst (clock_wait ?c (scene_uuid 0) 2) = 0" by (simp_all add: lapse_clock_simps)
  moreover have "tables lapsed = tables lapse" by (simp add: lapse_def lapsed_def)
  ultimately show ?thesis
    using lapse_reset lapsed_reset by (fastforce simp: sb_proxy_clock_wait_ms_def split_beta)
qed

end
