(* ===== verification/Proxy_Runtime.thy ===== *)
theory Proxy_Runtime
  imports Proxy_Leases
begin

text \<open>
  The runtime of a node, \<open>c/src/proxy_runtime.c\<close>: it collects the counters of the proxy engine, sends
  them as the reports of a lease request, checks the answer and hands it to the engine.

  The engine and the transport are callbacks in C. Here they are functions on a state of type \<open>'b\<close> and
  \<open>'x\<close> that the runtime carries; a result other than \<open>0\<close> is a failure, and a missing text a null
  pointer. What other threads and the system decide is part of the runtime as well: whether the lock
  of the operation is held elsewhere, what was done to the \<open>stopping\<close> flag before each look at it, and
  the readings of \<open>CLOCK_BOOTTIME\<close> and of the wall clock.
\<close>

subsection \<open>The state\<close>

definition SB_PROXY_REQUEST_LIMIT :: nat where "SB_PROXY_REQUEST_LIMIT = 512 * 1024"
definition SB_PROXY_POLICY_LIMIT :: nat where "SB_PROXY_POLICY_LIMIT = 4 * 1024 * 1024"
definition SB_PROXY_POLL_MILLIS :: int where "SB_PROXY_POLL_MILLIS = 10000"

record 'b sb_proxy_bridge =
  br_begin :: "'b \<Rightarrow> string \<Rightarrow> int \<times> 'b"
  br_apply :: "'b \<Rightarrow> string \<Rightarrow> int \<times> 'b"
  br_stats :: "'b \<Rightarrow> int \<times> string option \<times> 'b"
  br_acknowledge :: "'b \<Rightarrow> string \<Rightarrow> int \<times> 'b"
  br_stop :: "'b \<Rightarrow> 'b"

type_synonym 'x sb_proxy_exchange_fn = "'x \<Rightarrow> string \<Rightarrow> int \<times> string option \<times> 'x"

record ('b, 'x) sb_proxy_runtime =
  rt_bridge :: 'b
  rt_context :: 'x
  rt_host :: string
  rt_boot :: string
  rt_pending :: "string option"
  rt_reports :: "string option"
  rt_sequence :: int
  rt_began_ms :: int
  rt_begun :: bool
  rt_operation :: bool
  rt_started :: bool
  rt_stopping :: bool
  rt_native_owner :: bool
  rt_last_accepted_at :: int
  rt_issue :: string
  rt_signals :: "bool option list"
  rt_boottime :: "nat \<Rightarrow> (int \<times> int) option"
  rt_boottime_calls :: nat
  rt_unix :: "nat \<Rightarrow> int"
  rt_unix_calls :: nat

definition failure :: "string \<Rightarrow> sb_err" where
  "failure message = \<lparr>err_code = SB_ERR_UPSTREAM, err_msg = take 1023 message\<rparr>"

definition boot_ms :: "(int \<times> int) option \<Rightarrow> int" where
  "boot_ms reading = (case reading of None \<Rightarrow> - 1 | Some (sec, nsec) \<Rightarrow> sec * 1000 + nsec div 1000000)"

definition request_time_ms :: "('b, 'x) sb_proxy_runtime \<Rightarrow> int \<times> ('b, 'x) sb_proxy_runtime" where
  "request_time_ms rt =
     (boot_ms (rt_boottime rt (rt_boottime_calls rt)), rt\<lparr>rt_boottime_calls := rt_boottime_calls rt + 1\<rparr>)"

text \<open>\<open>built_in\<close> tells whether the engine is compiled in, on Linux.\<close>

definition sb_proxy_runtime_available :: "bool \<Rightarrow> (int \<times> int) option \<Rightarrow> bool" where
  "sb_proxy_runtime_available built_in reading \<longleftrightarrow> built_in \<and> boot_ms reading \<ge> 0"

definition sb_proxy_runtime_capabilities :: "bool \<Rightarrow> (int \<times> int) option \<Rightarrow> sbj" where
  "sb_proxy_runtime_capabilities built_in reading =
     (if sb_proxy_runtime_available built_in reading
      then sbj_arr_push sbj_array (Some (sbj_str (Some ''proxy_users_v1''))) else sbj_array)"

subsection \<open>Checks of reports and policies\<close>

definition ident_chars :: string where
  "ident_chars = ''abcdefghijklmnopqrstuvwxyzABCDEFGHIJKLMNOPQRSTUVWXYZ0123456789-_.''"

definition is_identifier :: "sbj option \<Rightarrow> bool" where
  "is_identifier v =
     (case v of
        Some (SBJ_STRING s) \<Rightarrow>
          (if s = [] \<or> length s > 128 then False
           else length (takeWhile (\<lambda>c. c \<in> set ident_chars) (cstr s)) = length s)
      | _ \<Rightarrow> False)"

definition integer :: "sbj option \<Rightarrow> string \<Rightarrow> int \<Rightarrow> int \<Rightarrow> bool" where
  "integer object key minimum maximum =
     (let v = jget object key in
      sbj_is_integer v \<and> sbj_as_int v (- 1) \<ge> minimum \<and> sbj_as_int v (- 1) \<le> maximum)"

definition key_valid :: "sbj option \<Rightarrow> bool" where
  "key_valid v =
     (case v of
        Some (SBJ_STRING s) \<Rightarrow>
          (if length s \<noteq> 24 then False
           else
             (case sb_base64_decode_strict s of
                None \<Rightarrow> False
              | Some key \<Rightarrow> length key = 16 \<and> sb_base64_encode key = cstr s))
      | _ \<Rightarrow> False)"

definition distinct_items :: "string list \<Rightarrow> bool" where
  "distinct_items items \<longleftrightarrow> \<not> has_neighbours (sort items)"

definition report_valid :: "sbj \<Rightarrow> bool" where
  "report_valid r \<longleftrightarrow> sbj_is_object (Some r) \<and> sbj_obj_len (Some r) = 2
     \<and> is_identifier (jget (Some r) ''lease_id'') \<and> integer (Some r) ''used_bytes'' 0 SAFE_INTEGER"

definition reports_valid :: "sbj option \<Rightarrow> bool" where
  "reports_valid reports \<longleftrightarrow>
     sbj_is_array reports \<and> sbj_arr_len reports \<le> 4096 \<and> list_all report_valid (json_items reports)
     \<and> distinct_items (map (\<lambda>r. member_text (Some r) ''lease_id'') (json_items reports))"

definition node_valid :: "sbj option \<Rightarrow> bool" where
  "node_valid node \<longleftrightarrow>
     sbj_is_object node \<and> sbj_obj_len node = 4
     \<and> (case jget node ''listen'' of
          Some (SBJ_STRING s) \<Rightarrow> length s = length (cstr s) \<and> (inet_pton4 (cstr s) \<noteq> None \<or> inet_pton6 (cstr s) \<noteq> None)
        | _ \<Rightarrow> False)
     \<and> integer node ''listen_port'' 1 65535
     \<and> sbj_string_is (jget node ''method'') (Some ''2022-blake3-aes-128-gcm'')
     \<and> key_valid (jget node ''password'')"

definition device_valid :: "sbj option \<Rightarrow> int \<Rightarrow> sbj \<Rightarrow> bool" where
  "device_valid node generated device \<longleftrightarrow>
     (let expires = body_int (Some device) ''expires_at'' (- 1) in
      sbj_is_object (Some device) \<and> sbj_obj_len (Some device) = 3 \<and> is_identifier (jget (Some device) ''id'')
      \<and> key_valid (jget (Some device) ''password'') \<and> integer (Some device) ''expires_at'' 0 4102444800
      \<and> \<not> (expires \<noteq> 0 \<and> expires \<le> generated)
      \<and> \<not> sbj_equal (jget (Some device) ''password'') (jget node ''password''))"

definition policy_user_valid :: "sbj option \<Rightarrow> sbj option \<Rightarrow> int \<Rightarrow> sbj \<Rightarrow> bool" where
  "policy_user_valid policy node generated user \<longleftrightarrow>
     (let lease = jget (Some user) ''lease''; devices = jget (Some user) ''devices'' in
      sbj_is_object (Some user) \<and> sbj_obj_len (Some user) = 4 \<and> is_identifier (jget (Some user) ''id'')
      \<and> integer (Some user) ''epoch'' 1 SAFE_INTEGER \<and> sbj_is_object lease \<and> sbj_obj_len lease = 4
      \<and> is_identifier (jget lease ''id'') \<and> integer lease ''grant_bytes'' 1 SAFE_INTEGER
      \<and> integer lease ''used_bytes'' 0 (body_int lease ''grant_bytes'' (- 1))
      \<and> integer lease ''expires_at'' (generated + 1) (body_int policy ''expires_at'' 0)
      \<and> sbj_is_array devices \<and> sbj_arr_len devices \<ge> 1 \<and> sbj_arr_len devices \<le> 32
      \<and> list_all (device_valid node generated) (json_items devices))"

text \<open>The devices of all users, in the order the loop collects them.\<close>

definition policy_devices :: "sbj list \<Rightarrow> sbj list" where
  "policy_devices users = concat (map (\<lambda>u. json_items (jget (Some u) ''devices'')) users)"

definition policy_users_valid :: "sbj option \<Rightarrow> sbj option \<Rightarrow> int \<Rightarrow> sbj list \<Rightarrow> bool" where
  "policy_users_valid policy node generated users \<longleftrightarrow>
     list_all (policy_user_valid policy node generated) users
     \<and> distinct_items (map (\<lambda>u. member_text (Some u) ''id'') users)
     \<and> distinct_items (map (\<lambda>u. member_text (jget (Some u) ''lease'') ''id'') users)
     \<and> distinct_items (map (\<lambda>d. member_text (Some d) ''id'') (policy_devices users))
     \<and> distinct_items (map (\<lambda>d. member_text (Some d) ''password'') (policy_devices users))"

definition policy_valid :: "string \<Rightarrow> string \<Rightarrow> int \<Rightarrow> sbj option \<Rightarrow> bool" where
  "policy_valid host boot sequence policy \<longleftrightarrow>
     (let node = jget policy ''node''; users = jget policy ''users'' in
      if \<not> sbj_is_object policy \<or> sbj_obj_len policy \<noteq> 8 \<or> \<not> integer policy ''version'' 1 1
         \<or> \<not> is_identifier (jget policy ''host_id'') \<or> \<not> sbj_string_is (jget policy ''boot_id'') (Some boot)
         \<or> \<not> integer policy ''request_seq'' sequence sequence
         \<or> host \<noteq> [] \<and> \<not> sbj_string_is (jget policy ''host_id'') (Some host)
         \<or> \<not> integer policy ''generated_at'' 1 4102444800 \<or> \<not> sbj_is_array users \<or> sbj_arr_len users > 256
      then False
      else
        (let generated = body_int policy ''generated_at'' 0 in
         if \<not> integer policy ''expires_at'' (generated + 1) (generated + 60) \<or> node = None then False
         else if sbj_is_null node then sbj_arr_len users = 0
         else node_valid node \<and> policy_users_valid policy node generated (json_items users)))"

subsection \<open>Creating a runtime\<close>

text \<open>The bridge a caller passes: none, one with a missing callback, or a complete one. \<open>embedded\<close> is
  the engine compiled into the process, of which there is one owner at a time.\<close>

datatype 'b bridge_arg = Bridge_Null | Bridge_Incomplete | Bridge "'b sb_proxy_bridge"

definition runtime_init ::
  "string \<Rightarrow> string \<Rightarrow> bool \<Rightarrow> 'b \<Rightarrow> 'x \<Rightarrow> (nat \<Rightarrow> (int \<times> int) option) \<Rightarrow> (nat \<Rightarrow> int) \<Rightarrow> ('b, 'x) sb_proxy_runtime" where
  "runtime_init host boot native b x boottime unix_now =
     \<lparr>rt_bridge = b, rt_context = x, rt_host = host, rt_boot = boot, rt_pending = None, rt_reports = None,
      rt_sequence = 1, rt_began_ms = 0, rt_begun = False, rt_operation = False, rt_started = False,
      rt_stopping = False, rt_native_owner = native, rt_last_accepted_at = 0, rt_issue = [], rt_signals = [],
      rt_boottime = boottime, rt_boottime_calls = 0, rt_unix = unix_now, rt_unix_calls = 0\<rparr>"

text \<open>\<open>reset\<close> tells whether \<open>SBEasyProxyReset\<close> succeeds; \<open>owned\<close> is the process-wide flag.\<close>

definition sb_proxy_runtime_new ::
  "string option \<Rightarrow> 'b bridge_arg \<Rightarrow> 'b sb_proxy_bridge option \<Rightarrow> 'x sb_proxy_exchange_fn option \<Rightarrow> bool
    \<Rightarrow> (string \<Rightarrow> bool \<Rightarrow> ('b, 'x) sb_proxy_runtime) \<Rightarrow> bool
    \<Rightarrow> ('b sb_proxy_bridge \<times> ('b, 'x) sb_proxy_runtime) res \<times> bool" where
  "sb_proxy_runtime_new host_id bridge embedded exchange reset fresh owned =
     (let host = (case host_id of None \<Rightarrow> [] | Some h \<Rightarrow> h);
          selected = (case bridge of Bridge b \<Rightarrow> Some b | Bridge_Incomplete \<Rightarrow> None | Bridge_Null \<Rightarrow> embedded);
          native = (case bridge of Bridge_Null \<Rightarrow> True | _ \<Rightarrow> False) in
      if \<not> (host = [] \<or> is_identifier (Some (sbj_str (Some host)))) \<or> exchange = None
      then (sb_fail SB_ERR_VALIDATION ''Proxy runtime is unavailable or its host identity is invalid'', owned)
      else
        (case selected of
           None \<Rightarrow>
             (sb_fail SB_ERR_VALIDATION ''Proxy runtime is unavailable or its host identity is invalid'', owned)
         | Some b \<Rightarrow>
             if native \<and> owned
             then (sb_fail SB_ERR_CONFLICT ''The embedded proxy runtime already has an owner'', owned)
             else if native \<and> \<not> reset then (sb_fail SB_ERR_UPSTREAM ''Proxy engine operation failed'', False)
             else (Inr (b, fresh host native), owned \<or> native)))"

subsection \<open>One exchange\<close>

definition stopping :: "('b, 'x) sb_proxy_runtime \<Rightarrow> bool \<times> ('b, 'x) sb_proxy_runtime" where
  "stopping rt =
     (case rt_signals rt of
        [] \<Rightarrow> (rt_stopping rt, rt)
      | None # ss \<Rightarrow> (rt_stopping rt, rt\<lparr>rt_signals := ss\<rparr>)
      | Some b # ss \<Rightarrow> (b, rt\<lparr>rt_stopping := b, rt_signals := ss\<rparr>))"

definition outcome :: "string \<Rightarrow> bool \<Rightarrow> ('b, 'x) sb_proxy_runtime \<Rightarrow> ('b, 'x) sb_proxy_runtime" where
  "outcome issue accepted rt =
     (let rt = rt\<lparr>rt_issue := take 63 issue\<rparr> in
      if accepted then rt\<lparr>rt_last_accepted_at := rt_unix rt (rt_unix_calls rt), rt_unix_calls := rt_unix_calls rt + 1\<rparr>
      else rt)"

definition engine_stop :: "'b sb_proxy_bridge \<Rightarrow> ('b, 'x) sb_proxy_runtime \<Rightarrow> ('b, 'x) sb_proxy_runtime" where
  "engine_stop bridge rt = rt\<lparr>rt_bridge := br_stop bridge (rt_bridge rt)\<rparr>"

definition request_json :: "string \<Rightarrow> int \<Rightarrow> sbj \<Rightarrow> sbj" where
  "request_json boot sequence reports =
     (let u = sbj_object;
          u = jset_int u ''version'' 1;
          u = jset_str u ''boot_id'' boot;
          u = jset_int u ''request_seq'' sequence in
      jset u ''reports'' reports)"

definition pending_request ::
  "'b sb_proxy_bridge \<Rightarrow> ('b, 'x) sb_proxy_runtime \<Rightarrow> unit res \<times> ('b, 'x) sb_proxy_runtime" where
  "pending_request bridge rt =
     (if rt_pending rt \<noteq> None then (Inr (), rt)
      else if rt_sequence rt > SAFE_INTEGER
      then (Inl (failure ''Proxy lease sequence exhausted; restart is required''), rt)
      else
        (let (rc, raw, b) = br_stats bridge (rt_bridge rt);
             rt = rt\<lparr>rt_bridge := b\<rparr>;
             reports = (case raw of
                          None \<Rightarrow> None
                        | Some text \<Rightarrow>
                            if rc = 0 \<and> length text \<le> SB_PROXY_REQUEST_LIMIT
                            then (case sbj_parse_strict (Some text) of Inl _ \<Rightarrow> None | Inr v \<Rightarrow> Some v)
                            else None) in
         case reports of
           None \<Rightarrow> (Inl (failure ''Proxy engine counters are invalid''), engine_stop bridge rt)
         | Some v \<Rightarrow>
             if \<not> reports_valid (Some v)
             then (Inl (failure ''Proxy engine counters are invalid''), engine_stop bridge rt)
             else
               (let request = sbj_dump (Some (request_json (rt_boot rt) (rt_sequence rt) v)) (- 1) in
                if length (cstr request) > SB_PROXY_REQUEST_LIMIT
                then (Inl (failure ''Proxy lease request exceeded the limit''), rt)
                else (Inr (), rt\<lparr>rt_reports := Some (sbj_dump (Some v) (- 1)), rt_pending := Some request\<rparr>))))"

type_synonym ('b, 'x) step_result = "(int \<times> sb_err option) \<times> ('b, 'x) sb_proxy_runtime"

definition refuse :: "string \<Rightarrow> string \<Rightarrow> ('b, 'x) sb_proxy_runtime \<Rightarrow> ('b, 'x) step_result" where
  "refuse message issue rt = ((- 1, Some (failure message)), outcome issue False rt)"

text \<open>The first attempt at a request is announced to the engine.\<close>

definition step_begin ::
  "'b sb_proxy_bridge \<Rightarrow> string \<Rightarrow> ('b, 'x) sb_proxy_runtime
    \<Rightarrow> ('b, 'x) step_result + ('b, 'x) sb_proxy_runtime" where
  "step_begin bridge request rt =
     (if rt_begun rt then Inr rt
      else
        (let (now, rt) = request_time_ms rt;
             rt = rt\<lparr>rt_began_ms := now\<rparr> in
         if now < 0
         then Inl (refuse ''Proxy authorization clock is unavailable'' ''clock_failed'' (engine_stop bridge rt))
         else
           (let (rc, b) = br_begin bridge (rt_bridge rt) request; rt = rt\<lparr>rt_bridge := b\<rparr> in
            if rc \<noteq> 0 then Inl (refuse ''Proxy request initialization failed'' ''begin_failed'' rt)
            else Inr (rt\<lparr>rt_begun := True\<rparr>))))"

text \<open>A policy that matches the request: the sequence is consumed whatever the engine says.\<close>

definition step_accept ::
  "'b sb_proxy_bridge \<Rightarrow> string \<Rightarrow> sbj option \<Rightarrow> ('b, 'x) sb_proxy_runtime \<Rightarrow> ('b, 'x) step_result" where
  "step_accept bridge raw policy rt =
     (let rt = (if rt_host rt = [] then rt\<lparr>rt_host := member_text policy ''host_id''\<rparr> else rt);
          (received_ms, rt) = request_time_ms rt in
      if received_ms < rt_began_ms rt
      then refuse ''Proxy authorization clock is unavailable'' ''clock_failed'' (engine_stop bridge rt)
      else
        (let ttl_ms = (body_int policy ''expires_at'' 0 - body_int policy ''generated_at'' 0 - 1) * 1000;
             expired = (received_ms - rt_began_ms rt \<ge> ttl_ms);
             (applied, b) = br_apply bridge (rt_bridge rt) raw;
             (acknowledged, b) = br_acknowledge bridge b (case rt_reports rt of None \<Rightarrow> [] | Some r \<Rightarrow> r);
             rt = rt\<lparr>rt_bridge := b, rt_sequence := rt_sequence rt + 1, rt_begun := False, rt_began_ms := 0,
                     rt_pending := None, rt_reports := None\<rparr>;
             (rc, err, rt) =
               (if applied \<noteq> 0
                then (- 1, Some (failure ''Proxy lease accepted but local ingress could not be applied''),
                      outcome ''apply_failed'' True rt)
                else if acknowledged \<noteq> 0
                then (- 1, Some (failure ''Proxy lease accepted but report acknowledgment failed''),
                      outcome ''acknowledgment_failed'' True rt)
                else (0, None, outcome (if expired then ''expired'' else []) True rt)) in
         ((if expired then 1 else rc, err), rt)))"

definition step_send ::
  "'b sb_proxy_bridge \<Rightarrow> 'x sb_proxy_exchange_fn \<Rightarrow> string \<Rightarrow> ('b, 'x) sb_proxy_runtime
    \<Rightarrow> ('b, 'x) step_result" where
  "step_send bridge exchange request rt =
     (let (rc, raw, x) = exchange (rt_context rt) request; rt = rt\<lparr>rt_context := x\<rparr> in
      if rc \<noteq> 0 then refuse ''Proxy lease exchange failed'' ''exchange_failed'' rt
      else
        (let (stop, rt) = stopping rt in
         if stop then ((- 1, Some (failure ''Proxy runtime is stopping'')), rt)
         else
           (let policy = (case raw of
                            None \<Rightarrow> None
                          | Some text \<Rightarrow>
                              if length text \<le> SB_PROXY_POLICY_LIMIT
                              then (case sbj_parse_strict (Some text) of Inl _ \<Rightarrow> None | Inr v \<Rightarrow> Some v)
                              else None) in
            if \<not> policy_valid (rt_host rt) (rt_boot rt) (rt_sequence rt) policy
            then refuse ''Proxy lease response was rejected'' ''response_rejected'' (engine_stop bridge rt)
            else step_accept bridge (case raw of None \<Rightarrow> [] | Some text \<Rightarrow> text) policy rt)))"

definition sb_proxy_runtime_step ::
  "'b sb_proxy_bridge \<Rightarrow> 'x sb_proxy_exchange_fn \<Rightarrow> ('b, 'x) sb_proxy_runtime \<Rightarrow> ('b, 'x) step_result" where
  "sb_proxy_runtime_step bridge exchange rt =
     (if rt_operation rt
      then ((- 1, Some \<lparr>err_code = SB_ERR_CONFLICT, err_msg = ''Proxy lease exchange is already in progress''\<rparr>), rt)
      else
        (let (stop, rt) = stopping rt in
         if stop then ((- 1, Some (failure ''Proxy runtime is stopping'')), rt)
         else
           (case pending_request bridge rt of
              (Inl e, rt) \<Rightarrow> ((- 1, Some e), outcome ''counters_failed'' False rt)
            | (Inr _, rt) \<Rightarrow>
                (let request = (case rt_pending rt of None \<Rightarrow> [] | Some p \<Rightarrow> p) in
                 case step_begin bridge request rt of
                   Inl r \<Rightarrow> r
                 | Inr rt \<Rightarrow> step_send bridge exchange request rt))))"

subsection \<open>The worker\<close>

definition worker_round ::
  "'b sb_proxy_bridge \<Rightarrow> 'x sb_proxy_exchange_fn \<Rightarrow> ('b, 'x) sb_proxy_runtime \<Rightarrow> ('b, 'x) sb_proxy_runtime" where
  "worker_round bridge exchange rt =
     (let ((rc, _), rt) = sb_proxy_runtime_step bridge exchange rt in
      if rc = 1
      then
        (let (stop, rt) = stopping rt in
         if stop then rt else snd (sb_proxy_runtime_step bridge exchange rt))
      else rt)"

definition worker_wait_ms :: "int \<Rightarrow> int \<Rightarrow> int" where
  "worker_wait_ms began ended =
     (let wait_ms = SB_PROXY_POLL_MILLIS - (ended - began) in if wait_ms < 1000 then 1000 else wait_ms)"

definition worker_deadline :: "int \<times> int \<Rightarrow> int \<Rightarrow> int \<times> int" where
  "worker_deadline now wait_ms =
     (let sec = fst now + wait_ms div 1000; nsec = snd now + (wait_ms mod 1000) * 1000000 in
      if nsec \<ge> 1000000000 then (sec + 1, nsec - 1000000000) else (sec, nsec))"

partial_function (option) worker ::
  "'b sb_proxy_bridge \<Rightarrow> 'x sb_proxy_exchange_fn \<Rightarrow> ('b, 'x) sb_proxy_runtime \<Rightarrow> ('b, 'x) sb_proxy_runtime option" where
  "worker bridge exchange rt =
     (let (stop, rt) = stopping rt in
      if stop then Some rt else worker bridge exchange (worker_round bridge exchange rt))"

text \<open>\<open>created\<close> tells whether \<open>pthread_create\<close> succeeds.\<close>

definition sb_proxy_runtime_start ::
  "bool \<Rightarrow> ('b, 'x) sb_proxy_runtime \<Rightarrow> unit res \<times> ('b, 'x) sb_proxy_runtime" where
  "sb_proxy_runtime_start created rt =
     (if rt_started rt then (Inr (), rt)
      else
        (let rt = rt\<lparr>rt_stopping := False\<rparr> in
         if \<not> created then (Inl (failure ''Proxy lease worker could not start''), rt)
         else (Inr (), rt\<lparr>rt_started := True\<rparr>)))"

definition sb_proxy_runtime_request_stop :: "('b, 'x) sb_proxy_runtime \<Rightarrow> ('b, 'x) sb_proxy_runtime" where
  "sb_proxy_runtime_request_stop rt = rt\<lparr>rt_stopping := True\<rparr>"

text \<open>After the worker has been joined. \<open>report\<close> withdraws the capabilities of a runtime that works on
  a database of its own process, and does nothing for others.\<close>

definition sb_proxy_runtime_stop ::
  "'b sb_proxy_bridge \<Rightarrow> ('x \<Rightarrow> 'x) \<Rightarrow> ('b, 'x) sb_proxy_runtime \<Rightarrow> ('b, 'x) sb_proxy_runtime" where
  "sb_proxy_runtime_stop bridge report rt =
     (let rt = sb_proxy_runtime_request_stop rt;
          rt = engine_stop bridge rt in
      rt\<lparr>rt_context := report (rt_context rt), rt_started := False\<rparr>)"

text \<open>What is left of a runtime that is freed: the context, and the process-wide flag.\<close>

definition sb_proxy_runtime_free ::
  "'b sb_proxy_bridge \<Rightarrow> ('x \<Rightarrow> 'x) \<Rightarrow> ('b, 'x) sb_proxy_runtime \<Rightarrow> bool \<Rightarrow> ('b \<times> 'x) \<times> bool" where
  "sb_proxy_runtime_free bridge report rt owned =
     (let rt = sb_proxy_runtime_stop bridge report rt in
      ((rt_bridge rt, rt_context rt), if rt_native_owner rt then False else owned))"

definition sb_proxy_runtime_status :: "('b, 'x) sb_proxy_runtime option \<Rightarrow> sbj" where
  "sb_proxy_runtime_status runtime =
     (let out = jset_bool sbj_object ''supported'' (runtime \<noteq> None) in
      case runtime of
        None \<Rightarrow> out
      | Some rt \<Rightarrow>
          (let out = jset_bool out ''worker_running'' (rt_started rt \<and> \<not> rt_stopping rt);
               out = jset_str out ''issue'' (rt_issue rt) in
           jset_int out ''last_accepted_at'' (rt_last_accepted_at rt)))"

subsection \<open>The runtime of the control plane's own host\<close>

text \<open>It exchanges with the database of the same process.\<close>

record self_context =
  sc_database :: sb_database
  sc_unix :: "nat \<Rightarrow> int"
  sc_unix_calls :: nat

definition self_now :: "self_context \<Rightarrow> int \<times> self_context" where
  "self_now x = (sc_unix x (sc_unix_calls x), x\<lparr>sc_unix_calls := sc_unix_calls x + 1\<rparr>)"

definition self_exchange :: "self_context sb_proxy_exchange_fn" where
  "self_exchange x request =
     (let (now, x) = self_now x;
          (reported, s) = sb_proxy_runtime_report ''self''
            (Some (sbj_arr_push sbj_array (Some (sbj_str (Some ''proxy_users_v1''))))) now (sc_database x);
          x = x\<lparr>sc_database := s\<rparr> in
      case reported of
        Inl _ \<Rightarrow> (- 1, None, x)
      | Inr _ \<Rightarrow>
          (case sbj_parse_strict (Some request) of
             Inl _ \<Rightarrow> (- 1, None, x)
           | Inr body \<Rightarrow>
               (let (now, x) = self_now x;
                    (out, s) = sb_proxy_lease_exchange ''self'' (Some body) now (sc_database x);
                    x = x\<lparr>sc_database := s\<rparr> in
                case out of
                  Inl _ \<Rightarrow> (- 1, None, x)
                | Inr v \<Rightarrow> (0, Some (cstr (sbj_dump (Some v) (- 1))), x))))"

definition self_withdraw :: "self_context \<Rightarrow> self_context" where
  "self_withdraw x =
     (let (now, x) = self_now x in
      x\<lparr>sc_database := snd (sb_proxy_runtime_report ''self'' (Some sbj_array) now (sc_database x))\<rparr>)"

definition sb_proxy_runtime_new_self ::
  "bool \<Rightarrow> 'b bridge_arg \<Rightarrow> 'b sb_proxy_bridge option \<Rightarrow> bool
    \<Rightarrow> (string \<Rightarrow> bool \<Rightarrow> ('b, self_context) sb_proxy_runtime) \<Rightarrow> bool
    \<Rightarrow> ('b sb_proxy_bridge \<times> ('b, self_context) sb_proxy_runtime) res \<times> bool" where
  "sb_proxy_runtime_new_self database bridge embedded reset fresh owned =
     (if \<not> database then (sb_fail SB_ERR_VALIDATION ''Proxy self runtime database is required'', owned)
      else sb_proxy_runtime_new (Some ''self'') bridge embedded (Some self_exchange) reset fresh owned)"

end
