(* ===== verification/Proxy_Runtime_Facts.thy ===== *)
theory Proxy_Runtime_Facts
  imports Proxy_Promises Proxy_Runtime
begin

text \<open>
  The runtime of a node and the server. The checks of the runtime in closed form, an invariant of its
  pending request, and, for any way of delivering requests that meets the locale \<open>transport\<close>, the
  relation between the runtime and the session the server keeps for it. The transport of the control
  plane's own host is an interpretation.
\<close>

subsection \<open>The checks\<close>

lemma neighbours_iff: "sorted xs \<Longrightarrow> has_neighbours xs \<longleftrightarrow> \<not> distinct (xs :: string list)"
proof
  assume "sorted xs" "has_neighbours xs"
  then show "\<not> distinct xs" by (induction xs rule: has_neighbours.induct) auto
qed (use neighbours_distinct in blast)

lemma distinct_items_iff [simp]: "distinct_items xs \<longleftrightarrow> distinct xs"
  by (simp add: distinct_items_def neighbours_iff)

lemma b64_encode_length: "length (b64_encode d alpha True) = 4 * ((length d + 2) div 3)"
  by (induction d alpha True rule: b64_encode.induct) (simp_all add: b64_encode.simps Let_def, presburger)

lemma b64_encode_nul_free: "nul_free (sb_base64_encode d)"
proof -
  have "sextet v k < length B64" for v k by (simp add: sextet_def B64_def)
  then have "c \<in> set B64 \<or> c = CHR ''=''" if "c \<in> set (b64_encode d B64 True)" for c
    using that by (induction d B64 True rule: b64_encode.induct) (auto simp: b64_encode.simps Let_def)
  moreover have "CHR 0x00 \<notin> set B64" by (simp add: B64_def)
  ultimately show ?thesis by (auto simp: nul_free_def sb_base64_encode_def)
qed

text \<open>A key is accepted exactly when it is the encoding of sixteen bytes; the second encoding in the
  code is not needed.\<close>

lemma key_valid_iff: "key_valid v \<longleftrightarrow> (\<exists>raw. length raw = 16 \<and> v = Some (SBJ_STRING (sb_base64_encode raw)))"
proof
  assume "key_valid v"
  then show "\<exists>raw. length raw = 16 \<and> v = Some (SBJ_STRING (sb_base64_encode raw))"
    by (auto simp: key_valid_def base64.dec_iff split: option.splits sbj.splits if_splits)
next
  assume "\<exists>raw. length raw = 16 \<and> v = Some (SBJ_STRING (sb_base64_encode raw))"
  then obtain raw where raw: "length raw = 16" "v = Some (SBJ_STRING (sb_base64_encode raw))" by blast
  moreover have "length (sb_base64_encode raw) = 24" using raw(1) by (simp add: sb_base64_encode_def b64_encode_length)
  moreover have "cstr (sb_base64_encode raw) = sb_base64_encode raw" using b64_encode_nul_free by (rule cstr_id)
  ultimately show "key_valid v" by (simp add: key_valid_def base64.dec_enc)
qed

lemma ident_nul_free: "CHR 0x00 \<notin> set ident_chars"
  by (simp add: ident_chars_def)

lemma is_identifier_iff:
  "is_identifier v \<longleftrightarrow> (\<exists>s. v = Some (SBJ_STRING s) \<and> s \<noteq> [] \<and> length s \<le> 128 \<and> set s \<subseteq> set ident_chars)"
proof -
  have "length (takeWhile (\<lambda>c. c \<in> set ident_chars) (cstr s)) = length s \<longleftrightarrow> set s \<subseteq> set ident_chars" for s
  proof
    assume len: "length (takeWhile (\<lambda>c. c \<in> set ident_chars) (cstr s)) = length s"
    have le: "length (takeWhile p xs) \<le> length xs" for p and xs :: string by (rule length_takeWhile_le)
    have all: "takeWhile p xs = xs" if "length (takeWhile p xs) = length xs" for p and xs :: string
      using that takeWhile_dropWhile_id [of p xs] by (metis append_Nil2 append_eq_append_conv)
    have "length (cstr s) = length s"
      using len le [of "\<lambda>c. c \<in> set ident_chars" "cstr s"] le [of "\<lambda>c. c \<noteq> CHR 0x00" s] by (simp add: cstr_def)
    then have "cstr s = s" unfolding cstr_def by (rule all)
    then have "takeWhile (\<lambda>c. c \<in> set ident_chars) s = s" using len by (intro all) simp
    then show "set s \<subseteq> set ident_chars" by (metis set_takeWhileD subsetI)
  next
    assume sub: "set s \<subseteq> set ident_chars"
    then have "cstr s = s" using ident_nul_free by (intro cstr_id) (auto simp: nul_free_def)
    then show "length (takeWhile (\<lambda>c. c \<in> set ident_chars) (cstr s)) = length s"
      using sub by (simp add: takeWhile_eq_all_conv [THEN iffD2] subset_iff)
  qed
  then show ?thesis by (auto simp: is_identifier_def split: option.splits sbj.splits if_splits)
qed

lemma sorted_keys_card: "sorted_keys kvs \<Longrightarrow> length kvs = card (dom (map_of kvs))"
proof -
  assume "sorted_keys kvs"
  then have "distinct (map fst kvs)" by (simp add: sorted_keys_def strict_sorted_iff)
  then show ?thesis using distinct_card [of "map fst kvs"] by (simp add: dom_map_of_conv_image_fst)
qed

lemma wrap_uint: "2 ^ 63 \<le> u \<Longrightarrow> u < 2 ^ 64 \<Longrightarrow> wrap_i64 (int u) < 0"
proof -
  assume "2 ^ 63 \<le> u" "u < 2 ^ 64"
  then have "(int u + 2 ^ 63) mod 2 ^ 64 = int u - 2 ^ 63"
    using mod_pos_pos_trivial [of "int u - 2 ^ 63" "2 ^ 64"] mod_add_self2 [of "int u - 2 ^ 63" "2 ^ 64"] by (simp add: add.commute)
  then show ?thesis using \<open>u < 2 ^ 64\<close> by (simp add: wrap_i64_def)
qed

lemma obj_len_jset [simp]:
  assumes "sorted_obj u"
  shows "sbj_obj_len (Some (jset u k v)) = (if jget (Some u) k = None then Suc (sbj_obj_len (Some u)) else sbj_obj_len (Some u))"
proof -
  obtain kvs where u: "u = SBJ_OBJECT kvs" "sorted_keys kvs"
    using assms by (auto simp: sorted_obj_def split: sbj.splits)
  have "length (obj_setn kvs k v) = card (insert k (dom (map_of kvs)))"
    using u(2) by (simp add: sorted_keys_card obj_setn_sorted map_of_obj_setn)
  also have "\<dots> = (if map_of kvs k = None then Suc (length kvs) else length kvs)"
    using u(2) by (simp add: sorted_keys_card finite_dom_map_of card_insert_if domIff)
  finally show ?thesis
    using u by (simp add: sbj_set_def sbj_setn_def sbj_get_def sbj_getn_def or_null_def obj_getn_map_of)
qed

lemma obj_len_object [simp]: "sbj_obj_len (Some sbj_object) = 0"
  by (simp add: sbj_object_def)

lemma sorted_obj_is_object: "sorted_obj u \<Longrightarrow> sbj_is_object (Some u)"
  by (auto simp: sorted_obj_def sbj_is_object_iff split: sbj.splits)

text \<open>An object with two members that are known.\<close>

lemma two_members:
  assumes "sorted_keys kvs" "length kvs = 2" "map_of kvs a = Some x" "map_of kvs b = Some y" "a \<noteq> b"
  shows "set kvs = {(a, x), (b, y)}"
proof -
  have "{(a, x), (b, y)} \<subseteq> set kvs" using assms(3,4) by (auto dest: map_of_SomeD)
  moreover have "card (set kvs) \<le> 2" using assms(2) card_length [of kvs] by simp
  moreover have "card {(a, x), (b, y)} = 2" using assms(5) by simp
  ultimately show ?thesis by (metis card_seteq finite_set order.eq_iff)
qed

lemma report_members:
  assumes "report_valid r" "wf_json r"
  obtains kvs i n where "r = SBJ_OBJECT kvs" "set kvs = {(''lease_id'', SBJ_STRING i), (''used_bytes'', SBJ_INT n)}"
    "i \<noteq> []" "length i \<le> 128" "set i \<subseteq> set ident_chars" "0 \<le> n" "n \<le> SAFE_INTEGER"
    "jget (Some r) ''lease_id'' = Some (SBJ_STRING i)" "jget (Some r) ''used_bytes'' = Some (SBJ_INT n)"
proof -
  from assms(1) obtain kvs i where r: "r = SBJ_OBJECT kvs" "length kvs = 2"
    "jget (Some r) ''lease_id'' = Some (SBJ_STRING i)" "i \<noteq> []" "length i \<le> 128" "set i \<subseteq> set ident_chars"
    "integer (Some r) ''used_bytes'' 0 SAFE_INTEGER"
    by (auto simp: report_valid_def is_identifier_iff sbj_is_object_iff)
  have sorted: "sorted_keys kvs" using assms(2) r(1) by simp
  have get: "jget (Some r) k = map_of kvs k" for k
    using sorted by (simp add: r(1) sbj_get_def sbj_getn_def obj_getn_map_of)
  from r(7) obtain v where v: "jget (Some r) ''used_bytes'' = Some v" "sbj_is_integer (Some v)"
    "0 \<le> sbj_as_int (Some v) (- 1)" "sbj_as_int (Some v) (- 1) \<le> SAFE_INTEGER"
    by (cases "jget (Some r) ''used_bytes''") (auto simp: integer_def Let_def)
  moreover have "wf_json v" using assms(2) v(1) get by (auto simp: r(1) dest!: map_of_SomeD)
  ultimately obtain n where n: "jget (Some r) ''used_bytes'' = Some (SBJ_INT n)" "0 \<le> n" "n \<le> SAFE_INTEGER"
    using wrap_uint by (cases v) force+
  have "set kvs = {(''lease_id'', SBJ_STRING i), (''used_bytes'', SBJ_INT n)}"
    using two_members [OF sorted r(2)] r(3) n(1) get by simp
  then show ?thesis using that r n by blast
qed

subsection \<open>Requests\<close>

lemma request_json_members [simp]:
  "jget (Some (request_json boot seq v)) ''version'' = Some (SBJ_INT 1)"
  "jget (Some (request_json boot seq v)) ''boot_id'' = Some (SBJ_STRING boot)"
  "jget (Some (request_json boot seq v)) ''request_seq'' = Some (SBJ_INT seq)"
  "jget (Some (request_json boot seq v)) ''reports'' = Some v"
  "sorted_obj (request_json boot seq v)" "sbj_obj_len (Some (request_json boot seq v)) = 4"
  by (simp_all add: request_json_def Let_def jset_values del: jget_jset)

lemma reports_storable:
  assumes "reports_valid (Some v)" "wf_json v" "valid_strings v"
  shows "storable 2 v"
proof -
  obtain rs where v: "v = SBJ_ARRAY rs" using assms(1) by (cases v) (auto simp: reports_valid_def)
  have "storable (Suc 0) r" if r: "r \<in> set rs" for r
  proof -
    have "report_valid r" "wf_json r" using assms(1,2) r by (auto simp: v reports_valid_def list_all_iff)
    then obtain kvs i n where m: "r = SBJ_OBJECT kvs" "set kvs = {(''lease_id'', SBJ_STRING i), (''used_bytes'', SBJ_INT n)}"
      by (rule report_members)
    have "wf_json r" "valid_strings r" using assms(2,3) r by (simp_all add: v)
    moreover have "float_free r" "depth_le (Suc 0) r" by (simp_all add: m)
    ultimately show ?thesis by (simp add: storable_def)
  qed
  then show ?thesis unfolding v numeral_2_eq_2 by (rule storable_array)
qed

lemma request_storable:
  assumes "reports_valid (Some v)" "wf_json v" "valid_strings v" "valid_utf8 boot" "in_i64 seq"
  shows "storable SBJ_MAX_DEPTH (request_json boot seq v)"
proof -
  have "valid_utf8 ''reports''" by (rule ascii_utf8) auto
  then have "storable (Suc 2) (request_json boot seq v)"
    using reports_storable [OF assms(1-3)] assms(4,5) unfolding request_json_def Let_def
    by (intro storable_intros) (simp_all add: in_i64_def)
  then show ?thesis by (rule storable_mono) (simp add: SBJ_MAX_DEPTH_def)
qed

lemma storable_reads:
  "storable SBJ_MAX_DEPTH v \<Longrightarrow> sbj_parse_strict (Some (sbj_dump (Some v) (- 1))) = Inr v"
  "storable SBJ_MAX_DEPTH v \<Longrightarrow> sbj_parse (Some (sbj_dump (Some v) (- 1))) = Inr v"
  "storable n v \<Longrightarrow> cstr (sbj_dump (Some v) (- 1)) = sbj_dump (Some v) (- 1)"
  by (simp_all add: storable_def parse_strict_is_document sbj_parse_def parse_document_dump)
    (simp add: sbj_dump_nul_free)

text \<open>Identifiers of leases are random; those have no dot.\<close>

definition plain_ids :: "sbj \<Rightarrow> bool" where
  "plain_ids v \<longleftrightarrow> (\<forall>r\<in>set (json_items (Some v)). CHR ''.'' \<notin> set (member_text (Some r) ''lease_id''))"

lemma plain_text_ok:
  assumes "s \<noteq> []" "length s \<le> 128" "set s \<subseteq> set ident_chars - {CHR ''.''}" "valid_utf8 s"
  shows "text_ok (Some (SBJ_STRING s)) 128 True"
proof -
  have "\<forall>c\<in>set ident_chars. c \<noteq> CHR ''.'' \<longrightarrow> \<not> (byte c < 32 \<or> byte c = 127
      \<or> \<not> (islower c \<or> isupper c \<or> isdigit c \<or> c = CHR ''-'' \<or> c = CHR ''_''))"
    by (simp add: ident_chars_def ctype_defs)
  then show ?thesis
    using assms by (auto simp: text_ok_def sbj_validate_utf8_def utf8_check_iff list_all_iff)
qed

text \<open>A request the runtime builds passes the checks of the exchange.\<close>

lemma request_accepted:
  assumes "reports_valid (Some v)" "wf_json v" "valid_strings v" "plain_ids v"
    and "text_ok (Some (SBJ_STRING boot)) 128 True" "1 \<le> seq" "seq \<le> SAFE_INTEGER" "1 \<le> now" "now \<le> 4102444740"
  shows "exchange_ok (Some (request_json boot seq v)) now"
    "list_all report_ok (json_items (jget (Some (request_json boot seq v)) ''reports''))"
    "\<not> duplicate_reports (json_items (jget (Some (request_json boot seq v)) ''reports''))"
proof -
  obtain rs where v: "v = SBJ_ARRAY rs" using assms(1) by (cases v) (auto simp: reports_valid_def)
  show "exchange_ok (Some (request_json boot seq v)) now"
    using assms(1,5-) by (simp add: exchange_ok_def number_ok_def sorted_obj_is_object v reports_valid_def)
  have "report_ok r" if r: "r \<in> set rs" for r
  proof -
    have "report_valid r" "wf_json r" using assms(1,2) r by (auto simp: v reports_valid_def list_all_iff)
    then obtain kvs i n where m: "r = SBJ_OBJECT kvs"
      "set kvs = {(''lease_id'', SBJ_STRING i), (''used_bytes'', SBJ_INT n)}"
      "i \<noteq> []" "length i \<le> 128" "set i \<subseteq> set ident_chars" "0 \<le> n" "n \<le> SAFE_INTEGER"
      "jget (Some r) ''lease_id'' = Some (SBJ_STRING i)" "jget (Some r) ''used_bytes'' = Some (SBJ_INT n)"
      by (rule report_members)
    have "cstr i = i" using m(5) ident_nul_free by (intro cstr_id) (auto simp: nul_free_def)
    then have "CHR ''.'' \<notin> set i" using assms(4) r m(8) by (auto simp: plain_ids_def v sbj_get_str_def)
    moreover have "valid_strings r" using assms(3) r by (simp add: v)
    then have "valid_utf8 i" by (simp add: m(1,2))
    ultimately have "text_ok (Some (SBJ_STRING i)) 128 True" using m(3-5) by (intro plain_text_ok) auto
    then show ?thesis
      using \<open>report_valid r\<close> m(6-9) by (simp add: report_ok_def report_valid_def number_ok_def)
  qed
  then show "list_all report_ok (json_items (jget (Some (request_json boot seq v)) ''reports''))"
    by (simp add: v list_all_iff)
  show "\<not> duplicate_reports (json_items (jget (Some (request_json boot seq v)) ''reports''))"
    using assms(1) by (simp add: duplicate_reports_def v reports_valid_def neighbours_iff)
qed

subsection \<open>A step\<close>

text \<open>What the runtime is about to send: the pending request is built from its boot, its sequence and
  the counters that are acknowledged later.\<close>

definition built_from :: "('b, 'x) sb_proxy_runtime \<Rightarrow> sbj \<Rightarrow> bool" where
  "built_from rt v \<longleftrightarrow> reports_valid (Some v) \<and> wf_json v \<and> valid_strings v
     \<and> rt_reports rt = Some (sbj_dump (Some v) (- 1))
     \<and> rt_pending rt = Some (sbj_dump (Some (request_json (rt_boot rt) (rt_sequence rt) v)) (- 1))"

definition rt_ok :: "('b, 'x) sb_proxy_runtime \<Rightarrow> bool" where
  "rt_ok rt \<longleftrightarrow> 1 \<le> rt_sequence rt
     \<and> (if rt_pending rt = None then rt_reports rt = None \<and> \<not> rt_begun rt
        else rt_sequence rt \<le> SAFE_INTEGER \<and> (\<exists>v. built_from rt v))"

definition held :: "('b, 'x) sb_proxy_runtime \<Rightarrow> string \<times> int \<times> string option \<times> string option" where
  "held rt = (rt_boot rt, rt_sequence rt, rt_pending rt, rt_reports rt)"

lemma held_simps [simp]:
  "held (rt\<lparr>rt_bridge := b\<rparr>) = held rt" "held (rt\<lparr>rt_context := x\<rparr>) = held rt" "held (rt\<lparr>rt_host := h\<rparr>) = held rt"
  "held (rt\<lparr>rt_began_ms := n\<rparr>) = held rt" "held (rt\<lparr>rt_begun := g\<rparr>) = held rt"
  "held (rt\<lparr>rt_boottime_calls := k\<rparr>) = held rt" "held (rt\<lparr>rt_stopping := s\<rparr>) = held rt"
  "held (rt\<lparr>rt_signals := ss\<rparr>) = held rt" "held (rt\<lparr>rt_issue := i\<rparr>) = held rt"
  "held (rt\<lparr>rt_last_accepted_at := l\<rparr>) = held rt" "held (rt\<lparr>rt_unix_calls := c\<rparr>) = held rt"
  by (simp_all add: held_def)

lemma held_parts [simp]:
  "held (outcome issue accepted rt) = held rt" "held (engine_stop bridge rt) = held rt"
  "held (snd (stopping rt)) = held rt" "held (snd (request_time_ms rt)) = held rt"
  "rt_begun (outcome issue accepted rt) = rt_begun rt" "rt_begun (engine_stop bridge rt) = rt_begun rt"
  "rt_begun (snd (stopping rt)) = rt_begun rt" "rt_begun (snd (request_time_ms rt)) = rt_begun rt"
  "rt_context (outcome issue accepted rt) = rt_context rt" "rt_context (engine_stop bridge rt) = rt_context rt"
  "rt_context (snd (stopping rt)) = rt_context rt" "rt_context (snd (request_time_ms rt)) = rt_context rt"
  "rt_host (outcome issue accepted rt) = rt_host rt" "rt_host (engine_stop bridge rt) = rt_host rt"
  "rt_host (snd (stopping rt)) = rt_host rt" "rt_host (snd (request_time_ms rt)) = rt_host rt"
  "rt_bridge (outcome issue accepted rt) = rt_bridge rt"
  "rt_bridge (snd (stopping rt)) = rt_bridge rt" "rt_bridge (snd (request_time_ms rt)) = rt_bridge rt"
  by (simp_all add: outcome_def engine_stop_def stopping_def request_time_ms_def Let_def split: list.split option.split)

lemma built_from_held: "held rt' = held rt \<Longrightarrow> built_from rt' v = built_from rt v"
  by (simp add: held_def built_from_def)

lemma rt_ok_held: "held rt' = held rt \<Longrightarrow> rt_begun rt' = rt_begun rt \<or> rt_pending rt \<noteq> None \<Longrightarrow> rt_ok rt' = rt_ok rt"
  using built_from_held [of rt' rt] by (auto simp: rt_ok_def held_def)

lemma pending_request_cases:
  assumes "pending_request bridge rt = (r, rt1)" "rt_ok rt"
  obtains (failed) e where "r = Inl e" "rt_pending rt = None" "held rt1 = held rt" "rt_begun rt1 = rt_begun rt"
      "rt_context rt1 = rt_context rt" "rt_host rt1 = rt_host rt"
  | (ready) v where "r = Inr ()" "built_from rt1 v" "rt_ok rt1" "rt_boot rt1 = rt_boot rt" "rt_sequence rt1 = rt_sequence rt"
      "rt_pending rt \<noteq> None \<longrightarrow> held rt1 = held rt" "rt_context rt1 = rt_context rt" "rt_host rt1 = rt_host rt"
proof (cases "rt_pending rt")
  case (Some p)
  then have "r = Inr ()" "rt1 = rt" using assms(1) by (simp_all add: pending_request_def)
  moreover obtain v where "built_from rt v" using assms(2) Some by (auto simp: rt_ok_def)
  ultimately show ?thesis using assms(2) by (intro ready) auto
next
  case None
  obtain rc raw b where stats: "br_stats bridge (rt_bridge rt) = (rc, raw, b)" using prod_cases3 by blast
  show ?thesis
  proof (cases r)
    case (Inl e)
    have "held rt1 = held rt" "rt_begun rt1 = rt_begun rt" "rt_context rt1 = rt_context rt" "rt_host rt1 = rt_host rt"
      using assms(1) None Inl
      by (auto simp: pending_request_def stats Let_def split: if_splits option.splits sum.splits)
    then show ?thesis using None Inl by (intro failed)
  next
    case (Inr u)
    then obtain body v where v: "sbj_parse_strict (Some body) = Inr v" "reports_valid (Some v)" "rt_sequence rt \<le> SAFE_INTEGER"
      "rt1 = rt\<lparr>rt_bridge := b, rt_reports := Some (sbj_dump (Some v) (- 1)),
         rt_pending := Some (sbj_dump (Some (request_json (rt_boot rt) (rt_sequence rt) v)) (- 1))\<rparr>"
      using assms(1) None
      by (auto simp: pending_request_def stats Let_def split: if_splits option.splits sum.splits)
    have "wf_json v" "valid_strings v" using v(1) parse_document_sound by (auto simp: parse_strict_is_document)
    then have "built_from rt1 v" using v(2) by (simp add: built_from_def v(4))
    moreover from this have "rt_ok rt1" using assms(2) v(3,4) by (auto simp: rt_ok_def)
    ultimately show ?thesis using Inr None v(4) by (intro ready) auto
  qed
qed

lemma step_begin_Inr:
  assumes "step_begin bridge request rt = Inr rt1"
  shows "held rt1 = held rt \<and> rt_context rt1 = rt_context rt \<and> rt_host rt1 = rt_host rt"
proof -
  obtain now rt2 where "request_time_ms rt = (now, rt2)" by force
  moreover from this have "held rt2 = held rt" "rt_context rt2 = rt_context rt" "rt_host rt2 = rt_host rt"
    using held_parts(4,12,16) [of rt] by simp_all
  ultimately show ?thesis
    using assms by (auto simp: step_begin_def Let_def split: if_splits prod.splits)
qed

lemma step_begin_Inl:
  assumes "step_begin bridge request rt = Inl ((rc, err), rt1)"
  shows "rc = - 1 \<and> held rt1 = held rt \<and> rt_context rt1 = rt_context rt"
proof -
  obtain now rt2 where "request_time_ms rt = (now, rt2)" by force
  moreover from this have "held rt2 = held rt" "rt_context rt2 = rt_context rt"
    using held_parts(4,12) [of rt] by simp_all
  ultimately show ?thesis
    using assms by (auto simp: step_begin_def refuse_def Let_def split: if_splits prod.splits)
qed

lemma step_accept_cases:
  assumes "step_accept bridge raw policy rt = ((rc, err), rt1)"
  obtains (clock) "rc = - 1" "held rt1 = held rt" "rt_begun rt1 = rt_begun rt" "rt_context rt1 = rt_context rt"
  | (consumed) "rt_boot rt1 = rt_boot rt" "rt_sequence rt1 = rt_sequence rt + 1" "rt_pending rt1 = None"
      "rt_reports rt1 = None" "\<not> rt_begun rt1" "rt_context rt1 = rt_context rt"
      "rt_bridge rt1 = snd (br_acknowledge bridge (snd (br_apply bridge (rt_bridge rt) raw))
         (case rt_reports rt of None \<Rightarrow> [] | Some r \<Rightarrow> r))"
proof -
  define rt2 where "rt2 = (if rt_host rt = [] then rt\<lparr>rt_host := member_text policy ''host_id''\<rparr> else rt)"
  obtain now rt3 where now: "request_time_ms rt2 = (now, rt3)" by force
  have "held rt3 = held rt2" "rt_begun rt3 = rt_begun rt2" "rt_context rt3 = rt_context rt2" "rt_bridge rt3 = rt_bridge rt2"
    using held_parts(4,8,12) [of rt2] held_parts(19) [of rt2] now by simp_all
  then have rt3: "held rt3 = held rt" "rt_begun rt3 = rt_begun rt" "rt_context rt3 = rt_context rt" "rt_bridge rt3 = rt_bridge rt"
    by (simp_all add: rt2_def)
  show ?thesis
  proof (cases "now < rt_began_ms rt3")
    case True
    then show ?thesis
      using assms rt3 unfolding step_accept_def rt2_def [symmetric] now Let_def by (intro clock) (auto simp: refuse_def)
  next
    case False
    obtain applied b where b: "br_apply bridge (rt_bridge rt) raw = (applied, b)" by force
    obtain acked b' where b': "br_acknowledge bridge b (case rt_reports rt of None \<Rightarrow> [] | Some r \<Rightarrow> r) = (acked, b')" by force
    let ?rt = "rt3\<lparr>rt_bridge := b', rt_sequence := rt_sequence rt3 + 1, rt_begun := False, rt_began_ms := 0,
      rt_pending := None, rt_reports := None\<rparr>"
    have same: "rt_reports rt3 = rt_reports rt" "rt_boot rt3 = rt_boot rt" "rt_sequence rt3 = rt_sequence rt"
      using rt3(1) by (simp_all add: held_def)
    have "\<exists>issue. rt1 = outcome issue True ?rt"
      using assms False unfolding step_accept_def rt2_def [symmetric] now Let_def
      by (auto simp: rt3(4) same(1) b b' split: if_splits)
    then obtain issue where rt1: "rt1 = outcome issue True ?rt" by blast
    have "held rt1 = held ?rt" unfolding rt1 by (rule held_parts(1))
    then show ?thesis
      using same rt3 by (intro consumed) (simp_all add: held_def rt1 b b')
  qed
qed

text \<open>The answer of the transport, as the runtime reads it.\<close>

definition answer_of :: "string option \<Rightarrow> sbj option" where
  "answer_of raw =
     (case raw of
        None \<Rightarrow> None
      | Some body \<Rightarrow>
          if length body \<le> SB_PROXY_POLICY_LIMIT
          then (case sbj_parse_strict (Some body) of Inl _ \<Rightarrow> None | Inr v \<Rightarrow> Some v) else None)"

lemma step_send_cases:
  assumes "step_send bridge exchange request rt = ((rc, err), rt1)"
  obtains (kept) "rc = - 1" "held rt1 = held rt" "rt_begun rt1 = rt_begun rt"
      "rt_context rt1 = snd (snd (exchange (rt_context rt) request))"
  | (consumed) raw policy b where "exchange (rt_context rt) request = (0, Some raw, rt_context rt1)"
      "sbj_parse_strict (Some raw) = Inr policy"
      "policy_valid (rt_host rt) (rt_boot rt) (rt_sequence rt) (Some policy)"
      "rt_boot rt1 = rt_boot rt" "rt_sequence rt1 = rt_sequence rt + 1" "rt_pending rt1 = None"
      "rt_reports rt1 = None" "\<not> rt_begun rt1"
      "rt_bridge rt1 = snd (br_acknowledge bridge (snd (br_apply bridge b raw))
         (case rt_reports rt of None \<Rightarrow> [] | Some r \<Rightarrow> r))"
proof -
  obtain code raw x where ex: "exchange (rt_context rt) request = (code, raw, x)" using prod_cases3 by blast
  obtain stop rt2 where stop: "stopping (rt\<lparr>rt_context := x\<rparr>) = (stop, rt2)" by force
  have rt2: "held rt2 = held rt" "rt_begun rt2 = rt_begun rt" "rt_context rt2 = x" "rt_host rt2 = rt_host rt"
    using held_parts(3,7,11,15) [of "rt\<lparr>rt_context := x\<rparr>"] stop by simp_all
  have unf: "step_send bridge exchange request rt =
     (if code \<noteq> 0 then refuse ''Proxy lease exchange failed'' ''exchange_failed'' (rt\<lparr>rt_context := x\<rparr>)
      else if stop then ((- 1, Some (failure ''Proxy runtime is stopping'')), rt2)
      else if \<not> policy_valid (rt_host rt2) (rt_boot rt2) (rt_sequence rt2) (answer_of raw)
      then refuse ''Proxy lease response was rejected'' ''response_rejected'' (engine_stop bridge rt2)
      else step_accept bridge (case raw of None \<Rightarrow> [] | Some body \<Rightarrow> body) (answer_of raw) rt2)"
    by (simp add: step_send_def ex stop Let_def answer_of_def)
  consider (no) "rc = - 1" "held rt1 = held rt" "rt_begun rt1 = rt_begun rt" "rt_context rt1 = x"
    | (yes) "code = 0" "policy_valid (rt_host rt2) (rt_boot rt2) (rt_sequence rt2) (answer_of raw)"
      "step_accept bridge (case raw of None \<Rightarrow> [] | Some body \<Rightarrow> body) (answer_of raw) rt2 = ((rc, err), rt1)"
    using assms rt2 unfolding unf by (auto simp: refuse_def split: if_splits)
  then show ?thesis
  proof cases
    case no
    then show ?thesis by (intro kept) (simp_all add: ex)
  next
    case yes
    from yes(2) obtain policy where policy: "answer_of raw = Some policy"
      by (cases "answer_of raw") (auto simp: policy_valid_def Let_def)
    then obtain body where body: "raw = Some body" "sbj_parse_strict (Some body) = Inr policy"
      by (auto simp: answer_of_def split: option.splits if_splits sum.splits)
    from yes(3) show ?thesis
    proof (cases rule: step_accept_cases)
      case clock
      then show ?thesis using rt2 by (intro kept) (simp_all add: ex)
    next
      case c: consumed
      have "rt_boot rt2 = rt_boot rt" "rt_sequence rt2 = rt_sequence rt" "rt_reports rt2 = rt_reports rt"
        using rt2(1) by (simp_all add: held_def)
      then show ?thesis
        using c yes(1,2) policy body rt2(3,4) by (intro consumed [where b = "rt_bridge rt2"]) (simp_all add: ex)
    qed
  qed
qed

text \<open>A request that is ready is kept until an answer to it is accepted.\<close>

lemma step_try_cases:
  assumes "(case step_begin bridge request rt of Inl r \<Rightarrow> r | Inr rt \<Rightarrow> step_send bridge exchange request rt) = ((rc, err), rt')"
    and "built_from rt v" "rt_ok rt" "rt_pending rt = Some request"
  obtains (idle) "rc = - 1" "rt_ok rt'" "held rt' = held rt" "rt_context rt' = rt_context rt"
  | (kept) "rc = - 1" "rt_ok rt'" "held rt' = held rt" "rt_context rt' = snd (snd (exchange (rt_context rt) request))"
  | (consumed) raw policy b where "rt_ok rt'" "rt_boot rt' = rt_boot rt" "rt_sequence rt' = rt_sequence rt + 1"
      "exchange (rt_context rt) request = (0, Some raw, rt_context rt')" "sbj_parse_strict (Some raw) = Inr policy"
      "policy_valid (rt_host rt) (rt_boot rt) (rt_sequence rt) (Some policy)"
      "rt_bridge rt' = snd (br_acknowledge bridge (snd (br_apply bridge b raw)) (sbj_dump (Some v) (- 1)))"
proof (cases "step_begin bridge request rt")
  case (Inl res)
  then have "step_begin bridge request rt = Inl ((rc, err), rt')" using assms(1) by simp
  from step_begin_Inl [OF this] show ?thesis
    using assms(3,4) rt_ok_held [of rt' rt] by (intro idle) auto
next
  case (Inr rt1)
  with step_begin_Inr [OF Inr] have rt1: "held rt1 = held rt" "rt_context rt1 = rt_context rt" "rt_host rt1 = rt_host rt"
    by simp_all
  have parts: "rt_boot rt1 = rt_boot rt" "rt_sequence rt1 = rt_sequence rt" "rt_reports rt1 = Some (sbj_dump (Some v) (- 1))"
    using rt1(1) assms(2) by (simp_all add: held_def built_from_def)
  have "step_send bridge exchange request rt1 = ((rc, err), rt')" using assms(1) Inr by simp
  then show ?thesis
  proof (cases rule: step_send_cases)
    case k: kept
    then show ?thesis using rt1 assms(3,4) rt_ok_held [of rt' rt] by (intro kept) auto
  next
    case c: (consumed raw policy b)
    have "rt_ok rt'" using c(5-8) assms(3) parts by (simp add: rt_ok_def)
    then show ?thesis using c parts rt1 by (intro consumed [where b = b]) simp_all
  qed
qed

lemma runtime_step_cases:
  fixes rt :: "('b, 'x) sb_proxy_runtime"
  assumes "sb_proxy_runtime_step bridge exchange rt = ((rc, err), rt')" "rt_ok rt"
  obtains (idle) "rc = - 1" "rt_ok rt'" "rt_boot rt' = rt_boot rt" "rt_sequence rt' = rt_sequence rt"
      "rt_pending rt \<noteq> None \<longrightarrow> held rt' = held rt" "rt_context rt' = rt_context rt"
  | (kept) v request where "rc = - 1" "rt_ok rt'" "rt_boot rt' = rt_boot rt" "rt_sequence rt' = rt_sequence rt"
      "rt_pending rt \<noteq> None \<longrightarrow> held rt' = held rt" "built_from rt' v" "rt_pending rt' = Some request"
      "rt_context rt' = snd (snd (exchange (rt_context rt) request))"
  | (consumed) rt1 :: "('b, 'x) sb_proxy_runtime" and v request raw policy b where "rt_ok rt'" "rt_boot rt' = rt_boot rt" "rt_sequence rt' = rt_sequence rt + 1"
      "built_from rt1 v" "rt_ok rt1" "rt_pending rt1 = Some request" "rt_boot rt1 = rt_boot rt" "rt_sequence rt1 = rt_sequence rt"
      "rt_pending rt \<noteq> None \<longrightarrow> held rt1 = held rt"
      "exchange (rt_context rt) request = (0, Some raw, rt_context rt')" "sbj_parse_strict (Some raw) = Inr policy"
      "policy_valid (rt_host rt) (rt_boot rt) (rt_sequence rt) (Some policy)"
      "rt_bridge rt' = snd (br_acknowledge bridge (snd (br_apply bridge b raw)) (sbj_dump (Some v) (- 1)))"
proof -
  obtain stop rt1 where stop: "stopping rt = (stop, rt1)" by force
  have rt1: "held rt1 = held rt" "rt_begun rt1 = rt_begun rt" "rt_context rt1 = rt_context rt" "rt_host rt1 = rt_host rt"
    using held_parts(3,7,11,15) [of rt] stop by simp_all
  have ok1: "rt_ok rt1" using assms(2) rt1 rt_ok_held by blast
  consider (busy) "rt_operation rt \<or> stop" | (go) "\<not> rt_operation rt" "\<not> stop" by blast
  then show ?thesis
  proof cases
    case busy
    then show ?thesis
      using assms rt1 ok1
      by (intro idle) (auto simp: sb_proxy_runtime_step_def stop held_def split: if_splits)
  next
    case go
    obtain r rt2 where p: "pending_request bridge rt1 = (r, rt2)" by force
    from p ok1 show ?thesis
    proof (cases rule: pending_request_cases)
      case (failed e)
      then have rt': "rc = - 1" "rt' = outcome ''counters_failed'' False rt2"
        using assms(1) go by (simp_all add: sb_proxy_runtime_step_def stop p)
      have "held rt' = held rt" unfolding rt'(2) using failed(3) rt1(1) by simp
      moreover from this have "rt_ok rt'" using assms(2) rt1(2) failed(4) rt_ok_held [of rt' rt] by (simp add: rt'(2))
      ultimately show ?thesis using rt' failed(5) rt1(3) by (intro idle) (simp_all add: held_def)
    next
      case (ready v)
      obtain request where pending: "rt_pending rt2 = Some request" using ready(2) by (auto simp: built_from_def)
      have "(case step_begin bridge request rt2 of Inl r \<Rightarrow> r
          | Inr rt \<Rightarrow> step_send bridge exchange request rt) = ((rc, err), rt')"
        using assms(1) go ready(1) by (simp add: sb_proxy_runtime_step_def stop p pending Let_def cong: sum.case_cong)
      then show ?thesis
        using ready(2,3) pending
      proof (cases rule: step_try_cases)
        case i: idle
        then show ?thesis using ready rt1 by (intro idle) (auto simp: held_def)
      next
        case k: kept
        then show ?thesis
          using ready rt1 pending built_from_held [OF k(3)]
          by (intro kept [where v = v and request = request]) (auto simp: held_def)
      next
        case c: (consumed raw policy b)
        then show ?thesis
          using ready rt1 pending
          by (intro consumed [of rt2 v request raw policy b])
            (auto simp: held_def)
      qed
    qed
  qed
qed

subsection \<open>Runtime and server stay in step\<close>

text \<open>The digest of a database never changes.\<close>

definition same_sha :: "sb_database \<Rightarrow> sb_database \<Rightarrow> bool" where
  "same_sha s s' \<longleftrightarrow> sha256 s' = sha256 s"

interpretation hashing: db_beside same_sha
  by unfold_locales (simp_all add: same_sha_def)

abbreviation keeps_sha :: "(sb_database, 'a) dbm \<Rightarrow> bool" where
  "keeps_sha \<equiv> db_relation.within same_sha"

lemmas sha_rules = hashing.rules hashing.statement hashing.transaction

lemma sha_library: "keeps_sha sb_uuid_v4" "keeps_sha (sb_proxy_clock_wait_ms user epoch)"
  by (auto intro!: hashing.withinI simp: same_sha_def sb_uuid_v4_def sb_proxy_clock_wait_ms_def split_beta split: option.split)

lemma sha_exchange: "keeps_sha (sb_proxy_lease_exchange host request now)"
proof -
  have "keeps_sha (exchange_body host boot seq hash reports now)" for boot seq hash reports
    unfolding exchange_body_def exchange_fresh_def exchange_grants_def lease_user_def lease_locked_def
      lease_write_def report_locked_def host_check_def runtime_ready_def node_locked_def devices_locked_def
    by (intro sha_rules sha_library)
  then have "keeps_sha (transaction (exchange_body host boot seq hash reports now))" for boot seq hash reports
    by (rule hashing.transaction)
  then show ?thesis
    by (auto simp: hashing.within_def same_sha_def sb_proxy_lease_exchange_def Let_def dfail_def)
qed

lemma sha_report: "keeps_sha (sb_proxy_runtime_report host capabilities now)"
  unfolding sb_proxy_runtime_report_def by (intro sha_rules)

definition session :: "string \<Rightarrow> string \<Rightarrow> proxy_db \<Rightarrow> session_row option" where
  "session host boot t = find (\<lambda>e. se_host e = host \<and> se_boot e = boot) (t_sessions t)"

text \<open>The server is at the previous sequence of the runtime, or it has answered the very request that
  is still pending.\<close>

definition in_step :: "string \<Rightarrow> ('b, 'x) sb_proxy_runtime \<Rightarrow> sb_database \<Rightarrow> bool" where
  "in_step host rt s \<longleftrightarrow>
     (case session host (rt_boot rt) (tables s) of
        None \<Rightarrow> rt_sequence rt = 1
      | Some e \<Rightarrow> se_request_seq e = rt_sequence rt - 1
          \<or> se_request_seq e = rt_sequence rt \<and> (\<exists>p. rt_pending rt = Some p \<and> se_request_hash e = sb_sha256_hex p s))"

text \<open>What others do to the database in between leaves the session alone.\<close>

definition meanwhile :: "string \<Rightarrow> string \<Rightarrow> sb_database \<Rightarrow> sb_database \<Rightarrow> bool" where
  "meanwhile host boot s s' \<longleftrightarrow> reachable (tables s') \<and> saved s' = None
     \<and> session host boot (tables s') = session host boot (tables s) \<and> sha256 s' = sha256 s"

lemma in_step_meanwhile: "in_step host rt s \<Longrightarrow> meanwhile host (rt_boot rt) s s' \<Longrightarrow> in_step host rt s'"
  by (auto simp: in_step_def meanwhile_def sb_sha256_hex_def split: option.splits)

lemma in_step_held:
  "in_step host rt s \<Longrightarrow> rt_boot rt' = rt_boot rt \<Longrightarrow> rt_sequence rt' = rt_sequence rt \<Longrightarrow>
     (rt_pending rt \<noteq> None \<longrightarrow> held rt' = held rt) \<Longrightarrow> in_step host rt' s"
  by (auto simp: in_step_def held_def split: option.splits)

text \<open>An exchange that answers leaves the session at the request.\<close>

lemma session_upsert_session:
  assumes "session_upsert e t = Inr (t', n)"
  shows "\<exists>f. session (se_host e) (se_boot e) t' = Some f \<and> se_request_seq f = se_request_seq e
    \<and> se_request_hash f = se_request_hash e"
  using session_upsert_find [OF assms] by (auto simp: session_def)

lemma exchange_session:
  assumes "sb_proxy_lease_exchange host request now s = (r, s')" "reachable (tables s)" "saved s = None"
  shows "saved s' = None" "sha256 s' = sha256 s" "reachable (tables s')"
    "case r of Inl e \<Rightarrow> tables s' = tables s
     | Inr out \<Rightarrow> (\<exists>e. session host (member_text request ''boot_id'') (tables s') = Some e
         \<and> se_request_seq e = body_int request ''request_seq'' 0
         \<and> se_request_hash e = sb_sha256_hex (sbj_dump request (- 1)) s)"
proof -
  show "sha256 s' = sha256 s" using hashing.withinD [OF sha_exchange assms(1)] by (simp add: same_sha_def)
  show "reachable (tables s')"
    using reachable.step [OF assms(2,3), of "Lease_Exchange host request" now r s'] assms(1) by simp
  from assms(1) reachable_ok [OF assms(2)] assms(3)
  have "saved s' = None \<and> (case r of Inl e \<Rightarrow> tables s' = tables s
     | Inr out \<Rightarrow> (\<exists>e. session host (member_text request ''boot_id'') (tables s') = Some e
         \<and> se_request_seq e = body_int request ''request_seq'' 0
         \<and> se_request_hash e = sb_sha256_hex (sbj_dump request (- 1)) s))"
  proof (cases rule: exchange_cases)
    case (answered out)
    then show ?thesis
      by (auto simp: exchange_effect_def Let_def session_def dest!: session_upsert_find)
  qed simp
  then show "saved s' = None" "case r of Inl e \<Rightarrow> tables s' = tables s
     | Inr out \<Rightarrow> (\<exists>e. session host (member_text request ''boot_id'') (tables s') = Some e
         \<and> se_request_seq e = body_int request ''request_seq'' 0
         \<and> se_request_hash e = sb_sha256_hex (sbj_dump request (- 1)) s)" by simp_all
qed

text \<open>How requests reach the database: what is sent may get lost, or be exchanged after others had their
  turn, and then the answer may get lost; an answer that arrives is the one that was given.\<close>

locale transport =
  fixes exchange :: "'x sb_proxy_exchange_fn" and database :: "'x \<Rightarrow> sb_database" and host :: string
  assumes delivery: "exchange x request = (rc, raw, x') \<Longrightarrow> sbj_parse_strict (Some request) = Inr body \<Longrightarrow>
      reachable (tables (database x)) \<Longrightarrow> saved (database x) = None \<Longrightarrow>
      meanwhile host (member_text (Some body) ''boot_id'') (database x) (database x') \<and> rc \<noteq> 0
      \<or> (\<exists>s now r. meanwhile host (member_text (Some body) ''boot_id'') (database x) s
          \<and> sb_proxy_lease_exchange host (Some body) now s = (r, database x')
          \<and> (rc = 0 \<longrightarrow> (\<exists>out. r = Inr out \<and> raw = Some (cstr (sbj_dump (Some out) (- 1))))))"
begin

lemma exchange_in_step:
  assumes ex: "exchange x request = (rc, raw, x')" and rt: "built_from rt v" "rt_ok rt" "rt_pending rt = Some request"
    and boot: "text_ok (Some (SBJ_STRING (rt_boot rt))) 128 True"
    and db: "reachable (tables (database x))" "saved (database x) = None" "in_step host rt (database x)"
  shows "reachable (tables (database x')) \<and> saved (database x') = None \<and> in_step host rt (database x')
    \<and> (rc = 0 \<longrightarrow> (\<exists>e. session host (rt_boot rt) (tables (database x')) = Some e \<and> se_request_seq e = rt_sequence rt))"
proof -
  let ?body = "request_json (rt_boot rt) (rt_sequence rt) v"
  have utf: "valid_utf8 (rt_boot rt)" "nul_free (rt_boot rt)"
    using boot by (auto simp: text_ok_def sbj_validate_utf8_def utf8_check_iff nul_free_def list_all_iff split: if_splits)
  have "in_i64 (rt_sequence rt)" using rt(2,3) by (simp add: rt_ok_def in_i64_def SAFE_INTEGER_def)
  then have store: "storable SBJ_MAX_DEPTH ?body"
    using rt(1) utf(1) by (intro request_storable) (simp_all add: built_from_def)
  have request: "request = sbj_dump (Some ?body) (- 1)" using rt(1,3) by (simp add: built_from_def)
  have parse: "sbj_parse_strict (Some request) = Inr ?body" unfolding request by (rule storable_reads(1) [OF store])
  have members: "member_text (Some ?body) ''boot_id'' = rt_boot rt" "body_int (Some ?body) ''request_seq'' 0 = rt_sequence rt"
    using utf(2) by (simp_all add: sbj_get_str_def sbj_get_int_def cstr_id)
  from delivery [OF ex parse db(1,2), unfolded members] show ?thesis
  proof (elim disjE exE conjE)
    assume "meanwhile host (rt_boot rt) (database x) (database x')" "rc \<noteq> 0"
    then show ?thesis using in_step_meanwhile [OF db(3)] by (simp add: meanwhile_def)
  next
    fix s now r assume between: "meanwhile host (rt_boot rt) (database x) s"
      and run: "sb_proxy_lease_exchange host (Some ?body) now s = (r, database x')"
      and rc: "rc = 0 \<longrightarrow> (\<exists>out. r = Inr out \<and> raw = Some (cstr (sbj_dump (Some out) (- 1))))"
    have s: "reachable (tables s)" "saved s = None" using between by (simp_all add: meanwhile_def)
    note ses = exchange_session [OF run s]
    show ?thesis
    proof (cases r)
      case (Inl e)
      then have "in_step host rt (database x')"
        using in_step_meanwhile [OF db(3) between] ses(2,4)
        by (auto simp: in_step_def sb_sha256_hex_def split: option.splits)
      then show ?thesis using ses(1,3) rc Inl by simp
    next
      case (Inr out)
      then show ?thesis
        using ses rt(3) by (auto simp: members in_step_def request sb_sha256_hex_def)
    qed
  qed
qed

lemma step_in_step:
  assumes run: "sb_proxy_runtime_step bridge exchange rt = ((rc, err), rt')" and rt: "rt_ok rt"
    and boot: "text_ok (Some (SBJ_STRING (rt_boot rt))) 128 True"
    and db: "reachable (tables (database (rt_context rt)))" "saved (database (rt_context rt)) = None"
      "in_step host rt (database (rt_context rt))"
  shows "rt_ok rt' \<and> rt_boot rt' = rt_boot rt \<and> reachable (tables (database (rt_context rt')))
    \<and> saved (database (rt_context rt')) = None \<and> in_step host rt' (database (rt_context rt'))"
  using run rt
proof (cases rule: runtime_step_cases)
  case idle
  then show ?thesis using db in_step_held [OF db(3), of rt'] by simp
next
  case (kept v request)
  obtain rc' raw x' where ex: "exchange (rt_context rt) request = (rc', raw, x')" using prod_cases3 by blast
  have "in_step host rt' (database (rt_context rt))" by (rule in_step_held [OF db(3) kept(3-5)])
  from exchange_in_step [OF ex kept(6,2,7) _ db(1,2) this] show ?thesis using kept(2,3,8) boot ex by simp
next
  case (consumed rt1 v request raw policy b)
  have "in_step host rt1 (database (rt_context rt))" by (rule in_step_held [OF db(3) consumed(7-9)])
  from exchange_in_step [OF consumed(10,4-6) _ db(1,2) this] show ?thesis
    using consumed(1-3,7,8) boot by (auto simp: in_step_def)
qed

end

interpretation self: transport self_exchange sc_database "''self''"
proof
  fix x request rc raw x' body
  assume run: "self_exchange x request = (rc, raw, x')" and parse: "sbj_parse_strict (Some request) = Inr body"
    and db: "reachable (tables (sc_database x))" "saved (sc_database x) = None"
  let ?boot = "member_text (Some body) ''boot_id''"
  let ?now = "sc_unix x (sc_unix_calls x)"
  let ?c = "Some (sbj_arr_push sbj_array (Some (sbj_str (Some ''proxy_users_v1''))))"
  obtain r s where report: "sb_proxy_runtime_report ''self'' ?c ?now (sc_database x) = (r, s)" by force
  have s: "meanwhile ''self'' ?boot (sc_database x) s"
  proof -
    have op: "run_op (Runtime_Report ''self'' ?c) ?now (sc_database x) = (map_sum id (\<lambda>_. sbj_null) r, s)"
      by (cases r) (simp_all add: then_null_def dbind_def dret_def report)
    have "reachable (tables s)" using reachable.step [OF db _ op] by simp
    moreover have "keeps_promise (sc_database x) (map_sum id (\<lambda>_. sbj_null) r, s) (op_writes (Runtime_Report ''self'' ?c) ?now (sc_database x))"
      using op_refines [OF reachable_ok [OF db(1)] db(2), of "Runtime_Report ''self'' ?c" ?now] op by simp
    moreover have "sha256 s = sha256 (sc_database x)"
      using hashing.withinD [OF sha_report report] by (simp add: same_sha_def)
    ultimately show ?thesis
      by (cases r) (auto simp: meanwhile_def keeps_promise_def report_upsert_def session_def Let_def split: if_splits
          dest!: sym [of _ "tables s"])
  qed
  show "meanwhile ''self'' ?boot (sc_database x) (sc_database x') \<and> rc \<noteq> 0
      \<or> (\<exists>s now r. meanwhile ''self'' ?boot (sc_database x) s
          \<and> sb_proxy_lease_exchange ''self'' (Some body) now s = (r, sc_database x')
          \<and> (rc = 0 \<longrightarrow> (\<exists>out. r = Inr out \<and> raw = Some (cstr (sbj_dump (Some out) (- 1))))))"
  proof (cases r)
    case (Inl e)
    then show ?thesis
      using run s by (auto simp: self_exchange_def self_now_def report Let_def)
  next
    case (Inr u)
    obtain q s' where ex: "sb_proxy_lease_exchange ''self'' (Some body) (sc_unix x (sc_unix_calls x + 1)) s = (q, s')" by force
    then have "sc_database x' = s' \<and> (rc = 0 \<longrightarrow> (\<exists>out. q = Inr out \<and> raw = Some (cstr (sbj_dump (Some out) (- 1)))))"
      using run Inr parse
      by (auto simp: self_exchange_def self_now_def report Let_def split: sum.splits)
    then show ?thesis using s ex by blast
  qed
qed

text \<open>The error of an exchange that is out of sequence.\<close>

abbreviation sequence_error :: "sbj res" where
  "sequence_error \<equiv> sb_fail SB_ERR_CONFLICT
     ''Proxy lease sequence changed; retry the same request or use the next sequence''"

definition refused :: "sb_err \<Rightarrow> bool" where
  "refused e \<longleftrightarrow> Inl e = sequence_error"

definition never_refuses :: "(sb_database, 'a) dbm \<Rightarrow> bool" where
  "never_refuses m \<longleftrightarrow> (\<forall>s e s'. m s = (Inl e, s') \<longrightarrow> \<not> refused e)"

named_theorems refusal_intros

lemma never_refuses_basic [refusal_intros]: "never_refuses (dret x)" "never_refuses dsilent"
  by (simp_all add: never_refuses_def refused_def dret_def dsilent_def sb_fail_def)

lemma never_refuses_dfail [refusal_intros]:
  "take 1023 m \<noteq> ''Proxy lease sequence changed; retry the same request or use the next sequence'' \<Longrightarrow>
     never_refuses (dfail c m)"
  by (simp add: never_refuses_def refused_def dfail_def sb_fail_def)

lemma never_refuses_dbind [refusal_intros]:
  "never_refuses m \<Longrightarrow> (\<And>x. never_refuses (f x)) \<Longrightarrow> never_refuses (dbind m f)"
  by (fastforce simp: never_refuses_def dbind_def split: prod.splits sum.splits)

lemma never_refuses_if [refusal_intros]:
  "(b \<Longrightarrow> never_refuses m) \<Longrightarrow> (\<not> b \<Longrightarrow> never_refuses n) \<Longrightarrow> never_refuses (if b then m else n)"
  by simp

lemma never_refuses_library [refusal_intros]:
  "never_refuses sbq_prepare" "never_refuses (sbq_step_row row)" "never_refuses (sbq_step_done sql)"
  "never_refuses sb_uuid_v4" "never_refuses (sb_proxy_clock_wait_ms user epoch)" "never_refuses sbq_begin"
  "never_refuses sbq_commit"
  by (auto simp: never_refuses_def refused_def sbq_prepare_def sbq_step_row_def sbq_step_done_def sb_uuid_v4_def
      sb_proxy_clock_wait_ms_def sbq_begin_def sbq_commit_def sbq_exec_def sbq_fail_def sb_fail_def Let_def
      split: prod.splits if_splits sum.splits option.splits)

lemma never_refuses_state: "(\<And>t. never_refuses (f t)) \<Longrightarrow> never_refuses (\<lambda>s. f s s)"
  by (simp add: never_refuses_def)

lemma never_refuses_sql [refusal_intros]: "never_refuses (sql_first q)" "never_refuses (sql_run sql)"
proof -
  show "never_refuses (sql_first q)"
    unfolding sql_first_def
    by (rule never_refuses_dbind [OF never_refuses_library(1)], rule never_refuses_state, rule never_refuses_library(2))
  show "never_refuses (sql_run sql)" unfolding sql_run_def by (intro refusal_intros)
qed

lemma never_refuses_loop [refusal_intros]:
  "(\<And>r acc. never_refuses (f r acc)) \<Longrightarrow> never_refuses (sql_loop f rs acc)"
  by (induction rs arbitrary: acc) (auto intro!: refusal_intros)

lemma never_refuses_each [refusal_intros]:
  "(\<And>r acc. never_refuses (f r acc)) \<Longrightarrow> never_refuses (sql_each q f acc)"
  unfolding sql_each_def
  by (rule never_refuses_dbind [OF never_refuses_library(1)], rule never_refuses_state, rule never_refuses_loop)

lemma never_refuses_dfor [refusal_intros]: "(\<And>x. never_refuses (f x)) \<Longrightarrow> never_refuses (dfor xs f)"
  by (induction xs) (auto intro!: refusal_intros)

lemma never_refuses_choice [refusal_intros]:
  "never_refuses m \<Longrightarrow> (\<And>x. never_refuses (f x)) \<Longrightarrow> never_refuses (case y of None \<Rightarrow> m | Some x \<Rightarrow> f x)"
  "(\<And>x y. never_refuses (k x y)) \<Longrightarrow> never_refuses (case w of (x, y) \<Rightarrow> k x y)"
  "(\<And>x. never_refuses (g x)) \<Longrightarrow> (\<And>x. never_refuses (h x)) \<Longrightarrow> never_refuses (case z of Inl x \<Rightarrow> g x | Inr x \<Rightarrow> h x)"
  by (simp_all split: option.split prod.split sum.split)

lemma never_refuses_fresh: "never_refuses (exchange_fresh host boot seq hash reports now)"
  unfolding exchange_fresh_def exchange_grants_def lease_user_def lease_locked_def lease_write_def report_locked_def
    runtime_ready_def node_locked_def devices_locked_def Let_def
  by (intro refusal_intros; simp)

text \<open>In step, the body of an exchange finds the session where the request needs it.\<close>

lemma exchange_body_not_refused:
  assumes "case session host boot (tables s) of None \<Rightarrow> seq = 1
     | Some e \<Rightarrow> seq = se_request_seq e + 1 \<or> seq = se_request_seq e \<and> hash = se_request_hash e"
    and run: "exchange_body host boot seq hash reports now s = (Inl e, s')"
  shows "\<not> refused e"
proof -
  have check: "never_refuses (host_check host SB_ERR_AUTH ''Proxy lease host is unknown or disabled'')"
    unfolding host_check_def by (intro refusal_intros; simp)
  obtain r s1 where one: "host_check host SB_ERR_AUTH ''Proxy lease host is unknown or disabled'' s = (r, s1)" by force
  have same: "tables s1 = tables s" using one readonly_checks(4) by (auto simp: readonly_def)
  let ?q = "\<lambda>t. filter (\<lambda>e. se_host e = host \<and> se_boot e = boot) (t_sessions t)"
  obtain row s2 where two: "sql_first ?q s1 = (row, s2)" by force
  have "triple (\<lambda>x. tables x = tables s) (sql_first ?q) (\<lambda>row x. row = session host boot (tables s)) (\<lambda>_. True)"
    by (rule triple_weaken [OF triple_first]) (auto simp: quiet_def session_def find_filter)
  then have row: "x = session host boot (tables s)" if "row = Inr x" for x
    using two that same by (auto simp: triple_def split: prod.splits)
  show ?thesis
  proof (cases r)
    case (Inl f)
    then show ?thesis using run one check by (auto simp: exchange_body_def dbind_def never_refuses_def)
  next
    case ok: (Inr u)
    show ?thesis
    proof (cases row)
      case (Inl f)
      then show ?thesis
        using run one two ok never_refuses_sql(1) [of ?q] by (auto simp: exchange_body_def dbind_def never_refuses_def)
    next
      case (Inr x)
      have "x = session host boot (tables s)" by (rule row [OF Inr])
      then have "exchange_fresh host boot seq hash reports now s2 = (Inl e, s')
          \<or> e = \<lparr>err_code = SB_ERR_GENERIC, err_msg = ''Stored proxy lease snapshot is invalid''\<rparr>"
        using run assms(1) ok Inr
        by (simp add: exchange_body_def dbind_def one two Let_def dfail_def dret_def sb_fail_def
            split: option.splits if_splits sum.splits)
      then show ?thesis
        using never_refuses_fresh [of host boot seq hash reports now]
        by (auto simp: never_refuses_def refused_def sb_fail_def)
    qed
  qed
qed

lemma exchange_not_refused:
  assumes "in_step host rt s" "built_from rt v" "text_ok (Some (SBJ_STRING (rt_boot rt))) 128 True"
  shows "fst (sb_proxy_lease_exchange host (Some (request_json (rt_boot rt) (rt_sequence rt) v)) now s) \<noteq> sequence_error"
proof -
  let ?request = "Some (request_json (rt_boot rt) (rt_sequence rt) v)"
  let ?body = "exchange_body host (rt_boot rt) (rt_sequence rt) (sb_sha256_hex (sbj_dump ?request (- 1)) s)
    (json_items (jget ?request ''reports'')) now"
  have "nul_free (rt_boot rt)"
    using assms(3) by (auto simp: text_ok_def nul_free_def list_all_iff split: if_splits)
  then have members: "member_text ?request ''boot_id'' = rt_boot rt" "body_int ?request ''request_seq'' 0 = rt_sequence rt"
    by (simp_all add: sbj_get_str_def sbj_get_int_def cstr_id)
  have body: "\<not> refused e" if "?body s0 = (Inl e, s1)" "tables s0 = tables s" for s0 e s1
    using exchange_body_not_refused [OF _ that(1)] assms(1,2) that(2)
    by (auto simp: in_step_def built_from_def split: option.splits)
  have "\<not> refused e" if run: "transaction ?body s = (Inl e, s')" for e s'
  proof -
    obtain r s0 where one: "sbq_begin s = (r, s0)" by force
    have "tables s0 = tables s" using one by (auto simp: sbq_begin_def sbq_exec_def next_code_def Let_def split: list.splits if_splits)
    then show ?thesis
      using run one body never_refuses_library(6,7)
      by (fastforce simp: transaction_def dbind_def dret_def never_refuses_def split: sum.splits prod.splits)
  qed
  then show ?thesis
    by (auto simp: sb_proxy_lease_exchange_def Let_def members dfail_def sb_fail_def refused_def
        split: prod.splits) (metis fst_conv prod.collapse)
qed

text \<open>The runtime of the control plane's own host at work: it takes steps, other threads start and stop
  it, and other operations reach the database.\<close>

inductive self_run :: "'b sb_proxy_bridge \<Rightarrow> ('b, self_context) sb_proxy_runtime \<Rightarrow> ('b, self_context) sb_proxy_runtime \<Rightarrow> bool"
  for bridge rt
where
  start: "self_run bridge rt rt"
| step: "self_run bridge rt (snd (sb_proxy_runtime_step bridge self_exchange rt1))" if "self_run bridge rt rt1"
| threads: "self_run bridge rt (rt1\<lparr>rt_operation := held_elsewhere, rt_started := started, rt_stopping := stop, rt_signals := ss\<rparr>)"
  if "self_run bridge rt rt1"
| others: "self_run bridge rt (rt1\<lparr>rt_context := x\<rparr>)"
  if "self_run bridge rt rt1" "meanwhile ''self'' (rt_boot rt1) (sc_database (rt_context rt1)) (sc_database x)"

definition self_ok :: "string \<Rightarrow> ('b, self_context) sb_proxy_runtime \<Rightarrow> bool" where
  "self_ok boot rt \<longleftrightarrow> rt_ok rt \<and> rt_boot rt = boot \<and> reachable (tables (sc_database (rt_context rt)))
     \<and> saved (sc_database (rt_context rt)) = None \<and> in_step ''self'' rt (sc_database (rt_context rt))"

lemma self_run_ok:
  assumes "self_run bridge rt rt'" "self_ok boot rt" "text_ok (Some (SBJ_STRING boot)) 128 True"
  shows "self_ok boot rt'"
  using assms(1)
proof (induction rule: self_run.induct)
  case (step rt1)
  obtain rc err rt2 where run: "sb_proxy_runtime_step bridge self_exchange rt1 = ((rc, err), rt2)" by (metis surj_pair)
  show ?case using self.step_in_step [OF run] step.IH assms(3) by (simp add: self_ok_def run)
next
  case (threads rt1 ss stop started held_elsewhere)
  let ?rt = "rt1\<lparr>rt_operation := held_elsewhere, rt_started := started, rt_stopping := stop, rt_signals := ss\<rparr>"
  have same: "held ?rt = held rt1" "rt_begun ?rt = rt_begun rt1" by (simp_all add: held_def)
  then have "in_step ''self'' ?rt (sc_database (rt_context rt1))" "rt_ok ?rt"
    using threads.IH in_step_held [of _ rt1 _ ?rt] rt_ok_held [OF same(1)] by (simp_all add: self_ok_def)
  then show ?case using threads.IH by (simp add: self_ok_def)
next
  case (others rt1 x)
  let ?rt = "rt1\<lparr>rt_context := x\<rparr>"
  have "in_step ''self'' rt1 (sc_database x)"
    using others.IH in_step_meanwhile [OF _ others.hyps(2)] by (simp add: self_ok_def)
  then have "in_step ''self'' ?rt (sc_database x)" "rt_ok ?rt"
    using others.IH in_step_held [of _ rt1 _ ?rt] rt_ok_held [of ?rt rt1] by (simp_all add: self_ok_def)
  then show ?case using others.IH others.hyps(2) by (simp add: self_ok_def meanwhile_def)
qed (rule assms(2))

text \<open>(C4) The runtime and the server stay in step: from a new boot on, whatever fails, gets lost or is
  interrupted, the session of the server is at the sequence before the runtime's, or at the very
  request the runtime still has pending. So a retry is never refused as out of sequence.\<close>

theorem runtime_in_step:
  assumes "self_run bridge (runtime_init ''self'' boot native b x boottime unix_now) rt"
    and "text_ok (Some (SBJ_STRING boot)) 128 True" "reachable (tables (sc_database x))" "saved (sc_database x) = None"
      "session ''self'' boot (tables (sc_database x)) = None"
  shows "in_step ''self'' rt (sc_database (rt_context rt))
    \<and> (\<forall>p now. rt_pending rt = Some p \<longrightarrow> (\<exists>request. sbj_parse_strict (Some p) = Inr request
        \<and> fst (sb_proxy_lease_exchange ''self'' (Some request) now (sc_database (rt_context rt))) \<noteq> sequence_error))"
proof -
  have "self_ok boot (runtime_init ''self'' boot native b x boottime unix_now)"
    using assms(3-5) by (simp add: self_ok_def runtime_init_def rt_ok_def in_step_def)
  then have ok: "self_ok boot rt" by (rule self_run_ok [OF assms(1) _ assms(2)])
  have "\<exists>request. sbj_parse_strict (Some p) = Inr request
      \<and> fst (sb_proxy_lease_exchange ''self'' (Some request) now (sc_database (rt_context rt))) \<noteq> sequence_error"
    if p: "rt_pending rt = Some p" for p now
  proof -
    from ok p obtain v where v: "built_from rt v" "rt_sequence rt \<le> SAFE_INTEGER" "1 \<le> rt_sequence rt" "rt_boot rt = boot"
      by (auto simp: self_ok_def rt_ok_def)
    have "valid_utf8 boot" using assms(2) by (auto simp: text_ok_def sbj_validate_utf8_def utf8_check_iff split: if_splits)
    then have "storable SBJ_MAX_DEPTH (request_json boot (rt_sequence rt) v)"
      using v by (intro request_storable) (simp_all add: built_from_def in_i64_def SAFE_INTEGER_def)
    then have "sbj_parse_strict (Some p) = Inr (request_json boot (rt_sequence rt) v)"
      using v(1,4) p storable_reads(1) by (simp add: built_from_def)
    then show ?thesis
      using exchange_not_refused [OF _ v(1)] ok assms(2) v(4) by (auto simp: self_ok_def)
  qed
  then show ?thesis using ok by (simp add: self_ok_def)
qed

text \<open>An engine without counters, and a database whose first call fails.\<close>

definition idle_bridge :: "unit sb_proxy_bridge" where
  "idle_bridge = \<lparr>br_begin = (\<lambda>b _. (0, b)), br_apply = (\<lambda>b _. (0, b)), br_stats = (\<lambda>b. (0, Some ''[]'', b)),
     br_acknowledge = (\<lambda>b _. (0, b)), br_stop = (\<lambda>b. b)\<rparr>"

definition idle_runtime :: "(unit, self_context) sb_proxy_runtime" where
  "idle_runtime = runtime_init ''self'' ''a'' False ()
     \<lparr>sc_database = stage\<lparr>codes := [5]\<rparr>, sc_unix = (\<lambda>_. 1000), sc_unix_calls = 0\<rparr> (\<lambda>_. Some (1, 0)) (\<lambda>_. 1000)"

lemma parse_empty: "sbj_parse_strict (Some ''[]'') = Inr (SBJ_ARRAY [])"
proof -
  have "sbj_dump (Some (SBJ_ARRAY [])) (- 1) = ''[]''" by (simp add: sbj_dump_def)
  then show ?thesis using storable_reads(1) [of "SBJ_ARRAY []"] by (simp add: storable_def SBJ_MAX_DEPTH_def)
qed

lemma idle_request: "request_json ''a'' 1 (SBJ_ARRAY []) = stage_request"
  by code_simp

lemma idle_request_short: "length (cstr (sbj_dump (Some stage_request) (- 1))) \<le> SB_PROXY_REQUEST_LIMIT"
proof -
  have "length (sbj_dump (Some stage_request) (- 1)) \<le> SB_PROXY_REQUEST_LIMIT"
    by (simp add: stage_request_def sbj_dump_def dump_newline_def dump_string_escape escape_def dump_esc_def show_int_def
        show_nat.simps SB_PROXY_REQUEST_LIMIT_def)
  moreover have "length (cstr s) \<le> length s" for s by (simp add: cstr_def length_takeWhile_le)
  ultimately show ?thesis using order_trans by blast
qed

text \<open>The first exchange fails, and the request stays pending.\<close>

lemma idle_step:
  "rt_pending (snd (sb_proxy_runtime_step idle_bridge self_exchange idle_runtime)) = Some (sbj_dump (Some stage_request) (- 1))"
proof -
  let ?x = "\<lparr>sc_database = stage\<lparr>codes := [5]\<rparr>, sc_unix = (\<lambda>_. 1000), sc_unix_calls = 0\<rparr>"
  have "fst (self_exchange ?x request) = - 1" for request
    by (simp add: self_exchange_def self_now_def sb_proxy_runtime_report_def sbj_array_def
        sbj_ctor_defs or_null_def sql_run_def sbq_prepare_def next_code_def sbq_fail_def sb_fail_def dbind_def Let_def
        split: sum.split)
  moreover have "reports_valid (Some (SBJ_ARRAY []))" by (simp add: reports_valid_def)
  ultimately show ?thesis
    using idle_request_short
    by (simp add: sb_proxy_runtime_step_def stopping_def pending_request_def step_begin_def request_time_ms_def boot_ms_def
        step_send_def refuse_def outcome_def idle_bridge_def idle_runtime_def runtime_init_def parse_empty idle_request
        SAFE_INTEGER_def SB_PROXY_REQUEST_LIMIT_def Let_def split_beta)
qed

theorem runtime_in_step_witness:
  "\<exists>rt. self_run idle_bridge idle_runtime rt \<and> rt_pending rt = Some (sbj_dump (Some stage_request) (- 1))
     \<and> in_step ''self'' rt (sc_database (rt_context rt))"
proof -
  let ?rt = "snd (sb_proxy_runtime_step idle_bridge self_exchange idle_runtime)"
  have run: "self_run idle_bridge idle_runtime ?rt" by (intro self_run.step self_run.start)
  have "session ''self'' ''a'' (tables stage) = None" by (simp add: session_def)
  then have "in_step ''self'' ?rt (sc_database (rt_context ?rt))"
    using runtime_in_step [OF run [unfolded idle_runtime_def], folded idle_runtime_def] stage_reachable by simp
  then show ?thesis using run idle_step by blast
qed

end
