(* ===== verification/Spec2Isabelle.thy ===== *)
theory Spec2Isabelle
  imports Util_Encoding Json_Roundtrip Renderer_Facts Proxy_Import_Facts Proxy_Runtime_Facts
begin

text \<open>
  A verification library for the C control plane of sb-easy (\<open>c/src\<close>, \<open>c/include/sb\<close>).

  \<^bold>\<open>The program.\<close> The control plane keeps proxy nodes, profiles and devices in a database, imports
  nodes from share links and subscriptions, and renders the sing-box configuration of each device.
  Its parts, from the bottom: string and encoding helpers (\<open>util.c\<close>), a JSON library (\<open>json.c\<close>,
  \<open>json_grisu.inc\<close>), the types the other parts exchange (\<open>types.c\<close>), the import of nodes
  (\<open>proxy_parser.c\<close>: share links, Clash YAML through \<open>libyaml\<close>, subscription bodies, sing-box
  outbounds) and the renderer (\<open>config_renderer.c\<close>). An imported node is a \<open>sb_parsed_node\<close>, is
  stored as a \<open>sb_proxy_node\<close>, and reaches the renderer in a \<open>sb_render_request\<close>. Beside this,
  the control plane lends traffic to ingress nodes: \<open>proxy_users.c\<close> keeps users with a quota, their
  devices and the leases of each node in SQLite (\<open>sqlite_internal.h\<close>, the tables of
  \<open>migrations/018_proxy_users.sql\<close>); \<open>proxy_clock.c\<close> keeps new epochs of a user back until leases of
  the old one have run out. On the node, \<open>proxy_runtime.c\<close> reports what was used and takes the leases
  to the proxy engine.

  \<^bold>\<open>Reading the model.\<close> A C function is the HOL function of the same name; a \<open>struct\<close> is a record
  with prefixed fields, an \<open>enum\<close> a datatype. A function that changes an object returns the object
  changed. \<open>-1\<close> or \<open>NULL\<close> after \<open>sb_fail\<close> is the left summand of \<open>'a res\<close> and carries the error
  code and message. A loop is a recursive function, named after the C function with a suffix.
  Allocation, freeing and buffer growth have no counterpart. \<open>Prelude\<close> has the conventions for
  bytes, C strings and machine integers.

  \<^bold>\<open>The theories.\<close>
  \<^item> \<open>Prelude\<close>: bytes, errors, 64-bit ranges, the locales \<open>codec\<close> and \<open>canonical_codec\<close>.
  \<^item> \<open>Util_Strings\<close>, \<open>Util_Encoding\<close> (\<open>util.c\<close>): comparison, trimming, splitting, base64 in three
    modes, hex and percent encoding. Strict base64 accepts exactly the canonical encodings; percent
    encoding and splitting have inverses.
  \<^item> \<open>Double\<close>: binary64 as bit patterns, correctly rounded conversions.
  \<^item> \<open>Json_Value\<close> (\<open>json.c\<close>): values, accessors, and objects as sorted member arrays searched by
    bisection. The locale \<open>object_map\<close> is the contract of a finite map; the interpretation \<open>obj\<close>
    discharges it for the arrays. \<open>wf_json\<close> is the invariant every operation keeps.
  \<^item> \<open>Json_Grisu\<close>, \<open>Json_Dump\<close>, \<open>Json_Parse\<close>: the serialiser with its float printer, and the parser
    with its strict variant. \<open>Json_Parse_Facts\<close> and \<open>Json_Roundtrip\<close>: the parser consumes input and
    never runs out of fuel; what is printed is parsed back (values without floats, whose digits come
    from Grisu2); what is parsed is well formed; the UTF-8 validators agree; strict parsing is
    parsing followed by validation.
  \<^item> \<open>Types\<close> (\<open>types.c\<close>): nodes and requests, with the JSON round trip of a node. \<open>Net_Addr\<close>:
    \<open>inet_pton\<close> of the C library.
  \<^item> \<open>Renderer\<close>, \<open>Renderer_Facts\<close> (\<open>config_renderer.c\<close>): the whole of
    \<open>sb_config_renderer_render\<close>. Protected routes come first; rules of a script name only known
    outbounds; managed routes and resolvers resolve; the result is a well-formed object without a
    dashboard; outbound tags are distinct for tags without a numeric suffix, and a collision exists
    otherwise.
  \<^item> \<open>Proxy_Uri\<close> (\<open>proxy_parser.c\<close>): share links of six protocols. Every accepted link gives a node
    with a server, a port and its credentials; a Trojan link built from its fields is read back; the
    percent decoder agrees with that of \<open>util.c\<close>.
  \<^item> \<open>Yaml_Bytes\<close>, \<open>Yaml_Fix\<close>, \<open>Yaml_Load\<close>: transcoding (UTF-16 becomes the UTF-8 of RFC 3629, but
    for U+0004) and sanitising before \<open>libyaml\<close>, the
    rewrites of a rejected text, the tree with its aliases and its conversion to JSON. \<open>Yaml_Facts\<close>:
    the node graph denotes the document, the conversion computes it, and its size is bounded however
    aliases are nested.
  \<^item> \<open>Proxy_Import\<close>, \<open>Proxy_Import_Facts\<close>: Clash proxies, subscription bodies and reports, outbound
    import. Every reported node is complete and names no local file; no entry is dropped silently;
    messages do not quote credentials; the import fails exactly as stated.
  \<^item> \<open>Database\<close> (\<open>sqlite_internal.h\<close>): statements and transactions on a connection, with a stream of
    result codes that lets every call fail. \<open>Database_Facts\<close>: assertions for such computations, the
    locale \<open>db_relation\<close> of relations between the connection before and after and its extension
    \<open>db_beside\<close>, and the rule that a failed transaction leaves the tables alone.
  \<^item> \<open>Proxy_Tables\<close>: the rows, keys and constraints of the tables. \<open>Proxy_Clock\<close> (\<open>proxy_clock.c\<close>): the
    monotonic clock a database shares within a process, with its registry. \<open>Proxy_Users\<close>,
    \<open>Proxy_Leases\<close> (\<open>proxy_users.c\<close>): every entry point, statement by statement.
  \<^item> \<open>Proxy_Lease_Facts\<close>: the invariant \<open>db_ok\<close> of the tables, the steps an exchange may take
    (\<open>exchange_step\<close>), and the statements that a successful entry point has run (\<open>op_writes\<close>); the
    reachable tables satisfy the invariant.
  \<^item> \<open>Proxy_Fence\<close>: the locale \<open>fence\<close>, interpreted on the clock; an exchange does not touch the
    grants of a user behind the fence. \<open>Proxy_Grants\<close>: an undisturbed exchange succeeds and serves
    the users; a concrete database reached by the entry points.
  \<^item> \<open>Proxy_Effects\<close>: the specification of every entry point (\<open>op_effect\<close>), the tables row by row and the
    result, and the refinement to it. \<open>Proxy_Promises\<close>: that refinement on the reachable tables, budget,
    epochs, revocation, the answer to a repeated request, and the reset that raises no fence.
  \<^item> \<open>Proxy_Runtime\<close> (\<open>proxy_runtime.c\<close>): the node's side of an exchange, its worker, and the runtime of
    the control plane's own host. \<open>Proxy_Runtime_Facts\<close>: the locale \<open>transport\<close> says what may happen to
    a request on its way; runtime and server session stay in step under it, and \<open>self_exchange\<close> is an
    interpretation.

  \<^bold>\<open>Parameters.\<close> Code outside the repository is an argument of the definitions that use it: the
  OpenSSL base64 decoder (\<open>decode_block\<close>), the event stream and error of \<open>libyaml\<close>, the SHA-256
  digest of fingerprints and the script engine behind route rules. What a property relies on of
  such an argument is a named predicate (\<open>wf_engine\<close>). A database carries what its libraries decide:
  the result codes and messages of SQLite, the readings of the monotonic clock, random bytes and the
  SHA-256 digest. The tables that the properties speak of are \<open>reachable\<close> by any sequence of entry
  points on any connections, where a new user gets an identifier that no user has yet (\<open>fresh_op\<close>);
  nothing is asked of the other random identifiers, whose collisions the tables refuse. With that, the
  properties of the leases hold for all libraries, except that \<open>lease_granted\<close> asks for calls that go
  through, for a readable clock and for as many new identifiers as users are served (\<open>fresh_ids\<close>). Statements are functions on the tables, with the constraints SQLite checks;
  a rollback is taken to succeed. The proxy engine behind the bridge is a record of functions; what other
  threads do to the flags of a runtime comes as a list of signals and as steps in between. A connection holds the database lock during an operation, so
  operations are atomic; other connections come in between them (\<open>goes_on\<close>).

  \<^bold>\<open>Fuel and bounds.\<close> \<open>parse_value\<close> takes the nesting limit of the source (\<open>SBJ_MAX_DEPTH\<close>), and its
  lists take the length of the input, which every step shortens. \<open>yparse_items\<close> takes the number of
  pending events plus one, which each item shortens (\<open>yparse_items_fuel\<close>); \<open>yparse_node\<close> recurses on
  the depth left under \<open>YAML_MAX_DEPTH\<close>, and \<open>yload_rounds\<close> on the number of attempts the source
  allows. \<open>selector_tag_loop\<close> needs no fuel: it terminates because each round makes the name longer
  than before and the outbounds have finitely many tags.
  The \<open>worker\<close> of the runtime runs until it is stopped and is a partial function.

  \<^bold>\<open>Not modelled.\<close> The HTTP server and routes, the other SQLite stores, the agents and the desktop
  clients are mostly input and output around third-party libraries; the manifest lists them.
\<close>

end
